(* ===== verification/Prelude.thy ===== *)
theory Prelude
  imports Complex_Main "HOL-Library.Word" "HOL-Library.AList" "HOL-Library.Char_ord"
    "HOL-Library.List_Lexorder" "HOL-Library.Sublist" "HOL-Library.Multiset"
begin

text \<open>
  The part of JavaScript that the modelled components share.

  A string is a list of code units (\<^typ>\<open>string\<close>), ordered lexicographically by code unit as the
  JavaScript operator \<open><\<close> does (theories Char\_ord and List\_Lexorder). A \<open>Buffer\<close> is a list of
  bytes (\<^typ>\<open>8 word\<close>). A \<open>Map\<close> or \<open>Set\<close> keeps its insertion order, so it is an association list
  or a list (\<open>AList.update\<close> is \<open>Map.prototype.set\<close>, \<open>uniq\<close> is \<open>[...new Set(xs)]\<close>). A function
  that may throw returns a sum whose left summand is the error. The Unicode operations
  \<open>normalize("NFC")\<close> and \<open>toLowerCase()\<close> and the collation \<open>localeCompare\<close> need the Unicode
  tables; definitions that use them take them as arguments, and \<open>latin1_lower\<close> is the exact
  instance for code units below 256, where NFC is the identity.
\<close>

section \<open>Collections of facts\<close>

named_theorems path_simps \<open>rewriting of path strings\<close>
named_theorems buffer_simps \<open>rewriting of buffer reads and writes\<close>
named_theorems result_simps \<open>unfolding of the error monad\<close>

section \<open>Results: a value or a thrown error\<close>

definition rbind :: "'e + 'a \<Rightarrow> ('a \<Rightarrow> 'e + 'b) \<Rightarrow> 'e + 'b" where
  "rbind m f = (case m of Inl e \<Rightarrow> Inl e | Inr x \<Rightarrow> f x)"

definition rassert :: "bool \<Rightarrow> 'e \<Rightarrow> 'e + unit" where
  "rassert b e = (if b then Inr () else Inl e)"

fun rmap :: "('a \<Rightarrow> 'e + 'b) \<Rightarrow> 'a list \<Rightarrow> 'e + 'b list" where
  "rmap f [] = Inr []"
| "rmap f (x # xs) = rbind (f x) (\<lambda>y. rbind (rmap f xs) (\<lambda>ys. Inr (y # ys)))"

section \<open>Numbers\<close>

text \<open>A number is a finite rational (every double is one), an infinity or NaN.\<close>

datatype jsnum = Finite rat | PosInf | NegInf | NaN

text \<open>\<open>Number.isFinite(x) && x > 0 ? Math.floor(x) : d\<close>, with \<open>f\<close> applied to the floor.\<close>

definition floor_or :: "'a \<Rightarrow> (nat \<Rightarrow> 'a) \<Rightarrow> jsnum \<Rightarrow> 'a" where
  "floor_or d f x = (case x of Finite q \<Rightarrow> if q > 0 then f (nat \<lfloor>q\<rfloor>) else d | _ \<Rightarrow> d)"

section \<open>Strings\<close>

fun js_split :: "char \<Rightarrow> string \<Rightarrow> string list" where
  "js_split c [] = [[]]"
| "js_split c (x # xs) =
     (if x = c then [] # js_split c xs
      else (x # hd (js_split c xs)) # tl (js_split c xs))"

fun js_join :: "string \<Rightarrow> string list \<Rightarrow> string" where
  "js_join sep [] = []"
| "js_join sep [x] = x"
| "js_join sep (x # y # ys) = x @ sep @ js_join sep (y # ys)"

definition js_startsWith :: "string \<Rightarrow> string \<Rightarrow> bool" where
  "js_startsWith s p \<longleftrightarrow> take (length p) s = p"

definition js_endsWith :: "string \<Rightarrow> string \<Rightarrow> bool" where
  "js_endsWith s p \<longleftrightarrow> length p \<le> length s \<and> drop (length s - length p) s = p"

fun js_includes :: "string \<Rightarrow> string \<Rightarrow> bool" where
  "js_includes [] p = (p = [])"
| "js_includes (x # xs) p = (js_startsWith (x # xs) p \<or> js_includes xs p)"

definition js_replaceChar :: "char \<Rightarrow> char \<Rightarrow> string \<Rightarrow> string" where
  "js_replaceChar a b s = map (\<lambda>c. if c = a then b else c) s"

text \<open>\<open>s.slice(a, b)\<close> for offsets that are not negative.\<close>

definition js_slice :: "nat \<Rightarrow> nat \<Rightarrow> string \<Rightarrow> string" where
  "js_slice a b s = take (b - a) (drop a s)"

text \<open>Pieces of regular expressions: \<open>\d\<close>, the number a run of digits denotes, and one literal character.\<close>

definition is_digit :: "char \<Rightarrow> bool" where
  "is_digit c \<longleftrightarrow> (let n = of_char c :: nat in 48 \<le> n \<and> n \<le> 57)"

definition digits_value :: "string \<Rightarrow> nat" where
  "digits_value s = foldl (\<lambda>n c. n * 10 + (of_char c - 48)) 0 s"

definition expect :: "char \<Rightarrow> string \<Rightarrow> string option" where
  "expect c s = (case s of x # xs \<Rightarrow> if x = c then Some xs else None | [] \<Rightarrow> None)"

text \<open>The text of a natural number.\<close>

fun decimal_string :: "nat \<Rightarrow> string" where
  "decimal_string n = (if n < 10 then [char_of (48 + n)] else decimal_string (n div 10) @ [char_of (48 + n mod 10)])"

declare decimal_string.simps [simp del]

text \<open>\<open>s.slice(s.lastIndexOf(c) + 1)\<close> and \<open>s.slice(0, s.lastIndexOf(c))\<close> for a \<open>c\<close> that occurs.\<close>

definition after_last :: "char \<Rightarrow> string \<Rightarrow> string" where
  "after_last c s = rev (takeWhile (\<lambda>x. x \<noteq> c) (rev s))"

definition before_last :: "char \<Rightarrow> string \<Rightarrow> string" where
  "before_last c s = rev (tl (dropWhile (\<lambda>x. x \<noteq> c) (rev s)))"

text \<open>Lower case on code units below 256 (Latin-1): A-Z and the accented capitals but the
  multiplication sign.\<close>

definition latin1_lower_char :: "char \<Rightarrow> char" where
  "latin1_lower_char c =
     (let n = of_char c :: nat
      in if 65 \<le> n \<and> n \<le> 90 \<or> 192 \<le> n \<and> n \<le> 222 \<and> n \<noteq> 215 then char_of (n + 32) else c)"

definition latin1_lower :: "string \<Rightarrow> string" where
  "latin1_lower s = map latin1_lower_char s"

section \<open>Sets, maps and sorting in insertion order\<close>

fun uniq :: "'a list \<Rightarrow> 'a list" where
  "uniq [] = []"
| "uniq (x # xs) = x # filter (\<lambda>y. y \<noteq> x) (uniq xs)"

text \<open>\<open>Array.prototype.sort\<close> is stable; the comparator returns a signed number.\<close>

fun js_insert :: "('a \<Rightarrow> 'a \<Rightarrow> int) \<Rightarrow> 'a \<Rightarrow> 'a list \<Rightarrow> 'a list" where
  "js_insert cmp x [] = [x]"
| "js_insert cmp x (y # ys) = (if cmp x y \<le> 0 then x # y # ys else y # js_insert cmp x ys)"

definition js_sort :: "('a \<Rightarrow> 'a \<Rightarrow> int) \<Rightarrow> 'a list \<Rightarrow> 'a list" where
  "js_sort cmp xs = foldr (js_insert cmp) xs []"

section \<open>Buffers\<close>

type_synonym byte = "8 word"
type_synonym buffer = "byte list"

text \<open>\<open>subarray(start, end)\<close>: both ends are clamped to the length.\<close>

definition subarray :: "buffer \<Rightarrow> nat \<Rightarrow> nat \<Rightarrow> buffer" where
  "subarray b s e = take (e - s) (drop s b)"

definition be32 :: "byte \<Rightarrow> byte \<Rightarrow> byte \<Rightarrow> byte \<Rightarrow> nat" where
  "be32 a b c d = ((unat a * 256 + unat b) * 256 + unat c) * 256 + unat d"

text \<open>\<open>writeUInt32BE\<close> of a value below \<open>2 ^ 32\<close> (a larger one is refused by \<open>Buffer\<close>).\<close>

definition bytes32 :: "nat \<Rightarrow> buffer" where
  "bytes32 n = [of_nat (n div 16777216), of_nat (n div 65536), of_nat (n div 256), of_nat n]"

text \<open>\<open>readUInt32BE(offset)\<close>: \<open>None\<close> is the thrown \<open>ERR_OUT_OF_RANGE\<close>.\<close>

definition readUInt32BE :: "buffer \<Rightarrow> nat \<Rightarrow> nat option" where
  "readUInt32BE b i =
     (if i + 4 \<le> length b then Some (be32 (b ! i) (b ! (i + 1)) (b ! (i + 2)) (b ! (i + 3))) else None)"

text \<open>\<open>Buffer.compare\<close>: unsigned lexicographic order.\<close>

fun buffer_compare :: "buffer \<Rightarrow> buffer \<Rightarrow> int" where
  "buffer_compare [] [] = 0"
| "buffer_compare [] (y # ys) = -1"
| "buffer_compare (x # xs) [] = 1"
| "buffer_compare (x # xs) (y # ys) =
     (if x < y then -1 else if y < x then 1 else buffer_compare xs ys)"

section \<open>Lemmas: results\<close>

lemma rbind_simps [simp, result_simps]:
  "rbind (Inl e) f = Inl e" "rbind (Inr x) f = f x"
  by (simp_all add: rbind_def)

lemma rbind_Inr_iff [result_simps]: "rbind m f = Inr y \<longleftrightarrow> (\<exists>x. m = Inr x \<and> f x = Inr y)"
  by (cases m) auto

lemma rbind_Inl_iff [result_simps]:
  "rbind m f = Inl e \<longleftrightarrow> m = Inl e \<or> (\<exists>x. m = Inr x \<and> f x = Inl e)"
  by (cases m) auto

lemma rassert_iff [simp, result_simps]:
  "rassert b e = Inr u \<longleftrightarrow> b" "rassert b e = Inl e' \<longleftrightarrow> \<not> b \<and> e = e'"
  by (auto simp: rassert_def)

lemma rbind_rassert [simp, result_simps]:
  "rbind (rassert b e) f = (if b then f () else Inl e)"
  by (simp add: rassert_def)

lemma rmap_Inr_iff: "rmap f xs = Inr ys \<longleftrightarrow> list_all2 (\<lambda>x y. f x = Inr y) xs ys"
proof (induction xs arbitrary: ys)
  case Nil
  then show ?case by auto
next
  case (Cons x xs)
  then show ?case by (auto simp: rbind_Inr_iff list_all2_Cons1)
qed

lemma rmap_Inr_map: "(\<And>x. x \<in> set xs \<Longrightarrow> f x = Inr (g x)) \<Longrightarrow> rmap f xs = Inr (map g xs)"
  by (induction xs) auto

section \<open>Lemmas: strings\<close>

lemma js_split_not_Nil [simp]: "js_split c s \<noteq> []"
  by (cases s) auto

lemma js_split_code [code]:
  "js_split c [] = [[]]"
  "js_split c (x # xs) =
     (if x = c then [] # js_split c xs else case js_split c xs of [] \<Rightarrow> [] | y # ys \<Rightarrow> (x # y) # ys)"
  by (simp_all split: list.splits)

lemma js_join_Cons: "js_join sep (x # xs) = (if xs = [] then x else x @ sep @ js_join sep xs)"
  by (cases xs) auto

lemma js_join_hd_Cons: "xs \<noteq> [] \<Longrightarrow> js_join sep ((a # hd xs) # tl xs) = a # js_join sep xs"
  by (cases xs) (auto simp: js_join_Cons simp del: js_join.simps)

text \<open>Splitting and joining are inverse.\<close>

lemma js_join_split [simp]: "js_join [c] (js_split c s) = s"
proof (induction s)
  case (Cons x s)
  then show ?case
    using js_join_hd_Cons [of "js_split c s" "[c]" x] by (auto simp: js_join_Cons [of _ "[]"])
qed simp

lemma js_split_free: "c \<notin> set s \<Longrightarrow> js_split c s = [s]"
  by (induction s) auto

lemma js_split_append: "c \<notin> set s \<Longrightarrow> js_split c (s @ c # t) = s # js_split c t"
  by (induction s) auto

lemma js_split_join [simp]:
  "ss \<noteq> [] \<Longrightarrow> (\<And>s. s \<in> set ss \<Longrightarrow> c \<notin> set s) \<Longrightarrow> js_split c (js_join [c] ss) = ss"
proof (induction ss)
  case (Cons s ss)
  then show ?case by (cases ss) (auto simp: js_split_free js_split_append)
qed simp

lemma js_split_segment: "s \<in> set (js_split c t) \<Longrightarrow> c \<notin> set s"
proof (induction t arbitrary: s)
  case (Cons x t)
  have "hd (js_split c t) \<in> set (js_split c t)" by simp
  moreover have "set (tl (js_split c t)) \<subseteq> set (js_split c t)" by (meson list.set_sel(2) js_split_not_Nil subsetI)
  ultimately show ?case using Cons by (auto split: if_splits)
qed simp

lemma js_split_segment_chars: "s \<in> set (js_split c t) \<Longrightarrow> set s \<subseteq> set t"
proof (induction t arbitrary: s)
  case (Cons x t)
  have "hd (js_split c t) \<in> set (js_split c t)" by simp
  then have "set (hd (js_split c t)) \<subseteq> set t" by (rule Cons.IH)
  moreover have "u \<in> set (tl (js_split c t)) \<Longrightarrow> set u \<subseteq> set t" for u
    by (meson Cons.IH list.set_sel(2) js_split_not_Nil)
  ultimately show ?case using Cons.IH [of s] Cons.prems
    by (cases "x = c"; cases "s = x # hd (js_split c t)") auto
qed simp

lemma after_last_append: "c \<notin> set b \<Longrightarrow> after_last c (a @ c # b) = b"
  by (simp add: after_last_def takeWhile_append)

lemma before_after_last:
  assumes "c \<in> set s"
  shows "before_last c s @ c # after_last c s = s"
proof -
  from assms obtain a b where s: "s = a @ c # b" "c \<notin> set b" by (metis split_list_last)
  then have "dropWhile (\<lambda>x. x \<noteq> c) (rev s) = c # rev a" by (simp add: dropWhile_append)
  with s show ?thesis by (simp add: before_last_def after_last_append)
qed

lemma before_last_at: "c \<notin> set b \<Longrightarrow> before_last c (a @ c # b) = a"
  by (simp add: before_last_def dropWhile_append)

lemma js_split_at: "js_split c (a @ c # b) = js_split c a @ js_split c b"
  by (induction a) auto

lemma js_join_at: "xs \<noteq> [] \<Longrightarrow> ys \<noteq> [] \<Longrightarrow> js_join sep (xs @ ys) = js_join sep xs @ sep @ js_join sep ys"
  by (induction xs) (auto simp: js_join_Cons)

lemma js_startsWith_iff: "js_startsWith s p \<longleftrightarrow> (\<exists>t. s = p @ t)"
  unfolding js_startsWith_def by (metis append_eq_conv_conj)

lemma js_startsWith_append [simp]: "js_startsWith (p @ s) p"
  by (simp add: js_startsWith_def)

lemma js_startsWith_trans: "js_startsWith a b \<Longrightarrow> js_startsWith b c \<Longrightarrow> js_startsWith a c"
  by (auto simp: js_startsWith_iff)

lemma js_endsWith_iff: "js_endsWith s p \<longleftrightarrow> (\<exists>t. s = t @ p)"
proof
  assume "js_endsWith s p"
  then show "\<exists>t. s = t @ p" unfolding js_endsWith_def by (metis append_take_drop_id)
qed (auto simp: js_endsWith_def)

lemma js_includes_iff: "js_includes s p \<longleftrightarrow> (\<exists>a b. s = a @ p @ b)"
proof (induction s)
  case (Cons x s)
  show ?case
  proof
    assume "js_includes (x # s) p"
    then consider (start) t where "x # s = p @ t" | (later) a b where "s = a @ p @ b"
      using Cons by (auto simp: js_startsWith_iff)
    then show "\<exists>a b. x # s = a @ p @ b"
    proof cases
      case start
      then show ?thesis by (intro exI [of _ "[]"] exI [of _ t]) simp
    next
      case later
      then show ?thesis by (intro exI [of _ "x # a"] exI [of _ b]) simp
    qed
  next
    assume "\<exists>a b. x # s = a @ p @ b"
    then obtain a b where "x # s = a @ p @ b" by auto
    then have "js_startsWith (x # s) p \<or> (\<exists>a b. s = a @ p @ b)"
      by (cases a) (auto simp: js_startsWith_iff)
    then show "js_includes (x # s) p" using Cons by simp
  qed
qed auto

lemma js_includes_char [simp]: "js_includes s [c] \<longleftrightarrow> c \<in> set s"
  by (auto simp: js_includes_iff in_set_conv_decomp)

section \<open>Lemmas: sets, maps and sorting\<close>

lemma set_uniq [simp]: "set (uniq xs) = set xs"
  by (induction xs) auto

lemma distinct_uniq [simp]: "distinct (uniq xs)"
  by (induction xs) auto

lemma uniq_id: "distinct xs \<Longrightarrow> uniq xs = xs"
  by (induction xs) (auto simp: filter_id_conv)

lemma length_uniq_le: "length (uniq xs) \<le> length xs"
  by (induction xs) (auto intro: order_trans [OF length_filter_le])

lemma uniq_length_distinct: "length (uniq xs) = length xs \<longleftrightarrow> distinct xs"
proof
  assume "length (uniq xs) = length xs"
  then have "card (set xs) = length xs" by (metis distinct_uniq distinct_card set_uniq)
  then show "distinct xs" by (rule card_distinct)
qed (simp add: uniq_id)

lemma mset_js_insert [simp]: "mset (js_insert cmp x xs) = add_mset x (mset xs)"
  by (induction xs) auto

lemma mset_js_sort [simp]: "mset (js_sort cmp xs) = mset xs"
  unfolding js_sort_def by (induction xs) auto

lemma set_js_insert [simp]: "set (js_insert cmp x xs) = insert x (set xs)"
  by (metis mset_js_insert set_mset_add_mset_insert set_mset_mset)

lemma set_js_sort [simp]: "set (js_sort cmp xs) = set xs"
  by (metis mset_js_sort set_mset_mset)

lemma length_js_sort [simp]: "length (js_sort cmp xs) = length xs"
  by (metis mset_js_sort size_mset)

lemma distinct_js_sort [simp]: "distinct (js_sort cmp xs) = distinct xs"
  by (metis mset_js_sort mset_eq_imp_distinct_iff)

lemma js_sort_Nil [simp]: "js_sort cmp [] = []"
  by (simp add: js_sort_def)

lemma sorted_js_insert:
  assumes total: "\<And>x y. cmp x y \<le> 0 \<or> cmp y x \<le> 0"
    and trans: "\<And>x y z. cmp x y \<le> 0 \<Longrightarrow> cmp y z \<le> 0 \<Longrightarrow> cmp x z \<le> 0"
  shows "sorted_wrt (\<lambda>x y. cmp x y \<le> 0) xs \<Longrightarrow> sorted_wrt (\<lambda>x y. cmp x y \<le> 0) (js_insert cmp x xs)"
proof (induction xs)
  case (Cons y ys)
  then show ?case using total [of x y] trans by auto
qed simp

lemma sorted_js_sort:
  assumes "\<And>x y. cmp x y \<le> 0 \<or> cmp y x \<le> 0"
    and "\<And>x y z. cmp x y \<le> 0 \<Longrightarrow> cmp y z \<le> 0 \<Longrightarrow> cmp x z \<le> 0"
  shows "sorted_wrt (\<lambda>x y. cmp x y \<le> 0) (js_sort cmp xs)"
  unfolding js_sort_def
proof (induction xs)
  case (Cons x xs)
  then show ?case using sorted_js_insert [of cmp, OF assms] by simp
qed simp

lemma sorted_key_unique:
  fixes k :: "'a \<Rightarrow> 'b :: linorder"
  assumes "sorted (map k xs)" "sorted (map k ys)" "set xs = set ys" "distinct xs" "distinct ys" "inj_on k (set xs)"
  shows "xs = ys"
proof -
  have "map k xs = map k ys" using assms by (intro sorted_distinct_set_unique) (auto simp: distinct_map)
  with assms show ?thesis by (metis map_inj_on sup.idem)
qed

section \<open>Interfaces\<close>

text \<open>A comparison that respects a key: sorting with it orders by the key, whatever it does with equal keys, and the result is the only
  such list when the keys differ.\<close>

locale ordered_sort =
  fixes cmp :: "'a \<Rightarrow> 'a \<Rightarrow> int" and key :: "'a \<Rightarrow> 'b :: linorder"
  assumes cmp_le: "cmp x y \<le> 0 \<Longrightarrow> key x \<le> key y" and cmp_gt: "\<not> cmp x y \<le> 0 \<Longrightarrow> key y \<le> key x"
begin

lemma sorted_insert: "sorted (map key ys) \<Longrightarrow> sorted (map key (js_insert cmp x ys))"
proof (induction ys)
  case (Cons y ys)
  show ?case
  proof (cases "cmp x y \<le> 0")
    case True
    with Cons.prems cmp_le [OF True] show ?thesis by auto
  next
    case False
    with Cons cmp_gt [OF False] show ?thesis by auto
  qed
qed simp

lemma sorted_by_key: "sorted (map key (js_sort cmp xs))"
  unfolding js_sort_def by (induction xs) (simp_all add: sorted_insert)

lemma sort_unique:
  "sorted (map key ys) \<Longrightarrow> set ys = set xs \<Longrightarrow> distinct ys \<Longrightarrow> distinct xs \<Longrightarrow> inj_on key (set xs) \<Longrightarrow> js_sort cmp xs = ys"
  by (rule sorted_key_unique [of key]) (simp_all add: sorted_by_key)

end

text \<open>An invariant of a transition system.\<close>

locale invariant_system =
  fixes start :: "'s \<Rightarrow> bool" and step :: "'s \<Rightarrow> 's \<Rightarrow> bool" and inv :: "'s \<Rightarrow> bool"
  assumes start_inv: "start s \<Longrightarrow> inv s" and step_inv: "step s t \<Longrightarrow> inv s \<Longrightarrow> inv t"
begin

lemma along: "step\<^sup>*\<^sup>* s t \<Longrightarrow> inv s \<Longrightarrow> inv t"
  by (induction rule: rtranclp_induct) (auto intro: step_inv)

lemma reachable: "start s \<Longrightarrow> step\<^sup>*\<^sup>* s t \<Longrightarrow> inv t"
  by (blast intro: along start_inv)

end

text \<open>A component that reacts to events, run from its initial state: what holds of the events so far and the state.\<close>

inductive event_run :: "'s \<Rightarrow> ('s \<Rightarrow> 'e \<Rightarrow> bool) \<Rightarrow> ('s \<Rightarrow> 'e \<Rightarrow> 's) \<Rightarrow> 'e list \<Rightarrow> 's \<Rightarrow> bool" for init enabled step where
  run_init: "event_run init enabled step [] init"
| run_step: "event_run init enabled step evs s \<Longrightarrow> enabled s ev \<Longrightarrow> event_run init enabled step (evs @ [ev]) (step s ev)"

locale event_machine =
  fixes init :: 's and enabled :: "'s \<Rightarrow> 'e \<Rightarrow> bool" and step :: "'s \<Rightarrow> 'e \<Rightarrow> 's" and inv :: "'e list \<Rightarrow> 's \<Rightarrow> bool"
  assumes inv_init: "inv [] init" and inv_step: "inv evs s \<Longrightarrow> enabled s ev \<Longrightarrow> inv (evs @ [ev]) (step s ev)"
begin

lemma run_inv: "event_run init enabled step evs s \<Longrightarrow> inv evs s"
  by (induction rule: event_run.induct) (auto intro: inv_init inv_step)

end

section \<open>Lemmas: buffers\<close>

lemma length_subarray [buffer_simps]: "length (subarray b s e) = min (e - s) (length b - s)"
  by (simp add: subarray_def)

lemma subarray_append1 [buffer_simps]: "e \<le> length b \<Longrightarrow> subarray (b @ c) s e = subarray b s e"
  by (simp add: subarray_def)

lemma subarray_append2 [buffer_simps]:
  "length b \<le> s \<Longrightarrow> subarray (b @ c) s e = subarray c (s - length b) (e - length b)"
  by (simp add: subarray_def)

lemma subarray_all [buffer_simps]: "length b \<le> e \<Longrightarrow> subarray b 0 e = b"
  by (simp add: subarray_def)

lemma length_bytes32 [simp]: "length (bytes32 n) = 4"
  by (simp add: bytes32_def)

lemma unat_of_nat_byte: "unat (of_nat n :: byte) = n mod 256"
  by (simp add: unat_of_nat)

lemma unat_byte_le: "unat (x :: byte) \<le> 255"
  using unsigned_less [of x, where ?'a = nat] by simp

lemma be32_bytes32: "n < 4294967296 \<Longrightarrow>
    be32 (of_nat (n div 16777216)) (of_nat (n div 65536)) (of_nat (n div 256)) (of_nat n) = n"
proof -
  assume "n < 4294967296"
  then have "n div 16777216 mod 256 = n div 16777216" by simp
  moreover have "n = n div 16777216 * 16777216 + n mod 16777216" by simp
  moreover have "n mod 16777216 = (n div 65536 mod 256) * 65536 + n mod 65536"
    using mod_mult2_eq [of n 65536 256] by simp
  moreover have "n mod 65536 = (n div 256 mod 256) * 256 + n mod 256"
    using mod_mult2_eq [of n 256 256] by simp
  moreover have "n = q * 16777216 + m \<Longrightarrow> m = r * 65536 + u \<Longrightarrow> u = t * 256 + v \<Longrightarrow>
      ((q * 256 + r) * 256 + t) * 256 + v = n" for q m r u t v
    by simp
  ultimately show ?thesis unfolding be32_def unat_of_nat_byte by metis
qed

lemma readUInt32BE_append1 [buffer_simps]:
  "i + 4 \<le> length b \<Longrightarrow> readUInt32BE (b @ c) i = readUInt32BE b i"
  by (simp add: readUInt32BE_def nth_append)

lemma readUInt32BE_append2 [buffer_simps]:
  "length b \<le> i \<Longrightarrow> readUInt32BE (b @ c) i = readUInt32BE c (i - length b)"
  by (auto simp: readUInt32BE_def nth_append Suc_diff_le)

lemma readUInt32BE_bytes32 [buffer_simps]:
  "n < 4294967296 \<Longrightarrow> readUInt32BE (bytes32 n @ c) 0 = Some n"
  using be32_bytes32 [of n] by (simp add: readUInt32BE_def bytes32_def)

lemma readUInt32BE_Some: "i + 4 \<le> length b \<Longrightarrow> \<exists>n. readUInt32BE b i = Some n \<and> n < 4294967296"
proof -
  assume "i + 4 \<le> length b"
  moreover have "be32 a b c d < 4294967296" for a b c d
  proof -
    have "p \<le> 255 \<Longrightarrow> q \<le> 255 \<Longrightarrow> r \<le> 255 \<Longrightarrow> t \<le> 255 \<Longrightarrow>
        ((p * 256 + q) * 256 + r) * 256 + t < 4294967296" for p q r t :: nat
      by simp
    then show ?thesis unfolding be32_def by (simp only: unat_byte_le)
  qed
  ultimately show ?thesis by (simp add: readUInt32BE_def)
qed

lemma buffer_compare_refl [simp]: "buffer_compare x x = 0"
  by (induction x) auto

lemma buffer_compare_0 [simp]: "buffer_compare x y = 0 \<longleftrightarrow> x = y"
  by (induction x y rule: buffer_compare.induct) auto

lemma buffer_compare_swap: "buffer_compare y x = - buffer_compare x y"
  by (induction x y rule: buffer_compare.induct) auto

lemma buffer_compare_trans:
  "buffer_compare x y \<le> 0 \<Longrightarrow> buffer_compare y z \<le> 0 \<Longrightarrow> buffer_compare x z \<le> 0"
proof (induction x y arbitrary: z rule: buffer_compare.induct)
  case (4 x xs y ys)
  then show ?case by (cases z) (auto split: if_splits)
next
  case (1)
  then show ?case by (cases z) auto
next
  case (2 y ys)
  then show ?case by (cases z) auto
next
  case (3 x xs)
  then show ?case by auto
qed

lemma buffer_compare_total: "buffer_compare x y \<le> 0 \<or> buffer_compare y x \<le> 0"
  using buffer_compare_swap [of x y] by linarith

end
