(* ===== verification/Utf8.thy ===== *)
theory Utf8
  imports Prelude
begin

text \<open>
  UTF-8 as the JavaScript library reads and writes it: the strict decoder of \<open>TextDecoder\<close> with \<open>fatal\<close>, the encoder, that each inverts
  the other on the Unicode scalar values, and the decoder of \<open>Buffer.toString\<close>, which replaces what is not well-formed.
\<close>

section \<open>Strict decoding and encoding\<close>

text \<open>The decoder \<open>TextDecoder("utf-8", fatal)\<close>: a sequence that is not well-formed is an error.\<close>

definition is_cont :: "nat \<Rightarrow> bool" where
  "is_cont b \<longleftrightarrow> 128 \<le> b \<and> b < 192"

fun utf8_decode :: "nat list \<Rightarrow> nat list option" where
  "utf8_decode [] = Some []"
| "utf8_decode (a # bs) =
     (if a < 128 then map_option ((#) a) (utf8_decode bs)
      else (case bs of
        b # bs1 \<Rightarrow>
          if 194 \<le> a \<and> a < 224 \<and> is_cont b then map_option ((#) ((a - 192) * 64 + (b - 128))) (utf8_decode bs1)
          else (case bs1 of
            c # bs2 \<Rightarrow>
              if 224 \<le> a \<and> a < 240 \<and> is_cont b \<and> is_cont c \<and> (a = 224 \<longrightarrow> 160 \<le> b) \<and> (a = 237 \<longrightarrow> b < 160)
              then map_option ((#) ((a - 224) * 4096 + (b - 128) * 64 + (c - 128))) (utf8_decode bs2)
              else (case bs2 of
                d # bs3 \<Rightarrow>
                  if 240 \<le> a \<and> a < 245 \<and> is_cont b \<and> is_cont c \<and> is_cont d \<and> (a = 240 \<longrightarrow> 144 \<le> b) \<and> (a = 244 \<longrightarrow> b < 144)
                  then map_option ((#) ((a - 240) * 262144 + (b - 128) * 4096 + (c - 128) * 64 + (d - 128))) (utf8_decode bs3)
                  else None
              | [] \<Rightarrow> None)
          | [] \<Rightarrow> None)
      | [] \<Rightarrow> None))"

definition decode_utf8 :: "buffer \<Rightarrow> nat list option" where
  "decode_utf8 b = utf8_decode (map unat b)"

definition scalar :: "nat \<Rightarrow> bool" where
  "scalar c \<longleftrightarrow> c < 1114112 \<and> \<not> (55296 \<le> c \<and> c < 57344)"

definition utf8_encode :: "nat \<Rightarrow> nat list" where
  "utf8_encode c =
     (if c < 128 then [c]
      else if c < 2048 then [192 + c div 64, 128 + c mod 64]
      else if c < 65536 then [224 + c div 4096, 128 + c div 64 mod 64, 128 + c mod 64]
      else [240 + c div 262144, 128 + c div 4096 mod 64, 128 + c div 64 mod 64, 128 + c mod 64])"

lemma digit64 [simp]: "z < 64 \<Longrightarrow> (n * 64 + z) div 64 = (n::nat)" "z < 64 \<Longrightarrow> (n * 64 + z) mod 64 = z"
  by simp_all

lemma div_4096: "n div 4096 = n div 64 div (64::nat)" "n div 262144 = n div 64 div 64 div (64::nat)"
  by (simp_all add: div_mult2_eq [symmetric])

lemma encode_two: "2 \<le> x \<Longrightarrow> x < 32 \<Longrightarrow> y < 64 \<Longrightarrow> scalar (x * 64 + y) \<and> utf8_encode (x * 64 + y) = [192 + x, 128 + y]"
  by (simp add: scalar_def utf8_encode_def)

lemma encode_three:
  assumes "x < 16" "y < 64" "z < 64" "x = 0 \<longrightarrow> 32 \<le> y" "x = 13 \<longrightarrow> y < 32"
  shows "scalar ((x * 64 + y) * 64 + z) \<and> utf8_encode ((x * 64 + y) * 64 + z) = [224 + x, 128 + y, 128 + z]"
proof -
  define m where "m = x * 64 + y"
  define n where "n = m * 64 + z"
  have d: "n div 64 = m" "n mod 64 = z" "m div 64 = x" "m mod 64 = y"
    unfolding n_def m_def by (simp_all only: digit64 assms)
  have "2048 \<le> n" using assms by (cases "x = 0") (auto simp: m_def n_def)
  moreover have "n < 65536" using assms(1-3) by (auto simp: m_def n_def)
  moreover have "scalar n"
    using assms by (cases "x < 13"; cases "x = 13") (auto simp: scalar_def m_def n_def)
  ultimately show ?thesis unfolding m_def [symmetric] n_def [symmetric] by (simp add: utf8_encode_def div_4096 d)
qed

lemma encode_four:
  assumes "w < 5" "x < 64" "y < 64" "z < 64" "w = 0 \<longrightarrow> 16 \<le> x" "w = 4 \<longrightarrow> x < 16"
  shows "scalar (((w * 64 + x) * 64 + y) * 64 + z) \<and>
    utf8_encode (((w * 64 + x) * 64 + y) * 64 + z) = [240 + w, 128 + x, 128 + y, 128 + z]"
proof -
  define l where "l = w * 64 + x"
  define m where "m = l * 64 + y"
  define n where "n = m * 64 + z"
  have d: "n div 64 = m" "n mod 64 = z" "m div 64 = l" "m mod 64 = y" "l div 64 = w" "l mod 64 = x"
    unfolding n_def m_def l_def by (simp_all only: digit64 assms)
  have "65536 \<le> n" using assms by (cases "w = 0") (auto simp: l_def m_def n_def)
  moreover have "n < 1114112" using assms by (cases "w = 4") (auto simp: l_def m_def n_def)
  ultimately show ?thesis unfolding l_def [symmetric] m_def [symmetric] n_def [symmetric]
    by (simp add: scalar_def utf8_encode_def div_4096 d)
qed

lemma is_cont_obtain: "is_cont b \<Longrightarrow> \<exists>y<64. b = 128 + y"
  by (rule exI [of _ "b - 128"]) (auto simp: is_cont_def)

lemma is_cont_add [simp]: "is_cont (128 + y) \<longleftrightarrow> y < 64"
  by (simp add: is_cont_def)

text \<open>The four forms of a sequence, with the bits it carries.\<close>

lemma utf8_decode_forms:
  "a < 128 \<Longrightarrow> utf8_decode (a # bs) = map_option ((#) a) (utf8_decode bs)"
  "2 \<le> x \<Longrightarrow> x < 32 \<Longrightarrow> y < 64 \<Longrightarrow> utf8_decode ((192 + x) # (128 + y) # bs) = map_option ((#) (x * 64 + y)) (utf8_decode bs)"
  "x < 16 \<Longrightarrow> y < 64 \<Longrightarrow> z < 64 \<Longrightarrow> (x = 0 \<longrightarrow> 32 \<le> y) \<Longrightarrow> (x = 13 \<longrightarrow> y < 32) \<Longrightarrow>
   utf8_decode ((224 + x) # (128 + y) # (128 + z) # bs) = map_option ((#) ((x * 64 + y) * 64 + z)) (utf8_decode bs)"
  "w < 5 \<Longrightarrow> x < 64 \<Longrightarrow> y < 64 \<Longrightarrow> z < 64 \<Longrightarrow> (w = 0 \<longrightarrow> 16 \<le> x) \<Longrightarrow> (w = 4 \<longrightarrow> x < 16) \<Longrightarrow>
   utf8_decode ((240 + w) # (128 + x) # (128 + y) # (128 + z) # bs) = map_option ((#) (((w * 64 + x) * 64 + y) * 64 + z)) (utf8_decode bs)"
  by (simp_all add: add_mult_distrib mult.commute)

lemma utf8_decode_cases:
  assumes "utf8_decode (a # bs) = Some cs"
  obtains "a < 128"
  | x y bs1 where "a = 192 + x" "bs = (128 + y) # bs1" "2 \<le> x" "x < 32" "y < 64"
  | x y z bs1 where "a = 224 + x" "bs = (128 + y) # (128 + z) # bs1" "x < 16" "y < 64" "z < 64" "x = 0 \<longrightarrow> 32 \<le> y" "x = 13 \<longrightarrow> y < 32"
  | w x y z bs1 where "a = 240 + w" "bs = (128 + x) # (128 + y) # (128 + z) # bs1" "w < 5" "x < 64" "y < 64" "z < 64" "w = 0 \<longrightarrow> 16 \<le> x" "w = 4 \<longrightarrow> x < 16"
proof -
  have sub: "n \<le> a \<Longrightarrow> \<exists>x. a = n + x" for n by (rule le_Suc_ex)
  consider "a < 128"
    | b bs1 where "bs = b # bs1" "194 \<le> a" "a < 224" "is_cont b"
    | b c bs1 where "bs = b # c # bs1" "224 \<le> a" "a < 240" "is_cont b" "is_cont c" "a = 224 \<longrightarrow> 160 \<le> b" "a = 237 \<longrightarrow> b < 160"
    | b c d bs1 where "bs = b # c # d # bs1" "240 \<le> a" "a < 245" "is_cont b" "is_cont c" "is_cont d" "a = 240 \<longrightarrow> 144 \<le> b" "a = 244 \<longrightarrow> b < 144"
    using assms by (auto split: if_splits list.splits)
  then show thesis
  proof cases
    case 2
    then show ?thesis using sub [of 192] is_cont_obtain [of b] that(2) by auto
  next
    case 3
    then show ?thesis using sub [of 224] is_cont_obtain [of b] is_cont_obtain [of c] that(3) by auto
  next
    case 4
    then show ?thesis using sub [of 240] is_cont_obtain [of b] is_cont_obtain [of c] is_cont_obtain [of d] that(4) by auto
  qed (use that(1) in blast)
qed

lemma decode_sound: "utf8_decode bs = Some cs \<Longrightarrow> list_all scalar cs \<and> bs = concat (map utf8_encode cs)"
proof (induction "length bs" arbitrary: bs cs rule: less_induct)
  case less
  show ?case
  proof (cases bs)
    case (Cons a bs')
    from less.prems [unfolded Cons] show ?thesis
    proof (cases rule: utf8_decode_cases)
      case 1
      with less.prems less.hyps [of bs'] Cons show ?thesis by (auto simp: utf8_decode_forms(1) scalar_def utf8_encode_def simp del: utf8_decode.simps)
    next
      case (2 x y bs1)
      with less.prems less.hyps [of bs1] Cons encode_two [of x y] show ?thesis by (auto simp: utf8_decode_forms(2) simp del: utf8_decode.simps)
    next
      case (3 x y z bs1)
      with less.prems less.hyps [of bs1] Cons encode_three [of x y z] show ?thesis by (auto simp: utf8_decode_forms(3) simp del: utf8_decode.simps)
    next
      case (4 w x y z bs1)
      with less.prems less.hyps [of bs1] Cons encode_four [of w x y z] show ?thesis by (auto simp: utf8_decode_forms(4) simp del: utf8_decode.simps)
    qed
  qed (use less.prems in simp)
qed

lemma lead_three: "32 \<le> m \<Longrightarrow> m < 1024 \<Longrightarrow> \<not> (864 \<le> m \<and> m < 896) \<Longrightarrow>
  (m div 64 = 0 \<longrightarrow> 32 \<le> m mod 64) \<and> (m div 64 = 13 \<longrightarrow> m mod 64 < 32) \<and> m div 64 < (16::nat)"
  using div_mult_mod_eq [of m 64] mod_less_divisor [of 64 m] by (intro conjI impI) auto

lemma lead_four: "16 \<le> l \<Longrightarrow> l < 272 \<Longrightarrow> (l div 64 = 0 \<longrightarrow> 16 \<le> l mod 64) \<and> (l div 64 = 4 \<longrightarrow> l mod 64 < 16) \<and> l div 64 < (5::nat)"
  using div_mult_mod_eq [of l 64] mod_less_divisor [of 64 l] by (intro conjI impI) auto

lemma decode_encode: "scalar c \<Longrightarrow> utf8_decode (utf8_encode c @ bs) = map_option ((#) c) (utf8_decode bs)"
proof -
  assume c: "scalar c"
  consider "c < 128" | "128 \<le> c" "c < 2048" | "2048 \<le> c" "c < 65536" | "65536 \<le> c" by linarith
  then show ?thesis
  proof cases
    case 2
    then show ?thesis using utf8_decode_forms(2) [of "c div 64" "c mod 64" bs]
      by (simp add: utf8_encode_def div_less_iff_less_mult less_eq_div_iff_mult_less_eq del: utf8_decode.simps)
  next
    case 3
    have "c div 4096 = 0 \<longrightarrow> 32 \<le> c div 64 mod 64" "c div 4096 = 13 \<longrightarrow> c div 64 mod 64 < 32" "c div 4096 < 16"
    proof -
      have "32 \<le> c div 64" "c div 64 < 1024" "\<not> (864 \<le> c div 64 \<and> c div 64 < 896)" using 3 c unfolding scalar_def by linarith+
      then show "c div 4096 = 0 \<longrightarrow> 32 \<le> c div 64 mod 64" "c div 4096 = 13 \<longrightarrow> c div 64 mod 64 < 32" "c div 4096 < 16"
        unfolding div_4096 using lead_three [of "c div 64"] by blast+
    qed
    then show ?thesis using 3 utf8_decode_forms(3) [of "c div 4096" "c div 64 mod 64" "c mod 64" bs]
      by (simp add: utf8_encode_def div_4096 del: utf8_decode.simps)
  next
    case 4
    have "c div 262144 = 0 \<longrightarrow> 16 \<le> c div 4096 mod 64" "c div 262144 = 4 \<longrightarrow> c div 4096 mod 64 < 16" "c div 262144 < 5"
    proof -
      have "16 \<le> c div 64 div 64" "c div 64 div 64 < 272" using 4 c unfolding scalar_def by linarith+
      then show "c div 262144 = 0 \<longrightarrow> 16 \<le> c div 4096 mod 64" "c div 262144 = 4 \<longrightarrow> c div 4096 mod 64 < 16" "c div 262144 < 5"
        unfolding div_4096 using lead_four [of "c div 64 div 64"] by blast+
    qed
    then show ?thesis using 4 utf8_decode_forms(4) [of "c div 262144" "c div 4096 mod 64" "c div 64 mod 64" "c mod 64" bs]
      by (simp add: utf8_encode_def div_4096 del: utf8_decode.simps)
  qed (simp add: utf8_encode_def)
qed

lemma decode_complete: "list_all scalar cs \<Longrightarrow> utf8_decode (concat (map utf8_encode cs)) = Some cs"
  by (induction cs) (auto simp: decode_encode simp del: utf8_decode.simps(2))

section \<open>Decoding with replacement\<close>

text \<open>\<open>Buffer.toString("utf8")\<close>: the longest start of a well-formed sequence, if it cannot be completed, is replaced by U+FFFD, and
  so is a byte that starts none. Results are code points.\<close>

definition continuations :: "nat \<Rightarrow> nat" where
  "continuations a = (if 194 \<le> a \<and> a < 224 then 1 else if 224 \<le> a \<and> a < 240 then 2 else if 240 \<le> a \<and> a < 245 then 3 else 0)"

definition second_ok :: "nat \<Rightarrow> nat \<Rightarrow> bool" where
  "second_ok a b \<longleftrightarrow> is_cont b \<and> (a = 224 \<longrightarrow> 160 \<le> b) \<and> (a = 237 \<longrightarrow> b < 160) \<and> (a = 240 \<longrightarrow> 144 \<le> b) \<and> (a = 244 \<longrightarrow> b < 144)"

definition sequence_start :: "nat \<Rightarrow> nat list \<Rightarrow> nat list" where
  "sequence_start a bs = (case take (continuations a) bs of [] \<Rightarrow> [] | b # r \<Rightarrow> if second_ok a b then b # takeWhile is_cont r else [])"

definition lead_bits :: "nat \<Rightarrow> nat" where
  "lead_bits a = (if a < 224 then a - 192 else if a < 240 then a - 224 else a - 240)"

lemma sequence_start_length [termination_simp]: "length bs - length (sequence_start a bs) < Suc (length bs)"
  by (simp add: less_Suc_eq_le)

fun utf8_points :: "nat list \<Rightarrow> nat list" where
  "utf8_points [] = []"
| "utf8_points (a # bs) =
     (if a < 128 then a # utf8_points bs
      else (let r = sequence_start a bs in
        (if r \<noteq> [] \<and> length r = continuations a then foldl (\<lambda>n b. n * 64 + (b - 128)) (lead_bits a) r else 65533) #
        utf8_points (drop (length r) bs)))"

definition utf8_text :: "buffer \<Rightarrow> nat list" where
  "utf8_text b = utf8_points (map unat b)"

text \<open>\<open>Buffer.from(s, "utf8")\<close> of a sequence of code points.\<close>

definition utf8_buffer :: "nat list \<Rightarrow> buffer" where
  "utf8_buffer cs = map of_nat (concat (map utf8_encode cs))"

lemma utf8_points_decoded: "utf8_decode bs = Some cs \<Longrightarrow> utf8_points bs = cs"
proof (induction "length bs" arbitrary: bs cs rule: less_induct)
  case less
  show ?case
  proof (cases bs)
    case (Cons a bs')
    from less.prems [unfolded Cons] show ?thesis
    proof (cases rule: utf8_decode_cases)
      case 1
      with less.prems less.hyps [of bs'] Cons show ?thesis by (auto simp: utf8_decode_forms(1) simp del: utf8_decode.simps)
    next
      case (2 x y bs1)
      with less.prems less.hyps [of bs1] Cons show ?thesis
        by (auto simp: utf8_decode_forms(2) sequence_start_def continuations_def second_ok_def lead_bits_def Let_def simp del: utf8_decode.simps)
    next
      case (3 x y z bs1)
      with less.prems less.hyps [of bs1] Cons show ?thesis
        by (auto simp: utf8_decode_forms(3) sequence_start_def continuations_def second_ok_def lead_bits_def Let_def numeral_2_eq_2 simp del: utf8_decode.simps)
    next
      case (4 w x y z bs1)
      with less.prems less.hyps [of bs1] Cons show ?thesis
        by (auto simp: utf8_decode_forms(4) sequence_start_def continuations_def second_ok_def lead_bits_def Let_def numeral_3_eq_3 simp del: utf8_decode.simps)
    qed
  qed (use less.prems in simp)
qed

lemma utf8_encode_byte: "scalar c \<Longrightarrow> b \<in> set (utf8_encode c) \<Longrightarrow> b < 256"
  unfolding scalar_def utf8_encode_def by (auto split: if_splits)

lemma utf8_text_buffer: "list_all scalar cs \<Longrightarrow> utf8_text (utf8_buffer cs) = cs"
proof -
  assume s: "list_all scalar cs"
  have "map unat (utf8_buffer cs) = concat (map utf8_encode cs)"
    unfolding utf8_buffer_def map_map by (rule map_idI) (use s in \<open>force simp: list_all_iff unat_of_nat_byte dest: utf8_encode_byte\<close>)
  then show ?thesis unfolding utf8_text_def using utf8_points_decoded [OF decode_complete [OF s]] by simp
qed

end
