(* ===== verification/VaultPaths.thy ===== *)
theory VaultPaths
  imports Utf8
begin

text \<open>
  The rules a vault path obeys. \<^verbatim>\<open>src/shared/pathPolicy.ts\<close>: which paths are canonical and which are synced.
  \<^verbatim>\<open>src/shared/namePortability.cjs\<close>: which paths a platform with restricted names cannot store.
  \<^verbatim>\<open>src/shared/rootIgnore.cjs\<close>: which bytes are an acceptable \<^verbatim>\<open>.gitignore\<close> and which paths may be matched against
  it. \<open>normalize("NFC")\<close> and \<open>toLowerCase\<close> are arguments; the matcher of the package \<open>ignore\<close> is an argument of
  \<open>ignores\<close>. What is decoded from the bytes is a list of code points.
\<close>

section \<open>Path policy\<close>

datatype path_code = Invalid_path | Path_too_long | Excluded_internal_path | Excluded_git_path | Excluded_path

definition is_control :: "char \<Rightarrow> bool" where
  "is_control c \<longleftrightarrow> of_char c < (32::nat) \<or> of_char c = (127::nat)"

definition is_letter :: "char \<Rightarrow> bool" where
  "is_letter c \<longleftrightarrow> (let n = of_char c :: nat in 65 \<le> n \<and> n \<le> 90 \<or> 97 \<le> n \<and> n \<le> 122)"

text \<open>\<open>/^[A-Za-z]:\//\<close>\<close>

fun has_drive :: "string \<Rightarrow> bool" where
  "has_drive (a # b # c # s) \<longleftrightarrow> is_letter a \<and> b = CHR '':'' \<and> c = CHR ''/''"
| "has_drive _ \<longleftrightarrow> False"

definition bad_segment :: "string \<Rightarrow> bool" where
  "bad_segment s \<longleftrightarrow> s = [] \<or> s = ''.'' \<or> s = ''..''"

definition normalizeVaultPath :: "(string \<Rightarrow> string) \<Rightarrow> string \<Rightarrow> path_code + string" where
  "normalizeVaultPath nfc input =
     (if input = [] then Inl Invalid_path
      else let slashPath = nfc (js_replaceChar CHR 0x5C CHR ''/'' input);
               trimmedPrefix = (if js_startsWith slashPath ''./'' then drop 2 slashPath else slashPath)
           in if js_startsWith trimmedPrefix ''/'' \<or> has_drive trimmedPrefix \<or> trimmedPrefix = ''.'' \<or> trimmedPrefix = ''..''
              then Inl Invalid_path
              else if list_ex is_control trimmedPrefix then Inl Invalid_path
              else if length trimmedPrefix > 4096 then Inl Path_too_long
              else let segments = js_split CHR ''/'' trimmedPrefix
                   in if list_ex bad_segment segments then Inl Invalid_path
                      else if segments ! 0 = ''.obts'' then Inl Excluded_internal_path
                      else if ''.git'' \<in> set segments then Inl Excluded_git_path
                      else Inr trimmedPrefix)"

definition isOsOrEditorMetadata :: "string \<Rightarrow> bool" where
  "isOsOrEditorMetadata path =
     (let basename = last (js_split CHR ''/'' path)
      in basename = ''.DS_Store'' \<or> basename = ''Thumbs.db'' \<or> js_endsWith basename ''~'' \<or>
         js_endsWith basename ''.swp'' \<or> js_endsWith basename ''.tmp'')"

definition isSyncableVaultPath :: "(string \<Rightarrow> string) \<Rightarrow> string \<Rightarrow> bool" where
  "isSyncableVaultPath nfc path =
     (case normalizeVaultPath nfc path of
        Inl e \<Rightarrow> False
      | Inr cleanPath \<Rightarrow>
          \<not> isOsOrEditorMetadata cleanPath \<and>
          \<not> (cleanPath = ''.obsidian/workspace.json'' \<or> cleanPath = ''.obsidian/workspace-mobile.json'') \<and>
          \<not> (cleanPath = ''.obsidian/cache'' \<or> js_startsWith cleanPath ''.obsidian/cache/'') \<and>
          \<not> (cleanPath = ''.obsidian/plugins/obts'' \<or> js_startsWith cleanPath ''.obsidian/plugins/obts/''))"

text \<open>The violation that is thrown carries the code and the path.\<close>

fun assertSyncableTreePaths :: "(string \<Rightarrow> string) \<Rightarrow> string list \<Rightarrow> (path_code \<times> string) + unit" where
  "assertSyncableTreePaths nfc [] = Inr ()"
| "assertSyncableTreePaths nfc (path # paths) =
     (case normalizeVaultPath nfc path of
        Inl code \<Rightarrow> Inl (code, path)
      | Inr p \<Rightarrow> if isSyncableVaultPath nfc p then assertSyncableTreePaths nfc paths else Inl (Excluded_path, p))"

section \<open>Portable names\<close>

definition is_reserved :: "char \<Rightarrow> bool" where
  "is_reserved c \<longleftrightarrow> c \<in> {CHR 0x22, CHR ''*'', CHR '':'', CHR ''<'', CHR ''>'', CHR ''?'', CHR 0x5C, CHR ''|''} \<or> is_control c"

definition segmentHasReservedCharacters :: "string \<Rightarrow> bool" where
  "segmentHasReservedCharacters segment \<longleftrightarrow> list_ex is_reserved segment"

definition RESTRICTED_NAME_PLATFORMS :: "string list" where
  "RESTRICTED_NAME_PLATFORMS = [''android'']"

definition isRestrictedNamePlatform :: "string \<Rightarrow> bool" where
  "isRestrictedNamePlatform platform \<longleftrightarrow> platform \<in> set RESTRICTED_NAME_PLATFORMS"

definition foldPathCase :: "(string \<Rightarrow> string) \<Rightarrow> (string \<Rightarrow> string) \<Rightarrow> string \<Rightarrow> string" where
  "foldPathCase nfc lower path = lower (nfc path)"

definition pathPrefixes :: "string \<Rightarrow> string list" where
  "pathPrefixes path =
     (let segments = js_split CHR ''/'' path in map (\<lambda>i. js_join ''/'' (take i segments)) [1..<length segments + 1])"

datatype node_kind = Directory | File
datatype name_reason = Reserved_characters | Case_collision

type_synonym unportable = "string \<times> node_kind \<times> name_reason list"

text \<open>The map \<open>kinds\<close>: setting a key that is there keeps its place.\<close>

definition node_kinds :: "string list \<Rightarrow> string list \<Rightarrow> (string \<times> node_kind) list" where
  "node_kinds files directories =
     fold (\<lambda>p. AList.update p File) (filter (\<lambda>p. p \<noteq> []) files)
       (fold (\<lambda>p. AList.update p Directory) (filter (\<lambda>p. p \<noteq> []) directories) [])"

text \<open>\<open>spellings\<close>: for every folded prefix the set of its spellings, by insertion.\<close>

definition spelled :: "(string \<times> string list) list \<Rightarrow> string \<Rightarrow> string list" where
  "spelled spellings key = (case map_of spellings key of None \<Rightarrow> [] | Some ss \<Rightarrow> ss)"

definition add_spelling :: "(string \<Rightarrow> string) \<Rightarrow> (string \<Rightarrow> string) \<Rightarrow> string \<Rightarrow> (string \<times> string list) list \<Rightarrow> (string \<times> string list) list" where
  "add_spelling nfc lower pfx spellings =
     (let key = foldPathCase nfc lower pfx; ss = spelled spellings key
      in AList.update key (if pfx \<in> set ss then ss else ss @ [pfx]) spellings)"

definition path_spellings :: "(string \<Rightarrow> string) \<Rightarrow> (string \<Rightarrow> string) \<Rightarrow> string list \<Rightarrow> (string \<times> string list) list" where
  "path_spellings nfc lower paths = fold (\<lambda>p. fold (add_spelling nfc lower) (pathPrefixes p)) paths []"

definition collides :: "(string \<Rightarrow> string) \<Rightarrow> (string \<Rightarrow> string) \<Rightarrow> (string \<times> string list) list \<Rightarrow> string \<Rightarrow> bool" where
  "collides nfc lower spellings path \<longleftrightarrow>
     list_ex (\<lambda>pfx. length (spelled spellings (foldPathCase nfc lower pfx)) > 1) (pathPrefixes path)"

definition name_reasons :: "(string \<Rightarrow> string) \<Rightarrow> (string \<Rightarrow> string) \<Rightarrow> (string \<times> string list) list \<Rightarrow> string \<Rightarrow> name_reason list" where
  "name_reasons nfc lower spellings path =
     (if list_ex segmentHasReservedCharacters (js_split CHR ''/'' path) then [Reserved_characters] else []) @
     (if collides nfc lower spellings path then [Case_collision] else [])"

definition compare_path :: "unportable \<Rightarrow> unportable \<Rightarrow> int" where
  "compare_path left right = (if fst left < fst right then -1 else if fst left > fst right then 1 else 0)"

definition findUnportablePaths :: "(string \<Rightarrow> string) \<Rightarrow> (string \<Rightarrow> string) \<Rightarrow> string list \<Rightarrow> string list \<Rightarrow> unportable list" where
  "findUnportablePaths nfc lower files directories =
     (let kinds = node_kinds files directories;
          spellings = path_spellings nfc lower (map fst kinds)
      in js_sort compare_path
           (filter (\<lambda>(p, k, rs). rs \<noteq> []) (map (\<lambda>(p, k). (p, k, name_reasons nfc lower spellings p)) kinds)))"

section \<open>The root ignore policy\<close>

definition MAX_ROOT_IGNORE_BYTES :: nat where
  "MAX_ROOT_IGNORE_BYTES = 1024 * 1024"

datatype ignore_code = Invalid_policy | Policy_too_large | Invalid_policy_encoding | Invalid_policy_nul | Invalid_ignore_path

text \<open>The argument of \<open>createRootIgnorePolicy\<close>: null or undefined, bytes, or anything else.\<close>

datatype policy_input = Absent | Bytes buffer | Other

text \<open>The contents handed to the matcher.\<close>

definition createRootIgnorePolicy :: "policy_input \<Rightarrow> ignore_code + nat list" where
  "createRootIgnorePolicy input =
     (case input of
        Other \<Rightarrow> Inl Invalid_policy
      | Absent \<Rightarrow> Inr []
      | Bytes b \<Rightarrow>
          if length b > MAX_ROOT_IGNORE_BYTES then Inl Policy_too_large
          else (case decode_utf8 b of
                  None \<Rightarrow> Inl Invalid_policy_encoding
                | Some contents \<Rightarrow> if 0 \<in> set contents then Inl Invalid_policy_nul else Inr contents))"

definition ignores :: "(nat list \<Rightarrow> string \<Rightarrow> bool) \<Rightarrow> (string \<Rightarrow> string) \<Rightarrow> nat list \<Rightarrow> string \<Rightarrow> bool \<Rightarrow> ignore_code + bool" where
  "ignores matcher nfc contents path isDirectory =
     (if path = [] \<or> js_startsWith path ''/'' \<or> js_includes path [CHR 0x5C] \<or> js_includes path [CHR 0x00] \<or> js_endsWith path ''/'' \<or>
         list_ex bad_segment (js_split CHR ''/'' path) then Inl Invalid_ignore_path
      else let normalized = nfc path
           in if normalized = ''.gitignore'' then Inr False
              else Inr (matcher contents (normalized @ (if isDirectory then ''/'' else []))))"


section \<open>Canonical paths\<close>

text \<open>What \<open>normalize("NFC")\<close> is documented to do (Unicode Standard Annex 15): it is idempotent, a substring of a
  normalized string is normalized, and no character other than the backslash normalizes to one.\<close>

definition nfc_laws :: "(string \<Rightarrow> string) \<Rightarrow> bool" where
  "nfc_laws nfc \<longleftrightarrow> (\<forall>s. nfc (nfc s) = nfc s) \<and> (\<forall>a b c. nfc (a @ b @ c) = a @ b @ c \<longrightarrow> nfc b = b) \<and>
     (\<forall>s. CHR 0x5C \<in> set (nfc s) \<longrightarrow> CHR 0x5C \<in> set s)"

definition canonical_path :: "(string \<Rightarrow> string) \<Rightarrow> string \<Rightarrow> bool" where
  "canonical_path nfc p \<longleftrightarrow> nfc p = p \<and> CHR 0x5C \<notin> set p \<and> \<not> list_ex is_control p \<and> length p \<le> 4096 \<and> \<not> has_drive p \<and>
     (\<forall>s\<in>set (js_split CHR ''/'' p). s \<noteq> [] \<and> s \<noteq> ''.'' \<and> s \<noteq> ''..'' \<and> s \<noteq> ''.git'') \<and> hd (js_split CHR ''/'' p) \<noteq> ''.obts''"

lemma nfc_laws_id: "nfc_laws (\<lambda>s. s)"
  by (simp add: nfc_laws_def)

lemma hd_split_Nil: "js_startsWith p ''/'' \<Longrightarrow> [] \<in> set (js_split CHR ''/'' p)"
  by (cases p) (auto simp: js_startsWith_def)

lemma split_dot_slash: "js_startsWith p ''./'' \<Longrightarrow> ''.'' \<in> set (js_split CHR ''/'' p)"
proof -
  assume "js_startsWith p ''./''"
  then obtain t where "p = ''.'' @ CHR ''/'' # t" by (auto simp: js_startsWith_iff)
  then show ?thesis using js_split_append [of "CHR ''/''" "''.''" t] by simp
qed

lemma js_split_snoc: "js_split c (t @ [c]) = js_split c t @ [[]]"
  by (induction t) auto

lemma canonical_segments:
  assumes "canonical_path nfc p"
  shows "[] \<notin> set (js_split CHR ''/'' p)" "''.'' \<notin> set (js_split CHR ''/'' p)" "''..'' \<notin> set (js_split CHR ''/'' p)" "''.git'' \<notin> set (js_split CHR ''/'' p)"
  using assms unfolding canonical_path_def by blast+

lemma canonical_not_dots:
  assumes "canonical_path nfc p"
  shows "p \<noteq> []" "p \<noteq> ''.''" "p \<noteq> ''..''"
  using canonical_segments [OF assms] by auto

lemma normalize_canonical_path:
  assumes "canonical_path nfc p"
  shows "normalizeVaultPath nfc p = Inr p"
proof -
  have "CHR 0x5C \<notin> set p" using assms unfolding canonical_path_def by blast
  then have "js_replaceChar CHR 0x5C CHR ''/'' p = p" unfolding js_replaceChar_def by (intro map_idI) (metis (full_types))
  moreover have "\<not> js_startsWith p ''./''" "\<not> js_startsWith p ''/''"
    using canonical_segments [OF assms] split_dot_slash hd_split_Nil by blast+
  moreover have "\<not> list_ex bad_segment (js_split CHR ''/'' p)"
    using canonical_segments [OF assms] by (auto simp: list_ex_iff bad_segment_def)
  moreover have "js_split CHR ''/'' p ! 0 \<noteq> ''.obts''" "nfc p = p" "\<not> list_ex is_control p" "length p \<le> 4096" "\<not> has_drive p"
    using assms by (simp_all add: canonical_path_def hd_conv_nth)
  ultimately show ?thesis using canonical_not_dots [OF assms] canonical_segments [OF assms]
    by (simp add: normalizeVaultPath_def Let_def)
qed

lemma normalize_result_canonical:
  assumes "nfc_laws nfc" and "normalizeVaultPath nfc s = Inr p"
  shows "canonical_path nfc p"
proof -
  define q where "q = nfc (js_replaceChar CHR 0x5C CHR ''/'' s)"
  have p: "p = (if js_startsWith q ''./'' then drop 2 q else q)"
    using assms(2) by (auto simp: normalizeVaultPath_def q_def [symmetric] Let_def split: if_splits)
  have "CHR 0x5C \<notin> set (js_replaceChar CHR 0x5C CHR ''/'' s)" by (auto simp: js_replaceChar_def)
  then have "CHR 0x5C \<notin> set q" "nfc q = q" using assms(1) unfolding q_def nfc_laws_def by blast+
  moreover have "nfc (drop 2 q) = drop 2 q" using assms(1) \<open>nfc q = q\<close> unfolding nfc_laws_def
    by (metis append_Nil2 append_take_drop_id)
  ultimately have "nfc p = p" "CHR 0x5C \<notin> set p" using p by (auto dest: in_set_dropD)
  with assms(2) show ?thesis
    by (auto simp: normalizeVaultPath_def canonical_path_def q_def [symmetric] p [symmetric] bad_segment_def list_ex_iff hd_conv_nth Let_def
        split: if_splits)
qed

lemma isSyncable_normalize:
  assumes "nfc_laws nfc" and "normalizeVaultPath nfc s = Inr p"
  shows "isSyncableVaultPath nfc p = isSyncableVaultPath nfc s"
  using assms(2) normalize_canonical_path [OF normalize_result_canonical [OF assms]] by (simp add: isSyncableVaultPath_def)

text \<open>C34. The path policy accepts as they are exactly the canonical paths: normalized, relative, without backslash or
  control character, of at most 4096 code units, without a drive, an empty or a dot segment, and outside
  \<^verbatim>\<open>.obts\<close> and every \<^verbatim>\<open>.git\<close>. Whatever it returns for another spelling is canonical, so normalizing twice is
  normalizing once.\<close>

theorem normalize_canonical:
  assumes "nfc_laws nfc"
  shows "(normalizeVaultPath nfc p = Inr p \<longleftrightarrow> canonical_path nfc p) \<and>
    (\<forall>s q. normalizeVaultPath nfc s = Inr q \<longrightarrow> canonical_path nfc q \<and> normalizeVaultPath nfc q = Inr q)"
  using normalize_canonical_path normalize_result_canonical [OF assms] by blast

theorem normalize_canonical_witness:
  "normalizeVaultPath (\<lambda>s. s) (''./a'' @ [CHR 0x5C] @ ''b.md'') = Inr ''a/b.md'' \<and> canonical_path (\<lambda>s. s) ''a/b.md'' \<and>
   normalizeVaultPath (\<lambda>s. s) ''a/../b'' = Inl Invalid_path"
proof -
  have "normalizeVaultPath (\<lambda>s. s) (''./a'' @ [CHR 0x5C] @ ''b.md'') = Inr ''a/b.md''" by code_simp
  moreover from this have "canonical_path (\<lambda>s. s) ''a/b.md''" using normalize_canonical [OF nfc_laws_id] by blast
  moreover have "normalizeVaultPath (\<lambda>s. s) ''a/../b'' = Inl Invalid_path" by code_simp
  ultimately show ?thesis by blast
qed

text \<open>A tree is accepted exactly when each of its paths is syncable; a refusal names the first path that is
  not, with the code its normalization gives or as excluded.\<close>

theorem assert_syncable:
  assumes "nfc_laws nfc"
  shows "(assertSyncableTreePaths nfc paths = Inr () \<longleftrightarrow> list_all (isSyncableVaultPath nfc) paths) \<and>
    (\<forall>code q. assertSyncableTreePaths nfc paths = Inl (code, q) \<longrightarrow>
       (\<exists>pre p post. paths = pre @ p # post \<and> list_all (isSyncableVaultPath nfc) pre \<and> \<not> isSyncableVaultPath nfc p \<and>
          (normalizeVaultPath nfc p = Inl code \<and> q = p \<or> normalizeVaultPath nfc p = Inr q \<and> code = Excluded_path)))"
proof (induction paths)
  case (Cons p paths)
  show ?case
  proof (cases "isSyncableVaultPath nfc p")
    case True
    then obtain q where "normalizeVaultPath nfc p = Inr q" by (auto simp: isSyncableVaultPath_def split: sum.splits)
    with True have "assertSyncableTreePaths nfc (p # paths) = assertSyncableTreePaths nfc paths"
      using isSyncable_normalize [OF assms] by simp
    moreover have "\<exists>pre' p' post. p # paths = pre' @ p' # post \<and> list_all (isSyncableVaultPath nfc) pre' \<and> R p'"
      if "\<exists>pre p post. paths = pre @ p # post \<and> list_all (isSyncableVaultPath nfc) pre \<and> R p" for R
      using that True by (metis append_Cons list.pred_inject(2))
    ultimately show ?thesis using Cons.IH True by simp
  next
    case False
    then have "assertSyncableTreePaths nfc (p # paths) =
        Inl (case normalizeVaultPath nfc p of Inl code \<Rightarrow> (code, p) | Inr q \<Rightarrow> (Excluded_path, q))"
      using isSyncable_normalize [OF assms, of p] by (auto split: sum.splits)
    then show ?thesis using False
      by (intro conjI allI impI exI [of _ "[]"] exI [of _ p] exI [of _ paths]) (auto split: sum.splits)
  qed
qed simp

theorem assert_syncable_witness:
  "assertSyncableTreePaths (\<lambda>s. s) [''a.md'', ''b.tmp'', ''.git/x''] = Inl (Excluded_path, ''b.tmp'') \<and>
   \<not> list_all (isSyncableVaultPath (\<lambda>s. s)) [''a.md'', ''b.tmp'', ''.git/x'']"
proof -
  have "assertSyncableTreePaths (\<lambda>s. s) [''a.md'', ''b.tmp'', ''.git/x''] = Inl (Excluded_path, ''b.tmp'')" by code_simp
  with assert_syncable [OF nfc_laws_id, of "[''a.md'', ''b.tmp'', ''.git/x'']"] show ?thesis by auto
qed


section \<open>Unportable paths\<close>

definition path_nodes :: "string list \<Rightarrow> string list \<Rightarrow> string set" where
  "path_nodes files directories = {p \<in> set files \<union> set directories. p \<noteq> []}"

lemma fold_update_distinct: "distinct (map fst al) \<Longrightarrow> distinct (map fst (fold (\<lambda>p. AList.update p k) ps al))"
  by (induction ps arbitrary: al) (auto intro: distinct_update)

lemma fold_update_map_of: "map_of (fold (\<lambda>p. AList.update p k) ps al) q = (if q \<in> set ps then Some k else map_of al q)"
  by (induction ps arbitrary: al) (auto simp: update_conv')

lemma node_kinds_distinct: "distinct (map fst (node_kinds files directories))"
  unfolding node_kinds_def by (intro fold_update_distinct) simp

lemma node_kinds_map_of:
  "map_of (node_kinds files directories) p =
     (if p = [] then None else if p \<in> set files then Some File else if p \<in> set directories then Some Directory else None)"
  by (simp add: node_kinds_def fold_update_map_of)

lemma node_kinds_paths: "set (map fst (node_kinds files directories)) = path_nodes files directories"
proof -
  have "dom (map_of (node_kinds files directories)) = path_nodes files directories"
    by (auto simp: dom_def node_kinds_map_of path_nodes_def)
  then show ?thesis by (simp add: dom_map_of_conv_image_fst)
qed

text \<open>The spellings collected for the prefixes \<open>S\<close>.\<close>

definition spells :: "(string \<Rightarrow> string) \<Rightarrow> string set \<Rightarrow> (string \<times> string list) list \<Rightarrow> bool" where
  "spells F S sp \<longleftrightarrow> (\<forall>k. distinct (spelled sp k) \<and> set (spelled sp k) = {x\<in>S. F x = k})"

lemma spelled_add:
  "spelled (add_spelling nfc lower x sp) k =
     (if k = foldPathCase nfc lower x \<and> x \<notin> set (spelled sp k) then spelled sp k @ [x] else spelled sp k)"
  by (auto simp: spelled_def add_spelling_def update_conv' Let_def split: option.splits)

lemma add_spelling_spells:
  assumes "spells (foldPathCase nfc lower) S sp"
  shows "spells (foldPathCase nfc lower) (insert x S) (add_spelling nfc lower x sp)"
proof -
  have "distinct (spelled sp k)" "set (spelled sp k) = {y\<in>S. foldPathCase nfc lower y = k}" for k
    using assms by (auto simp: spells_def)
  then show ?thesis by (auto simp: spells_def spelled_add)
qed

lemma fold_add_spelling_spells:
  "spells (foldPathCase nfc lower) S sp \<Longrightarrow> spells (foldPathCase nfc lower) (S \<union> set xs) (fold (add_spelling nfc lower) xs sp)"
proof (induction xs arbitrary: S sp)
  case (Cons x xs)
  from Cons.IH [OF add_spelling_spells [OF Cons.prems, of x]] show ?case by simp
qed simp

lemma path_spellings_spells:
  "spells (foldPathCase nfc lower) (\<Union>p\<in>set ps. set (pathPrefixes p)) (path_spellings nfc lower ps)"
proof -
  have "spells (foldPathCase nfc lower) (S \<union> (\<Union>p\<in>set ps. set (pathPrefixes p)))
      (fold (\<lambda>p. fold (add_spelling nfc lower) (pathPrefixes p)) ps sp)"
    if "spells (foldPathCase nfc lower) S sp" for S sp
    using that
  proof (induction ps arbitrary: S sp)
    case (Cons p ps)
    from Cons.IH [OF fold_add_spelling_spells [OF Cons.prems]] show ?case by (simp add: Un_assoc)
  qed simp
  from this [of "{}" "[]"] show ?thesis by (simp add: path_spellings_def spells_def spelled_def)
qed

lemma distinct_more_than_one:
  assumes "distinct ss" and "x \<in> set ss"
  shows "1 < length ss \<longleftrightarrow> (\<exists>y\<in>set ss. y \<noteq> x)"
proof
  assume "1 < length ss"
  then have "\<not> set ss \<subseteq> {x}" using card_mono [of "{x}" "set ss"] distinct_card [OF assms(1)] by auto
  then show "\<exists>y\<in>set ss. y \<noteq> x" by blast
next
  assume "\<exists>y\<in>set ss. y \<noteq> x"
  then obtain y where "{x, y} \<subseteq> set ss" "y \<noteq> x" using assms(2) by blast
  then show "1 < length ss" using card_mono [of "set ss" "{x, y}"] distinct_card [OF assms(1)] by auto
qed

text \<open>The specification: a path of the vault cannot be stored when a character of it is reserved, or when a prefix of
  it and another spelling of a node differ only in case.\<close>

definition has_collision :: "(string \<Rightarrow> string) \<Rightarrow> string set \<Rightarrow> string \<Rightarrow> bool" where
  "has_collision F nodes p \<longleftrightarrow> (\<exists>x\<in>set (pathPrefixes p). \<exists>q\<in>nodes. \<exists>y\<in>set (pathPrefixes q). y \<noteq> x \<and> F y = F x)"

definition has_reserved :: "string \<Rightarrow> bool" where
  "has_reserved p \<longleftrightarrow> (\<exists>s\<in>set (js_split CHR ''/'' p). \<exists>c\<in>set s. is_reserved c)"

lemma collides_iff:
  assumes "p \<in> set ps"
  shows "collides nfc lower (path_spellings nfc lower ps) p \<longleftrightarrow> has_collision (foldPathCase nfc lower) (set ps) p"
proof -
  let ?F = "foldPathCase nfc lower" and ?S = "\<Union>p\<in>set ps. set (pathPrefixes p)"
  note sp = path_spellings_spells [of nfc lower ps, unfolded spells_def, rule_format]
  have "1 < length (spelled (path_spellings nfc lower ps) (?F x)) \<longleftrightarrow> (\<exists>y\<in>?S. y \<noteq> x \<and> ?F y = ?F x)" if "x \<in> set (pathPrefixes p)" for x
    using sp [of "?F x"] distinct_more_than_one [of "spelled (path_spellings nfc lower ps) (?F x)" x] that assms by auto
  then show ?thesis unfolding collides_def list_ex_iff has_collision_def by blast
qed

lemma compare_path_le: "compare_path x y \<le> 0 \<longleftrightarrow> fst x \<le> fst y"
  by (auto simp: compare_path_def)

interpretation path_order: ordered_sort compare_path fst
  by unfold_locales (auto simp: compare_path_le)

lemmas js_sort_paths = path_order.sorted_by_key

text \<open>\<open>findUnportablePaths\<close> lists, in the order of code units and each once, exactly the files and directories
  with a reserved character or a prefix that collides with another spelling, with the kind of the node and exactly
  the reasons that apply. In particular the result does not depend on the order or multiplicity of the arguments.\<close>

theorem unportable_spec:
  "findUnportablePaths nfc lower files directories =
     map (\<lambda>p. (p, if p \<in> set files then File else Directory,
         (if has_reserved p then [Reserved_characters] else []) @
         (if has_collision (foldPathCase nfc lower) (path_nodes files directories) p then [Case_collision] else [])))
       (sorted_list_of_set {p \<in> path_nodes files directories. has_reserved p \<or> has_collision (foldPathCase nfc lower) (path_nodes files directories) p})"
proof -
  define kinds where "kinds = node_kinds files directories"
  define N where "N = path_nodes files directories"
  define rs where "rs p = (if has_reserved p then [Reserved_characters] else []) @
    (if has_collision (foldPathCase nfc lower) N p then [Case_collision] else [])" for p
  let ?g = "\<lambda>p. (p, if p \<in> set files then File else Directory, rs p)"
  have N: "set (map fst kinds) = N" by (simp only: kinds_def N_def node_kinds_paths)
  have reasons: "name_reasons nfc lower (path_spellings nfc lower (map fst kinds)) p = rs p" if "p \<in> N" for p
    using collides_iff [of p "map fst kinds" nfc lower] that N
    by (simp add: name_reasons_def rs_def segmentHasReservedCharacters_def list_ex_iff has_reserved_def)
  have kind: "k = (if p \<in> set files then File else Directory)" if "(p, k) \<in> set kinds" for p k
    using map_of_is_SomeI [OF node_kinds_distinct that [unfolded kinds_def]] by (auto simp: node_kinds_map_of split: if_splits)
  define found where "found = filter (\<lambda>(p, k, r). r \<noteq> []) (map (\<lambda>(p, k). (p, k, name_reasons nfc lower (path_spellings nfc lower (map fst kinds)) p)) kinds)"
  have found: "found = map ?g (filter (\<lambda>p. rs p \<noteq> []) (map fst kinds))"
  proof -
    have "map (\<lambda>(p, k). (p, k, name_reasons nfc lower (path_spellings nfc lower (map fst kinds)) p)) kinds = map ?g (map fst kinds)"
    proof (unfold map_map, intro map_cong refl, clarify)
      fix p k assume "(p, k) \<in> set kinds"
      moreover from this have "p \<in> N" using N by force
      ultimately show "(p, k, name_reasons nfc lower (path_spellings nfc lower (map fst kinds)) p) = (?g \<circ> fst) (p, k)"
        using kind reasons by simp
    qed
    then show ?thesis by (simp only: found_def filter_map o_def case_prod_conv)
  qed
  let ?out = "js_sort compare_path found"
  have "?out = map ?g (map fst ?out)"
    unfolding map_map o_def by (intro map_idI [symmetric]) (auto simp: found)
  moreover have "map fst ?out = sorted_list_of_set {p \<in> N. rs p \<noteq> []}"
  proof (rule sorted_distinct_set_unique)
    have "mset (map fst ?out) = mset (map fst found)" by simp
    moreover have "distinct (map fst found)" using node_kinds_distinct by (simp add: found kinds_def o_def distinct_map)
    ultimately show "distinct (map fst ?out)" by (metis mset_eq_imp_distinct_iff)
    have "finite N" by (simp add: N [symmetric])
    then show "set (map fst ?out) = set (sorted_list_of_set {p \<in> N. rs p \<noteq> []})" using N by (force simp: found)
  qed (use js_sort_paths in auto)
  moreover have "{p \<in> N. rs p \<noteq> []} = {p \<in> N. has_reserved p \<or> has_collision (foldPathCase nfc lower) N p}" by (auto simp: rs_def)
  ultimately show ?thesis
    unfolding findUnportablePaths_def Let_def kinds_def [symmetric] found_def [symmetric] N_def [symmetric] rs_def [symmetric] by simp
qed


section \<open>Decoding the ignore file\<close>

text \<open>The ignore policy is created from bytes exactly when they are at most one MiB and the UTF-8 encoding of a
  sequence of Unicode scalar values without the zero character, and the matcher is then given exactly that sequence;
  no byte sequence has two readings. An absent file is the empty policy and any other value is refused.\<close>

theorem root_ignore_accepts:
  "(createRootIgnorePolicy (Bytes b) = Inr contents \<longleftrightarrow>
     length b \<le> 1048576 \<and> list_all scalar contents \<and> 0 \<notin> set contents \<and> map unat b = concat (map utf8_encode contents)) \<and>
   createRootIgnorePolicy Absent = Inr [] \<and> createRootIgnorePolicy Other = Inl Invalid_policy"
proof -
  have "decode_utf8 b = Some contents \<longleftrightarrow> list_all scalar contents \<and> map unat b = concat (map utf8_encode contents)"
    unfolding decode_utf8_def using decode_sound decode_complete by metis
  then show ?thesis
    by (auto simp: createRootIgnorePolicy_def MAX_ROOT_IGNORE_BYTES_def split: option.splits)
qed

text \<open>A path the path policy returned is always an acceptable argument of the ignore policy: it is matched as it
  is, with a slash appended for a directory, and the root ignore file itself is never ignored.\<close>

theorem canonical_ignorable:
  assumes "nfc_laws nfc" and "normalizeVaultPath nfc s = Inr p"
  shows "ignores matcher nfc contents p isDirectory =
    Inr (p \<noteq> ''.gitignore'' \<and> matcher contents (p @ (if isDirectory then ''/'' else [])))"
proof -
  have c: "canonical_path nfc p" by (rule normalize_result_canonical [OF assms])
  note seg = canonical_segments [OF c]
  have "\<not> js_endsWith p ''/''"
  proof
    assume "js_endsWith p ''/''"
    then obtain t where "p = t @ ''/''" by (auto simp: js_endsWith_iff)
    then show False using seg(1) by (simp add: js_split_snoc)
  qed
  moreover have "\<not> js_startsWith p ''/''" using seg(1) hd_split_Nil by blast
  moreover have "\<not> list_ex bad_segment (js_split CHR ''/'' p)" using seg by (auto simp: list_ex_iff bad_segment_def)
  moreover have "CHR 0x00 \<notin> set p" "CHR 0x5C \<notin> set p" "nfc p = p"
    using c by (auto simp: canonical_path_def list_ex_iff is_control_def)
  ultimately show ?thesis using canonical_not_dots(1) [OF c] by (simp add: ignores_def Let_def)
qed

theorem canonical_ignorable_witness:
  "ignores (\<lambda>_ _. True) (\<lambda>s. s) [] ''a/b.md'' False = Inr True \<and> ignores (\<lambda>_ _. True) (\<lambda>s. s) [] ''.gitignore'' False = Inr False"
proof -
  have "normalizeVaultPath (\<lambda>s. s) ''./a/b.md'' = Inr ''a/b.md''" "normalizeVaultPath (\<lambda>s. s) ''.gitignore'' = Inr ''.gitignore''"
    by code_simp+
  then show ?thesis using canonical_ignorable [OF nfc_laws_id, of _ _ "\<lambda>_ _. True" "[]" False] by auto
qed

end
