(* ===== verification/SyncPlanning.thy ===== *)
theory SyncPlanning
  imports VaultPaths
begin

text \<open>
  The planning functions of the sync client in \<^verbatim>\<open>obsidian-plugin/src/main.cjs\<close>: which paths the plugin syncs, which local files
  stand in the way of a target, the topmost of a set of directories, the order in which removals are safe, the index of paths that
  finds everything that overlaps a path, and the compaction of pending directory intents. \<open>localeCompare\<close> is an argument and
  nothing is asked of it. Shown: the plugin syncs exactly what the server accepts (\<open>plugin_paths_agree\<close>), the index agrees with a
  scan (\<open>overlap_scan\<close>), removals are planned completely and children first (\<open>removal_batches_safe\<close>), and compaction keeps for
  each path the last intent that touches it (\<open>compact_last_intent\<close>).
\<close>

section \<open>Paths\<close>

text \<open>\<open>path.startsWith(`${parent}/`)\<close>\<close>

definition below :: "string \<Rightarrow> string \<Rightarrow> bool" where
  "below parent path \<longleftrightarrow> js_startsWith path (parent @ ''/'')"

definition changedPathsConflict :: "string \<Rightarrow> string \<Rightarrow> bool" where
  "changedPathsConflict left right \<longleftrightarrow> left = right \<or> below right left \<or> below left right"

definition plugin_normalizePath :: "(string \<Rightarrow> string) \<Rightarrow> string \<Rightarrow> string" where
  "plugin_normalizePath nfc filePath = nfc (dropWhile (\<lambda>c. c = CHR ''/'') (js_replaceChar CHR 0x5C CHR ''/'' filePath))"

definition plugin_isValidVaultPath :: "string \<Rightarrow> bool" where
  "plugin_isValidVaultPath filePath =
     (if filePath = [] \<or> js_startsWith filePath ''../'' \<or> js_startsWith filePath ''/'' \<or> has_drive filePath then False
      else if list_ex is_control filePath \<or> length filePath > 4096 then False
      else let segments = js_split CHR ''/'' filePath in
        if list_ex bad_segment segments then False
        else segments ! 0 \<noteq> ''.obts'' \<and> ''.git'' \<notin> set segments)"

definition plugin_isSyncableVaultPath :: "(string \<Rightarrow> string) \<Rightarrow> string \<Rightarrow> bool" where
  "plugin_isSyncableVaultPath nfc filePath =
     (let normalized = plugin_normalizePath nfc filePath in
      if \<not> plugin_isValidVaultPath normalized then False
      else if isOsOrEditorMetadata normalized then False
      else if normalized = ''.obsidian/workspace.json'' \<or> normalized = ''.obsidian/workspace-mobile.json'' then False
      else if normalized = ''.obsidian/cache'' \<or> js_startsWith normalized ''.obsidian/cache/'' then False
      else if normalized = ''.obsidian/plugins/obts'' \<or> js_startsWith normalized ''.obsidian/plugins/obts/'' then False
      else True)"

section \<open>Files and directories\<close>

definition directoryPrefixes :: "string \<Rightarrow> string list" where
  "directoryPrefixes filePath =
     (let segments = js_split CHR ''/'' filePath in map (\<lambda>index. js_join ''/'' (take index segments)) [1..<length segments])"

definition materializationConflictFiles :: "string list \<Rightarrow> string list \<Rightarrow> string list" where
  "materializationConflictFiles targetFiles localVaultFiles =
     sort (uniq (concat (map (\<lambda>targetFile. filter (below targetFile) localVaultFiles @
       filter (\<lambda>pre. pre \<in> set localVaultFiles) (directoryPrefixes targetFile)) targetFiles)))"

definition explicitEmptyDirectories :: "string list \<Rightarrow> string list \<Rightarrow> string list" where
  "explicitEmptyDirectories directories files =
     sort (filter (\<lambda>directory. \<not> list_ex (below directory) files) directories)"

definition compare_shortest :: "(string \<Rightarrow> string \<Rightarrow> int) \<Rightarrow> string \<Rightarrow> string \<Rightarrow> int" where
  "compare_shortest localeCompare left right =
     (if length left \<noteq> length right then int (length left) - int (length right) else localeCompare left right)"

definition add_topmost :: "string list \<Rightarrow> string \<Rightarrow> string list" where
  "add_topmost result directory =
     (if list_ex (\<lambda>parent. directory = parent \<or> below parent directory) result then result else result @ [directory])"

definition topmostDirectories :: "(string \<Rightarrow> string \<Rightarrow> int) \<Rightarrow> string list \<Rightarrow> string list" where
  "topmostDirectories localeCompare directories =
     foldl add_topmost [] (js_sort (compare_shortest localeCompare) (uniq directories))"

section \<open>Removals\<close>

definition compareDeepestPathFirst :: "(string \<Rightarrow> string \<Rightarrow> int) \<Rightarrow> string \<Rightarrow> string \<Rightarrow> int" where
  "compareDeepestPathFirst localeCompare left right =
     (let depthDifference = int (length (js_split CHR ''/'' right)) - int (length (js_split CHR ''/'' left)) in
      if depthDifference \<noteq> 0 then depthDifference else localeCompare left right)"

definition removal_batch :: "(string \<Rightarrow> string \<Rightarrow> int) \<Rightarrow> string list \<Rightarrow> string list" where
  "removal_batch localeCompare remaining =
     js_sort (compareDeepestPathFirst localeCompare)
       (filter (\<lambda>candidate. \<not> list_ex (\<lambda>other. other \<noteq> candidate \<and> below candidate other) remaining) remaining)"

text \<open>The loop over the set of the remaining paths; \<open>None\<close> is the error it throws.\<close>

function removal_loop :: "(string \<Rightarrow> string \<Rightarrow> int) \<Rightarrow> string list \<Rightarrow> string list list option" where
  "removal_loop localeCompare remaining =
     (if remaining = [] then Some []
      else let batch = removal_batch localeCompare remaining in
        if batch = [] then None
        else map_option ((#) batch) (removal_loop localeCompare (filter (\<lambda>p. p \<notin> set batch) remaining)))"
  by pat_completeness auto
termination
proof (relation "measure (\<lambda>(localeCompare, remaining). length remaining)")
  fix localeCompare :: "string \<Rightarrow> string \<Rightarrow> int" and remaining batch
  assume "remaining \<noteq> []" and "batch = removal_batch localeCompare remaining" and "batch \<noteq> []"
  moreover have "set (removal_batch localeCompare remaining) \<subseteq> set remaining" by (auto simp: removal_batch_def)
  ultimately have "set batch \<subseteq> set remaining" "hd batch \<in> set batch" by simp_all
  then obtain p where "p \<in> set remaining" "p \<in> set batch" by blast
  then show "((localeCompare, filter (\<lambda>p. p \<notin> set batch) remaining), (localeCompare, remaining)) \<in> measure (\<lambda>(localeCompare, remaining). length remaining)"
    by (auto intro!: length_filter_less)
qed simp

declare removal_loop.simps [simp del]

definition dependencySafeRemovalBatches :: "(string \<Rightarrow> string \<Rightarrow> int) \<Rightarrow> string list \<Rightarrow> string list list option" where
  "dependencySafeRemovalBatches localeCompare paths = removal_loop localeCompare (uniq paths)"

section \<open>The index of paths\<close>

text \<open>\<open>byPath\<close>: the values of each path, in order.\<close>

definition group_entry :: "string \<times> 'v \<Rightarrow> (string \<times> 'v list) list \<Rightarrow> (string \<times> 'v list) list" where
  "group_entry e byPath =
     (let vs = (case map_of byPath (fst e) of None \<Rightarrow> [] | Some vs \<Rightarrow> vs) in AList.update (fst e) (vs @ [snd e]) byPath)"

definition group_paths :: "(string \<times> 'v) list \<Rightarrow> (string \<times> 'v list) list" where
  "group_paths entries = fold group_entry entries []"

text \<open>The binary search for the first key that is not less than the prefix.\<close>

function lower_bound :: "string list \<Rightarrow> string \<Rightarrow> nat \<Rightarrow> nat \<Rightarrow> nat" where
  "lower_bound keys pre lo hi =
     (if lo < hi then let mid = (lo + hi) div 2 in
        if keys ! mid < pre then lower_bound keys pre (mid + 1) hi else lower_bound keys pre lo mid
      else lo)"
  by pat_completeness auto
termination
  by (relation "measure (\<lambda>(keys, pre, lo, hi). hi - lo)") auto

declare lower_bound.simps [simp del]

definition values_at :: "(string \<times> 'v list) list \<Rightarrow> string \<Rightarrow> 'v list" where
  "values_at byPath k = (case map_of byPath k of None \<Rightarrow> [] | Some vs \<Rightarrow> vs)"

definition descendants :: "(string \<times> 'v) list \<Rightarrow> string \<Rightarrow> (string \<times> 'v) list" where
  "descendants entries p =
     (let byPath = group_paths entries; keys = sort (map fst byPath); pre = p @ ''/'';
          found = takeWhile (\<lambda>k. js_startsWith k pre) (drop (lower_bound keys pre 0 (length keys)) keys)
      in concat (map (\<lambda>k. map (Pair k) (values_at byPath k)) found))"

function ancestors :: "string \<Rightarrow> string list" where
  "ancestors ancestor =
     (if ancestor = [] then []
      else ancestor # ancestors (if CHR ''/'' \<in> set ancestor then before_last CHR ''/'' ancestor else []))"
  by pat_completeness auto
termination
  by (relation "measure length") (auto simp: before_last_def intro: le_less_trans [OF diff_le_mono [OF length_dropWhile_le]])

declare ancestors.simps [simp del]

definition overlap :: "(string \<times> 'v) list \<Rightarrow> string \<Rightarrow> 'v list" where
  "overlap entries p = map snd (descendants entries p) @ concat (map (values_at (group_paths entries)) (ancestors p))"

section \<open>Directory intents\<close>

record directory_intent =
  op :: string
  path :: string
  intent_id :: "string option"
  generation :: int
  replaces_intent_id :: "string option"
  recreated_after_delete :: bool

text \<open>\<open>a || b || null\<close> on strings that may be missing.\<close>

fun js_or :: "string option \<Rightarrow> string option \<Rightarrow> string option" where
  "js_or (Some (c # s)) b = Some (c # s)"
| "js_or _ b = (case b of Some (c # s) \<Rightarrow> b | _ \<Rightarrow> None)"

definition is_intent :: "(string \<Rightarrow> string) \<Rightarrow> directory_intent \<Rightarrow> bool" where
  "is_intent nfc i \<longleftrightarrow> (op i = ''create'' \<or> op i = ''delete'') \<and> plugin_isSyncableVaultPath nfc (path i)"

definition replacing_intent :: "directory_intent option \<Rightarrow> directory_intent \<Rightarrow> directory_intent" where
  "replacing_intent replaced i =
     (case replaced of
        Some r \<Rightarrow> if op i = ''create'' \<and> op r = ''delete'' \<and> \<not> recreated_after_delete i
          then i\<lparr>replaces_intent_id := js_or (replaces_intent_id i) (intent_id r), recreated_after_delete := True\<rparr>
          else i
      | None \<Rightarrow> i)"

definition add_intent :: "(string \<times> directory_intent) list \<Rightarrow> directory_intent \<Rightarrow> (string \<times> directory_intent) list" where
  "add_intent byPath original =
     (let i = replacing_intent (map_of byPath (path original)) original;
          kept = (if op i = ''delete'' then filter (\<lambda>(dirPath, _). \<not> (dirPath = path i \<or> below (path i) dirPath)) byPath else byPath)
      in AList.update (path i) i kept)"

definition compare_intents :: "(string \<Rightarrow> string \<Rightarrow> int) \<Rightarrow> directory_intent \<Rightarrow> directory_intent \<Rightarrow> int" where
  "compare_intents localeCompare left right =
     (let c = localeCompare (path left) (path right) in if c \<noteq> 0 then c else localeCompare (op left) (op right))"

text \<open>\<open>None\<close> is an entry that is null.\<close>

definition compactDirectoryIntents ::
  "(string \<Rightarrow> string) \<Rightarrow> (string \<Rightarrow> string \<Rightarrow> int) \<Rightarrow> directory_intent option list \<Rightarrow> directory_intent list" where
  "compactDirectoryIntents nfc localeCompare intents =
     js_sort (compare_intents localeCompare)
       (map snd (foldl add_intent [] (filter (is_intent nfc) (concat (map (\<lambda>i. case i of None \<Rightarrow> [] | Some i \<Rightarrow> [i]) intents)))))"

section \<open>Lemmas: paths\<close>

lemma below_iff: "below p q \<longleftrightarrow> (\<exists>t. q = p @ CHR ''/'' # t)"
  by (simp add: below_def js_startsWith_iff)

lemma below_length: "below p q \<Longrightarrow> length p < length q"
  by (auto simp: below_iff)

lemma below_irrefl [simp]: "\<not> below p p"
  using below_length by blast

lemma below_trans: "below p q \<Longrightarrow> below q r \<Longrightarrow> below p r"
  by (auto simp: below_iff)

section \<open>Lemmas: removals\<close>

lemma set_removal_batch:
  "set (removal_batch localeCompare remaining) = {p \<in> set remaining. \<forall>q \<in> set remaining. \<not> below p q}"
  by (auto simp: removal_batch_def list_ex_iff)

lemma removal_batch_nonempty:
  assumes "remaining \<noteq> []"
  shows "removal_batch localeCompare remaining \<noteq> []"
proof -
  let ?m = "Max (length ` set remaining)"
  have "?m \<in> length ` set remaining" using assms by (intro Max_in) auto
  then obtain p where p: "p \<in> set remaining" "length p = ?m" by auto
  have "\<not> below p q" if "q \<in> set remaining" for q
  proof
    assume "below p q"
    then have "?m < length q" using p(2) below_length by metis
    moreover have "length q \<le> ?m" using that by simp
    ultimately show False by simp
  qed
  with p(1) have "p \<in> set (removal_batch localeCompare remaining)" by (simp add: set_removal_batch)
  then show ?thesis by auto
qed

lemma removal_loop_plan:
  assumes "distinct remaining"
  shows "\<exists>batches. removal_loop localeCompare remaining = Some batches \<and> mset (concat batches) = mset remaining \<and>
     (\<forall>b bs bs'. batches = bs @ b # bs' \<longrightarrow> b \<noteq> [] \<and>
        (\<forall>p \<in> set b. \<forall>q \<in> set remaining. below p q \<longrightarrow> q \<in> set (concat bs)))"
  using assms
proof (induction localeCompare remaining rule: removal_loop.induct)
  case (1 localeCompare remaining)
  show ?case
  proof (cases "remaining = []")
    case True
    then show ?thesis by (simp add: removal_loop.simps)
  next
    case False
    let ?b = "removal_batch localeCompare remaining"
    let ?rest = "filter (\<lambda>p. p \<notin> set ?b) remaining"
    note ne = removal_batch_nonempty [OF False, of localeCompare]
    obtain batches where b: "removal_loop localeCompare ?rest = Some batches" "mset (concat batches) = mset ?rest"
        "\<And>b bs bs'. batches = bs @ b # bs' \<Longrightarrow> b \<noteq> [] \<and> (\<forall>p \<in> set b. \<forall>q \<in> set ?rest. below p q \<longrightarrow> q \<in> set (concat bs))"
      using "1.IH" [OF False refl ne distinct_filter [OF "1.prems"]] by blast
    have "distinct ?b" using "1.prems" by (simp add: removal_batch_def)
    moreover have "set (filter (\<lambda>p. p \<in> set ?b) remaining) = set ?b" by (auto simp: set_removal_batch)
    ultimately have "mset ?b = mset (filter (\<lambda>p. p \<in> set ?b) remaining)"
      using "1.prems" by (metis distinct_filter set_eq_iff_mset_eq_distinct)
    then have m: "mset (concat (?b # batches)) = mset remaining" using b(2) by (simp add: multiset_partition [symmetric])
    have order: "b \<noteq> [] \<and> (\<forall>p \<in> set b. \<forall>q \<in> set remaining. below p q \<longrightarrow> q \<in> set (concat bs))"
      if "?b # batches = bs @ b # bs'" for b bs bs'
    proof (cases bs)
      case Nil
      with that ne show ?thesis by (auto simp: set_removal_batch)
    next
      case (Cons c cs)
      with that have "batches = cs @ b # bs'" "c = ?b" by auto
      with b(3) Cons show ?thesis by fastforce
    qed
    have "removal_loop localeCompare remaining = Some (?b # batches)"
      using False ne b(1) by (simp add: removal_loop.simps [of localeCompare remaining] Let_def)
    with m order show ?thesis by blast
  qed
qed

text \<open>C13. Planning the removals never fails: it ends with batches in which every path to be removed stands exactly once, and everything
  below a path is removed in an earlier batch than the path.\<close>

theorem removal_batches_safe:
  "\<exists>batches. dependencySafeRemovalBatches localeCompare paths = Some batches \<and>
     distinct (concat batches) \<and> set (concat batches) = set paths \<and>
     (\<forall>b bs bs'. batches = bs @ b # bs' \<longrightarrow> b \<noteq> [] \<and>
        (\<forall>p \<in> set b. \<forall>q \<in> set paths. below p q \<longrightarrow> q \<in> set (concat bs)))"
proof -
  obtain batches where b: "removal_loop localeCompare (uniq paths) = Some batches" "mset (concat batches) = mset (uniq paths)"
      "\<forall>b bs bs'. batches = bs @ b # bs' \<longrightarrow> b \<noteq> [] \<and> (\<forall>p \<in> set b. \<forall>q \<in> set (uniq paths). below p q \<longrightarrow> q \<in> set (concat bs))"
    using removal_loop_plan [OF distinct_uniq] by blast
  have "distinct (concat batches)" "set (concat batches) = set paths"
    using b(2) distinct_uniq [of paths] set_uniq [of paths] by (metis mset_eq_imp_distinct_iff, metis mset_eq_setD)
  with b show ?thesis unfolding dependencySafeRemovalBatches_def set_uniq by blast
qed

theorem removal_batches_safe_witness:
  "dependencySafeRemovalBatches (\<lambda>_ _. 0) [''a'', ''d/e'', ''a/b'', ''a/b/c'', ''a''] = Some [[''a/b/c'', ''d/e''], [''a/b''], [''a'']] \<and>
   ''a/b/c'' \<in> set (concat [[''a/b/c'', ''d/e''], [''a/b'']])"
proof -
  have e: "dependencySafeRemovalBatches (\<lambda>_ _. 0) [''a'', ''d/e'', ''a/b'', ''a/b/c'', ''a''] = Some [[''a/b/c'', ''d/e''], [''a/b''], [''a'']]"
    by code_simp
  obtain batches where b: "Some [[''a/b/c'', ''d/e''], [''a/b''], [''a'']] = Some batches"
      "\<And>b bs bs' p q. batches = bs @ b # bs' \<Longrightarrow> p \<in> set b \<Longrightarrow> q \<in> set [''a'', ''d/e'', ''a/b'', ''a/b/c'', ''a''] \<Longrightarrow>
         below p q \<Longrightarrow> q \<in> set (concat bs)"
    using removal_batches_safe [of "\<lambda>_ _. 0" "[''a'', ''d/e'', ''a/b'', ''a/b/c'', ''a'']"] unfolding e by (elim exE conjE) metis
  have "''a/b/c'' \<in> set (concat [[''a/b/c'', ''d/e''], [''a/b'']])"
    by (rule b(2) [of _ "[''a'']" "[]" "''a''"]) (use b(1) in \<open>simp_all add: below_iff\<close>)
  with e show ?thesis by blast
qed

section \<open>Lemmas: the index\<close>

lemma prefix_not_less: "js_startsWith k pre \<Longrightarrow> \<not> k < pre"
proof (induction pre arbitrary: k)
  case (Cons c pre)
  then obtain k' where "k = c # k'" "js_startsWith k' pre" by (cases k) (auto simp: js_startsWith_iff)
  with Cons.IH show ?case by simp
qed (simp add: js_startsWith_iff)

lemma prefix_convex: "pre \<le> k \<Longrightarrow> k \<le> k' \<Longrightarrow> js_startsWith k' pre \<Longrightarrow> js_startsWith k pre"
proof (induction pre arbitrary: k k')
  case (Cons c pre)
  from Cons.prems(3) obtain t' where t': "k' = c # t'" "js_startsWith t' pre" by (auto simp: js_startsWith_iff)
  from Cons.prems(1) obtain d t where t: "k = d # t" by (cases k) auto
  from Cons.prems t t' have "d = c" "pre \<le> t" "t \<le> t'" by auto
  with Cons.IH [of t t'] t t' show ?case by (auto simp: js_startsWith_iff)
qed (simp add: js_startsWith_iff)

lemma lower_bound_spec:
  assumes "sorted keys" "lo \<le> hi" "hi \<le> length keys" "\<forall>i < lo. keys ! i < pre" "\<forall>i. hi \<le> i \<and> i < length keys \<longrightarrow> pre \<le> keys ! i"
  shows "lower_bound keys pre lo hi \<le> length keys \<and> (\<forall>i < lower_bound keys pre lo hi. keys ! i < pre) \<and>
     (\<forall>i. lower_bound keys pre lo hi \<le> i \<and> i < length keys \<longrightarrow> pre \<le> keys ! i)"
  using assms
proof (induction keys pre lo hi rule: lower_bound.induct)
  case (1 keys pre lo hi)
  let ?mid = "(lo + hi) div 2"
  show ?case
  proof (cases "lo < hi")
    case True
    then have mid: "lo \<le> ?mid" "?mid < hi" "?mid < length keys" using "1.prems" by auto
    have mono: "keys ! i \<le> keys ! j" if "i \<le> j" "j < length keys" for i j using "1.prems"(1) that by (simp add: sorted_iff_nth_mono)
    show ?thesis
    proof (cases "keys ! ?mid < pre")
      case less: True
      then have "\<forall>i < ?mid + 1. keys ! i < pre" using mono [OF _ mid(3)] by (metis less_Suc_eq_le Suc_eq_plus1 le_less_trans)
      moreover have "lower_bound keys pre lo hi = lower_bound keys pre (?mid + 1) hi"
        using True less by (simp add: lower_bound.simps [of keys pre lo hi] Let_def)
      ultimately show ?thesis using "1.IH"(1) [OF True refl less "1.prems"(1)] "1.prems" mid by simp
    next
      case geq: False
      then have "\<forall>i. ?mid \<le> i \<and> i < length keys \<longrightarrow> pre \<le> keys ! i" 
      proof (intro allI impI)
        fix i assume "?mid \<le> i \<and> i < length keys"
        then have "keys ! ?mid \<le> keys ! i" using mono by blast
        with geq show "pre \<le> keys ! i" by (meson not_le order_trans)
      qed
      moreover have "lower_bound keys pre lo hi = lower_bound keys pre lo ?mid"
        using True geq by (simp add: lower_bound.simps [of keys pre lo hi] Let_def)
      ultimately show ?thesis
        using "1.IH"(2) [OF True refl geq "1.prems"(1) mid(1) less_imp_le [OF mid(3)] "1.prems"(4)] by presburger
    qed
  next
    case False
    then have "lower_bound keys pre lo hi = lo" by (simp add: lower_bound.simps [of keys pre lo hi])
    with False "1.prems" show ?thesis by simp
  qed
qed

text \<open>In sorted keys the search finds exactly the keys with the prefix.\<close>

lemma prefix_range:
  assumes "sorted keys"
  shows "takeWhile (\<lambda>k. js_startsWith k pre) (drop (lower_bound keys pre 0 (length keys)) keys) = filter (\<lambda>k. js_startsWith k pre) keys"
proof -
  let ?n = "lower_bound keys pre 0 (length keys)"
  have "?n \<le> length keys \<and> (\<forall>i < ?n. keys ! i < pre) \<and> (\<forall>i. ?n \<le> i \<and> i < length keys \<longrightarrow> pre \<le> keys ! i)"
    by (rule lower_bound_spec [OF assms]) auto
  then have n: "?n \<le> length keys" "\<forall>i < ?n. keys ! i < pre" "\<forall>i. ?n \<le> i \<and> i < length keys \<longrightarrow> pre \<le> keys ! i" by blast+
  have "k < pre" if "k \<in> set (take ?n keys)" for k using that n(1,2) by (auto simp: in_set_conv_nth)
  then have "filter (\<lambda>k. js_startsWith k pre) (take ?n keys) = []" using prefix_not_less by (auto simp: filter_empty_conv)
  moreover have "filter (\<lambda>k. js_startsWith k pre) ks = takeWhile (\<lambda>k. js_startsWith k pre) ks"
    if "sorted ks" "\<forall>k \<in> set ks. pre \<le> k" for ks
    using that
  proof (induction ks)
    case (Cons k ks)
    show ?case
    proof (cases "js_startsWith k pre")
      case True
      with Cons show ?thesis by simp
    next
      case False
      then have "\<not> js_startsWith k' pre" if "k' \<in> set ks" for k' using that Cons.prems prefix_convex [of pre k k'] by auto
      with False show ?thesis by (simp add: filter_empty_conv)
    qed
  qed simp
  moreover have "sorted (drop ?n keys)" using assms by (rule sorted_wrt_drop)
  moreover have "\<forall>k \<in> set (drop ?n keys). pre \<le> k" using n(1,3) by (auto simp: in_set_conv_nth)
  ultimately show ?thesis by (metis append_Nil append_take_drop_id filter_append)
qed

lemma group_paths_values:
  "values_at (group_paths entries) k = map snd (filter (\<lambda>e. fst e = k) entries) \<and>
   (map_of (group_paths entries) k = None \<longleftrightarrow> k \<notin> fst ` set entries) \<and> distinct (map fst (group_paths entries))"
proof (induction entries arbitrary: k rule: rev_induct)
  case (snoc e entries)
  let ?G = "group_paths entries"
  have g: "group_paths (entries @ [e]) = AList.update (fst e) (values_at ?G (fst e) @ [snd e]) ?G"
    by (simp add: group_paths_def group_entry_def values_at_def)
  have "values_at (group_paths (entries @ [e])) k = (if k = fst e then values_at ?G k @ [snd e] else values_at ?G k)"
    unfolding g by (simp add: values_at_def update_conv)
  moreover have "map_of (group_paths (entries @ [e])) k = None \<longleftrightarrow> k \<noteq> fst e \<and> map_of ?G k = None"
    unfolding g by (simp add: update_conv)
  moreover have "distinct (map fst (group_paths (entries @ [e])))"
    unfolding g using snoc.IH by (blast intro: distinct_update)
  ultimately show ?case using snoc.IH [of k] by auto
qed (simp add: group_paths_def values_at_def)

lemma concat_groups:
  assumes "distinct ks"
  shows "mset (concat (map (\<lambda>k. map snd (filter (\<lambda>e. fst e = k) entries)) ks)) = mset (map snd (filter (\<lambda>e. fst e \<in> set ks) entries))"
  using assms
proof (induction ks)
  case (Cons k ks)
  have "mset (map snd (filter (\<lambda>e. fst e \<in> set (k # ks)) entries)) =
      mset (map snd (filter (\<lambda>e. fst e = k) entries)) + mset (map snd (filter (\<lambda>e. fst e \<in> set ks) entries))"
    using Cons.prems by (induction entries) auto
  with Cons show ?case by simp
qed simp

lemma ancestors_spec: "set (ancestors p) = {k. k \<noteq> [] \<and> (k = p \<or> below k p)} \<and> distinct (ancestors p)"
proof (induction p rule: ancestors.induct)
  case (1 p)
  show ?case
  proof (cases "p \<noteq> [] \<and> CHR ''/'' \<in> set p")
    case True
    then obtain a b where p: "p = a @ CHR ''/'' # b" "CHR ''/'' \<notin> set b" by (metis split_list_last)
    then have bl: "before_last CHR ''/'' p = a" by (simp add: before_last_at)
    have "below k p \<longleftrightarrow> k = a \<or> below k a" for k
    proof
      assume "below k p"
      then obtain t where "a @ CHR ''/'' # b = k @ CHR ''/'' # t" by (auto simp: below_iff p(1))
      then consider us where "a = k @ us" "us @ CHR ''/'' # b = CHR ''/'' # t" | us where "k = a @ us" "CHR ''/'' # b = us @ CHR ''/'' # t"
        by (auto simp: append_eq_append_conv2)
      then show "k = a \<or> below k a"
      proof cases
        case 1
        then show ?thesis by (cases us) (auto simp: below_iff)
      next
        case 2
        then show ?thesis using p(2) by (cases us) auto
      qed
    qed (auto simp: below_iff p(1))
    moreover have "\<not> below p a" "p \<noteq> a" using p(1) below_length [of p a] by auto
    ultimately show ?thesis using 1 True bl by (auto simp: ancestors.simps [of p])
  next
    case False
    then have "\<not> below k p" for k by (auto simp: below_iff)
    with False show ?thesis by (auto simp: ancestors.simps [of p] ancestors.simps [of "[]"])
  qed
qed

text \<open>C30. The index finds in a sorted list, by binary search and by walking up the path, exactly the values that a scan of all entries
  for a path equal to, above or below the given one finds.\<close>

theorem overlap_scan:
  assumes "[] \<notin> fst ` set entries"
  shows "mset (overlap entries p) = mset (map snd (filter (\<lambda>e. changedPathsConflict (fst e) p) entries))"
proof -
  let ?G = "group_paths entries"
  let ?D = "filter (\<lambda>k. js_startsWith k (p @ ''/'')) (sort (map fst ?G))"
  have vals: "values_at ?G = (\<lambda>k. map snd (filter (\<lambda>e. fst e = k) entries))" using group_paths_values by blast
  have "set (map fst ?G) = fst ` set entries" 
    using group_paths_values [of entries] map_of_eq_None_iff [of ?G] by auto
  then have D: "set ?D = {k \<in> fst ` set entries. below p k}" by (auto simp: below_def)
  have d: "distinct (?D @ ancestors p)"
  proof -
    have "distinct ?D" using group_paths_values [of entries] by simp
    moreover have "set ?D \<inter> set (ancestors p) = {}"
      unfolding D conjunct1 [OF ancestors_spec] by (auto dest: below_trans)
    ultimately show ?thesis using ancestors_spec [of p] by simp
  qed
  have "map snd (descendants entries p) = concat (map (values_at ?G) ?D)"
    unfolding descendants_def Let_def prefix_range [OF sorted_sort] by (simp add: map_concat comp_def)
  then have "mset (overlap entries p) = mset (concat (map (\<lambda>k. map snd (filter (\<lambda>e. fst e = k) entries)) (?D @ ancestors p)))"
    by (simp add: overlap_def vals)
  also have "\<dots> = mset (map snd (filter (\<lambda>e. fst e \<in> set (?D @ ancestors p)) entries))" by (rule concat_groups [OF d])
  also have "filter (\<lambda>e. fst e \<in> set (?D @ ancestors p)) entries = filter (\<lambda>e. changedPathsConflict (fst e) p) entries"
  proof (rule filter_cong [OF refl])
    fix e assume "e \<in> set entries"
    then have "fst e \<in> fst ` set entries" "fst e \<noteq> []" using assms by (auto simp: image_iff)
    then show "fst e \<in> set (?D @ ancestors p) \<longleftrightarrow> changedPathsConflict (fst e) p"
      unfolding set_append D using ancestors_spec [of p] by (auto simp: changedPathsConflict_def)
  qed
  finally show ?thesis .
qed

theorem overlap_scan_witness:
  "overlap [(''a/b'', 1::nat), (''a-b'', 2), (''a'', 3), (''a/b/c'', 4), (''ab'', 5), (''a/b'', 6)] ''a/b'' = [4, 1, 6, 3] \<and>
   mset (overlap [(''a/b'', 1::nat), (''a-b'', 2), (''a'', 3), (''a/b/c'', 4), (''ab'', 5), (''a/b'', 6)] ''a/b'') =
     mset (map snd (filter (\<lambda>e. changedPathsConflict (fst e) ''a/b'')
       [(''a/b'', 1::nat), (''a-b'', 2), (''a'', 3), (''a/b/c'', 4), (''ab'', 5), (''a/b'', 6)]))"
proof
  show "overlap [(''a/b'', 1::nat), (''a-b'', 2), (''a'', 3), (''a/b/c'', 4), (''ab'', 5), (''a/b'', 6)] ''a/b'' = [4, 1, 6, 3]" by code_simp
qed (rule overlap_scan, simp)

section \<open>Lemmas: the plugin and the path policy\<close>

lemma nfc_canonical_form:
  assumes "nfc_laws nfc"
  shows "nfc (plugin_normalizePath nfc p) = plugin_normalizePath nfc p \<and> CHR 0x5C \<notin> set (plugin_normalizePath nfc p)"
proof -
  have "CHR 0x5C \<notin> set (dropWhile (\<lambda>c. c = CHR ''/'') (js_replaceChar CHR 0x5C CHR ''/'' p))"
    by (auto simp: js_replaceChar_def dest: set_dropWhileD)
  then show ?thesis using assms unfolding plugin_normalizePath_def nfc_laws_def by blast
qed

lemma plugin_valid_canonical:
  assumes "nfc q = q" "CHR 0x5C \<notin> set q"
  shows "plugin_isValidVaultPath q \<longleftrightarrow> canonical_path nfc q"
proof -
  have segs: "list_ex bad_segment (js_split CHR ''/'' q) \<longleftrightarrow> (\<exists>s \<in> set (js_split CHR ''/'' q). s = [] \<or> s = ''.'' \<or> s = ''..'')"
    by (auto simp: list_ex_iff bad_segment_def)
  have up: "''..'' \<in> set (js_split CHR ''/'' q)" if "js_startsWith q ''../''"
    using that js_split_append [of "CHR ''/''" "''..''"] by (auto simp: js_startsWith_iff)
  have first: "js_split CHR ''/'' q ! 0 = hd (js_split CHR ''/'' q)" by (simp add: hd_conv_nth)
  show ?thesis
    unfolding plugin_isValidVaultPath_def canonical_path_def Let_def segs first
    using assms up hd_split_Nil [of q] by (cases "q = []") auto
qed

text \<open>C12. The plugin and the server agree on what is synced: the plugin takes a path for syncable exactly when its normalized form is a path
  that the shared path policy accepts as it stands and takes for syncable. What the plugin proposes is never refused for its path, and
  nothing the server would accept is left out.\<close>

theorem plugin_paths_agree:
  assumes "nfc_laws nfc"
  shows "plugin_isSyncableVaultPath nfc p \<longleftrightarrow>
     (let q = plugin_normalizePath nfc p in normalizeVaultPath nfc q = Inr q \<and> isSyncableVaultPath nfc q)"
proof -
  let ?q = "plugin_normalizePath nfc p"
  have v: "plugin_isValidVaultPath ?q \<longleftrightarrow> normalizeVaultPath nfc ?q = Inr ?q"
    using plugin_valid_canonical [of nfc ?q] nfc_canonical_form [OF assms, of p] normalize_canonical_path normalize_result_canonical [OF assms]
    by blast
  show ?thesis by (auto simp: plugin_isSyncableVaultPath_def isSyncableVaultPath_def Let_def v)
qed

theorem plugin_paths_agree_witness:
  "plugin_isSyncableVaultPath (\<lambda>s. s) (''/notes'' @ [CHR 0x5C] @ ''a.md'') \<and> isSyncableVaultPath (\<lambda>s. s) ''notes/a.md'' \<and>
   \<not> plugin_isSyncableVaultPath (\<lambda>s. s) ''notes/.git/a''"
proof -
  have n: "plugin_normalizePath (\<lambda>s. s) (''/notes'' @ [CHR 0x5C] @ ''a.md'') = ''notes/a.md''" by code_simp
  have "plugin_isSyncableVaultPath (\<lambda>s. s) (''/notes'' @ [CHR 0x5C] @ ''a.md'')" by code_simp
  moreover from this have "isSyncableVaultPath (\<lambda>s. s) ''notes/a.md''"
    unfolding plugin_paths_agree [OF nfc_laws_id] n Let_def by blast
  moreover have "\<not> plugin_isSyncableVaultPath (\<lambda>s. s) ''notes/.git/a''" by code_simp
  ultimately show ?thesis by blast
qed

section \<open>Lemmas: intents\<close>

text \<open>An intent touches a path if it is about the path, or removes a directory above it.\<close>

definition touches :: "string \<Rightarrow> directory_intent \<Rightarrow> bool" where
  "touches q i \<longleftrightarrow> path i = q \<or> op i = ''delete'' \<and> below (path i) q"

text \<open>The intent that stands for a path: the last that touches it, if that is about the path itself. A creation that comes right after a deletion of the same path
  is marked as a recreation, unless it is marked already, and names the intent it replaces: the one it names itself, or else the deletion.\<close>

definition given :: "string option \<Rightarrow> bool" where
  "given s \<longleftrightarrow> s \<noteq> None \<and> s \<noteq> Some []"

definition recreates :: "directory_intent list \<Rightarrow> directory_intent \<Rightarrow> bool" where
  "recreates before i \<longleftrightarrow> op i = ''create'' \<and> before \<noteq> [] \<and> path (hd before) = path i \<and> op (hd before) = ''delete''"

definition standing_intent :: "directory_intent list \<Rightarrow> string \<Rightarrow> directory_intent option" where
  "standing_intent xs q =
     (case rev (filter (touches q) xs) of
        [] \<Rightarrow> None
      | i # before \<Rightarrow>
          if path i \<noteq> q then None
          else if recreates before i \<and> \<not> recreated_after_delete i
          then Some (i\<lparr>recreated_after_delete := True,
            replaces_intent_id := (if given (replaces_intent_id i) then replaces_intent_id i
              else if given (intent_id (hd before)) then intent_id (hd before) else None)\<rparr>)
          else Some i)"

lemma js_or_given: "js_or a b = (if given a then a else if given b then b else None)"
  by (cases "(a, b)" rule: js_or.cases) (auto simp: given_def split: option.splits list.splits)

lemma replacing_previous:
  "replacing_intent (case before of [] \<Rightarrow> None | r # _ \<Rightarrow> if path r = path i then Some r else None) i =
     (if recreates before i \<and> \<not> recreated_after_delete i
      then i\<lparr>recreated_after_delete := True,
        replaces_intent_id := (if given (replaces_intent_id i) then replaces_intent_id i
          else if given (intent_id (hd before)) then intent_id (hd before) else None)\<rparr>
      else i)"
  by (cases before) (auto simp: replacing_intent_def recreates_def js_or_given)

lemma replacing_intent_simps [simp]: "op (replacing_intent r i) = op i" "path (replacing_intent r i) = path i" "intent_id (replacing_intent r i) = intent_id i"
  by (auto simp: replacing_intent_def split: option.splits)

lemma replacing_intent_replaced: "replacing_intent (map_option (replacing_intent r) o') i = replacing_intent o' i"
  by (auto simp: replacing_intent_def split: option.splits)

lemma add_intent_lookup:
  "map_of (add_intent m i) q =
     (if path i = q then Some (replacing_intent (map_of m q) i) else if touches q i then None else map_of m q)"
proof -
  have "map_of (filter (\<lambda>(d, _). P d) m) q = (if P q then map_of m q else None)" for P
    by (induction m) auto
  then show ?thesis by (auto simp: add_intent_def Let_def update_conv touches_def)
qed

lemma add_intent_distinct: "distinct (map fst m) \<Longrightarrow> distinct (map fst (add_intent m i))"
  by (simp add: add_intent_def Let_def distinct_update distinct_map_filter)

lemma add_intent_subset: "set (add_intent m i) \<subseteq> insert (path i, replacing_intent (map_of m (path i)) i) (set m)"
proof -
  have u: "set (AList.update k v al) \<subseteq> insert (k, v) (set al)" for k :: string and v :: directory_intent and al
    by (induction al) auto
  show ?thesis unfolding add_intent_def Let_def replacing_intent_simps by (rule order_trans [OF u]) auto
qed

lemma fold_intents:
  "map_of (foldl add_intent [] xs) q = standing_intent xs q \<and> distinct (map fst (foldl add_intent [] xs)) \<and>
   (\<forall>e \<in> set (foldl add_intent [] xs). path (snd e) = fst e)"
proof (induction xs arbitrary: q rule: rev_induct)
  case Nil
  then show ?case by (simp add: standing_intent_def)
next
  case (snoc i xs)
  let ?m = "foldl add_intent [] xs"
  have "map_of (add_intent ?m i) q = standing_intent (xs @ [i]) q"
  proof (cases "touches q i \<and> path i = q")
    case True
    have "standing_intent xs q = None \<longleftrightarrow> (case rev (filter (touches q) xs) of [] \<Rightarrow> True | r # _ \<Rightarrow> path r \<noteq> q)"
      "standing_intent xs q = Some s \<Longrightarrow> op s = op (hd (rev (filter (touches q) xs))) \<and> intent_id s = intent_id (hd (rev (filter (touches q) xs)))" for s
      by (auto simp: standing_intent_def split: list.splits if_splits)
    then have "replacing_intent (standing_intent xs q) i = replacing_intent (case rev (filter (touches q) xs) of [] \<Rightarrow> None | r # _ \<Rightarrow> if path r = q then Some r else None) i"
      by (cases "standing_intent xs q") (auto simp: replacing_intent_def split: list.splits)
    with True snoc.IH replacing_previous [where before = "rev (filter (touches q) xs)" and i = i] show ?thesis
      by (auto simp: add_intent_lookup standing_intent_def [of "xs @ [i]"])
  next
    case False
    with snoc.IH show ?thesis by (auto simp: add_intent_lookup standing_intent_def touches_def)
  qed
  moreover have "\<forall>e \<in> set (add_intent ?m i). path (snd e) = fst e"
  proof
    fix e assume "e \<in> set (add_intent ?m i)"
    then consider "e = (path i, replacing_intent (map_of ?m (path i)) i)" | "e \<in> set ?m" using add_intent_subset by blast
    then show "path (snd e) = fst e" using snoc.IH by cases auto
  qed
  ultimately show ?case using snoc.IH by (simp add: add_intent_distinct)
qed

text \<open>C31. Compacting the pending directory intents keeps for each path exactly the last intent that touches it, if that is about the path
  itself; intents on a path that a later deletion of the path or of a directory above it covers are gone, no path has two, and a
  creation that follows the deletion of its path is marked as a recreation and names the intent it replaces; every other field is kept.\<close>

theorem compact_last_intent:
  "(e \<in> set (compactDirectoryIntents nfc localeCompare intents) \<longleftrightarrow>
      standing_intent (filter (is_intent nfc) (concat (map (\<lambda>i. case i of None \<Rightarrow> [] | Some i \<Rightarrow> [i]) intents))) (path e) = Some e) \<and>
   distinct (map path (compactDirectoryIntents nfc localeCompare intents))"
proof -
  let ?is = "filter (is_intent nfc) (concat (map (\<lambda>i. case i of None \<Rightarrow> [] | Some i \<Rightarrow> [i]) intents))"
  let ?m = "foldl add_intent [] ?is"
  have m: "\<forall>q. map_of ?m q = standing_intent ?is q" "distinct (map fst ?m)" "\<forall>e \<in> set ?m. path (snd e) = fst e"
    using fold_intents by blast+
  have "e \<in> snd ` set ?m \<longleftrightarrow> (path e, e) \<in> set ?m" using m(3) by force
  then have "e \<in> set (compactDirectoryIntents nfc localeCompare intents) \<longleftrightarrow> map_of ?m (path e) = Some e"
    using m(2) by (simp add: compactDirectoryIntents_def)
  moreover have "map path (map snd ?m) = map fst ?m" using m(3) by simp
  then have "distinct (map path (map snd ?m))" using m(2) by metis
  then have "distinct (map path (compactDirectoryIntents nfc localeCompare intents))"
    unfolding compactDirectoryIntents_def by (metis mset_js_sort mset_map mset_eq_imp_distinct_iff)
  ultimately show ?thesis using m(1) by simp
qed

section \<open>Lemmas: files and directories\<close>

lemma directoryPrefixes_iff: "k \<in> set (directoryPrefixes p) \<longleftrightarrow> below k p"
proof -
  let ?s = "js_split CHR ''/'' p"
  show ?thesis
  proof
    assume "k \<in> set (directoryPrefixes p)"
    then obtain n where n: "1 \<le> n" "n < length ?s" "k = js_join ''/'' (take n ?s)" by (auto simp: directoryPrefixes_def Let_def)
    then have "js_join ''/'' (take n ?s @ drop n ?s) = k @ ''/'' @ js_join ''/'' (drop n ?s)"
      by (subst js_join_at) auto
    then show "below k p" by (auto simp: below_iff)
  next
    assume "below k p"
    then obtain t where p: "p = k @ CHR ''/'' # t" by (auto simp: below_iff)
    then have s: "?s = js_split CHR ''/'' k @ js_split CHR ''/'' t" by (simp add: js_split_at)
    let ?n = "length (js_split CHR ''/'' k)"
    have "js_join ''/'' (take ?n ?s) = k" "1 \<le> ?n" "?n < length ?s" using s by (simp_all add: Suc_leI)
    then show "k \<in> set (directoryPrefixes p)" by (force simp: directoryPrefixes_def Let_def)
  qed
qed

text \<open>The files that stand in the way of a target are exactly the local files above or below one of its files, listed once and in
  order.\<close>

theorem conflict_files_spec:
  "set (materializationConflictFiles targetFiles localVaultFiles) =
     {l \<in> set localVaultFiles. \<exists>t \<in> set targetFiles. below t l \<or> below l t} \<and>
   sorted (materializationConflictFiles targetFiles localVaultFiles) \<and> distinct (materializationConflictFiles targetFiles localVaultFiles)"
  by (auto simp: materializationConflictFiles_def directoryPrefixes_iff)

lemma topmost_fold:
  assumes "sorted_wrt (\<lambda>a b. length a \<le> length b) ds" "\<forall>a \<in> set acc. \<forall>d \<in> set ds. length a \<le> length d"
    "\<forall>a \<in> set acc. \<forall>b \<in> set acc. \<not> below a b"
  shows "set acc \<subseteq> set (foldl add_topmost acc ds) \<and> set (foldl add_topmost acc ds) \<subseteq> set acc \<union> set ds \<and>
     (\<forall>a \<in> set (foldl add_topmost acc ds). \<forall>b \<in> set (foldl add_topmost acc ds). \<not> below a b) \<and>
     (\<forall>d \<in> set ds. \<exists>a \<in> set (foldl add_topmost acc ds). d = a \<or> below a d)"
  using assms
proof (induction ds arbitrary: acc)
  case (Cons d ds)
  let ?acc = "add_topmost acc d"
  have sub: "set acc \<subseteq> set ?acc" "set ?acc \<subseteq> insert d (set acc)" "\<exists>a \<in> set ?acc. d = a \<or> below a d"
    by (auto simp: add_topmost_def list_ex_iff)
  have "\<forall>a \<in> set ?acc. \<forall>x \<in> set ds. length a \<le> length x" using sub(2) Cons.prems by auto
  moreover have "\<forall>a \<in> set ?acc. \<forall>b \<in> set ?acc. \<not> below a b"
  proof (cases "\<exists>parent \<in> set acc. d = parent \<or> below parent d")
    case True
    with Cons.prems(3) show ?thesis by (simp add: add_topmost_def list_ex_iff)
  next
    case False
    moreover have "\<not> below d a" if "a \<in> set acc" for a using that Cons.prems(2) below_length [of d a] by fastforce
    ultimately show ?thesis using Cons.prems(3) by (auto simp: add_topmost_def list_ex_iff)
  qed
  ultimately have ih: "set ?acc \<subseteq> set (foldl add_topmost ?acc ds)" "set (foldl add_topmost ?acc ds) \<subseteq> set ?acc \<union> set ds"
     "\<forall>a \<in> set (foldl add_topmost ?acc ds). \<forall>b \<in> set (foldl add_topmost ?acc ds). \<not> below a b"
     "\<forall>d \<in> set ds. \<exists>a \<in> set (foldl add_topmost ?acc ds). d = a \<or> below a d"
    using Cons.IH [of ?acc] Cons.prems(1) by simp_all
  have "foldl add_topmost acc (d # ds) = foldl add_topmost ?acc ds" by simp
  moreover have "set (foldl add_topmost ?acc ds) \<subseteq> set acc \<union> set (d # ds)" using ih(2) sub(2) by auto
  moreover have "\<forall>x \<in> set (d # ds). \<exists>a \<in> set (foldl add_topmost ?acc ds). x = a \<or> below a x"
    using ih(1,4) sub(3) by (metis set_ConsD subsetD)
  ultimately show ?case using ih(1,3) sub(1) by (metis order_trans)
qed simp

interpretation shortest_order: ordered_sort "compare_shortest localeCompare" length for localeCompare
  by unfold_locales (auto simp: compare_shortest_def split: if_splits)

text \<open>The topmost directories of a set are members of it, none lies below another, and every member is one of them or below one.\<close>

theorem topmost_cover:
  "set (topmostDirectories localeCompare directories) \<subseteq> set directories \<and>
   (\<forall>a \<in> set (topmostDirectories localeCompare directories). \<forall>b \<in> set (topmostDirectories localeCompare directories). \<not> below a b) \<and>
   (\<forall>d \<in> set directories. \<exists>a \<in> set (topmostDirectories localeCompare directories). d = a \<or> below a d)"
proof -
  let ?ds = "js_sort (compare_shortest localeCompare) (uniq directories)"
  have "sorted (map length ?ds)" by (rule shortest_order.sorted_by_key)
  then have "sorted_wrt (\<lambda>a b. length a \<le> length b) ?ds" by (simp add: sorted_map)
  from topmost_fold [OF this, of "[]"] show ?thesis by (simp add: topmostDirectories_def)
qed

end
