(* ===== verification/ReadinessSampler.thy ===== *)
theory ReadinessSampler
  imports Prelude
begin

text \<open>
  \<^verbatim>\<open>src/server/readinessSampler.ts\<close>: the sampler that runs the deep readiness check at most once at a time, and the projection of
  its newest completed sample as the health the dashboard shows. Times are milliseconds; \<open>checked_at\<close> is the time itself, whose
  ISO text the code shows. A sampler is a state and each entry point of the class a function on it; a run of the sampler is a list
  of events in the order in which they happen. Shown: at most one check is in flight and none starts after closing, the listener is
  told exactly of the changes of the verdict (\<open>sampler_single_flight\<close>), and health is shown as ready exactly when the newest
  completed check reported so, recently enough, and nothing overrides it (\<open>health_ready\<close>).
\<close>

definition READINESS_SAMPLE_INTERVAL_MS :: int where "READINESS_SAMPLE_INTERVAL_MS = 5 * 60 * 1000"
definition READINESS_STALE_AFTER_MS :: int where "READINESS_STALE_AFTER_MS = 2 * READINESS_SAMPLE_INTERVAL_MS"
definition READINESS_IN_FLIGHT_SLACK_MS :: int where "READINESS_IN_FLIGHT_SLACK_MS = 2 * READINESS_SAMPLE_INTERVAL_MS"

datatype readiness_source = Sampler | Startup | Request

datatype check_name = Metadata | MetadataStore | Git | SetupComplete | Migrations | GitStore | TempWorkspace
  | FilesystemPermissions | EventDelivery | PersistentState

type_synonym readiness_checks = "check_name \<Rightarrow> bool"

definition CHECKS :: "check_name list" where
  "CHECKS = [Metadata, MetadataStore, Git, SetupComplete, Migrations, GitStore, TempWorkspace, FilesystemPermissions, EventDelivery, PersistentState]"

datatype readiness_status = Ready | NotReady

record readiness_summary =
  rs_status :: readiness_status
  rs_checks :: readiness_checks
  rs_detail :: "string option"
  rs_git_version :: string

datatype health_state = Verified | HealthNotReady | Stale | Pending | HealthFailed

record dashboard_health = readiness_summary +
  checked_at :: "int option"
  is_checking :: bool
  stale :: bool
  health_state :: health_state

record sample_view =
  vw_summary :: "readiness_summary option"
  vw_completedAtMs :: "int option"
  vw_failed :: bool
  vw_checking :: bool

datatype failed_checks = AllFailed | SomeFailed "check_name list"

record readiness_override =
  ov_detail :: string
  failedChecks :: failed_checks

definition allChecks :: "bool \<Rightarrow> readiness_checks" where
  "allChecks v = (\<lambda>name. name = Metadata \<or> v)"

definition overriddenChecks :: "readiness_checks option \<Rightarrow> readiness_override \<Rightarrow> readiness_checks" where
  "overriddenChecks base ov =
     (case (failedChecks ov, base) of
        (SomeFailed names, Some checks) \<Rightarrow> foldl (\<lambda>checks name. checks(name := False)) checks names
      | _ \<Rightarrow> allChecks False)"

definition applyReadinessOverride :: "readiness_summary \<Rightarrow> readiness_override option \<Rightarrow> readiness_summary" where
  "applyReadinessOverride summary ov =
     (case ov of
        None \<Rightarrow> summary
      | Some ov \<Rightarrow> \<lparr>rs_status = NotReady, rs_checks = overriddenChecks (Some (rs_checks summary)) ov, rs_detail = Some (ov_detail ov),
          rs_git_version = (if failedChecks ov = AllFailed then ''unknown'' else rs_git_version summary)\<rparr>)"

text \<open>The time for which a completed sample counts: longer while a new one is being taken.\<close>

definition stale_after :: "sample_view \<Rightarrow> int \<Rightarrow> int" where
  "stale_after view base =
     (if vw_checking view then max base (READINESS_SAMPLE_INTERVAL_MS + READINESS_IN_FLIGHT_SLACK_MS) else base)"

definition is_stale :: "sample_view \<Rightarrow> int \<Rightarrow> int \<Rightarrow> bool" where
  "is_stale view now base =
     (case vw_completedAtMs view of
        None \<Rightarrow> True
      | Some c \<Rightarrow> now - c > stale_after view base \<or> now < c - stale_after view base)"

definition health ::
  "sample_view \<Rightarrow> bool \<Rightarrow> readiness_status \<Rightarrow> readiness_checks \<Rightarrow> string option \<Rightarrow> string \<Rightarrow> health_state \<Rightarrow> dashboard_health" where
  "health view st status checks detail version hs =
     \<lparr>rs_status = status, rs_checks = checks, rs_detail = detail, rs_git_version = version,
      checked_at = vw_completedAtMs view, is_checking = vw_checking view, stale = st, health_state = hs\<rparr>"

definition projectDashboardHealth ::
  "sample_view \<Rightarrow> int \<Rightarrow> int option \<Rightarrow> readiness_override option \<Rightarrow> dashboard_health" where
  "projectDashboardHealth view now staleAfterMs ov =
     (let base = (case staleAfterMs of None \<Rightarrow> READINESS_STALE_AFTER_MS | Some ms \<Rightarrow> ms); st = is_stale view now base in
      case ov of
        Some ov \<Rightarrow> health view st NotReady
          (overriddenChecks (if st then None else map_option rs_checks (vw_summary view)) ov) (Some (ov_detail ov))
          (case vw_summary view of None \<Rightarrow> ''unknown'' | Some sm \<Rightarrow> rs_git_version sm) HealthNotReady
      | None \<Rightarrow>
          if vw_completedAtMs view = None then
            health view st NotReady (allChecks False) (Some ''readiness has not been checked yet'') ''unknown'' Pending
          else (case (vw_failed view, vw_summary view) of
            (False, Some sm) \<Rightarrow>
              if st then health view st NotReady (allChecks False) (Some ''the last readiness check is out of date'') (rs_git_version sm) Stale
              else health view st (rs_status sm) (rs_checks sm) (rs_detail sm) (rs_git_version sm)
                     (if rs_status sm = Ready then Verified else HealthNotReady)
          | _ \<Rightarrow> health view st NotReady (allChecks False) (Some ''the last readiness check could not complete'') ''unknown'' HealthFailed))"

text \<open>The key is the JSON text of these; the checks are listed in the order of their properties.\<close>

definition readinessVerdictKey :: "dashboard_health \<Rightarrow> readiness_status \<times> health_state \<times> bool list \<times> string option" where
  "readinessVerdictKey h = (rs_status h, health_state h, map (rs_checks h) CHECKS, rs_detail h)"

section \<open>The sampler\<close>

text \<open>\<open>inFlight\<close> holds the number of the run in flight, \<open>runs\<close> who began each run so far; \<open>verdict_changes\<close> and \<open>failures\<close> count the
  calls of the listeners.\<close>

record sampler =
  inFlight :: "nat option"
  timer :: bool
  closed :: bool
  summary :: "readiness_summary option"
  completedAtMs :: "int option"
  failed :: bool
  verdict :: "readiness_status \<times> health_state \<times> bool list \<times> string option"
  runs :: "readiness_source list"
  verdict_changes :: nat
  failures :: nat

definition view :: "sampler \<Rightarrow> sample_view" where
  "view s = \<lparr>vw_summary = summary s, vw_completedAtMs = completedAtMs s, vw_failed = failed s, vw_checking = inFlight s \<noteq> None\<rparr>"

definition verdict_at :: "sample_view \<Rightarrow> int \<Rightarrow> readiness_status \<times> health_state \<times> bool list \<times> string option" where
  "verdict_at v now = readinessVerdictKey (projectDashboardHealth v now None None)"

definition new_sampler :: "int \<Rightarrow> sampler" where
  "new_sampler now =
     (let s = \<lparr>inFlight = None, timer = False, closed = False, summary = None, completedAtMs = None, failed = False,
               verdict = (NotReady, Pending, [], None), runs = [], verdict_changes = 0, failures = 0\<rparr>
      in s\<lparr>verdict := verdict_at (view s) now\<rparr>)"

text \<open>\<open>sample\<close>: the run whose result the caller waits for, or \<open>None\<close> for the rejection of a closed sampler.\<close>

definition sample :: "readiness_source \<Rightarrow> sampler \<Rightarrow> nat option \<times> sampler" where
  "sample source s =
     (if closed s then (None, s)
      else (case inFlight s of
              Some n \<Rightarrow> (Some n, s)
            | None \<Rightarrow> (Some (length (runs s)), s\<lparr>inFlight := Some (length (runs s)), runs := runs s @ [source]\<rparr>)))"

definition start :: "sampler \<Rightarrow> sampler" where
  "start s = (if closed s \<or> timer s then s else (snd (sample Startup s))\<lparr>timer := True\<rparr>)"

definition record_sample :: "readiness_summary option \<Rightarrow> bool \<Rightarrow> int \<Rightarrow> sampler \<Rightarrow> sampler" where
  "record_sample sm f now s =
     (let s' = s\<lparr>summary := sm, failed := f, completedAtMs := Some now\<rparr>; v = verdict_at (view s') now in
      if v = verdict s then s' else s'\<lparr>verdict := v, verdict_changes := verdict_changes s + 1\<rparr>)"

text \<open>The run in flight comes back, with a summary or with an error.\<close>

definition run_finished :: "readiness_summary option \<Rightarrow> int \<Rightarrow> sampler \<Rightarrow> sampler" where
  "run_finished outcome now s =
     (case outcome of
        Some sm \<Rightarrow> (record_sample (Some sm) False now s)\<lparr>inFlight := None\<rparr>
      | None \<Rightarrow> (record_sample None True now s)\<lparr>failures := failures s + 1, inFlight := None\<rparr>)"

definition close_sampler :: "sampler \<Rightarrow> sampler" where
  "close_sampler s = s\<lparr>closed := True, timer := False\<rparr>"

datatype sampler_event = Start | Tick | Sample readiness_source | Finished "readiness_summary option" int | Close

fun sampler_enabled :: "sampler \<Rightarrow> sampler_event \<Rightarrow> bool" where
  "sampler_enabled s Tick = timer s"
| "sampler_enabled s (Finished _ _) = (inFlight s \<noteq> None)"
| "sampler_enabled s _ = True"

fun sampler_step :: "sampler \<Rightarrow> sampler_event \<Rightarrow> sampler" where
  "sampler_step s Start = start s"
| "sampler_step s Tick = snd (sample Sampler s)"
| "sampler_step s (Sample source) = snd (sample source s)"
| "sampler_step s (Finished outcome now) = run_finished outcome now s"
| "sampler_step s Close = close_sampler s"

abbreviation sampler_run :: "int \<Rightarrow> sampler_event list \<Rightarrow> sampler \<Rightarrow> bool" where
  "sampler_run now \<equiv> event_run (new_sampler now) sampler_enabled sampler_step"

section \<open>Lemmas\<close>

text \<open>The newest completed check of a list of events.\<close>

fun last_finished :: "sampler_event list \<Rightarrow> (readiness_summary option \<times> int) option" where
  "last_finished [] = None"
| "last_finished (ev # evs) = (case last_finished evs of
      Some f \<Rightarrow> Some f
    | None \<Rightarrow> (case ev of Finished outcome now \<Rightarrow> Some (outcome, now) | _ \<Rightarrow> None))"

lemma last_finished_snoc:
  "last_finished (evs @ [ev]) = (case ev of Finished outcome now \<Rightarrow> Some (outcome, now) | _ \<Rightarrow> last_finished evs)"
  by (induction evs) (auto split: sampler_event.splits option.splits)

fun finished_count :: "sampler_event list \<Rightarrow> nat" where
  "finished_count [] = 0"
| "finished_count (ev # evs) = (case ev of Finished _ _ \<Rightarrow> 1 | _ \<Rightarrow> 0) + finished_count evs"

lemma finished_count_append [simp]: "finished_count (a @ b) = finished_count a + finished_count b"
  by (induction a) auto

definition sampled :: "sampler_event list \<Rightarrow> sampler \<Rightarrow> bool" where
  "sampled evs s \<longleftrightarrow>
     (case last_finished evs of
        None \<Rightarrow> summary s = None \<and> completedAtMs s = None \<and> \<not> failed s
      | Some (outcome, now) \<Rightarrow> summary s = outcome \<and> completedAtMs s = Some now \<and> failed s = (outcome = None))"

lemmas sampler_defs = start_def sample_def record_sample_def run_finished_def close_sampler_def Let_def

interpretation samples: event_machine "new_sampler now" sampler_enabled sampler_step sampled for now
proof
  show "sampled [] (new_sampler now)" by (simp add: sampled_def new_sampler_def Let_def)
  show "sampled (evs @ [ev]) (sampler_step s ev)" if "sampled evs s" for evs s ev
    using that by (cases ev) (auto simp: sampled_def last_finished_snoc sampler_defs split: option.splits if_splits)
qed

text \<open>The verdict does not depend on whether a check is in flight at the time of a completion.\<close>

lemma not_stale_at_completion: "vw_completedAtMs v = Some now \<Longrightarrow> \<not> is_stale v now READINESS_STALE_AFTER_MS"
  by (simp add: is_stale_def stale_after_def READINESS_STALE_AFTER_MS_def READINESS_SAMPLE_INTERVAL_MS_def READINESS_IN_FLIGHT_SLACK_MS_def)

text \<open>What a completed check amounts to, and the verdicts in the order of the completions, after the one of a new sampler.\<close>

definition outcome_verdict :: "readiness_summary option \<Rightarrow> readiness_status \<times> health_state \<times> bool list \<times> string option" where
  "outcome_verdict outcome =
     (case outcome of
        Some sm \<Rightarrow> (rs_status sm, if rs_status sm = Ready then Verified else HealthNotReady, map (rs_checks sm) CHECKS, rs_detail sm)
      | None \<Rightarrow> (NotReady, HealthFailed, map (allChecks False) CHECKS, Some ''the last readiness check could not complete''))"

fun verdicts_from :: "readiness_status \<times> health_state \<times> bool list \<times> string option \<Rightarrow> sampler_event list \<Rightarrow>
    (readiness_status \<times> health_state \<times> bool list \<times> string option) \<times> nat" where
  "verdicts_from v [] = (v, 0)"
| "verdicts_from v (Finished outcome now # evs) =
     (let (last, n) = verdicts_from (outcome_verdict outcome) evs in (last, n + (if outcome_verdict outcome = v then 0 else 1)))"
| "verdicts_from v (_ # evs) = verdicts_from v evs"

definition pending_verdict :: "readiness_status \<times> health_state \<times> bool list \<times> string option" where
  "pending_verdict = (NotReady, Pending, map (allChecks False) CHECKS, Some ''readiness has not been checked yet'')"

lemma verdicts_snoc:
  "verdicts_from v (evs @ [ev]) = (case ev of
      Finished outcome now \<Rightarrow> (outcome_verdict outcome,
        snd (verdicts_from v evs) + (if outcome_verdict outcome = fst (verdicts_from v evs) then 0 else 1))
    | _ \<Rightarrow> verdicts_from v evs)"
  by (induction v evs rule: verdicts_from.induct) (auto split: sampler_event.splits prod.splits)

lemma verdict_new: "verdict (new_sampler now) = pending_verdict"
  by (simp add: new_sampler_def Let_def verdict_at_def readinessVerdictKey_def projectDashboardHealth_def view_def health_def pending_verdict_def)

lemma verdict_record: "verdict_at (view (s\<lparr>summary := outcome, failed := (outcome = None), completedAtMs := Some now\<rparr>)) now = outcome_verdict outcome"
  using not_stale_at_completion [of "view (s\<lparr>summary := outcome, failed := (outcome = None), completedAtMs := Some now\<rparr>)" now]
  by (auto simp: verdict_at_def readinessVerdictKey_def projectDashboardHealth_def Let_def view_def health_def outcome_verdict_def split: option.splits)

lemma run_finished_verdict:
  "verdict (run_finished outcome now s) = outcome_verdict outcome"
  "verdict_changes (run_finished outcome now s) = verdict_changes s + (if outcome_verdict outcome = verdict s then 0 else 1)"
  using verdict_record [where s = s and outcome = outcome and now = now] by (cases outcome; simp add: run_finished_def record_sample_def Let_def; fail)+

interpretation verdicts: event_machine "new_sampler now" sampler_enabled sampler_step
  "\<lambda>evs s. (verdict s, verdict_changes s) = verdicts_from pending_verdict evs" for now
proof
  show "(verdict (new_sampler now), verdict_changes (new_sampler now)) = verdicts_from pending_verdict []"
    by (simp add: verdict_new) (simp add: new_sampler_def Let_def)
  show "(verdict (sampler_step s ev), verdict_changes (sampler_step s ev)) = verdicts_from pending_verdict (evs @ [ev])"
    if "(verdict s, verdict_changes s) = verdicts_from pending_verdict evs" for evs s ev
  proof (cases ev)
    case (Finished outcome t)
    with that show ?thesis by (simp add: verdicts_snoc run_finished_verdict) (metis fst_conv snd_conv)
  qed (use that in \<open>auto simp: verdicts_snoc start_def sample_def close_sampler_def split: option.splits\<close>)
qed

definition one_flight :: "sampler_event list \<Rightarrow> sampler \<Rightarrow> bool" where
  "one_flight evs s \<longleftrightarrow> length (runs s) = finished_count evs + (if inFlight s = None then 0 else 1) \<and>
     (\<forall>n. inFlight s = Some n \<longrightarrow> Suc n = length (runs s)) \<and> (closed s \<longrightarrow> \<not> timer s)"

interpretation flights: event_machine "new_sampler now" sampler_enabled sampler_step one_flight for now
proof
  show "one_flight [] (new_sampler now)" by (simp add: one_flight_def new_sampler_def Let_def)
  show "one_flight (evs @ [ev]) (sampler_step s ev)" if "one_flight evs s" "sampler_enabled s ev" for evs s ev
    using that by (cases ev) (auto simp: one_flight_def sampler_defs split: option.splits if_splits)
qed

text \<open>However starting, ticks of the timer, requests, completions and closing interleave, at most one check is in flight: each
  run but the one in flight has completed, and callers that come meanwhile wait for that one. A closed sampler has no timer and
  begins no run. The listener is called once for each completion whose verdict differs from the one before.\<close>

theorem sampler_single_flight:
  assumes "sampler_run now evs s"
  shows "length (runs s) = finished_count evs + (if inFlight s = None then 0 else 1) \<and>
     (\<forall>n. inFlight s = Some n \<longrightarrow> Suc n = length (runs s) \<and> (\<forall>src. \<not> closed s \<longrightarrow> sample src s = (Some n, s))) \<and>
     (closed s \<longrightarrow> \<not> timer s \<and> (\<forall>ev. closed (sampler_step s ev) \<and> runs (sampler_step s ev) = runs s)) \<and>
     verdict_changes s = snd (verdicts_from pending_verdict evs)"
proof -
  have "one_flight evs s" using assms by (rule flights.run_inv)
  moreover have "closed (sampler_step s ev) \<and> runs (sampler_step s ev) = runs s" if "closed s" for ev
    using that by (cases ev) (auto simp: sampler_defs split: option.splits)
  moreover have "sample src s = (Some n, s)" if "inFlight s = Some n" "\<not> closed s" for n src
    using that by (simp add: sample_def)
  moreover have "verdict_changes s = snd (verdicts_from pending_verdict evs)"
    using verdicts.run_inv [OF assms] by (metis snd_conv)
  ultimately show ?thesis unfolding one_flight_def by blast
qed

text \<open>The dashboard shows the server as ready exactly when nothing overrides it and the newest completed check reported ready at a time
  within the threshold of now, which is the given one, or at least fifteen minutes while a new check is in flight. A failing check, an
  older one, and a server that has not completed any are never shown as ready.\<close>

theorem health_ready:
  assumes "sampler_run now0 evs s"
  shows "rs_status (projectDashboardHealth (view s) now staleAfterMs ov) = Ready \<longleftrightarrow>
     ov = None \<and> (\<exists>sm c. last_finished evs = Some (Some sm, c) \<and> rs_status sm = Ready \<and>
       (let base = (case staleAfterMs of None \<Rightarrow> 600000 | Some ms \<Rightarrow> ms);
            threshold = (if inFlight s = None then base else max base 900000) in \<bar>now - c\<bar> \<le> threshold))"
proof -
  have v: "vw_summary (view s) = summary s" "vw_completedAtMs (view s) = completedAtMs s" "vw_failed (view s) = failed s"
    "vw_checking (view s) \<longleftrightarrow> inFlight s \<noteq> None" by (simp_all add: view_def)
  have const: "READINESS_STALE_AFTER_MS = 600000" "READINESS_SAMPLE_INTERVAL_MS + READINESS_IN_FLIGHT_SLACK_MS = 900000"
    by (simp_all add: READINESS_STALE_AFTER_MS_def READINESS_SAMPLE_INTERVAL_MS_def READINESS_IN_FLIGHT_SLACK_MS_def)
  have st: "is_stale (view s) now base \<longleftrightarrow> (case completedAtMs s of None \<Rightarrow> True
      | Some c \<Rightarrow> \<not> \<bar>now - c\<bar> \<le> (if inFlight s = None then base else max base 900000))" for base
    by (auto simp: is_stale_def stale_after_def v const split: option.splits)
  note facts = samples.run_inv [OF assms, unfolded sampled_def]
  show ?thesis
  proof (cases "ov = None \<and> (\<exists>sm c. last_finished evs = Some (Some sm, c))")
    case True
    then obtain sm c where "ov = None" "last_finished evs = Some (Some sm, c)" by blast
    with facts show ?thesis
      by (cases staleAfterMs; cases "inFlight s") (simp_all add: projectDashboardHealth_def Let_def st v const health_def)
  next
    case False
    then consider ov' where "ov = Some ov'" | "ov = None" "last_finished evs = None" | c where "ov = None" "last_finished evs = Some (None, c)"
      by (metis not_Some_eq surj_pair)
    then show ?thesis
      using facts by cases (simp_all add: projectDashboardHealth_def Let_def v health_def)
  qed
qed

definition demo_summary :: readiness_summary where
  "demo_summary = \<lparr>rs_status = Ready, rs_checks = (\<lambda>_. True), rs_detail = None, rs_git_version = ''2.43.0''\<rparr>"

text \<open>A start, a completed check, and a request whose check is in flight.\<close>

lemma demo_run:
  "sampler_run 0 [Start, Finished (Some demo_summary) 1000, Sample Request]
     (foldl sampler_step (new_sampler 0) [Start, Finished (Some demo_summary) 1000, Sample Request])"
proof -
  let ?s0 = "new_sampler 0"
  have 1: "sampler_run 0 ([] @ [Start]) (sampler_step ?s0 Start)" by (intro event_run.intros) simp
  have "sampler_enabled (sampler_step ?s0 Start) (Finished (Some demo_summary) 1000)"
    by (simp add: start_def sample_def new_sampler_def Let_def)
  from event_run.run_step [OF event_run.run_step [OF 1 this], of "Sample Request"] show ?thesis by simp
qed

theorem sampler_single_flight_witness:
  "length (runs (foldl sampler_step (new_sampler 0) [Start, Finished (Some demo_summary) 1000, Sample Request])) = 1 + 1 \<and>
   verdict_changes (foldl sampler_step (new_sampler 0) [Start, Finished (Some demo_summary) 1000, Sample Request]) = 1"
proof -
  have "inFlight (foldl sampler_step (new_sampler 0) [Start, Finished (Some demo_summary) 1000, Sample Request]) \<noteq> None" by code_simp
  moreover have "snd (verdicts_from pending_verdict [Start, Finished (Some demo_summary) 1000, Sample Request]) = 1" by code_simp
  ultimately show ?thesis using sampler_single_flight [OF demo_run] by simp
qed

theorem health_ready_witness:
  "rs_status (projectDashboardHealth (view (foldl sampler_step (new_sampler 0) [Start, Finished (Some demo_summary) 1000, Sample Request]))
     800000 None None) = Ready"
proof -
  have "inFlight (foldl sampler_step (new_sampler 0) [Start, Finished (Some demo_summary) 1000, Sample Request]) \<noteq> None" by code_simp
  then show ?thesis by (subst health_ready [OF demo_run]) (simp add: demo_summary_def)
qed

end
