(* ===== verification/PathMutationGate.thy ===== *)
theory PathMutationGate
  imports Prelude
begin

text \<open>
  The same-instance exclusion gate of \<^verbatim>\<open>obsidian-plugin/src/path-mutation-gate.cjs\<close>: path
  normalisation and footprints, the claim queue (\<open>active\<close>, \<open>pending\<close>, \<open>pump\<close>), the life cycle of
  one \<open>withExclusive\<close> call, the installation of the wrappers on the adapter, and their retirement.
  The gate's callbacks interleave, so its runs are an inductive step relation; the claim queue is
  stated as a locale over any symmetric conflict relation and interpreted on \<open>conflicts\<close>.
\<close>

section \<open>Paths and footprints\<close>

definition gate_segment :: "string list \<Rightarrow> string \<Rightarrow> string list" where
  "gate_segment segments segment =
     (if segment = [] \<or> segment = ''.'' then segments
      else if segment = ''..'' then butlast segments
      else segments @ [segment])"

definition gate_normalize :: "(string \<Rightarrow> string) \<Rightarrow> string \<Rightarrow> string" where
  "gate_normalize nfc value =
     js_join ''/'' (foldl gate_segment [] (js_split CHR ''/'' (nfc (js_replaceChar CHR 0x5C CHR ''/'' value))))"

definition footprint :: "(string \<Rightarrow> string) \<Rightarrow> (string \<Rightarrow> string) \<Rightarrow> string list \<Rightarrow> string list" where
  "footprint nfc lower paths =
     uniq (map lower (filter (\<lambda>key. key \<noteq> ''.obts'' \<and> \<not> js_startsWith key ''.obts/'')
       (map (gate_normalize nfc) paths)))"

definition key_conflict :: "string \<Rightarrow> string \<Rightarrow> bool" where
  "key_conflict a b \<longleftrightarrow>
     a = [] \<or> b = [] \<or> a = b \<or> js_startsWith a (b @ ''/'') \<or> js_startsWith b (a @ ''/'')"

definition conflicts :: "string list \<Rightarrow> string list \<Rightarrow> bool" where
  "conflicts left right \<longleftrightarrow> list_ex (\<lambda>a. list_ex (\<lambda>b. key_conflict a b) right) left"

section \<open>The claim queue\<close>

record claim =
  claim_id :: nat
  keys :: "string list"

text \<open>One pass of \<open>pump\<close>: \<open>before\<close> is the part of \<open>pending\<close> the index has passed.\<close>

fun pump_from :: "claim list \<Rightarrow> claim list \<Rightarrow> claim list \<Rightarrow> claim list \<times> claim list" where
  "pump_from act before [] = (act, before)"
| "pump_from act before (c # rest) =
     (if list_ex (\<lambda>other. conflicts (keys c) (keys other)) act
         \<or> list_ex (\<lambda>other. conflicts (keys c) (keys other)) before
      then pump_from act (before @ [c]) rest
      else pump_from (act @ [c]) before rest)"

section \<open>The adapter and the installed wrappers\<close>

text \<open>A function stored on the adapter: a native one (or another plugin's wrapper), or a wrapper
  that carries this module's marker and its capture's original.\<close>

datatype afn = Native nat | Marked nat afn

fun unwrap :: "afn \<Rightarrow> afn" where
  "unwrap (Native n) = Native n"
| "unwrap (Marked g f) = unwrap f"

record adapter =
  own :: "string \<rightharpoonup> afn"
  proto :: "string \<rightharpoonup> afn"

definition adapter_method :: "adapter \<Rightarrow> string \<Rightarrow> afn option" where
  "adapter_method a m = (case own a m of Some f \<Rightarrow> Some f | None \<Rightarrow> proto a m)"

record capture =
  cmethod :: string
  original :: afn
  descriptor :: "afn option"
  enabled :: bool

definition METHODS :: "string list" where
  "METHODS = [''write'', ''writeBinary'', ''append'', ''appendBinary'', ''process'', ''mkdir'', ''remove'',
     ''rmdir'', ''rename'', ''copy'', ''trashLocal'', ''trashSystem'', ''writeBinaryExclusive'']"

definition capture_method :: "nat \<Rightarrow> adapter \<times> capture list \<Rightarrow> string \<Rightarrow> adapter \<times> capture list" where
  "capture_method g = (\<lambda>(a, cs) m.
     case adapter_method a m of
       None \<Rightarrow> (a, cs)
     | Some f \<Rightarrow>
         (a\<lparr>own := (own a)(m \<mapsto> Marked g (unwrap f))\<rparr>,
          cs @ [\<lparr>cmethod = m, original = unwrap f, descriptor = own a m, enabled = True\<rparr>]))"

definition restore_method :: "nat \<Rightarrow> adapter \<Rightarrow> capture \<Rightarrow> adapter" where
  "restore_method g a c =
     (if adapter_method a (cmethod c) \<noteq> Some (Marked g (original c)) then a
      else a\<lparr>own := (own a)(cmethod c := descriptor c)\<rparr>)"

text \<open>The paths a wrapped method claims: both endpoints of \<open>rename\<close> and \<open>copy\<close>, else the first.\<close>

definition wrapper_paths :: "string \<Rightarrow> string list \<Rightarrow> string list" where
  "wrapper_paths m args = (if m = ''rename'' \<or> m = ''copy'' then take 2 args else take 1 args)"

text \<open>A wrapper call: \<open>None\<close> when its capture is disabled and the original is called directly, else
  the paths \<open>withExclusive\<close> is called with.\<close>

definition wrapper_call :: "capture \<Rightarrow> string list \<Rightarrow> string list option" where
  "wrapper_call c args = (if \<not> enabled c then None else Some (wrapper_paths (cmethod c) args))"

section \<open>The gate\<close>

text \<open>\<open>entered\<close> holds the calls that await \<open>ready\<close>, \<open>unclaimed\<close> the running calls whose footprint
  is empty; a call whose claim is granted runs while its claim is active.\<close>

record gate =
  gate_id :: nat
  active :: "claim list"
  pending :: "claim list"
  owners :: "nat list"
  retiring :: bool
  admitted :: nat
  entered :: "(nat \<times> string list) list"
  unclaimed :: "nat list"
  captures :: "capture list"
  registered :: bool
  adapter_of :: adapter
  next_id :: nat

definition finishRetirement :: "gate \<Rightarrow> gate" where
  "finishRetirement s =
     (if \<not> retiring s \<or> owners s \<noteq> [] \<or> admitted s \<noteq> 0 \<or> active s \<noteq> [] \<or> pending s \<noteq> [] then s
      else s\<lparr>adapter_of := foldl (restore_method (gate_id s)) (adapter_of s) (captures s),
             captures := map (\<lambda>c. c\<lparr>enabled := False\<rparr>) (captures s),
             registered := False\<rparr>)"

definition pump :: "gate \<Rightarrow> gate" where
  "pump s = (case pump_from (active s) [] (pending s) of (act, pend) \<Rightarrow> s\<lparr>active := act, pending := pend\<rparr>)"

definition withExclusive_enter :: "string list \<Rightarrow> gate \<Rightarrow> gate" where
  "withExclusive_enter paths s =
     s\<lparr>admitted := Suc (admitted s), entered := entered s @ [(next_id s, paths)], next_id := Suc (next_id s)\<rparr>"

definition withExclusive_claim ::
  "(string \<Rightarrow> string) \<Rightarrow> (string \<Rightarrow> string) \<Rightarrow> nat \<Rightarrow> string list \<Rightarrow> gate \<Rightarrow> gate" where
  "withExclusive_claim nfc lower i paths s =
     (let ks = footprint nfc lower paths;
          s' = s\<lparr>entered := filter (\<lambda>e. e \<noteq> (i, paths)) (entered s)\<rparr>
      in if ks = [] then s'\<lparr>unclaimed := unclaimed s' @ [i]\<rparr>
         else pump (s'\<lparr>pending := pending s' @ [\<lparr>claim_id = i, keys = ks\<rparr>]\<rparr>))"

definition release_claim :: "nat \<Rightarrow> gate \<Rightarrow> gate" where
  "release_claim i s =
     finishRetirement (pump (s\<lparr>active := filter (\<lambda>c. claim_id c \<noteq> i) (active s)\<rparr>))"

definition withExclusive_finish :: "nat \<Rightarrow> gate \<Rightarrow> gate" where
  "withExclusive_finish i s =
     (let s' = (if i \<in> set (unclaimed s) then s\<lparr>unclaimed := filter (\<lambda>j. j \<noteq> i) (unclaimed s)\<rparr>
                else release_claim i s)
      in finishRetirement (s'\<lparr>admitted := admitted s' - 1\<rparr>))"

definition acquire :: "nat \<Rightarrow> gate \<Rightarrow> gate" where
  "acquire token s = s\<lparr>owners := owners s @ [token], retiring := False\<rparr>"

text \<open>\<open>release()\<close> of a handle: a second call of the same handle does nothing.\<close>

definition release_owner :: "nat \<Rightarrow> gate \<Rightarrow> gate" where
  "release_owner token s =
     (if token \<notin> set (owners s) then s
      else let os = filter (\<lambda>t. t \<noteq> token) (owners s)
           in finishRetirement (s\<lparr>owners := os, retiring := (os = [])\<rparr>))"

definition createGate :: "nat \<Rightarrow> adapter \<Rightarrow> gate" where
  "createGate g a =
     (case foldl (capture_method g) (a, []) METHODS of (a', cs) \<Rightarrow>
        \<lparr>gate_id = g, active = [], pending = [], owners = [], retiring = False, admitted = 0,
         entered = [], unclaimed = [], captures = cs, registered = False, adapter_of = a', next_id = 0\<rparr>)"

text \<open>The registry maps the adapter to its gate; \<open>reg\<close> is that entry.\<close>

definition installPathMutationGate :: "nat \<Rightarrow> nat \<Rightarrow> adapter \<Rightarrow> gate option \<Rightarrow> gate" where
  "installPathMutationGate g token a reg =
     (case reg of Some s \<Rightarrow> acquire token s
      | None \<Rightarrow> acquire token ((createGate g a)\<lparr>registered := True\<rparr>))"

section \<open>Runs\<close>

inductive gate_step :: "(string \<Rightarrow> string) \<Rightarrow> (string \<Rightarrow> string) \<Rightarrow> gate \<Rightarrow> gate \<Rightarrow> bool"
  for nfc lower where
  step_enter: "gate_step nfc lower s (withExclusive_enter paths s)"
| step_claim: "(i, paths) \<in> set (entered s) \<Longrightarrow> gate_step nfc lower s (withExclusive_claim nfc lower i paths s)"
| step_finish: "i \<in> set (unclaimed s) \<or> i \<in> claim_id ` set (active s) \<Longrightarrow>
     gate_step nfc lower s (withExclusive_finish i s)"
| step_acquire: "registered s \<Longrightarrow> token \<notin> set (owners s) \<Longrightarrow> gate_step nfc lower s (acquire token s)"
| step_release: "gate_step nfc lower s (release_owner token s)"

inductive gate_reachable :: "(string \<Rightarrow> string) \<Rightarrow> (string \<Rightarrow> string) \<Rightarrow> gate \<Rightarrow> bool"
  for nfc lower where
  reach_install: "gate_reachable nfc lower (installPathMutationGate g token a None)"
| reach_step: "gate_reachable nfc lower s \<Longrightarrow> gate_step nfc lower s t \<Longrightarrow> gate_reachable nfc lower t"

section \<open>Paths: segments and conflicts\<close>

definition proper_segment :: "string \<Rightarrow> bool" where
  "proper_segment s \<longleftrightarrow> s \<noteq> [] \<and> s \<noteq> ''.'' \<and> s \<noteq> ''..'' \<and> CHR ''/'' \<notin> set s"

lemma gate_segments_proper:
  assumes "\<forall>s\<in>set segs. CHR ''/'' \<notin> set s" and "\<forall>s\<in>set acc. proper_segment s"
  shows "\<forall>s\<in>set (foldl gate_segment acc segs). proper_segment s"
  using assms
proof (induction segs arbitrary: acc)
  case (Cons x segs)
  have "\<forall>s\<in>set (gate_segment acc x). proper_segment s"
    using Cons.prems by (auto simp: gate_segment_def proper_segment_def dest: in_set_butlastD)
  then show ?case using Cons by simp
qed simp

lemma gate_segments_fixed:
  "\<forall>s\<in>set segs. proper_segment s \<Longrightarrow> foldl gate_segment acc segs = acc @ segs"
  by (induction segs arbitrary: acc) (auto simp: gate_segment_def proper_segment_def)

lemma gate_normalize_segments:
  "\<exists>segs. gate_normalize nfc v = js_join ''/'' segs \<and> (\<forall>s\<in>set segs. proper_segment s)"
  unfolding gate_normalize_def
  by (rule exI, rule conjI [OF refl], rule gate_segments_proper) (auto dest: js_split_segment)

lemma js_join_Nil_iff: "\<forall>s\<in>set segs. s \<noteq> [] \<Longrightarrow> js_join sep segs = [] \<longleftrightarrow> segs = []"
  by (cases segs) (auto simp: js_join_Cons simp del: js_join.simps(3))

lemma js_join_prefix:
  "js_startsWith (js_join ''/'' (xs @ y # ys)) (js_join ''/'' xs @ ''/'') \<longleftrightarrow> xs \<noteq> []"
  if "\<forall>s\<in>set (y # ys). proper_segment s"
proof -
  have "js_join sep (x # xs @ y # ys) = js_join sep (x # xs) @ sep @ js_join sep (y # ys)" for sep x xs
    by (induction xs arbitrary: x) auto
  moreover have "\<not> js_startsWith (js_join ''/'' (y # ys)) ''/''"
    using that by (cases y) (auto simp: js_startsWith_iff js_join_Cons proper_segment_def simp del: js_join.simps)
  ultimately show ?thesis by (cases xs) (auto simp: js_startsWith_iff)
qed

lemma segments_prefix:
  assumes "\<forall>s\<in>set xs. proper_segment s" and "\<forall>s\<in>set ys. proper_segment s"
    and "xs \<noteq> []" and "js_join ''/'' ys = js_join ''/'' xs @ ''/'' @ t"
  shows "prefix xs ys"
  using assms
proof (induction xs arbitrary: ys)
  case (Cons x xs)
  have split: "js_split CHR ''/'' (js_join ''/'' ys) = (if ys = [] then [[]] else ys)"
    using Cons.prems(2) by (auto simp: proper_segment_def)
  have "CHR ''/'' \<notin> set x" using Cons.prems(1) by (simp add: proper_segment_def)
  show ?case
  proof (cases xs)
    case Nil
    then have "js_split CHR ''/'' (js_join ''/'' ys) = x # js_split CHR ''/'' t"
      using Cons.prems(4) js_split_append [OF \<open>CHR ''/'' \<notin> set x\<close>] by simp
    with split have "ys = x # js_split CHR ''/'' t" using Cons.prems(1)
      by (auto simp: proper_segment_def split: if_splits)
    with Nil show ?thesis by simp
  next
    case (Cons x' xs')
    then have eq: "js_join ''/'' ys = x @ CHR ''/'' # (js_join ''/'' xs @ ''/'' @ t)"
      using Cons.prems(4) by simp
    then have "js_split CHR ''/'' (js_join ''/'' ys) = x # js_split CHR ''/'' (js_join ''/'' xs @ ''/'' @ t)"
      using js_split_append [OF \<open>CHR ''/'' \<notin> set x\<close>] by simp
    with split obtain ys' where ys: "ys = x # ys'" "ys' = js_split CHR ''/'' (js_join ''/'' xs @ ''/'' @ t)"
      using Cons.prems(1) by (auto simp: proper_segment_def split: if_splits)
    then have "js_join ''/'' ys' = js_join ''/'' xs @ ''/'' @ t" by simp
    with Cons.IH [of ys'] ys Cons Cons.prems show ?thesis by auto
  qed
qed simp

lemma key_conflict_segments:
  assumes xs: "\<forall>s\<in>set xs. proper_segment s" and ys: "\<forall>s\<in>set ys. proper_segment s"
  shows "key_conflict (js_join ''/'' xs) (js_join ''/'' ys) \<longleftrightarrow> prefix xs ys \<or> prefix ys xs"
proof -
  have nil: "js_join ''/'' xs = [] \<longleftrightarrow> xs = []" "js_join ''/'' ys = [] \<longleftrightarrow> ys = []"
    using xs ys by (auto simp: js_join_Nil_iff proper_segment_def)
  have "as \<noteq> [] \<Longrightarrow> \<forall>s\<in>set as. proper_segment s \<Longrightarrow> js_split CHR ''/'' (js_join ''/'' as) = as" for as
    by (simp add: proper_segment_def)
  then have eq: "js_join ''/'' xs = js_join ''/'' ys \<longleftrightarrow> xs = ys"
    using xs ys nil by metis
  have pre: "js_startsWith (js_join ''/'' bs) (js_join ''/'' as @ ''/'') \<longleftrightarrow> strict_prefix as bs"
    if "as \<noteq> []" "\<forall>s\<in>set as. proper_segment s" "\<forall>s\<in>set bs. proper_segment s" for as bs
  proof
    assume l: "js_startsWith (js_join ''/'' bs) (js_join ''/'' as @ ''/'')"
    then obtain t where t: "js_join ''/'' bs = js_join ''/'' as @ ''/'' @ t" by (auto simp: js_startsWith_iff)
    then have "as \<noteq> bs" by auto
    with t that show "strict_prefix as bs" by (meson segments_prefix strict_prefixI)
  next
    assume "strict_prefix as bs"
    then obtain y zs where "bs = as @ y # zs" by (auto elim: strict_prefixE')
    then show "js_startsWith (js_join ''/'' bs) (js_join ''/'' as @ ''/'')"
      using js_join_prefix [of y zs as] that by auto
  qed
  show ?thesis
    using nil eq pre [of xs ys] pre [of ys xs] xs ys unfolding key_conflict_def
    by (cases "xs = [] \<or> ys = []") (auto simp: strict_prefix_def)
qed

lemma key_conflict_sym: "key_conflict a b \<longleftrightarrow> key_conflict b a"
  by (auto simp: key_conflict_def)

lemma conflicts_sym: "conflicts xs ys \<Longrightarrow> conflicts ys xs"
  unfolding conflicts_def list_ex_iff using key_conflict_sym by blast

section \<open>The interface of the claim queue\<close>

definition exclusive :: "('c \<Rightarrow> 'c \<Rightarrow> bool) \<Rightarrow> 'c list \<Rightarrow> bool" where
  "exclusive conflict act \<longleftrightarrow> sorted_wrt (\<lambda>c d. \<not> conflict c d) act"

definition blocked :: "('c \<Rightarrow> 'c \<Rightarrow> bool) \<Rightarrow> 'c list \<Rightarrow> 'c list \<Rightarrow> bool" where
  "blocked conflict act p \<longleftrightarrow> (\<forall>xs c ys. p = xs @ c # ys \<longrightarrow> (\<exists>other\<in>set (act @ xs). conflict c other))"

definition precedes :: "'c \<Rightarrow> 'c \<Rightarrow> 'c list \<Rightarrow> bool" where
  "precedes d c p \<longleftrightarrow> (\<exists>xs ys zs. p = xs @ d # ys @ c # zs)"

text \<open>What the gate needs of \<open>pump\<close>: it moves pending claims to the active ones and nothing else,
  keeps the active claims free of conflicts, leaves no claim waiting without a reason, and lets no
  claim overtake an earlier one it conflicts with.\<close>

locale claim_queue =
  fixes conflict :: "'c \<Rightarrow> 'c \<Rightarrow> bool"
    and run :: "'c list \<Rightarrow> 'c list \<Rightarrow> 'c list \<times> 'c list"
  assumes conflict_sym: "conflict x y \<Longrightarrow> conflict y x"
    and run_moves: "run act pend = (a, p) \<Longrightarrow> \<exists>granted. a = act @ granted \<and> mset granted + mset p = mset pend"
    and run_exclusive: "run act pend = (a, p) \<Longrightarrow> exclusive conflict act \<Longrightarrow> exclusive conflict a"
    and run_blocked: "run act pend = (a, p) \<Longrightarrow> blocked conflict a p"
    and run_fifo: "run act pend = (a, p) \<Longrightarrow> distinct pend \<Longrightarrow> precedes d c pend \<Longrightarrow> conflict c d \<Longrightarrow>
      d \<in> set p \<Longrightarrow> precedes d c p"
begin

lemma run_set: "run act pend = (a, p) \<Longrightarrow> set a \<union> set p = set act \<union> set pend"
proof -
  assume "run act pend = (a, p)"
  then obtain granted where "a = act @ granted" "mset granted + mset p = mset pend"
    using run_moves by blast
  then show ?thesis by (metis Un_assoc set_append set_mset_mset set_mset_union)
qed

lemma run_length: "run act pend = (a, p) \<Longrightarrow> length a + length p = length act + length pend"
  using run_moves [of act pend a p] by (metis add.assoc length_append size_mset size_union)

lemma not_stuck: "run act pend = (a, p) \<Longrightarrow> p \<noteq> [] \<Longrightarrow> \<exists>other\<in>set a. conflict (hd p) other"
  using run_blocked [of act pend a p] unfolding blocked_def
  by (metis append_Nil append_Nil2 list.collapse)

lemma idle_queue_empty: "run act pend = ([], p) \<Longrightarrow> p = []"
  using not_stuck [of act pend "[]" p] by auto

lemma exclusive_filter: "exclusive conflict act \<Longrightarrow> exclusive conflict (filter P act)"
  by (simp add: exclusive_def sorted_wrt_filter)

lemma exclusive_conflict:
  "exclusive conflict act \<Longrightarrow> c \<in> set act \<Longrightarrow> d \<in> set act \<Longrightarrow> conflict c d \<Longrightarrow> c = d"
proof (induction act)
  case (Cons x act)
  then show ?case unfolding exclusive_def using conflict_sym by auto
qed simp

end

section \<open>The pump provides the interface\<close>

lemma pump_from_moves:
  "pump_from act before rest = (a, p) \<Longrightarrow> \<exists>granted. a = act @ granted \<and> mset granted + mset p = mset before + mset rest"
proof (induction act before rest rule: pump_from.induct)
  case (2 act before c rest)
  then show ?case by (auto split: if_splits)
qed auto

abbreviation claim_conflict :: "claim \<Rightarrow> claim \<Rightarrow> bool" where
  "claim_conflict c d \<equiv> conflicts (keys c) (keys d)"

lemma pump_from_exclusive:
  "pump_from act before rest = (a, p) \<Longrightarrow> exclusive claim_conflict act \<Longrightarrow> exclusive claim_conflict a"
proof (induction act before rest rule: pump_from.induct)
  case (2 act before c rest)
  then show ?case
    by (auto simp: exclusive_def sorted_wrt_append list_ex_iff split: if_splits dest: conflicts_sym)
qed auto

lemma blocked_snoc:
  "blocked conflict act p \<Longrightarrow> \<exists>other\<in>set (act @ p). conflict c other \<Longrightarrow> blocked conflict act (p @ [c])"
  unfolding blocked_def by (auto simp: append_eq_append_conv2 append_eq_Cons_conv Cons_eq_append_conv)

lemma blocked_mono: "blocked conflict act p \<Longrightarrow> blocked conflict (act @ act') p"
  unfolding blocked_def by fastforce

lemma pump_from_blocked:
  "pump_from act before rest = (a, p) \<Longrightarrow> blocked claim_conflict act before \<Longrightarrow> blocked claim_conflict a p"
proof (induction act before rest rule: pump_from.induct)
  case (2 act before c rest)
  show ?case
  proof (cases "list_ex (claim_conflict c) act \<or> list_ex (claim_conflict c) before")
    case True
    then have "blocked claim_conflict act (before @ [c])"
      using 2(4) by (intro blocked_snoc) (auto simp: list_ex_iff)
    with True 2 show ?thesis by simp
  next
    case False
    with 2 show ?thesis by (simp add: blocked_mono)
  qed
qed auto

lemma precedes_iff: "precedes d c p \<longleftrightarrow> (\<exists>xs ys. p = xs @ d # ys \<and> c \<in> set ys)"
  by (auto simp: precedes_def in_set_conv_decomp)

lemma precedes_filter: "precedes d c p \<Longrightarrow> P d \<Longrightarrow> P c \<Longrightarrow> precedes d c (filter P p)"
  unfolding precedes_iff by force

lemma precedes_set: "precedes d c p \<Longrightarrow> d \<in> set p \<and> c \<in> set p"
  by (auto simp: precedes_iff)

lemma precedes_before: "distinct (xs @ c # ys) \<Longrightarrow> precedes d c (xs @ c # ys) \<Longrightarrow> d \<in> set xs"
  unfolding precedes_iff by (auto simp: append_eq_append_conv2 Cons_eq_append_conv append_eq_Cons_conv)

lemma precedes_append: "precedes d c p \<Longrightarrow> precedes d c (p @ q)"
  unfolding precedes_iff by force

lemma pump_from_fifo:
  "pump_from act before rest = (a, p) \<Longrightarrow> distinct (before @ rest) \<Longrightarrow> precedes d c (before @ rest) \<Longrightarrow>
   claim_conflict c d \<Longrightarrow> d \<in> set p \<Longrightarrow> precedes d c p"
proof (induction act before rest rule: pump_from.induct)
  case (2 act before x rest)
  show ?case
  proof (cases "list_ex (claim_conflict x) act \<or> list_ex (claim_conflict x) before")
    case True
    with 2 show ?thesis by simp
  next
    case False
    then have pump': "pump_from (act @ [x]) before rest = (a, p)" using 2(3) by simp
    have "set p \<subseteq> set (before @ rest)"
      using pump_from_moves [OF pump'] by (metis UnCI set_append set_mset_mset set_mset_union subsetI)
    with 2 have "d \<noteq> x" by auto
    have "c \<noteq> x"
    proof
      assume "c = x"
      with 2 have "d \<in> set before" by (metis precedes_before)
      with False \<open>c = x\<close> 2 show False by (auto simp: list_ex_iff)
    qed
    have "filter (\<lambda>y. y \<noteq> x) before = before" "filter (\<lambda>y. y \<noteq> x) rest = rest"
      using 2(4) by (auto simp: filter_id_conv)
    then have "before @ rest = filter (\<lambda>y. y \<noteq> x) (before @ x # rest)" by simp
    then have "precedes d c (before @ rest)"
      using precedes_filter [OF 2(5), of "\<lambda>y. y \<noteq> x"] \<open>d \<noteq> x\<close> \<open>c \<noteq> x\<close> by simp
    with False 2 pump' show ?thesis by simp
  qed
qed auto

interpretation gq: claim_queue claim_conflict "\<lambda>act pend. pump_from act [] pend"
proof
  show "conflicts (keys y) (keys x)" if "conflicts (keys x) (keys y)" for x y
    using that by (rule conflicts_sym)
next
  fix act pend a p
  assume run: "pump_from act [] pend = (a, p)"
  show "\<exists>granted. a = act @ granted \<and> mset granted + mset p = mset pend"
    using pump_from_moves [OF run] by simp
  show "exclusive claim_conflict a" if "exclusive claim_conflict act"
    using run that by (rule pump_from_exclusive)
  show "blocked claim_conflict a p"
    using run by (rule pump_from_blocked) (simp add: blocked_def)
  show "precedes d c p" if "distinct pend" "precedes d c pend" "claim_conflict c d" "d \<in> set p" for d c
    using pump_from_fifo [OF run] that by simp
qed

section \<open>The invariant of the gate\<close>

definition gate_ids :: "gate \<Rightarrow> nat list" where
  "gate_ids s = map fst (entered s) @ map claim_id (active s) @ map claim_id (pending s) @ unclaimed s"

definition gate_inv :: "gate \<Rightarrow> bool" where
  "gate_inv s \<longleftrightarrow>
     exclusive claim_conflict (active s) \<and> blocked claim_conflict (active s) (pending s) \<and>
     admitted s = length (gate_ids s) \<and> distinct (gate_ids s) \<and> (\<forall>i\<in>set (gate_ids s). i < next_id s) \<and>
     (owners s \<noteq> [] \<longrightarrow> registered s \<and> \<not> retiring s) \<and> (registered s \<longrightarrow> (\<forall>c\<in>set (captures s). enabled c))"

lemma finishRetirement_fields [simp]:
  "active (finishRetirement s) = active s" "pending (finishRetirement s) = pending s"
  "owners (finishRetirement s) = owners s" "admitted (finishRetirement s) = admitted s"
  "entered (finishRetirement s) = entered s" "unclaimed (finishRetirement s) = unclaimed s"
  "next_id (finishRetirement s) = next_id s" "retiring (finishRetirement s) = retiring s"
  "gate_ids (finishRetirement s) = gate_ids s"
  by (simp_all add: finishRetirement_def gate_ids_def)

lemma pump_fields [simp]:
  "owners (pump s) = owners s" "admitted (pump s) = admitted s" "entered (pump s) = entered s"
  "unclaimed (pump s) = unclaimed s" "next_id (pump s) = next_id s" "retiring (pump s) = retiring s"
  "registered (pump s) = registered s" "captures (pump s) = captures s"
  by (simp_all add: pump_def split: prod.splits)

lemma pump_run: "pump_from (active s) [] (pending s) = (active (pump s), pending (pump s))"
  by (simp add: pump_def split: prod.splits)

lemma finishRetirement_inv: "gate_inv s \<Longrightarrow> gate_inv (finishRetirement s)"
  by (auto simp: gate_inv_def) (auto simp: finishRetirement_def split: if_splits)

lemma mset_gate_ids_pump: "mset (gate_ids (pump s)) = mset (gate_ids s)"
proof -
  obtain granted where g: "active (pump s) = active s @ granted" "mset granted + mset (pending (pump s)) = mset (pending s)"
    using gq.run_moves [OF pump_run] by blast
  have "mset (map claim_id granted) + mset (map claim_id (pending (pump s))) = mset (map claim_id (pending s))"
    unfolding mset_map g(2) [symmetric] by simp
  with g(1) show ?thesis by (simp add: gate_ids_def)
qed

lemma pump_inv:
  assumes "exclusive claim_conflict (active s)" and "admitted s = length (gate_ids s)"
    and "distinct (gate_ids s)" and "\<forall>i\<in>set (gate_ids s). i < next_id s"
    and "owners s \<noteq> [] \<longrightarrow> registered s \<and> \<not> retiring s" and "registered s \<longrightarrow> (\<forall>c\<in>set (captures s). enabled c)"
  shows "gate_inv (pump s)"
proof -
  have "length (gate_ids (pump s)) = length (gate_ids s)" "set (gate_ids (pump s)) = set (gate_ids s)"
    "distinct (gate_ids (pump s)) = distinct (gate_ids s)"
    using mset_gate_ids_pump [of s] by (metis size_mset, metis set_mset_mset, metis mset_eq_imp_distinct_iff)
  with assms gq.run_exclusive [OF pump_run] gq.run_blocked [OF pump_run] show ?thesis
    by (simp add: gate_inv_def)
qed

lemma mset_filter_key:
  assumes "distinct (map f xs)" and "x \<in> set xs"
  shows "add_mset (f x) (mset (map f (filter (\<lambda>y. f y \<noteq> f x) xs))) = mset (map f xs)"
proof -
  obtain as bs where xs: "xs = as @ x # bs" using assms(2) by (auto simp: in_set_conv_decomp)
  with assms(1) have "f x \<notin> f ` set as" "f x \<notin> f ` set bs" by auto
  then have "filter (\<lambda>y. f y \<noteq> f x) as = as" "filter (\<lambda>y. f y \<noteq> f x) bs = bs"
    by (metis (mono_tags, lifting) filter_True image_eqI)+
  with xs show ?thesis by simp
qed

lemma mset_list_facts:
  assumes "mset xs = mset ys"
  shows "length xs = length ys" "set xs = set ys" "distinct xs = distinct ys"
  using assms by (metis size_mset, metis set_mset_mset, metis mset_eq_imp_distinct_iff)

lemma enter_inv: "gate_inv s \<Longrightarrow> gate_inv (withExclusive_enter paths s)"
  by (auto simp: gate_inv_def withExclusive_enter_def gate_ids_def less_SucI)

lemma claim_inv:
  assumes inv: "gate_inv s" and mem: "(i, paths) \<in> set (entered s)"
  shows "gate_inv (withExclusive_claim nfc lower i paths s)"
proof -
  have d: "distinct (map fst (entered s))" using inv by (simp add: gate_inv_def gate_ids_def)
  then have "filter (\<lambda>e. e \<noteq> (i, paths)) (entered s) = filter (\<lambda>e. fst e \<noteq> i) (entered s)"
    using mem by (intro filter_cong) (auto dest: eq_key_imp_eq_value)
  then have ms: "add_mset i (mset (map fst (filter (\<lambda>e. e \<noteq> (i, paths)) (entered s)))) = mset (map fst (entered s))"
    using mset_filter_key [OF d mem] by simp
  let ?s = "s\<lparr>entered := filter (\<lambda>e. e \<noteq> (i, paths)) (entered s)\<rparr>"
  show ?thesis
  proof (cases "footprint nfc lower paths = []")
    case True
    let ?t = "?s\<lparr>unclaimed := unclaimed ?s @ [i]\<rparr>"
    have "mset (gate_ids ?t) = mset (gate_ids s)" using ms by (simp add: gate_ids_def)
    from mset_list_facts [OF this] have "gate_inv ?t" using inv by (simp add: gate_inv_def)
    with True show ?thesis by (simp add: withExclusive_claim_def)
  next
    case False
    let ?t = "?s\<lparr>pending := pending ?s @ [\<lparr>claim_id = i, keys = footprint nfc lower paths\<rparr>]\<rparr>"
    have "mset (gate_ids ?t) = mset (gate_ids s)" using ms by (simp add: gate_ids_def)
    from mset_list_facts [OF this] have "gate_inv (pump ?t)"
      using inv by (intro pump_inv) (simp_all add: gate_inv_def)
    with False show ?thesis by (simp add: withExclusive_claim_def Let_def)
  qed
qed

lemma release_ids:
  assumes "gate_inv s" and "i \<in> claim_id ` set (active s)"
  shows "add_mset i (mset (gate_ids (s\<lparr>active := filter (\<lambda>c. claim_id c \<noteq> i) (active s)\<rparr>))) = mset (gate_ids s)"
proof -
  obtain c where c: "c \<in> set (active s)" "i = claim_id c" using assms(2) by auto
  have "distinct (map claim_id (active s))" using assms(1) by (simp add: gate_inv_def gate_ids_def)
  from mset_filter_key [OF this c(1)] show ?thesis by (simp add: gate_ids_def c(2))
qed

lemma finish_unclaimed_inv:
  assumes inv: "gate_inv s" and i: "i \<in> set (unclaimed s)"
  shows "gate_inv (s\<lparr>unclaimed := filter (\<lambda>j. j \<noteq> i) (unclaimed s), admitted := admitted s - 1\<rparr>)"
proof -
  let ?t = "s\<lparr>unclaimed := filter (\<lambda>j. j \<noteq> i) (unclaimed s)\<rparr>"
  have "distinct (map id (unclaimed s))" using inv by (simp add: gate_inv_def gate_ids_def)
  from mset_filter_key [OF this i] have "mset (i # gate_ids ?t) = mset (gate_ids s)"
    by (simp add: gate_ids_def)
  from mset_list_facts [OF this] have "admitted s = Suc (length (gate_ids ?t))" "distinct (gate_ids ?t)"
    "\<forall>j\<in>set (gate_ids ?t). j < next_id s"
    using inv by (auto simp: gate_inv_def)
  with inv show ?thesis by (simp add: gate_inv_def gate_ids_def)
qed

lemma finish_inv:
  assumes inv: "gate_inv s" and i: "i \<in> set (unclaimed s) \<or> i \<in> claim_id ` set (active s)"
  shows "gate_inv (withExclusive_finish i s)"
proof (cases "i \<in> set (unclaimed s)")
  case True
  with finish_unclaimed_inv [OF inv True] show ?thesis
    by (simp add: withExclusive_finish_def finishRetirement_inv)
next
  case False
  let ?t = "s\<lparr>active := filter (\<lambda>c. claim_id c \<noteq> i) (active s)\<rparr>"
  from False i have "mset (i # gate_ids ?t) = mset (gate_ids s)"
    using release_ids [OF inv] by simp
  from mset_list_facts [OF this] have pre: "admitted s = Suc (length (gate_ids ?t))" "distinct (gate_ids ?t)"
    "\<forall>j\<in>set (gate_ids ?t). j < next_id s"
    using inv by (auto simp: gate_inv_def)
  have "gate_inv (pump (?t\<lparr>admitted := admitted s - 1\<rparr>))"
    using inv pre gq.exclusive_filter by (intro pump_inv) (auto simp: gate_inv_def gate_ids_def)
  moreover have "pump (?t\<lparr>admitted := admitted s - 1\<rparr>) = (pump ?t)\<lparr>admitted := admitted s - 1\<rparr>"
    by (simp add: pump_def split: prod.splits)
  moreover have "finishRetirement (pump ?t) = pump ?t"
    using pre(1) by (simp add: finishRetirement_def)
  ultimately show ?thesis
    using False by (simp add: withExclusive_finish_def release_claim_def finishRetirement_inv)
qed

lemma acquire_inv: "gate_inv s \<Longrightarrow> registered s \<Longrightarrow> gate_inv (acquire token s)"
  by (auto simp: gate_inv_def acquire_def gate_ids_def)

lemma release_owner_inv: "gate_inv s \<Longrightarrow> gate_inv (release_owner token s)"
proof -
  assume inv: "gate_inv s"
  then have "gate_inv (s\<lparr>owners := filter (\<lambda>t. t \<noteq> token) (owners s), retiring := (filter (\<lambda>t. t \<noteq> token) (owners s) = [])\<rparr>)"
    by (auto simp: gate_inv_def gate_ids_def)
  with inv show ?thesis by (simp add: release_owner_def Let_def finishRetirement_inv)
qed

lemma gate_step_inv: "gate_step nfc lower s t \<Longrightarrow> gate_inv s \<Longrightarrow> gate_inv t"
  by (induction rule: gate_step.induct)
    (auto intro: enter_inv claim_inv finish_inv acquire_inv release_owner_inv)

lemma capture_enabled:
  "\<forall>c\<in>set cs. enabled c \<Longrightarrow> foldl (capture_method g) (a, cs) ms = (a', cs') \<Longrightarrow> \<forall>c\<in>set cs'. enabled c"
proof (induction ms arbitrary: a cs)
  case (Cons m ms)
  obtain a1 cs1 where one: "capture_method g (a, cs) m = (a1, cs1)" by fastforce
  with Cons.prems(1) have "\<forall>c\<in>set cs1. enabled c"
    by (auto simp: capture_method_def split: option.splits)
  with one Cons show ?case by simp
qed simp

lemma install_inv: "gate_inv (installPathMutationGate g token a None)"
  using capture_enabled [of "[]" g a METHODS]
  by (auto simp: gate_inv_def installPathMutationGate_def createGate_def acquire_def gate_ids_def
      exclusive_def blocked_def split: prod.splits)

lemma gate_reachable_inv: "gate_reachable nfc lower s \<Longrightarrow> gate_inv s"
  by (induction rule: gate_reachable.induct) (auto intro: install_inv gate_step_inv)

section \<open>Installing and retiring the wrappers\<close>

lemma unwrap_Native: "\<exists>n. unwrap f = Native n"
  by (induction f) auto

text \<open>The wrapper a capture installed is what the adapter holds afterwards, and the capture knows
  the own property it replaced.\<close>

definition captured :: "nat \<Rightarrow> adapter \<Rightarrow> adapter \<Rightarrow> capture list \<Rightarrow> bool" where
  "captured g a a' cs \<longleftrightarrow> distinct (map cmethod cs) \<and> proto a' = proto a \<and>
     (\<forall>c\<in>set cs. own a' (cmethod c) = Some (Marked g (original c)) \<and> descriptor c = own a (cmethod c)) \<and>
     (\<forall>m. m \<notin> cmethod ` set cs \<longrightarrow> own a' m = own a m)"

lemma captured_step:
  assumes "captured g a a' cs" and "m \<notin> cmethod ` set cs" and "capture_method g (a', cs) m = (a1, cs1)"
  shows "captured g a a1 cs1 \<and> cmethod ` set cs1 \<subseteq> insert m (cmethod ` set cs)"
  using assms unfolding captured_def capture_method_def
  by (fastforce split: option.splits)

lemma captured_all:
  assumes "captured g a a' cs" and "distinct ms" and "set ms \<inter> cmethod ` set cs = {}"
    and "foldl (capture_method g) (a', cs) ms = (a2, cs2)"
  shows "captured g a a2 cs2"
  using assms
proof (induction ms arbitrary: a' cs)
  case (Cons m ms)
  obtain a1 cs1 where one: "capture_method g (a', cs) m = (a1, cs1)" by fastforce
  with Cons.prems have "captured g a a1 cs1" "cmethod ` set cs1 \<subseteq> insert m (cmethod ` set cs)"
    using captured_step [of g a a' cs m a1 cs1] by auto
  moreover from this have "set ms \<inter> cmethod ` set cs1 = {}" using Cons.prems by auto
  ultimately show ?case using one Cons by simp
qed simp

lemma restore_captured: "captured g a a' cs \<Longrightarrow> own (foldl (restore_method g) a' cs) = own a \<and> proto (foldl (restore_method g) a' cs) = proto a"
proof (induction cs arbitrary: a')
  case Nil
  then show ?case by (auto simp: captured_def)
next
  case (Cons c cs)
  have "restore_method g a' c = a'\<lparr>own := (own a')(cmethod c := own a (cmethod c))\<rparr>"
    using Cons.prems by (simp add: captured_def restore_method_def adapter_method_def)
  moreover have "captured g a (a'\<lparr>own := (own a')(cmethod c := own a (cmethod c))\<rparr>) cs"
    using Cons.prems unfolding captured_def by (auto simp: image_iff)
  ultimately show ?case using Cons.IH by simp
qed

lemma createGate_captured: "captured g a (adapter_of (createGate g a)) (captures (createGate g a))"
proof -
  obtain a' cs where f: "foldl (capture_method g) (a, []) METHODS = (a', cs)" by fastforce
  have "captured g a a' cs"
    by (rule captured_all [OF _ _ _ f]) (simp_all add: captured_def METHODS_def)
  with f show ?thesis by (simp add: createGate_def)
qed

section \<open>Progress of the gate\<close>

lemma idle_gate: "gate_inv s \<Longrightarrow> active s = [] \<Longrightarrow> pending s = []"
  unfolding gate_inv_def blocked_def by (metis append_Nil empty_iff list.exhaust list.set(1))

lemma finish_active_count:
  assumes inv: "gate_inv s" and c: "c \<in> set (active s)"
  shows "length (active (withExclusive_finish (claim_id c) s)) + length (pending (withExclusive_finish (claim_id c) s)) + 1
    = length (active s) + length (pending s)"
proof -
  let ?t = "s\<lparr>active := filter (\<lambda>d. claim_id d \<noteq> claim_id c) (active s)\<rparr>"
  have "claim_id c \<notin> set (unclaimed s)" using inv c by (auto simp: gate_inv_def gate_ids_def)
  then have "active (withExclusive_finish (claim_id c) s) = active (pump ?t)"
    "pending (withExclusive_finish (claim_id c) s) = pending (pump ?t)"
    by (simp_all add: withExclusive_finish_def release_claim_def)
  moreover have "length (active (pump ?t)) + length (pending (pump ?t)) = length (active ?t) + length (pending ?t)"
    using gq.run_length [OF pump_run, of ?t] by simp
  moreover have "mset (claim_id c # gate_ids ?t) = mset (gate_ids s)"
    using release_ids [OF inv] c by simp
  then have "length (claim_id c # gate_ids ?t) = length (gate_ids s)" by (rule mset_list_facts)
  ultimately show ?thesis by (simp add: gate_ids_def)
qed

lemma gate_drains_inv:
  "gate_inv s \<Longrightarrow> \<exists>t. (gate_step nfc lower)\<^sup>*\<^sup>* s t \<and> active t = [] \<and> pending t = []"
proof (induction "length (active s) + length (pending s)" arbitrary: s rule: less_induct)
  case less
  show ?case
  proof (cases "active s")
    case Nil
    with idle_gate less.prems show ?thesis by blast
  next
    case (Cons c cs)
    then have c: "c \<in> set (active s)" by simp
    let ?t = "withExclusive_finish (claim_id c) s"
    have step: "gate_step nfc lower s ?t" using c by (intro gate_step.step_finish) auto
    then have "gate_inv ?t" using less.prems by (rule gate_step_inv)
    moreover have "length (active ?t) + length (pending ?t) < length (active s) + length (pending s)"
      using finish_active_count [OF less.prems c] by simp
    ultimately obtain t where "(gate_step nfc lower)\<^sup>*\<^sup>* ?t t" "active t = []" "pending t = []"
      using less.hyps by blast
    with step show ?thesis by (meson converse_rtranclp_into_rtranclp)
  qed
qed

section \<open>Order of the pending claims\<close>

lemma pump_fifo:
  assumes "distinct (map claim_id (pending s))" and "precedes d c (pending s)" and "claim_conflict c d"
    and "d \<in> set (pending (pump s))"
  shows "precedes d c (pending (pump s))"
  using gq.run_fifo [OF pump_run _ assms(2-4)] assms(1) by (simp add: distinct_map)

lemma gate_step_fifo:
  assumes "gate_step nfc lower s t" and "gate_inv s"
    and "precedes d c (pending s)" and "claim_conflict c d" and "d \<in> set (pending t)"
  shows "precedes d c (pending t)"
  using assms
proof (induction rule: gate_step.induct)
  case (step_claim i paths s)
  let ?s = "s\<lparr>entered := filter (\<lambda>e. e \<noteq> (i, paths)) (entered s)\<rparr>"
  let ?t = "?s\<lparr>pending := pending ?s @ [\<lparr>claim_id = i, keys = footprint nfc lower paths\<rparr>]\<rparr>"
  have "i \<in> fst ` set (entered s)" using step_claim(1) by force
  then have "i \<notin> set (map claim_id (pending s))" "distinct (map claim_id (pending s))"
    using step_claim(2) by (auto simp: gate_inv_def gate_ids_def)
  then have "distinct (map claim_id (pending ?t))" by simp
  moreover have "precedes d c (pending ?t)" using step_claim precedes_append by simp
  ultimately show ?case using step_claim pump_fifo [of ?t d c]
    by (auto simp: withExclusive_claim_def Let_def split: if_splits)
next
  case (step_finish i s)
  let ?t = "s\<lparr>active := filter (\<lambda>c. claim_id c \<noteq> i) (active s)\<rparr>"
  have "distinct (map claim_id (pending ?t))" using step_finish by (simp add: gate_inv_def gate_ids_def)
  with step_finish pump_fifo [of ?t d c] show ?case
    by (auto simp: withExclusive_finish_def release_claim_def Let_def split: if_splits)
qed (auto simp: withExclusive_enter_def acquire_def release_owner_def Let_def)

section \<open>Retirement\<close>

lemma finishRetirement_unregisters:
  "registered u \<Longrightarrow> \<not> registered (finishRetirement u) \<Longrightarrow> owners u = [] \<and> admitted u = 0"
  by (auto simp: finishRetirement_def split: if_splits)

lemma finish_unregisters:
  assumes "registered s" and "\<not> registered (withExclusive_finish i s)"
  shows "owners (withExclusive_finish i s) = [] \<and> admitted (withExclusive_finish i s) = 0"
proof -
  let ?u = "pump (s\<lparr>active := filter (\<lambda>c. claim_id c \<noteq> i) (active s)\<rparr>)"
  define s' where "s' = (if i \<in> set (unclaimed s) then s\<lparr>unclaimed := filter (\<lambda>j. j \<noteq> i) (unclaimed s)\<rparr> else finishRetirement ?u)"
  have fin: "withExclusive_finish i s = finishRetirement (s'\<lparr>admitted := admitted s' - 1\<rparr>)"
    by (simp add: withExclusive_finish_def release_claim_def s'_def)
  show ?thesis
  proof (cases "registered s'")
    case True
    with finishRetirement_unregisters [of "s'\<lparr>admitted := admitted s' - 1\<rparr>"] assms(2) fin show ?thesis by simp
  next
    case False
    then have "owners ?u = [] \<and> admitted ?u = 0"
      using finishRetirement_unregisters [of ?u] assms(1) by (auto simp: s'_def split: if_splits)
    with False show ?thesis using assms(1) by (simp add: fin s'_def split: if_splits)
  qed
qed

lemma gate_step_unregisters:
  assumes "gate_step nfc lower s t" and "registered s" and "\<not> registered t"
  shows "owners t = [] \<and> admitted t = 0"
  using assms
proof (induction rule: gate_step.induct)
  case (step_claim i paths s)
  then show ?case by (auto simp: withExclusive_claim_def Let_def split: if_splits)
next
  case (step_finish i s)
  from step_finish(2,3) show ?case by (rule finish_unregisters)
next
  case (step_release s token)
  then show ?case
    using finishRetirement_unregisters [of "s\<lparr>owners := _, retiring := _\<rparr>"]
    by (simp add: release_owner_def Let_def split: if_splits)
qed (auto simp: withExclusive_enter_def acquire_def)

section \<open>A concrete run\<close>

text \<open>Two calls on siblings below \<open>x\<close> are granted; two on \<open>x\<close> itself wait behind them.\<close>

definition demo_adapter :: adapter where
  "demo_adapter = \<lparr>own = Map.empty, proto = [''write'' \<mapsto> Native 1]\<rparr>"

definition demo_paths :: "string list list" where
  "demo_paths = [[''x/a''], [''X//b''], [''x''], [''x'']]"

definition demo_gate :: "nat \<Rightarrow> gate" where
  "demo_gate n = foldl (\<lambda>s i. withExclusive_claim id latin1_lower i (demo_paths ! i)
       (withExclusive_enter (demo_paths ! i) s)) (installPathMutationGate 7 0 demo_adapter None) [0..<n]"

lemma demo_gate_Suc: "demo_gate (Suc n) = withExclusive_claim id latin1_lower n (demo_paths ! n)
     (withExclusive_enter (demo_paths ! n) (demo_gate n))"
  by (simp add: demo_gate_def)

lemma claim_next_id [simp]: "next_id (withExclusive_claim nfc lower i paths s) = next_id s"
  by (simp add: withExclusive_claim_def Let_def)

lemma demo_gate_next: "next_id (demo_gate n) = n"
  by (induction n)
    (simp_all add: demo_gate_Suc withExclusive_enter_def, simp add: demo_gate_def installPathMutationGate_def
      createGate_def acquire_def split: prod.splits)

lemma demo_gate_reachable: "gate_reachable id latin1_lower (demo_gate n)"
proof (induction n)
  case 0
  show ?case by (simp add: demo_gate_def gate_reachable.reach_install)
next
  case (Suc n)
  then have "gate_reachable id latin1_lower (withExclusive_enter (demo_paths ! n) (demo_gate n))"
    by (rule gate_reachable.reach_step) (rule gate_step.step_enter)
  then show ?case unfolding demo_gate_Suc
    by (rule gate_reachable.reach_step)
      (rule gate_step.step_claim, simp add: withExclusive_enter_def demo_gate_next)
qed

lemma demo_gate_queues:
  "active (demo_gate 4) = [\<lparr>claim_id = 0, keys = [''x/a'']\<rparr>, \<lparr>claim_id = 1, keys = [''x/b'']\<rparr>]"
  "pending (demo_gate 4) = [\<lparr>claim_id = 2, keys = [''x'']\<rparr>, \<lparr>claim_id = 3, keys = [''x'']\<rparr>]"
  by code_simp+

section \<open>Properties\<close>

text \<open>C3. Mutual exclusion of the gate: in every reachable state two different granted claims never
  hold keys where one is the other or lies below it, nor a root key next to any other.\<close>

theorem gate_mutual_exclusion:
  assumes "gate_reachable nfc lower s" and "c \<in> set (active s)" and "d \<in> set (active s)" and "c \<noteq> d"
    and "a \<in> set (keys c)" and "b \<in> set (keys d)"
  shows "\<not> key_conflict a b"
proof
  assume "key_conflict a b"
  then have "claim_conflict c d" using assms(5,6) by (auto simp: conflicts_def list_ex_iff)
  with gate_reachable_inv [OF assms(1)] assms(2-4) show False
    unfolding gate_inv_def using gq.exclusive_conflict by blast
qed

theorem gate_mutual_exclusion_witness:
  "gate_reachable id latin1_lower (demo_gate 4) \<and> \<not> key_conflict ''x/a'' ''x/b''"
proof -
  have "\<lparr>claim_id = 0, keys = [''x/a'']\<rparr> \<in> set (active (demo_gate 4))"
    "\<lparr>claim_id = 1, keys = [''x/b'']\<rparr> \<in> set (active (demo_gate 4))"
    by (simp_all add: demo_gate_queues)
  from gate_mutual_exclusion [OF demo_gate_reachable this, of "''x/a''" "''x/b''"] demo_gate_reachable
  show ?thesis by simp
qed

text \<open>C25. The gate never wedges: from every reachable state the granted calls can finish one after
  the other, and when they have, no claim is left waiting.\<close>

theorem gate_drains:
  assumes "gate_reachable nfc lower s"
  shows "\<exists>t. (gate_step nfc lower)\<^sup>*\<^sup>* s t \<and> active t = [] \<and> pending t = []"
  using gate_reachable_inv [OF assms] by (rule gate_drains_inv)

theorem gate_drains_witness:
  "pending (demo_gate 4) \<noteq> [] \<and>
   (\<exists>t. (gate_step id latin1_lower)\<^sup>*\<^sup>* (demo_gate 4) t \<and> active t = [] \<and> pending t = [])"
  using gate_drains [OF demo_gate_reachable [of 4]] by (simp add: demo_gate_queues)

text \<open>First come, first served among conflicting claims: while an earlier waiting claim is still
  pending, no step grants a later claim that conflicts with it.\<close>

theorem gate_fifo:
  assumes "gate_reachable nfc lower s" and "gate_step nfc lower s t"
    and "precedes d c (pending s)" and "conflicts (keys c) (keys d)" and "d \<in> set (pending t)"
  shows "precedes d c (pending t)"
  using gate_step_fifo [OF assms(2) gate_reachable_inv [OF assms(1)]] assms by simp

theorem gate_fifo_witness:
  "precedes \<lparr>claim_id = 2, keys = [''x'']\<rparr> \<lparr>claim_id = 3, keys = [''x'']\<rparr>
     (pending (withExclusive_finish 0 (demo_gate 4)))"
proof (rule gate_fifo [OF demo_gate_reachable [of 4]])
  show "gate_step id latin1_lower (demo_gate 4) (withExclusive_finish 0 (demo_gate 4))"
    by (rule gate_step.step_finish) (simp add: demo_gate_queues)
  show "precedes \<lparr>claim_id = 2, keys = [''x'']\<rparr> \<lparr>claim_id = 3, keys = [''x'']\<rparr> (pending (demo_gate 4))"
    by (simp add: demo_gate_queues precedes_iff exI [of _ "[]"])
  show "conflicts (keys \<lparr>claim_id = 3, keys = [''x'']\<rparr>) (keys \<lparr>claim_id = 2, keys = [''x'']\<rparr>)"
    by (simp add: conflicts_def key_conflict_def)
  show "\<lparr>claim_id = 2, keys = [''x'']\<rparr> \<in> set (pending (withExclusive_finish 0 (demo_gate 4)))"
    by code_simp
qed

text \<open>The wrappers are retired only when nothing needs them: a step that takes the gate out of
  the registry leaves no owner, no admitted call and no claim behind.\<close>

theorem gate_retires_idle:
  assumes "gate_reachable nfc lower s" and "gate_step nfc lower s t" and "registered s" and "\<not> registered t"
  shows "owners t = [] \<and> admitted t = 0 \<and> entered t = [] \<and> active t = [] \<and> pending t = [] \<and> unclaimed t = []"
proof -
  have "gate_inv t" using gate_step_inv [OF assms(2) gate_reachable_inv [OF assms(1)]] .
  moreover have "owners t = [] \<and> admitted t = 0"
    using assms(2-4) by (rule gate_step_unregisters)
  ultimately show ?thesis by (simp add: gate_inv_def gate_ids_def)
qed

theorem gate_retires_idle_witness:
  "owners (release_owner 0 (demo_gate 0)) = [] \<and> admitted (release_owner 0 (demo_gate 0)) = 0 \<and>
   entered (release_owner 0 (demo_gate 0)) = [] \<and> active (release_owner 0 (demo_gate 0)) = [] \<and>
   pending (release_owner 0 (demo_gate 0)) = [] \<and> unclaimed (release_owner 0 (demo_gate 0)) = []"
proof (rule gate_retires_idle [OF demo_gate_reachable [of 0]])
  show "gate_step id latin1_lower (demo_gate 0) (release_owner 0 (demo_gate 0))"
    by (rule gate_step.step_release)
  show "registered (demo_gate 0)" "\<not> registered (release_owner 0 (demo_gate 0))"
    by code_simp+
qed

text \<open>Retirement undoes installation: restoring the captures of a fresh gate gives the adapter
  exactly the own methods it had before.\<close>

theorem gate_install_restore:
  "own (foldl (restore_method g) (adapter_of (createGate g a)) (captures (createGate g a))) = own a"
  using restore_captured [OF createGate_captured] by simp

end
