(* ===== verification/WorkPool.thy ===== *)
theory WorkPool
  imports Prelude
begin

text \<open>
  The byte budget and the bounded worker pool of \<^verbatim>\<open>obsidian-plugin/src/work-pool.cjs\<close>.
  A budget is a record of its fields; \<open>held\<close> lists the reservations whose release closure has not
  run. \<open>runBoundedWork\<close> starts a fixed number of workers that interleave at their \<open>await\<close>s, so
  its executions are a step relation over the phases of the workers.
\<close>

section \<open>Byte budgets\<close>

record budget =
  maxBytes :: "nat option"  \<comment> \<open>\<open>None\<close> is \<open>Number.POSITIVE_INFINITY\<close>\<close>
  reservedBytes :: int
  waiters :: "(nat \<times> nat) list"
  held :: "(nat \<times> nat) list"

definition createByteBudget :: "jsnum \<Rightarrow> budget" where
  "createByteBudget limit =
     \<lparr>maxBytes = floor_or None Some limit, reservedBytes = 0, waiters = [], held = []\<rparr>"

definition canAcquire :: "budget \<Rightarrow> nat \<Rightarrow> bool" where
  "canAcquire b n = (case maxBytes b of None \<Rightarrow> True | Some m \<Rightarrow> reservedBytes b + int n \<le> int m)"

text \<open>\<open>reserve(bytes)\<close> for the caller \<open>i\<close>: the returned closure is the entry of \<open>held\<close>.\<close>

definition reserve :: "nat \<Rightarrow> nat \<Rightarrow> budget \<Rightarrow> budget" where
  "reserve i n b = b\<lparr>reservedBytes := reservedBytes b + int n, held := held b @ [(i, n)]\<rparr>"

function drain :: "budget \<Rightarrow> budget" where
  "drain b =
     (case waiters b of
        [] \<Rightarrow> b
      | (i, n) # ws \<Rightarrow> if canAcquire b n then drain (reserve i n (b\<lparr>waiters := ws\<rparr>)) else b)"
  by pat_completeness auto
termination
  by (relation "measure (\<lambda>b. length (waiters b))") (auto simp: reserve_def)

datatype budget_error = FileBufferBudgetExceeded nat nat

definition acquire_bytes :: "nat \<Rightarrow> jsnum \<Rightarrow> budget \<Rightarrow> budget_error + budget" where
  "acquire_bytes i requested b =
     (let n = floor_or 0 id requested
      in case maxBytes b of
           Some m \<Rightarrow>
             if m < n then Inl (FileBufferBudgetExceeded n m)
             else if canAcquire b n then Inr (reserve i n b)
             else Inr (drain (b\<lparr>waiters := waiters b @ [(i, n)]\<rparr>))
         | None \<Rightarrow> Inr (reserve i n b))"

text \<open>The release closure of caller \<open>i\<close>; a second call finds \<open>released\<close> set.\<close>

definition release_bytes :: "nat \<Rightarrow> budget \<Rightarrow> budget" where
  "release_bytes i b =
     (case map_of (held b) i of
        None \<Rightarrow> b
      | Some n \<Rightarrow> drain (b\<lparr>reservedBytes := reservedBytes b - int n, held := filter (\<lambda>h. fst h \<noteq> i) (held b)\<rparr>))"

inductive budget_step :: "budget \<Rightarrow> budget \<Rightarrow> bool" where
  bs_acquire: "i \<notin> fst ` set (held b @ waiters b) \<Longrightarrow> acquire_bytes i requested b = Inr b' \<Longrightarrow> budget_step b b'"
| bs_release: "budget_step b (release_bytes i b)"

inductive budget_reachable :: "budget \<Rightarrow> bool" where
  br_start: "budget_reachable (createByteBudget limit)"
| br_step: "budget_reachable b \<Longrightarrow> budget_step b b' \<Longrightarrow> budget_reachable b'"

section \<open>The worker pool\<close>

datatype phase = Idle | Working nat | Done

record ('e, 'r) pool =
  phases :: "phase list"
  nextIndex :: nat
  results :: "'r option list"
  firstError :: "'e option"
  completed :: nat

definition pool_concurrency :: "nat \<Rightarrow> jsnum \<Rightarrow> nat" where
  "pool_concurrency n requested =
     (case requested of
        Finite q \<Rightarrow> max 1 (min n (if q = 0 then 1 else nat \<lfloor>q\<rfloor>))
      | PosInf \<Rightarrow> max 1 n
      | _ \<Rightarrow> 1)"

definition pool_start :: "nat \<Rightarrow> jsnum \<Rightarrow> ('e, 'r) pool" where
  "pool_start n requested =
     \<lparr>phases = replicate (pool_concurrency n requested) Idle, nextIndex = 0, results = replicate n None,
      firstError = None, completed = 0\<rparr>"

text \<open>One resumption of worker \<open>k\<close>. At the loop head it stops on an error, else takes the next
  index; when its item's promise settles it records the result and reports progress. \<open>w\<close> is the
  worker's outcome on an item, \<open>progress\<close> the outcome of \<open>onProgress\<close> (\<open>Some e\<close>: it threw).\<close>

definition pool_resume ::
  "('v \<Rightarrow> nat \<Rightarrow> 'e + 'r) \<Rightarrow> (nat \<Rightarrow> 'e option) \<Rightarrow> 'v list \<Rightarrow> nat \<Rightarrow> ('e, 'r) pool \<Rightarrow> ('e, 'r) pool" where
  "pool_resume w progress items k s =
     (case phases s ! k of
        Done \<Rightarrow> s
      | Idle \<Rightarrow>
          if firstError s \<noteq> None then s\<lparr>phases := (phases s)[k := Done]\<rparr>
          else let i = nextIndex s; s' = s\<lparr>nextIndex := Suc i\<rparr>
               in if i \<ge> length items then s'\<lparr>phases := (phases s)[k := Done]\<rparr>
                  else s'\<lparr>phases := (phases s)[k := Working i]\<rparr>
      | Working i \<Rightarrow>
          let s' = s\<lparr>phases := (phases s)[k := Idle]\<rparr>;
              fail = (\<lambda>t e. if firstError t = None then t\<lparr>firstError := Some e\<rparr> else t)
          in case w (items ! i) i of
               Inl e \<Rightarrow> fail s' e
             | Inr r \<Rightarrow>
                 let s'' = s'\<lparr>results := (results s)[i := Some r], completed := Suc (completed s)\<rparr>
                 in case progress (Suc (completed s)) of
                      None \<Rightarrow> s''
                    | Some e \<Rightarrow> fail s'' e)"

inductive pool_step ::
  "('v \<Rightarrow> nat \<Rightarrow> 'e + 'r) \<Rightarrow> (nat \<Rightarrow> 'e option) \<Rightarrow> 'v list \<Rightarrow> ('e, 'r) pool \<Rightarrow> ('e, 'r) pool \<Rightarrow> bool"
  for w progress items where
  ps_resume: "k < length (phases s) \<Longrightarrow> phases s ! k \<noteq> Done \<Longrightarrow>
     pool_step w progress items s (pool_resume w progress items k s)"

definition pool_done :: "('e, 'r) pool \<Rightarrow> bool" where
  "pool_done s \<longleftrightarrow> (\<forall>p\<in>set (phases s). p = Done)"

text \<open>What \<open>runBoundedWork\<close> returns once every worker is done.\<close>

definition pool_outcome :: "('e, 'r) pool \<Rightarrow> 'e + 'r option list" where
  "pool_outcome s = (case firstError s of Some e \<Rightarrow> Inl e | None \<Rightarrow> Inr (results s))"

text \<open>The executions of \<open>runBoundedWork(items, options, worker)\<close> with a result: an empty list
  returns at once.\<close>

inductive runBoundedWork ::
  "('v \<Rightarrow> nat \<Rightarrow> 'e + 'r) \<Rightarrow> (nat \<Rightarrow> 'e option) \<Rightarrow> 'v list \<Rightarrow> jsnum \<Rightarrow> 'e + 'r option list \<Rightarrow> bool" where
  run_empty: "runBoundedWork w progress [] requested (Inr [])"
| run_work: "items \<noteq> [] \<Longrightarrow> (pool_step w progress items)\<^sup>*\<^sup>* (pool_start (length items) requested) s \<Longrightarrow>
     pool_done s \<Longrightarrow> runBoundedWork w progress items requested (pool_outcome s)"

section \<open>The budget is never exceeded\<close>

declare drain.simps [simp del]

definition budget_sum :: "(nat \<times> nat) list \<Rightarrow> int" where
  "budget_sum hs = (\<Sum>h\<leftarrow>hs. int (snd h))"

definition within_budget :: "budget \<Rightarrow> bool" where
  "within_budget b \<longleftrightarrow> reservedBytes b = budget_sum (held b) \<and> distinct (map fst (held b @ waiters b)) \<and>
     (case maxBytes b of None \<Rightarrow> waiters b = []
      | Some m \<Rightarrow> reservedBytes b \<le> int m \<and> (\<forall>w\<in>set (waiters b). snd w \<le> m))"

definition settled :: "budget \<Rightarrow> bool" where
  "settled b \<longleftrightarrow> (waiters b \<noteq> [] \<longrightarrow> \<not> canAcquire b (snd (hd (waiters b))))"

lemma budget_sum_simps [simp]: "budget_sum [] = 0" "budget_sum (h # hs) = int (snd h) + budget_sum hs"
  "budget_sum (hs @ ks) = budget_sum hs + budget_sum ks"
  by (simp_all add: budget_sum_def)

lemma budget_sum_nonneg [simp]: "0 \<le> budget_sum hs"
  by (induction hs) auto

lemma drain_stop: "settled b \<Longrightarrow> drain b = b"
  by (subst drain.simps) (auto simp: settled_def split: list.splits)

lemma drain_go: "waiters b = (i, n) # ws \<Longrightarrow> canAcquire b n \<Longrightarrow> drain b = drain (reserve i n (b\<lparr>waiters := ws\<rparr>))"
  by (subst drain.simps) simp

lemma drain_induct [case_names stop go]:
  assumes "\<And>b. settled b \<Longrightarrow> P b"
    and "\<And>b i n ws. waiters b = (i, n) # ws \<Longrightarrow> canAcquire b n \<Longrightarrow> P (reserve i n (b\<lparr>waiters := ws\<rparr>)) \<Longrightarrow> P b"
  shows "P (b :: budget)"
proof (induction "length (waiters b)" arbitrary: b rule: less_induct)
  case less
  show ?case
  proof (cases "settled b")
    case False
    then obtain i n ws where w: "waiters b = (i, n) # ws" "canAcquire b n"
      by (cases "waiters b") (auto simp: settled_def)
    then have "P (reserve i n (b\<lparr>waiters := ws\<rparr>))" by (intro less) (simp add: reserve_def)
    with w assms(2) show ?thesis by blast
  qed (rule assms(1))
qed

lemma drain_max [simp]: "maxBytes (drain b) = maxBytes b"
  by (induction b rule: drain_induct) (simp_all add: drain_stop drain_go reserve_def)

lemma drain_settled: "settled (drain b)"
  by (induction b rule: drain_induct) (simp_all add: drain_stop drain_go)

lemma reserve_within:
  assumes "within_budget b" and "waiters b = (i, n) # ws" and "canAcquire b n"
  shows "within_budget (reserve i n (b\<lparr>waiters := ws\<rparr>))"
  using assms by (auto simp: within_budget_def reserve_def canAcquire_def split: option.splits)

lemma drain_within: "within_budget b \<Longrightarrow> within_budget (drain b)"
  by (induction b rule: drain_induct) (simp_all add: drain_stop drain_go reserve_within)

lemma budget_sum_release:
  "distinct (map fst hs) \<Longrightarrow> map_of hs i = Some n \<Longrightarrow>
   budget_sum (filter (\<lambda>h. fst h \<noteq> i) hs) = budget_sum hs - int n"
proof (induction hs)
  case (Cons h hs)
  show ?case
  proof (cases "fst h = i")
    case True
    with Cons.prems have "i \<notin> fst ` set hs" by auto
    then have "filter (\<lambda>h. fst h \<noteq> i) hs = hs" by (metis (mono_tags, lifting) filter_True image_eqI)
    with True Cons.prems show ?thesis by simp
  next
    case False
    with Cons show ?thesis by (cases h) auto
  qed
qed simp

lemma release_within:
  assumes "within_budget b"
  shows "within_budget (release_bytes i b)"
proof (cases "map_of (held b) i")
  case None
  with assms show ?thesis by (simp add: release_bytes_def)
next
  case (Some n)
  let ?b = "b\<lparr>reservedBytes := reservedBytes b - int n, held := filter (\<lambda>h. fst h \<noteq> i) (held b)\<rparr>"
  have "within_budget ?b"
    using assms Some budget_sum_release [of "held b" i n]
    by (auto simp: within_budget_def distinct_map_filter split: option.splits)
  then show ?thesis using Some by (simp add: release_bytes_def drain_within)
qed

lemma acquire_within:
  assumes "within_budget b" and "i \<notin> fst ` set (held b @ waiters b)" and "acquire_bytes i requested b = Inr b'"
  shows "within_budget b'"
proof -
  let ?n = "floor_or 0 id requested"
  show ?thesis
  proof (cases "canAcquire b ?n")
    case True
    then have "b' = reserve i ?n b"
      using assms(3) by (auto simp: acquire_bytes_def Let_def split: option.splits if_splits)
    then show ?thesis using assms(1,2) True
      by (auto simp: within_budget_def reserve_def canAcquire_def split: option.splits)
  next
    case False
    then obtain m where m: "maxBytes b = Some m" "?n \<le> m" "b' = drain (b\<lparr>waiters := waiters b @ [(i, ?n)]\<rparr>)"
      using assms(3) by (auto simp: acquire_bytes_def canAcquire_def Let_def split: option.splits if_splits)
    then have "within_budget (b\<lparr>waiters := waiters b @ [(i, ?n)]\<rparr>)"
      using assms(1,2) by (auto simp: within_budget_def)
    with m show ?thesis by (simp add: drain_within)
  qed
qed

text \<open>No waiter is forgotten: the head of the queue is too large for what is free.\<close>

lemma acquire_settled:
  assumes "settled b" and "acquire_bytes i requested b = Inr b'"
  shows "settled b'"
proof -
  have mono: "settled b \<Longrightarrow> settled (reserve j n b)" for j n
    by (auto simp: settled_def reserve_def canAcquire_def split: option.splits)
  show ?thesis using assms mono drain_settled
    by (auto simp: acquire_bytes_def Let_def split: option.splits if_splits)
qed

lemma budget_reachable_inv: "budget_reachable b \<Longrightarrow> within_budget b \<and> settled b"
proof (induction rule: budget_reachable.induct)
  case (br_start limit)
  show ?case by (auto simp: createByteBudget_def within_budget_def settled_def split: option.splits)
next
  case (br_step b b')
  from br_step(2) show ?case
  proof cases
    case (bs_acquire i requested)
    with br_step.IH show ?thesis by (blast intro: acquire_within acquire_settled)
  next
    case (bs_release i)
    with br_step.IH release_within drain_settled show ?thesis
      by (auto simp: release_bytes_def split: option.splits)
  qed
qed

section \<open>The invariant of the pool\<close>

definition workers_own :: "'v list \<Rightarrow> ('e, 'r) pool \<Rightarrow> bool" where
  "workers_own items s \<longleftrightarrow> (\<forall>k i. k < length (phases s) \<longrightarrow> phases s ! k = Working i \<longrightarrow>
     i < nextIndex s \<and> i < length items \<and> results s ! i = None)"

definition workers_unique :: "('e, 'r) pool \<Rightarrow> bool" where
  "workers_unique s \<longleftrightarrow> (\<forall>j k i. j < length (phases s) \<longrightarrow> k < length (phases s) \<longrightarrow>
     phases s ! j = Working i \<longrightarrow> phases s ! k = Working i \<longrightarrow> j = k)"

definition results_sound :: "('v \<Rightarrow> nat \<Rightarrow> 'e + 'r) \<Rightarrow> 'v list \<Rightarrow> ('e, 'r) pool \<Rightarrow> bool" where
  "results_sound w items s \<longleftrightarrow> length (results s) = length items \<and>
     (\<forall>i r. i < length items \<longrightarrow> results s ! i = Some r \<longrightarrow> i < nextIndex s \<and> w (items ! i) i = Inr r)"

definition items_covered :: "'v list \<Rightarrow> ('e, 'r) pool \<Rightarrow> bool" where
  "items_covered items s \<longleftrightarrow> (\<forall>i. i < length items \<longrightarrow> i < nextIndex s \<longrightarrow> firstError s = None \<longrightarrow>
     results s ! i \<noteq> None \<or> Working i \<in> set (phases s))"

definition done_covered :: "'v list \<Rightarrow> ('e, 'r) pool \<Rightarrow> bool" where
  "done_covered items s \<longleftrightarrow> (firstError s = None \<longrightarrow> Done \<in> set (phases s) \<longrightarrow> length items \<le> nextIndex s)"

definition error_sound :: "('v \<Rightarrow> nat \<Rightarrow> 'e + 'r) \<Rightarrow> (nat \<Rightarrow> 'e option) \<Rightarrow> 'v list \<Rightarrow> ('e, 'r) pool \<Rightarrow> bool" where
  "error_sound w progress items s \<longleftrightarrow> (\<forall>e. firstError s = Some e \<longrightarrow>
     (\<exists>i<length items. w (items ! i) i = Inl e) \<or> (\<exists>k. progress k = Some e))"

definition pool_inv ::
  "('v \<Rightarrow> nat \<Rightarrow> 'e + 'r) \<Rightarrow> (nat \<Rightarrow> 'e option) \<Rightarrow> 'v list \<Rightarrow> ('e, 'r) pool \<Rightarrow> bool" where
  "pool_inv w progress items s \<longleftrightarrow> workers_own items s \<and> workers_unique s \<and> results_sound w items s \<and>
     items_covered items s \<and> done_covered items s \<and> error_sound w progress items s"

lemmas pool_inv_defs = workers_own_def workers_unique_def results_sound_def items_covered_def
  done_covered_def error_sound_def

lemma pool_start_inv: "pool_inv w progress items (pool_start (length items) requested)"
  unfolding pool_inv_def by (auto simp: pool_inv_defs pool_start_def)

lemma in_set_update_other:
  "x \<in> set xs \<Longrightarrow> k < length xs \<Longrightarrow> xs ! k \<noteq> x \<Longrightarrow> x \<in> set (xs[k := y])"
  by (metis in_set_conv_nth length_list_update nth_list_update_neq)

lemma in_set_update: "x \<in> set (xs[k := y]) \<Longrightarrow> x = y \<or> x \<in> set xs"
  using set_update_subset_insert [of xs k y] by auto

text \<open>The four changes a resumption makes: stop, take an item, store a result, fail.\<close>

lemma pool_stop_inv:
  assumes "pool_inv w progress items s" and "k < length (phases s)" and "phases s ! k = Idle"
    and "firstError s \<noteq> None \<or> length items \<le> nextIndex s" and "nextIndex s \<le> n"
  shows "pool_inv w progress items (s\<lparr>nextIndex := n, phases := (phases s)[k := Done]\<rparr>)"
  using assms unfolding pool_inv_def
proof (intro conjI)
  show "workers_own items (s\<lparr>nextIndex := n, phases := (phases s)[k := Done]\<rparr>)"
    using assms by (force simp: pool_inv_def workers_own_def nth_list_update)
  show "workers_unique (s\<lparr>nextIndex := n, phases := (phases s)[k := Done]\<rparr>)"
    using assms by (force simp: pool_inv_def workers_unique_def nth_list_update)
  show "results_sound w items (s\<lparr>nextIndex := n, phases := (phases s)[k := Done]\<rparr>)"
    using assms by (force simp: pool_inv_def results_sound_def)
  show "items_covered items (s\<lparr>nextIndex := n, phases := (phases s)[k := Done]\<rparr>)"
    using assms by (auto simp: pool_inv_def items_covered_def intro!: in_set_update_other)
  show "done_covered items (s\<lparr>nextIndex := n, phases := (phases s)[k := Done]\<rparr>)"
    using assms by (auto simp: done_covered_def)
  show "error_sound w progress items (s\<lparr>nextIndex := n, phases := (phases s)[k := Done]\<rparr>)"
    using assms by (auto simp: pool_inv_def error_sound_def)
qed

lemma pool_take_inv:
  assumes "pool_inv w progress items s" and "k < length (phases s)" and "phases s ! k = Idle"
    and "nextIndex s < length items"
  shows "pool_inv w progress items (s\<lparr>nextIndex := Suc (nextIndex s), phases := (phases s)[k := Working (nextIndex s)]\<rparr>)"
    (is "pool_inv _ _ _ ?t")
proof -
  have fresh: "results s ! nextIndex s = None" "\<And>j. j < length (phases s) \<Longrightarrow> phases s ! j \<noteq> Working (nextIndex s)"
    using assms by (auto simp: pool_inv_def results_sound_def workers_own_def)
  have "workers_own items ?t"
    using assms fresh by (force simp: pool_inv_def workers_own_def nth_list_update)
  moreover have "workers_unique ?t"
    using assms fresh by (force simp: pool_inv_def workers_unique_def nth_list_update)
  moreover have "results_sound w items ?t"
    using assms by (force simp: pool_inv_def results_sound_def)
  moreover have "items_covered items ?t"
    using assms by (auto simp: pool_inv_def items_covered_def less_Suc_eq set_update_memI intro!: in_set_update_other)
  moreover have "done_covered items ?t"
    using assms by (auto simp: pool_inv_def done_covered_def dest: in_set_update)
  moreover have "error_sound w progress items ?t"
    using assms by (auto simp: pool_inv_def error_sound_def)
  ultimately show ?thesis by (simp add: pool_inv_def)
qed

lemma pool_drop_inv:
  assumes "pool_inv w progress items s" and "k < length (phases s)"
  shows "workers_own items (s\<lparr>phases := (phases s)[k := Idle]\<rparr>)"
    "workers_unique (s\<lparr>phases := (phases s)[k := Idle]\<rparr>)"
    "results_sound w items (s\<lparr>phases := (phases s)[k := Idle]\<rparr>)"
  using assms by (force simp: pool_inv_def workers_own_def workers_unique_def results_sound_def nth_list_update)+

lemma pool_store_inv:
  assumes "pool_inv w progress items s" and "k < length (phases s)" and "phases s ! k = Working i"
    and "w (items ! i) i = Inr r"
  shows "pool_inv w progress items (s\<lparr>phases := (phases s)[k := Idle], results := (results s)[i := Some r], completed := n\<rparr>)"
    (is "pool_inv _ _ _ ?t")
proof -
  have i: "i < length items" "i < nextIndex s" "length (results s) = length items"
    "\<And>j. j < length (phases s) \<Longrightarrow> phases s ! j = Working i \<Longrightarrow> j = k"
    using assms by (auto simp: pool_inv_def results_sound_def workers_own_def workers_unique_def)
  have "workers_own items ?t"
    unfolding workers_own_def
  proof (intro allI impI)
    fix k' j
    assume "k' < length (phases ?t)" "phases ?t ! k' = Working j"
    then have k': "k' \<noteq> k" "phases s ! k' = Working j" "k' < length (phases s)"
      using assms(2) by (auto simp: nth_list_update split: if_splits)
    then have "j \<noteq> i" using i(4) by blast
    with k' assms(1) show "j < nextIndex ?t \<and> j < length items \<and> results ?t ! j = None"
      by (simp add: pool_inv_def workers_own_def)
  qed
  moreover have "workers_unique ?t"
    using pool_drop_inv(2) [OF assms(1,2)] by (simp add: workers_unique_def)
  moreover have "results_sound w items s" using assms(1) by (simp add: pool_inv_def)
  then have "results_sound w items ?t"
    using assms(4) i(1-3) by (simp add: results_sound_def nth_list_update)
  moreover have "items_covered items ?t"
    unfolding items_covered_def
  proof (intro allI impI)
    fix j
    assume j: "j < length items" "j < nextIndex ?t" "firstError ?t = None"
    show "results ?t ! j \<noteq> None \<or> Working j \<in> set (phases ?t)"
    proof (cases "j = i")
      case True
      with i show ?thesis by simp
    next
      case False
      then have "Working j \<in> set (phases s) \<Longrightarrow> Working j \<in> set (phases ?t)"
        using assms(2,3) by (simp add: in_set_update_other)
      with False j assms(1) show ?thesis by (auto simp: pool_inv_def items_covered_def)
    qed
  qed
  moreover have "done_covered items ?t"
    using assms by (auto simp: pool_inv_def done_covered_def dest: in_set_update)
  moreover have "error_sound w progress items ?t"
    using assms by (auto simp: pool_inv_def error_sound_def)
  ultimately show ?thesis by (simp add: pool_inv_def)
qed

lemma pool_fail_inv:
  assumes "workers_own items s" and "workers_unique s" and "results_sound w items s"
    and "(\<exists>i<length items. w (items ! i) i = Inl e) \<or> (\<exists>k. progress k = Some e)"
  shows "pool_inv w progress items (s\<lparr>firstError := Some e\<rparr>)"
proof -
  let ?t = "s\<lparr>firstError := Some e\<rparr>"
  have "workers_own items ?t" using assms(1) unfolding workers_own_def by simp
  moreover have "workers_unique ?t" using assms(2) unfolding workers_unique_def by simp
  moreover have "results_sound w items ?t" using assms(3) unfolding results_sound_def by simp
  moreover have "error_sound w progress items ?t" using assms(4) unfolding error_sound_def by auto
  ultimately show ?thesis by (simp add: pool_inv_def items_covered_def done_covered_def)
qed

lemma pool_resume_inv:
  assumes inv: "pool_inv w progress items s" and k: "k < length (phases s)"
  shows "pool_inv w progress items (pool_resume w progress items k s)"
proof (cases "phases s ! k")
  case Done
  with inv show ?thesis by (simp add: pool_resume_def)
next
  case Idle
  consider (error) "firstError s \<noteq> None" | (last) "firstError s = None" "length items \<le> nextIndex s"
    | (more) "firstError s = None" "nextIndex s < length items" by linarith
  then show ?thesis
  proof cases
    case error
    then have "pool_resume w progress items k s = s\<lparr>nextIndex := nextIndex s, phases := (phases s)[k := Done]\<rparr>"
      using Idle by (simp add: pool_resume_def)
    with pool_stop_inv [OF inv k Idle, of "nextIndex s"] error show ?thesis by simp
  next
    case last
    with pool_stop_inv [OF inv k Idle, of "Suc (nextIndex s)"] Idle show ?thesis by (simp add: pool_resume_def)
  next
    case more
    with pool_take_inv [OF inv k Idle] Idle show ?thesis by (simp add: pool_resume_def Let_def)
  qed
next
  case (Working i)
  have i: "i < length items" using inv k Working by (auto simp: pool_inv_def workers_own_def)
  show ?thesis
  proof (cases "w (items ! i) i")
    case (Inl e)
    have "pool_inv w progress items (s\<lparr>phases := (phases s)[k := Idle], firstError := Some e\<rparr>)"
      using pool_fail_inv [OF pool_drop_inv [OF inv k], where e = e and progress = progress] Inl i by auto
    moreover have "error_sound w progress items s" using inv by (simp add: pool_inv_def)
    moreover have "firstError s \<noteq> None \<Longrightarrow> pool_inv w progress items (s\<lparr>phases := (phases s)[k := Idle]\<rparr>)"
      using pool_drop_inv [OF inv k] inv
      by (auto simp: pool_inv_def items_covered_def done_covered_def error_sound_def)
    ultimately show ?thesis using Working Inl by (simp add: pool_resume_def Let_def)
  next
    case (Inr r)
    let ?t = "s\<lparr>phases := (phases s)[k := Idle], results := (results s)[i := Some r], completed := Suc (completed s)\<rparr>"
    have t: "pool_inv w progress items ?t" using pool_store_inv [OF inv k Working Inr] .
    show ?thesis
    proof (cases "progress (Suc (completed s))")
      case None
      with t Working Inr show ?thesis by (simp add: pool_resume_def Let_def)
    next
      case (Some e)
      have "pool_inv w progress items (?t\<lparr>firstError := Some e\<rparr>)"
        using t Some by (intro pool_fail_inv) (auto simp: pool_inv_def)
      with t Some Working Inr show ?thesis by (simp add: pool_resume_def Let_def)
    qed
  qed
qed

lemma pool_resume_length [simp]: "length (phases (pool_resume w progress items k s)) = length (phases s)"
  by (auto simp: pool_resume_def Let_def split: phase.splits sum.splits option.splits)

lemma pool_run_inv:
  "(pool_step w progress items)\<^sup>*\<^sup>* s t \<Longrightarrow> pool_inv w progress items s \<Longrightarrow>
   pool_inv w progress items t \<and> length (phases t) = length (phases s)"
proof (induction rule: rtranclp_induct)
  case (step t u)
  from step(2) show ?case using step by cases (auto intro: pool_resume_inv)
qed simp

section \<open>Termination of the pool\<close>

fun phase_weight :: "phase \<Rightarrow> nat" where
  "phase_weight Idle = 1"
| "phase_weight (Working i) = 2"
| "phase_weight Done = 0"

definition pool_measure :: "'v list \<Rightarrow> ('e, 'r) pool \<Rightarrow> nat" where
  "pool_measure items s = 3 * (length items - nextIndex s) + (\<Sum>p\<leftarrow>phases s. phase_weight p)"

lemma sum_list_update_weight:
  "k < length ps \<Longrightarrow> (\<Sum>p\<leftarrow>ps[k := q]. phase_weight p) + phase_weight (ps ! k) = (\<Sum>p\<leftarrow>ps. phase_weight p) + phase_weight q"
  by (induction ps arbitrary: k) (auto split: nat.splits)

lemma pool_step_decreases: "pool_step w progress items s t \<Longrightarrow> pool_measure items t < pool_measure items s"
proof (induction rule: pool_step.induct)
  case (ps_resume k s)
  note upd = sum_list_update_weight [OF ps_resume(1)]
  show ?case
  proof (cases "phases s ! k")
    case Idle
    with upd [of Done] upd [of "Working (nextIndex s)"] show ?thesis
      by (auto simp: pool_measure_def pool_resume_def Let_def)
  next
    case (Working i)
    with upd [of Idle] show ?thesis
      by (auto simp: pool_measure_def pool_resume_def Let_def split: sum.splits option.splits)
  qed (use ps_resume in simp)
qed

lemma pool_terminates:
  "\<exists>t. (pool_step w progress items)\<^sup>*\<^sup>* s t \<and> pool_done t"
proof (induction "pool_measure items s" arbitrary: s rule: less_induct)
  case less
  show ?case
  proof (cases "pool_done s")
    case True
    then show ?thesis by blast
  next
    case False
    then obtain k where "k < length (phases s)" "phases s ! k \<noteq> Done"
      by (auto simp: pool_done_def in_set_conv_nth)
    then have step: "pool_step w progress items s (pool_resume w progress items k s)"
      by (rule pool_step.ps_resume)
    from less [OF pool_step_decreases [OF this]] step show ?thesis
      by (meson converse_rtranclp_into_rtranclp)
  qed
qed

section \<open>Properties\<close>

text \<open>C19. The byte budget is respected: in every reachable state the reserved bytes are the sum of the
  reservations not yet released and never more than the limit; somebody waits only while the first waiter does not fit into what is
  left (whoever waits behind it waits for its turn, even if it would fit); so when nothing is reserved nobody waits.\<close>

theorem budget_safe:
  assumes "budget_reachable b"
  shows "reservedBytes b = (\<Sum>h\<leftarrow>held b. int (snd h)) \<and> (\<forall>m. maxBytes b = Some m \<longrightarrow> reservedBytes b \<le> int m)
    \<and> (case waiters b of [] \<Rightarrow> True | (i, n) # _ \<Rightarrow> \<exists>m. maxBytes b = Some m \<and> n \<le> m \<and> reservedBytes b + int n > int m)
    \<and> (held b = [] \<longrightarrow> waiters b = [])"
proof -
  have inv: "within_budget b" "settled b" using budget_reachable_inv [OF assms] by auto
  then have first: "case waiters b of [] \<Rightarrow> True | (i, n) # _ \<Rightarrow> \<exists>m. maxBytes b = Some m \<and> n \<le> m \<and> reservedBytes b + int n > int m"
    by (auto simp: within_budget_def settled_def canAcquire_def split: list.splits option.splits)
  moreover have "waiters b = []" if "held b = []"
    using first inv(1) that by (auto simp: within_budget_def split: list.splits)
  ultimately show ?thesis using inv(1) by (auto simp: within_budget_def budget_sum_def)
qed

theorem budget_safe_witness:
  "budget_reachable \<lparr>maxBytes = Some 10, reservedBytes = 7, waiters = [(1, 9)], held = [(0, 7)]\<rparr> \<and>
   (7::int) = (\<Sum>h\<leftarrow>[(0::nat, 7::nat)]. int (snd h)) \<and> (7::int) \<le> int 10 \<and> (7::int) + int 9 > int 10"
proof -
  define b0 where "b0 = createByteBudget (Finite 10)"
  define b1 where "b1 = \<lparr>maxBytes = Some 10, reservedBytes = 7, waiters = [], held = [(0::nat, 7::nat)]\<rparr>"
  define b2 where "b2 = \<lparr>maxBytes = Some 10, reservedBytes = 7, waiters = [(1::nat, 9::nat)], held = [(0::nat, 7::nat)]\<rparr>"
  have s1: "acquire_bytes 0 (Finite 7) b0 = Inr b1"
    by (simp add: acquire_bytes_def b0_def b1_def createByteBudget_def floor_or_def canAcquire_def reserve_def)
  have s2: "acquire_bytes 1 (Finite 9) b1 = Inr b2"
    by (simp add: acquire_bytes_def b1_def b2_def floor_or_def canAcquire_def drain.simps)
  have "budget_reachable b0" unfolding b0_def by (rule br_start)
  then have "budget_reachable b1" by (rule br_step) (rule bs_acquire [OF _ s1], simp add: b0_def createByteBudget_def)
  then have "budget_reachable b2" by (rule br_step) (rule bs_acquire [OF _ s2], simp add: b1_def)
  from budget_safe [OF this] this show ?thesis by (simp add: b2_def)
qed

text \<open>The pool processes every item exactly once and returns the results in the order of the
  items: whatever the interleaving of the workers, a run without an error returns at position
  \<open>i\<close> the worker's result on item \<open>i\<close>, and a run that throws throws an error of a worker or of
  the progress callback.\<close>

theorem pool_results:
  assumes "runBoundedWork w progress items requested out"
  shows "case out of
      Inr rs \<Rightarrow> length rs = length items \<and> (\<forall>i<length items. \<exists>r. w (items ! i) i = Inr r \<and> rs ! i = Some r)
    | Inl e \<Rightarrow> (\<exists>i<length items. w (items ! i) i = Inl e) \<or> (\<exists>k. progress k = Some e)"
  using assms
proof cases
  case run_empty
  then show ?thesis by simp
next
  case (run_work s)
  have inv: "pool_inv w progress items s" "length (phases s) = pool_concurrency (length items) requested"
    using pool_run_inv [OF run_work(3) pool_start_inv] by (auto simp: pool_start_def)
  then have "phases s \<noteq> []" by (auto simp: pool_concurrency_def split: jsnum.splits)
  then have "Done \<in> set (phases s)" using run_work(4) by (cases "phases s") (auto simp: pool_done_def)
  then have all: "firstError s = None \<Longrightarrow> length items \<le> nextIndex s"
    using inv(1) by (simp add: pool_inv_def done_covered_def)
  have "\<And>i. Working i \<notin> set (phases s)" using run_work(4) by (auto simp: pool_done_def)
  with inv(1) all have "firstError s = None \<Longrightarrow> i < length items \<Longrightarrow> results s ! i \<noteq> None" for i
    by (auto simp: pool_inv_def items_covered_def)
  then have "firstError s = None \<Longrightarrow> i < length items \<Longrightarrow> \<exists>r. w (items ! i) i = Inr r \<and> results s ! i = Some r" for i
    using inv(1) unfolding pool_inv_def results_sound_def by blast
  with inv(1) show ?thesis unfolding run_work(1)
    by (simp add: pool_outcome_def pool_inv_def results_sound_def error_sound_def split: option.splits)
qed

theorem pool_results_witness:
  "runBoundedWork (\<lambda>v i. Inr (v + i)) (\<lambda>_. None :: string option) ([] :: nat list) (Finite 2) (Inr []) \<and>
   (\<exists>out. runBoundedWork (\<lambda>v i. Inr (v + i)) (\<lambda>_. None :: string option) [5, 7::nat] (Finite 2) out \<and>
     out = Inr [Some 5, Some 8])"
proof -
  let ?w = "\<lambda>v i. Inr (v + i) :: string + nat" and ?p = "\<lambda>_. None :: string option" and ?xs = "[5, 7::nat]"
  obtain s where "(pool_step ?w ?p ?xs)\<^sup>*\<^sup>* (pool_start (length ?xs) (Finite 2)) s" "pool_done s"
    using pool_terminates by blast
  then have run: "runBoundedWork ?w ?p ?xs (Finite 2) (pool_outcome s)" by (intro run_work) simp_all
  from pool_results [OF this] have "pool_outcome s = Inr [Some 5, Some 8]"
    by (cases "pool_outcome s") (auto simp: length_Suc_conv less_Suc_eq numeral_2_eq_2)
  with run run_empty show ?thesis by blast
qed

text \<open>C36. Every execution of the pool can be completed, none runs for ever, and never more workers
  than the requested concurrency (at least one, at most one per item) are busy.\<close>

theorem pool_total:
  "(\<exists>out. runBoundedWork w progress items requested out) \<and>
   wfP (\<lambda>t s. pool_step w progress items s t) \<and>
   ((pool_step w progress items)\<^sup>*\<^sup>* (pool_start (length items) requested) s \<longrightarrow>
     length (phases s) = pool_concurrency (length items) requested)"
proof (intro conjI impI)
  show "\<exists>out. runBoundedWork w progress items requested out"
  proof (cases "items = []")
    case True
    then show ?thesis using run_empty by blast
  next
    case False
    then show ?thesis using pool_terminates run_work by blast
  qed
  show "wfP (\<lambda>t s. pool_step w progress items s t)"
    using pool_step_decreases by (intro wfp_if_convertible_to_nat [of _ "pool_measure items"])
  show "length (phases s) = pool_concurrency (length items) requested"
    if "(pool_step w progress items)\<^sup>*\<^sup>* (pool_start (length items) requested) s"
    using pool_run_inv [OF that pool_start_inv] by (simp add: pool_start_def)
qed


theorem pool_total_witness:
  "(\<exists>out. runBoundedWork (\<lambda>v i. Inr (v + i)) (\<lambda>_. None :: string option) [5, 7::nat] (Finite 2) out) \<and>
   length (phases (pool_start 2 (Finite 2) :: (string, nat) pool)) = pool_concurrency 2 (Finite 2)"
  using pool_total [of "\<lambda>v i. Inr (v + i)" "\<lambda>_. None :: string option" "[5, 7::nat]" "Finite 2" "pool_start 2 (Finite 2)"]
  by (simp add: numeral_2_eq_2)

end
