(* ===== verification/Json.thy ===== *)
theory Json
  imports Prelude
begin

text \<open>
  JSON values as \<open>JSON.parse\<close> gives them, and the reads of JavaScript code on them: a property of an
  object (the last one written under a key counts, as in \<open>JSON.parse\<close>), \<open>typeof x === "string"\<close>,
  \<open>Array.isArray\<close>, and so on. A missing property is \<open>undefined\<close>, here \<open>None\<close>. Numbers are the
  rationals their decimal text denotes.
\<close>

datatype json = JNull | JBool bool | JNum rat | JStr string | JArr "json list" | JObj "(string \<times> json) list"

fun jprop :: "json \<Rightarrow> string \<Rightarrow> json option" where
  "jprop (JObj kvs) k = map_of (rev kvs) k"
| "jprop _ k = None"

fun as_string :: "json option \<Rightarrow> string option" where
  "as_string (Some (JStr s)) = Some s"
| "as_string _ = None"

fun as_array :: "json option \<Rightarrow> json list option" where
  "as_array (Some (JArr xs)) = Some xs"
| "as_array _ = None"

fun as_number :: "json option \<Rightarrow> rat option" where
  "as_number (Some (JNum n)) = Some n"
| "as_number _ = None"

text \<open>Every element is a string: the list of them.\<close>

fun as_strings :: "json list \<Rightarrow> string list option" where
  "as_strings [] = Some []"
| "as_strings (JStr s # xs) = map_option ((#) s) (as_strings xs)"
| "as_strings _ = None"

lemma as_strings_JStr [simp]: "as_strings (map JStr ss) = Some ss"
  by (induction ss) auto

lemma as_strings_Some: "as_strings xs = Some ss \<longleftrightarrow> xs = map JStr ss"
  by (induction xs arbitrary: ss rule: as_strings.induct) auto

end
