(* ===== verification/CrashLogic.thy ===== *)
theory CrashLogic
  imports Prelude
begin

text \<open>
  Sequencing of operations that pass a world along and may throw, and a logic for what they go through. A world has a
  current state and the list of the states it has been in, newest first. \<open>ctriple cur trace P m Q C\<close>: started in a state
  with \<open>P\<close>, the operation ends, with a value or an error, with \<open>Q\<close>, and every state it goes through on the way has \<open>C\<close>; a
  crash leaves one of these states.
\<close>

definition wbind :: "('w \<Rightarrow> ('e + 'a) \<times> 'w) \<Rightarrow> ('a \<Rightarrow> 'w \<Rightarrow> ('e + 'b) \<times> 'w) \<Rightarrow> 'w \<Rightarrow> ('e + 'b) \<times> 'w" where
  "wbind m f w = (case m w of (Inl e, w') \<Rightarrow> (Inl e, w') | (Inr x, w') \<Rightarrow> f x w')"

definition wcatch :: "('w \<Rightarrow> ('e + 'a) \<times> 'w) \<Rightarrow> ('e \<Rightarrow> 'w \<Rightarrow> ('e + 'a) \<times> 'w) \<Rightarrow> 'w \<Rightarrow> ('e + 'a) \<times> 'w" where
  "wcatch m h w = (case m w of (Inl e, w') \<Rightarrow> h e w' | (Inr x, w') \<Rightarrow> (Inr x, w'))"

definition ctriple ::
  "('w \<Rightarrow> 's) \<Rightarrow> ('w \<Rightarrow> 't list) \<Rightarrow> ('s \<Rightarrow> bool) \<Rightarrow> ('w \<Rightarrow> ('e + 'a) \<times> 'w) \<Rightarrow> ('e + 'a \<Rightarrow> 's \<Rightarrow> bool) \<Rightarrow> ('t \<Rightarrow> bool) \<Rightarrow> bool" where
  "ctriple cur trace P m Q C \<longleftrightarrow> (\<forall>w. P (cur w) \<longrightarrow> Q (fst (m w)) (cur (snd (m w))) \<and>
     (\<exists>new. trace (snd (m w)) = new @ trace w \<and> (\<forall>d\<in>set new. C d)))"

lemma ctriple_weaken:
  assumes "ctriple cur trace P m Q C" and "\<And>d. P' d \<Longrightarrow> P d" and "\<And>r d. Q r d \<Longrightarrow> Q' r d" and "\<And>d. C d \<Longrightarrow> C' d"
  shows "ctriple cur trace P' m Q' C'"
  using assms unfolding ctriple_def by (meson)

lemma ctriple_pure:
  assumes "\<And>w. cur (snd (m w)) = cur w \<and> trace (snd (m w)) = trace w" and "\<And>w. P (cur w) \<Longrightarrow> Q (fst (m w)) (cur w)"
  shows "ctriple cur trace P m Q C"
  using assms by (simp add: ctriple_def)

lemma ctriple_bind:
  assumes "ctriple cur trace P m R C" and "\<And>x. ctriple cur trace (R (Inr x)) (f x) Q C" and "\<And>e d. R (Inl e) d \<Longrightarrow> Q (Inl e) d"
  shows "ctriple cur trace P (wbind m f) Q C"
  unfolding ctriple_def
proof (intro allI impI)
  fix w assume "P (cur w)"
  with assms(1) obtain new where m: "R (fst (m w)) (cur (snd (m w)))" "trace (snd (m w)) = new @ trace w" "\<forall>d\<in>set new. C d"
    unfolding ctriple_def by blast
  show "Q (fst (wbind m f w)) (cur (snd (wbind m f w))) \<and> (\<exists>new. trace (snd (wbind m f w)) = new @ trace w \<and> (\<forall>d\<in>set new. C d))"
  proof (cases "fst (m w)")
    case (Inl e)
    then have "wbind m f w = (Inl e, snd (m w))" by (cases "m w") (simp add: wbind_def)
    with Inl m assms(3) show ?thesis by auto
  next
    case (Inr x)
    then have b: "wbind m f w = f x (snd (m w))" by (cases "m w") (simp add: wbind_def)
    from m(1) Inr assms(2) [of x] obtain new' where
      "Q (fst (f x (snd (m w)))) (cur (snd (f x (snd (m w)))))" "trace (snd (f x (snd (m w)))) = new' @ trace (snd (m w))" "\<forall>d\<in>set new'. C d"
      unfolding ctriple_def by metis
    with b m(2,3) show ?thesis by (intro conjI exI [of _ "new' @ new"]) auto
  qed
qed

lemma ctriple_catch:
  assumes "ctriple cur trace P m R C" and "\<And>e. ctriple cur trace (R (Inl e)) (h e) Q C" and "\<And>x d. R (Inr x) d \<Longrightarrow> Q (Inr x) d"
  shows "ctriple cur trace P (wcatch m h) Q C"
  unfolding ctriple_def
proof (intro allI impI)
  fix w assume "P (cur w)"
  with assms(1) obtain new where m: "R (fst (m w)) (cur (snd (m w)))" "trace (snd (m w)) = new @ trace w" "\<forall>d\<in>set new. C d"
    unfolding ctriple_def by blast
  show "Q (fst (wcatch m h w)) (cur (snd (wcatch m h w))) \<and> (\<exists>new. trace (snd (wcatch m h w)) = new @ trace w \<and> (\<forall>d\<in>set new. C d))"
  proof (cases "fst (m w)")
    case (Inr x)
    then have "wcatch m h w = (Inr x, snd (m w))" by (cases "m w") (simp add: wcatch_def)
    with Inr m assms(3) show ?thesis by auto
  next
    case (Inl e)
    then have b: "wcatch m h w = h e (snd (m w))" by (cases "m w") (simp add: wcatch_def)
    from m(1) Inl assms(2) [of e] obtain new' where
      "Q (fst (h e (snd (m w)))) (cur (snd (h e (snd (m w)))))" "trace (snd (h e (snd (m w)))) = new' @ trace (snd (m w))" "\<forall>d\<in>set new'. C d"
      unfolding ctriple_def by metis
    with b m(2,3) show ?thesis by (intro conjI exI [of _ "new' @ new"]) auto
  qed
qed

lemma ctriple_pre: "ctriple cur trace P m Q C \<Longrightarrow> (\<And>d. P' d \<Longrightarrow> P d) \<Longrightarrow> ctriple cur trace P' m Q C"
  by (simp add: ctriple_def)

lemma ctriple_seq:
  assumes "ctriple cur trace P m R C" and "\<And>x. ctriple cur trace (P' x) (f x) Q C" and "\<And>x d. R (Inr x) d \<Longrightarrow> P' x d"
    and "\<And>e d. R (Inl e) d \<Longrightarrow> Q (Inl e) d"
  shows "ctriple cur trace P (wbind m f) Q C"
  by (rule ctriple_bind [OF assms(1) ctriple_pre [OF assms(2)]]) (use assms(3,4) in auto)

end
