(* ===== verification/Disk.thy ===== *)
theory Disk
  imports Json CrashLogic
begin

text \<open>
  The file system a client module uses through its promise interface, with crashes and failures.
  An operation is a function on a \<open>world\<close>: the disk, the faults the environment still has in store
  (each call consumes one; past the end calls succeed), a counter for the temporary names, and the log
  of all disks the calls produced. A crash leaves the disk in one of the logged states, so a statement
  about every logged state is a statement about every crash. A write can be torn: it leaves a part of
  the file and fails.

  The content of a file is either bytes or the JSON text of a value; the text of a value is represented
  by the value, so that \<open>JSON.parse(JSON.stringify(v))\<close> is \<open>v\<close>. A torn JSON text is no JSON text.
\<close>

datatype fdata = Raw buffer | Text json

datatype fault = Fine | Fail | Torn nat

datatype io_error = NotFound | IoFailure | RangeFailure | Verification string

record disk =
  files :: "(string \<times> fdata) list"
  dirs :: "string list"

datatype event = BeginPackChange | EndPackChange | PackRemoved string

record world =
  disk :: disk
  faults :: "fault list"
  clock :: nat
  log :: "disk list"
  events :: "event list"
  settledPackSet :: "string option"
  scannedForOrphans :: bool

type_synonym 'a io = "world \<Rightarrow> (io_error + 'a) \<times> world"

section \<open>Sequencing\<close>

definition io_return :: "'a \<Rightarrow> 'a io" where
  "io_return x w = (Inr x, w)"

definition io_throw :: "io_error \<Rightarrow> 'a io" where
  "io_throw e w = (Inl e, w)"

definition io_bind :: "'a io \<Rightarrow> ('a \<Rightarrow> 'b io) \<Rightarrow> 'b io" where
  "io_bind m f w = (case m w of (Inl e, w') \<Rightarrow> (Inl e, w') | (Inr x, w') \<Rightarrow> f x w')"

definition io_catch :: "'a io \<Rightarrow> (io_error \<Rightarrow> 'a io) \<Rightarrow> 'a io" where
  "io_catch m h w = (case m w of (Inl e, w') \<Rightarrow> h e w' | (Inr x, w') \<Rightarrow> (Inr x, w'))"

text \<open>A synchronous function that only changes what is not on the disk.\<close>

definition io_event :: "event \<Rightarrow> unit io" where
  "io_event ev w = (Inr (), w\<lparr>events := events w @ [ev]\<rparr>)"

definition io_get :: "(world \<Rightarrow> 'a) \<Rightarrow> 'a io" where
  "io_get f w = (Inr (f w), w)"

definition io_settle :: "string option \<Rightarrow> unit io" where
  "io_settle s w = (Inr (), w\<lparr>settledPackSet := s\<rparr>)"

definition io_scanned :: "unit io" where
  "io_scanned w = (Inr (), w\<lparr>scannedForOrphans := True\<rparr>)"

text \<open>\<open>try { m } finally { ... }\<close> with a synchronous event at the end.\<close>

definition io_finally :: "'a io \<Rightarrow> event \<Rightarrow> 'a io" where
  "io_finally m ev w = (case m w of (r, w') \<Rightarrow> (r, w'\<lparr>events := events w' @ [ev]\<rparr>))"

fun io_each :: "('a \<Rightarrow> unit io) \<Rightarrow> 'a list \<Rightarrow> unit io" where
  "io_each f [] = io_return ()"
| "io_each f (x # xs) = io_bind (f x) (\<lambda>_. io_each f xs)"

text \<open>A loop that may push one result per element.\<close>

fun io_collect :: "('a \<Rightarrow> 'b option io) \<Rightarrow> 'a list \<Rightarrow> 'b list io" where
  "io_collect f [] = io_return []"
| "io_collect f (x # xs) =
     io_bind (f x) (\<lambda>y. io_bind (io_collect f xs) (\<lambda>ys.
       io_return (case y of None \<Rightarrow> ys | Some b \<Rightarrow> b # ys)))"

section \<open>Calls\<close>

definition next_fault :: "world \<Rightarrow> fault \<times> world" where
  "next_fault w = (case faults w of [] \<Rightarrow> (Fine, w) | f # fs \<Rightarrow> (f, w\<lparr>faults := fs\<rparr>))"

text \<open>A call that only reads: any fault makes it fail.\<close>

definition io_read :: "(disk \<Rightarrow> io_error + 'a) \<Rightarrow> 'a io" where
  "io_read f w = (case next_fault w of (fl, w') \<Rightarrow>
     if fl = Fine then (f (disk w'), w') else (Inl IoFailure, w'))"

definition commit :: "disk \<Rightarrow> world \<Rightarrow> world" where
  "commit d w = w\<lparr>disk := d, log := d # log w\<rparr>"

definition set_file :: "string \<Rightarrow> fdata \<Rightarrow> disk \<Rightarrow> disk" where
  "set_file p f d = d\<lparr>files := AList.update p f (files d)\<rparr>"

definition del_file :: "string \<Rightarrow> disk \<Rightarrow> disk" where
  "del_file p d = d\<lparr>files := AList.delete p (files d)\<rparr>"

abbreviation file_at :: "disk \<Rightarrow> string \<rightharpoonup> fdata" where
  "file_at d \<equiv> map_of (files d)"

fun torn :: "fdata \<Rightarrow> nat \<Rightarrow> fdata" where
  "torn (Raw b) n = Raw (take n b)"
| "torn (Text j) n = Raw []"

definition readFile :: "string \<Rightarrow> fdata io" where
  "readFile p = io_read (\<lambda>d. case file_at d p of None \<Rightarrow> Inl NotFound | Some f \<Rightarrow> Inr f)"

fun file_size :: "fdata \<Rightarrow> nat" where
  "file_size (Raw b) = length b"
| "file_size (Text j) = 0"

definition stat_size :: "string \<Rightarrow> nat io" where
  "stat_size p = io_read (\<lambda>d. case file_at d p of None \<Rightarrow> Inl NotFound | Some f \<Rightarrow> Inr (file_size f))"

text \<open>The names directly below a directory.\<close>

definition children :: "disk \<Rightarrow> string \<Rightarrow> string list" where
  "children d dir = uniq (map (drop (length dir + 1))
     (filter (\<lambda>p. js_startsWith p (dir @ ''/'') \<and> CHR ''/'' \<notin> set (drop (length dir + 1) p)) (map fst (files d))))"

definition readdir :: "string \<Rightarrow> string list io" where
  "readdir dir = io_read (\<lambda>d. if dir \<in> set (dirs d) then Inr (children d dir) else Inl NotFound)"

definition writeFile :: "string \<Rightarrow> fdata \<Rightarrow> unit io" where
  "writeFile p f w = (case next_fault w of (fl, w') \<Rightarrow>
     (case fl of
        Fine \<Rightarrow> (Inr (), commit (set_file p f (disk w')) w')
      | Fail \<Rightarrow> (Inl IoFailure, w')
      | Torn n \<Rightarrow> (Inl IoFailure, commit (set_file p (torn f n) (disk w')) w')))"

definition unlink :: "string \<Rightarrow> unit io" where
  "unlink p w = (case next_fault w of (fl, w') \<Rightarrow>
     if fl \<noteq> Fine then (Inl IoFailure, w')
     else if file_at (disk w') p = None then (Inl NotFound, w')
     else (Inr (), commit (del_file p (disk w')) w'))"

text \<open>The contract of \<open>rename\<close>: the target is replaced in one step.\<close>

definition rename_file :: "string \<Rightarrow> string \<Rightarrow> unit io" where
  "rename_file p q w = (case next_fault w of (fl, w') \<Rightarrow>
     if fl \<noteq> Fine then (Inl IoFailure, w')
     else (case file_at (disk w') p of
             None \<Rightarrow> (Inl NotFound, w')
           | Some f \<Rightarrow> (Inr (), commit (set_file q f (del_file p (disk w'))) w')))"

text \<open>\<open>syncFile\<close> and \<open>syncDirectory\<close>: no change, but they may fail.\<close>

definition sync_path :: "string \<Rightarrow> unit io" where
  "sync_path p = io_read (\<lambda>d. Inr ())"

definition tick :: "nat io" where
  "tick w = (Inr (clock w), w\<lparr>clock := Suc (clock w)\<rparr>)"


section \<open>Crash triples\<close>

text \<open>\<open>triple P m Q C\<close>: started on a disk with \<open>P\<close>, the operation ends, with a value or an error, in a
  result and a disk with \<open>Q\<close>, and every disk it goes through has \<open>C\<close>.\<close>

definition triple :: "(disk \<Rightarrow> bool) \<Rightarrow> 'a io \<Rightarrow> (io_error + 'a \<Rightarrow> disk \<Rightarrow> bool) \<Rightarrow> (disk \<Rightarrow> bool) \<Rightarrow> bool" where
  "triple P m Q C \<longleftrightarrow> (\<forall>w. P (disk w) \<longrightarrow> Q (fst (m w)) (disk (snd (m w))) \<and>
     (\<exists>new. log (snd (m w)) = new @ log w \<and> (\<forall>d\<in>set new. C d)))"

lemma triple_ctriple: "triple P m Q C = ctriple disk log P m Q C"
  by (simp add: triple_def ctriple_def)

lemma io_bind_wbind: "io_bind = wbind"
  by (simp add: io_bind_def wbind_def fun_eq_iff)

lemma io_catch_wcatch: "io_catch = wcatch"
  by (simp add: io_catch_def wcatch_def fun_eq_iff)

lemma triple_weaken:
  assumes "triple P m Q C" and "\<And>d. P' d \<Longrightarrow> P d" and "\<And>r d. Q r d \<Longrightarrow> Q' r d" and "\<And>d. C d \<Longrightarrow> C' d"
  shows "triple P' m Q' C'"
  using assms unfolding triple_ctriple by (rule ctriple_weaken)

lemma triple_return: "(\<And>d. P d \<Longrightarrow> Q (Inr x) d) \<Longrightarrow> triple P (io_return x) Q C"
  by (simp add: triple_def io_return_def)

lemma triple_throw: "(\<And>d. P d \<Longrightarrow> Q (Inl e) d) \<Longrightarrow> triple P (io_throw e) Q C"
  by (simp add: triple_def io_throw_def)

lemma triple_pure:
  assumes "\<And>w. disk (snd (m w)) = disk w \<and> log (snd (m w)) = log w" and "\<And>w. P (disk w) \<Longrightarrow> Q (fst (m w)) (disk w)"
  shows "triple P m Q C"
  using assms by (simp add: triple_def)

lemma triple_bind:
  assumes "triple P m R C" and "\<And>x. triple (R (Inr x)) (f x) Q C" and "\<And>e d. R (Inl e) d \<Longrightarrow> Q (Inl e) d"
  shows "triple P (io_bind m f) Q C"
  using assms unfolding triple_ctriple io_bind_wbind by (rule ctriple_bind)

lemma triple_pre: "triple P m Q C \<Longrightarrow> (\<And>d. P' d \<Longrightarrow> P d) \<Longrightarrow> triple P' m Q C"
  by (simp add: triple_def)

lemma triple_seq:
  assumes "triple P m R C" and "\<And>x. triple (P' x) (f x) Q C" and "\<And>x d. R (Inr x) d \<Longrightarrow> P' x d"
    and "\<And>e d. R (Inl e) d \<Longrightarrow> Q (Inl e) d"
  shows "triple P (io_bind m f) Q C"
  by (rule triple_bind [OF assms(1) triple_pre [OF assms(2)]]) (use assms(3,4) in auto)

lemma triple_catch:
  assumes "triple P m R C" and "\<And>e. triple (R (Inl e)) (h e) Q C" and "\<And>x d. R (Inr x) d \<Longrightarrow> Q (Inr x) d"
  shows "triple P (io_catch m h) Q C"
  using assms unfolding triple_ctriple io_catch_wcatch by (rule ctriple_catch)

lemma triple_event: "triple P (io_event ev) (\<lambda>r d. P d \<and> (\<forall>e. r \<noteq> Inl e)) C"
  by (rule triple_pure) (simp_all add: io_event_def)

lemma triple_get: "triple P (io_get f) (\<lambda>r d. P d \<and> (\<forall>e. r \<noteq> Inl e)) C"
  by (rule triple_pure) (simp_all add: io_get_def)

lemma triple_settle: "triple P (io_settle s) (\<lambda>r d. P d \<and> (\<forall>e. r \<noteq> Inl e)) C"
  by (rule triple_pure) (simp_all add: io_settle_def)

lemma triple_scanned: "triple P io_scanned (\<lambda>r d. P d \<and> (\<forall>e. r \<noteq> Inl e)) C"
  by (rule triple_pure) (simp_all add: io_scanned_def)

lemma triple_tick: "triple P tick (\<lambda>r d. P d \<and> (\<forall>e. r \<noteq> Inl e)) C"
  by (rule triple_pure) (simp_all add: tick_def)

lemma triple_finally: "triple P m Q C \<Longrightarrow> triple P (io_finally m ev) Q C"
  unfolding triple_def io_finally_def by (simp add: case_prod_beta)

lemma triple_each:
  assumes "\<And>x. x \<in> set xs \<Longrightarrow> triple I (f x) (\<lambda>r. I) C"
  shows "triple I (io_each f xs) (\<lambda>r. I) C"
  using assms by (induction xs) (auto intro: triple_return triple_bind)

lemma triple_each_errors:
  assumes "\<And>x. x \<in> set xs \<Longrightarrow> triple I (f x) (\<lambda>r d. I d \<and> (\<forall>e. r = Inl e \<longrightarrow> E e)) C"
  shows "triple I (io_each f xs) (\<lambda>r d. I d \<and> (\<forall>e. r = Inl e \<longrightarrow> E e)) C"
  using assms
proof (induction xs)
  case (Cons x xs)
  then have "triple I (io_each f xs) (\<lambda>r d. I d \<and> (\<forall>e. r = Inl e \<longrightarrow> E e)) C" by simp
  then show ?case unfolding io_each.simps
    by (intro triple_bind [OF Cons.prems [of x]]) (auto elim: triple_weaken)
qed (auto intro: triple_return)

lemma triple_collect_errors:
  assumes "\<And>x. x \<in> set xs \<Longrightarrow> triple I (f x) (\<lambda>r d. I d \<and> (\<forall>e. r = Inl e \<longrightarrow> E e)) C"
  shows "triple I (io_collect f xs) (\<lambda>r d. I d \<and> (\<forall>e. r = Inl e \<longrightarrow> E e)) C"
  using assms
proof (induction xs)
  case (Cons x xs)
  then have rec: "triple I (io_collect f xs) (\<lambda>r d. I d \<and> (\<forall>e. r = Inl e \<longrightarrow> E e)) C" by simp
  have "triple I (io_bind (io_collect f xs) (\<lambda>ys. io_return (case y of None \<Rightarrow> ys | Some b \<Rightarrow> b # ys)))
      (\<lambda>r d. I d \<and> (\<forall>e. r = Inl e \<longrightarrow> E e)) C" for y
    by (rule triple_bind [OF rec]) (auto intro: triple_return)
  then show ?case unfolding io_collect.simps
    by (intro triple_bind [OF Cons.prems [of x]]) (auto elim: triple_weaken)
qed (auto intro: triple_return)

lemma triple_collect:
  assumes "\<And>x. x \<in> set xs \<Longrightarrow> triple I (f x) (\<lambda>r d. I d \<and> (\<forall>y. r = Inr (Some y) \<longrightarrow> R x y)) C"
  shows "triple I (io_collect f xs) (\<lambda>r d. I d \<and> (\<forall>ys. r = Inr ys \<longrightarrow> (\<forall>y\<in>set ys. \<exists>x\<in>set xs. R x y))) C"
  using assms
proof (induction xs)
  case Nil
  then show ?case by (auto intro: triple_return)
next
  case (Cons x xs)
  let ?Q1 = "\<lambda>r d. I d \<and> (\<forall>y. r = Inr (Some y) \<longrightarrow> R x y)"
  have rec: "triple I (io_collect f xs) (\<lambda>r d. I d \<and> (\<forall>ys. r = Inr ys \<longrightarrow> (\<forall>y\<in>set ys. \<exists>x\<in>set xs. R x y))) C"
    using Cons by simp
  show ?case unfolding io_collect.simps
  proof (rule triple_bind [OF Cons.prems [of x]])
    fix y
    show "triple (?Q1 (Inr y)) (io_bind (io_collect f xs) (\<lambda>ys. io_return (case y of None \<Rightarrow> ys | Some b \<Rightarrow> b # ys)))
        (\<lambda>r d. I d \<and> (\<forall>ys. r = Inr ys \<longrightarrow> (\<forall>y\<in>set ys. \<exists>x\<in>set (x # xs). R x y))) C"
    proof (cases "\<exists>b. y = Some b \<and> \<not> R x b")
      case True
      then show ?thesis by (auto simp: triple_def)
    next
      case False
      have "triple I (io_bind (io_collect f xs) (\<lambda>ys. io_return (case y of None \<Rightarrow> ys | Some b \<Rightarrow> b # ys)))
        (\<lambda>r d. I d \<and> (\<forall>ys. r = Inr ys \<longrightarrow> (\<forall>y\<in>set ys. \<exists>x\<in>set (x # xs). R x y))) C"
        by (rule triple_bind [OF rec]) (use False in \<open>auto intro!: triple_return split: option.splits\<close>)
      then show ?thesis by (rule triple_weaken) auto
    qed
  qed auto
qed

section \<open>Calls under an invariant\<close>

lemma next_fault_disk [simp]: "next_fault w = (fl, w') \<Longrightarrow> disk w' = disk w \<and> log w' = log w"
  by (auto simp: next_fault_def split: list.splits)

lemma triple_read: "triple I (io_read f) (\<lambda>r d. I d \<and> (\<forall>x. r = Inr x \<longrightarrow> f d = Inr x) \<and> (\<forall>e. r = Inl e \<longrightarrow> e = IoFailure \<or> f d = Inl e)) C"
  by (rule triple_pure) (auto simp: io_read_def split: prod.splits)

lemma triple_sync: "triple I (sync_path p) (\<lambda>r d. I d \<and> (\<forall>e. r = Inl e \<longrightarrow> e = IoFailure)) C"
  unfolding sync_path_def by (rule triple_weaken [OF triple_read [of I]]) auto

lemma triple_write:
  assumes "\<And>d g. I d \<Longrightarrow> I (set_file p g d)" and "\<And>d. I d \<Longrightarrow> C d"
  shows "triple I (writeFile p f) (\<lambda>r d. I d) C"
  unfolding triple_def writeFile_def
  using assms by (auto simp: commit_def split: prod.splits fault.splits)

lemma triple_unlink:
  assumes "\<And>d. I d \<Longrightarrow> I (del_file p d)" and "\<And>d. I d \<Longrightarrow> C d"
  shows "triple I (unlink p) (\<lambda>r d. I d \<and> (r = Inl NotFound \<or> r = Inr () \<longrightarrow> file_at d p = None)) C"
  unfolding triple_def unlink_def
  using assms by (auto simp: commit_def del_file_def delete_conv' split: prod.splits)

lemma triple_rename:
  assumes "\<And>d f. I d \<Longrightarrow> file_at d p = Some f \<Longrightarrow> J (set_file q f (del_file p d))" and "\<And>d. J d \<Longrightarrow> C d"
  shows "triple I (rename_file p q) (\<lambda>r d. case r of Inl e \<Rightarrow> I d | Inr _ \<Rightarrow> J d) C"
  unfolding triple_def rename_file_def
  using assms by (auto simp: commit_def split: prod.splits option.splits)

lemma file_at_set [simp]: "file_at (set_file p f d) q = (if q = p then Some f else file_at d q)"
  by (simp add: set_file_def update_conv)

lemma file_at_del [simp]: "file_at (del_file p d) q = (if q = p then None else file_at d q)"
  by (simp add: del_file_def delete_conv)

lemma dirs_simps [simp]: "dirs (set_file p f d) = dirs d" "dirs (del_file p d) = dirs d"
  by (simp_all add: set_file_def del_file_def)

end
