(* ===== verification/PackFormat.thy ===== *)
theory PackFormat
  imports Prelude
begin

unbundle bit_operations_syntax

text \<open>
  The Git pack and pack-index formats as \<^verbatim>\<open>obsidian-plugin/src/git-pack-consolidation.cjs\<close> reads
  and writes them: \<open>crc32\<close>, \<open>parsePackIndex\<close>, \<open>verifyPack\<close>, \<open>readEntryHeader\<close>, \<open>buildPackIndex\<close>
  and \<open>buildConsolidatedPack\<close>. The SHA-1 function comes from a package, so it is the argument \<open>sha1\<close>;
  the lemmas use only that a digest has 20 bytes. \<open>RangeErr\<close> is the exception \<open>Buffer\<close> throws for a
  read outside the buffer; it is not a \<open>PackVerificationError\<close>.
\<close>

datatype pack_error =
    IdxHeader | IdxLength | IdxChecksum | IdxOrder | IdxLargeOffset | IdxFanout
  | PackHeader | PackVersion | PackObjectCount | PackChecksum | PackObjectBounds | PackObjectCrc
  | PackDeltaBase | PackThin | PackObjectType | PackObjectHeader
  | ConsolidatedTooLarge | RangeErr

section \<open>CRC-32\<close>

definition crc_step :: "32 word \<Rightarrow> 32 word" where
  "crc_step value = (if value AND 1 \<noteq> 0 then 0xedb88320 XOR drop_bit 1 value else drop_bit 1 value)"

definition CRC_TABLE :: "32 word list" where
  "CRC_TABLE = map (\<lambda>index. (crc_step ^^ 8) (of_nat index)) [0..<256]"

definition crc_byte :: "32 word \<Rightarrow> byte \<Rightarrow> 32 word" where
  "crc_byte crc b = CRC_TABLE ! unat ((crc XOR ucast b) AND 0xff) XOR drop_bit 8 crc"

definition crc32 :: "buffer \<Rightarrow> nat" where
  "crc32 bytes = unat (foldl crc_byte (- 1) bytes XOR - 1)"

section \<open>Pack indexes\<close>

record idx_entry =
  oid :: buffer
  crc :: nat
  offset :: nat

record pack_index =
  entries :: "idx_entry list"
  packChecksum :: buffer

definition IDX_SIGNATURE :: buffer where
  "IDX_SIGNATURE = [0xff, 0x74, 0x4f, 0x63]"

definition PACK_SIGNATURE :: buffer where
  "PACK_SIGNATURE = [0x50, 0x41, 0x43, 0x4b]"

definition read32 :: "buffer \<Rightarrow> nat \<Rightarrow> pack_error + nat" where
  "read32 b i = (case readUInt32BE b i of None \<Rightarrow> Inl RangeErr | Some n \<Rightarrow> Inr n)"

text \<open>The loop over the entries: \<open>n\<close> entries are left, \<open>i\<close> is the index, \<open>prev\<close> the oid before.\<close>

fun idx_entries :: "buffer \<Rightarrow> nat \<Rightarrow> nat \<Rightarrow> nat \<Rightarrow> nat \<Rightarrow> nat \<Rightarrow> buffer option \<Rightarrow> pack_error + idx_entry list" where
  "idx_entries idx oidStart crcStart offsetStart 0 i prev = Inr []"
| "idx_entries idx oidStart crcStart offsetStart (Suc n) i prev =
     (let id = subarray idx (oidStart + i * 20) (oidStart + i * 20 + 20)
      in if (case prev of None \<Rightarrow> False | Some p \<Rightarrow> buffer_compare p id > 0) then Inl IdxOrder
         else rbind (read32 idx (offsetStart + i * 4)) (\<lambda>off.
           if off \<ge> 0x80000000 then Inl IdxLargeOffset
           else rbind (read32 idx (crcStart + i * 4)) (\<lambda>c.
             rbind (idx_entries idx oidStart crcStart offsetStart n (Suc i) (Some id)) (\<lambda>es.
               Inr (\<lparr>oid = id, crc = c, offset = off\<rparr> # es)))))"

text \<open>The loop over the fan-out table; the inner \<open>while\<close> moves the cursor past the entries whose
  first byte is at most \<open>byte\<close>.\<close>

definition fan_advance :: "idx_entry list \<Rightarrow> nat \<Rightarrow> nat \<Rightarrow> nat" where
  "fan_advance es b cursor = cursor + length (takeWhile (\<lambda>e. unat (oid e ! 0) \<le> b) (drop cursor es))"

fun check_fanout :: "buffer \<Rightarrow> idx_entry list \<Rightarrow> nat list \<Rightarrow> nat \<Rightarrow> pack_error + unit" where
  "check_fanout idx es [] cursor = Inr ()"
| "check_fanout idx es (b # bs) cursor =
     (let cursor' = fan_advance es b cursor
      in rbind (read32 idx (8 + b * 4)) (\<lambda>v.
           if v \<noteq> cursor' then Inl IdxFanout else check_fanout idx es bs cursor'))"

definition parsePackIndex :: "(buffer \<Rightarrow> buffer) \<Rightarrow> buffer \<Rightarrow> pack_error + pack_index" where
  "parsePackIndex sha1 idx =
     (if length idx < 8 + 1024 + 40 \<or> subarray idx 0 4 \<noteq> IDX_SIGNATURE \<or> readUInt32BE idx 4 \<noteq> Some 2 then Inl IdxHeader
      else rbind (read32 idx (8 + 255 * 4)) (\<lambda>count.
        let oidStart = 8 + 1024; crcStart = oidStart + count * 20;
            offsetStart = crcStart + count * 4; trailerStart = offsetStart + count * 4
        in if length idx \<noteq> trailerStart + 40 then Inl IdxLength
           else if sha1 (subarray idx 0 (length idx - 20)) \<noteq> subarray idx (length idx - 20) (length idx) then Inl IdxChecksum
           else rbind (idx_entries idx oidStart crcStart offsetStart count 0 None) (\<lambda>es.
             rbind (check_fanout idx es [0..<256] 0) (\<lambda>_.
               Inr \<lparr>entries = es, packChecksum = subarray idx trailerStart (trailerStart + 20)\<rparr>))))"

section \<open>Pack entries\<close>

record entry_header =
  otype :: nat
  sizeEnd :: nat
  payloadStart :: nat
  baseOffset :: "nat option"

abbreviation OFS_DELTA :: nat where "OFS_DELTA \<equiv> 6"
abbreviation REF_DELTA :: nat where "REF_DELTA \<equiv> 7"

text \<open>\<open>pack[i]\<close> used as a number: past the end it is \<open>undefined\<close>, which bit operations read as 0.\<close>

definition byte_at :: "buffer \<Rightarrow> nat \<Rightarrow> nat" where
  "byte_at pack i = (if i < length pack then unat (pack ! i) else 0)"

function size_loop :: "buffer \<Rightarrow> nat \<Rightarrow> nat \<Rightarrow> nat \<Rightarrow> nat \<Rightarrow> pack_error + nat" where
  "size_loop pack e continuation cursor b =
     (if b < 128 then Inr cursor
      else if cursor \<ge> e \<or> continuation \<ge> 9 then Inl PackObjectHeader
      else size_loop pack e (Suc continuation) (Suc cursor) (byte_at pack cursor))"
  by pat_completeness auto
termination by (relation "measure (\<lambda>(pack, e, continuation, cursor, b). 9 - continuation)") auto

function distance_loop :: "buffer \<Rightarrow> nat \<Rightarrow> nat \<Rightarrow> nat \<Rightarrow> nat \<Rightarrow> pack_error + (nat \<times> nat)" where
  "distance_loop pack e cursor b distance =
     (if b < 128 then Inr (cursor, distance)
      else if cursor \<ge> e \<or> distance > 0xffffff then Inl PackObjectHeader
      else distance_loop pack e (Suc cursor) (byte_at pack cursor)
             ((distance + 1) * 128 + byte_at pack cursor mod 128))"
  by pat_completeness auto
termination by (relation "measure (\<lambda>(pack, e, cursor, b, distance). e - cursor)") auto

definition readEntryHeader :: "buffer \<Rightarrow> nat \<Rightarrow> nat \<Rightarrow> pack_error + entry_header" where
  "readEntryHeader pack start e =
     (let b = byte_at pack start; t = b div 16 mod 8
      in if t = 0 \<or> t = 5 then Inl PackObjectType
         else rbind (size_loop pack e 0 (Suc start) b) (\<lambda>cursor.
           if t = OFS_DELTA then
             if cursor \<ge> e then Inl PackObjectHeader
             else rbind (distance_loop pack e (Suc cursor) (byte_at pack cursor) (byte_at pack cursor mod 128)) (\<lambda>(cursor', distance).
               if distance = 0 \<or> distance > start - 12 then Inl PackDeltaBase
               else if cursor' \<ge> e then Inl PackObjectHeader
               else Inr \<lparr>otype = t, sizeEnd = cursor, payloadStart = cursor', baseOffset = Some (start - distance)\<rparr>)
           else
             let cursor' = (if t = REF_DELTA then cursor + 20 else cursor)
             in if cursor' \<ge> e then Inl PackObjectHeader
                else Inr \<lparr>otype = t, sizeEnd = cursor, payloadStart = cursor', baseOffset = None\<rparr>))"

section \<open>Verifying a pack against its index\<close>

record pack_object =
  obj_oid :: buffer
  obj_crc :: nat
  obj_start :: nat
  obj_end :: nat
  header :: entry_header
  baseOid :: "buffer option"

record verified_pack =
  pack :: buffer
  objects :: "pack_object list"

definition compare_offset :: "idx_entry \<Rightarrow> idx_entry \<Rightarrow> int" where
  "compare_offset l r = int (offset l) - int (offset r)"

definition object_base :: "buffer \<Rightarrow> idx_entry list \<Rightarrow> entry_header \<Rightarrow> pack_error + buffer option" where
  "object_base p byOffset h =
     (if otype h = OFS_DELTA then
        (case map_of (rev (map (\<lambda>e. (Some (offset e), oid e)) byOffset)) (baseOffset h) of
           None \<Rightarrow> Inl PackDeltaBase | Some b \<Rightarrow> Inr (Some b))
      else if otype h = REF_DELTA then
        (let b = subarray p (payloadStart h - 20) (payloadStart h)
         in if b \<in> set (map oid byOffset) then Inr (Some b) else Inl PackThin)
      else Inr None)"

fun verify_objects :: "buffer \<Rightarrow> idx_entry list \<Rightarrow> bool \<Rightarrow> idx_entry list \<Rightarrow> pack_error + pack_object list" where
  "verify_objects p byOffset first [] = Inr []"
| "verify_objects p byOffset first (x # xs) =
     (let start = offset x; e = (case xs of [] \<Rightarrow> length p - 20 | y # _ \<Rightarrow> offset y)
      in if start < 12 \<or> e \<le> start \<or> e > length p - 20 \<or> (first \<and> start \<noteq> 12) then Inl PackObjectBounds
         else if crc32 (subarray p start e) \<noteq> crc x then Inl PackObjectCrc
         else rbind (readEntryHeader p start e) (\<lambda>h.
           rbind (object_base p byOffset h) (\<lambda>b.
             rbind (verify_objects p byOffset False xs) (\<lambda>os.
               Inr (\<lparr>obj_oid = oid x, obj_crc = crc x, obj_start = start, obj_end = e, header = h, baseOid = b\<rparr> # os)))))"

definition verifyPack :: "(buffer \<Rightarrow> buffer) \<Rightarrow> buffer \<Rightarrow> pack_index \<Rightarrow> pack_error + verified_pack" where
  "verifyPack sha1 p index =
     (if length p < 32 \<or> subarray p 0 4 \<noteq> PACK_SIGNATURE then Inl PackHeader
      else rbind (read32 p 4) (\<lambda>version.
        if version \<noteq> 2 \<and> version \<noteq> 3 then Inl PackVersion
        else rbind (read32 p 8) (\<lambda>n.
          if n \<noteq> length (entries index) then Inl PackObjectCount
          else let trailer = subarray p (length p - 20) (length p)
               in if trailer \<noteq> packChecksum index \<or> sha1 (subarray p 0 (length p - 20)) \<noteq> trailer then Inl PackChecksum
                  else let byOffset = js_sort compare_offset (entries index)
                       in rbind (verify_objects p byOffset True byOffset) (\<lambda>os.
                            Inr \<lparr>pack = p, objects = os\<rparr>))))"

section \<open>Writing an index\<close>

text \<open>The fan-out table: the running sum of the number of entries per first byte.\<close>

definition fanout_count :: "idx_entry list \<Rightarrow> nat \<Rightarrow> nat" where
  "fanout_count es b = length (filter (\<lambda>e. unat (oid e ! 0) = b) es)"

fun fanout_running :: "idx_entry list \<Rightarrow> nat \<Rightarrow> nat list \<Rightarrow> nat list" where
  "fanout_running es running [] = []"
| "fanout_running es running (b # bs) =
     (let r = running + fanout_count es b in r # fanout_running es r bs)"

text \<open>The writes into the allocated buffer are consecutive (an oid and a checksum have 20 bytes), so
  the buffer is their concatenation.\<close>

definition idx_body :: "idx_entry list \<Rightarrow> buffer \<Rightarrow> buffer" where
  "idx_body es checksum =
     IDX_SIGNATURE @ bytes32 2 @ concat (map bytes32 (fanout_running es 0 [0..<256])) @
     concat (map oid es) @ concat (map (\<lambda>e. bytes32 (crc e)) es) @
     concat (map (\<lambda>e. bytes32 (offset e)) es) @ checksum"

definition buildPackIndex :: "(buffer \<Rightarrow> buffer) \<Rightarrow> idx_entry list \<Rightarrow> buffer \<Rightarrow> buffer" where
  "buildPackIndex sha1 es checksum = idx_body es checksum @ sha1 (idx_body es checksum)"

section \<open>The consolidated pack\<close>

record build_state =
  parts :: buffer
  built :: "idx_entry list"
  emitted :: "buffer list"
  position :: nat

text \<open>The bytes and the checksum an object is emitted with: an offset delta becomes a reference
  delta, since its base may move.\<close>

definition set_ref_delta :: "byte \<Rightarrow> byte" where
  "set_ref_delta b = (b AND 0x8f) OR 0x70"

definition emit_object :: "buffer \<Rightarrow> pack_object \<Rightarrow> buffer \<times> nat" where
  "emit_object p ob =
     (let bytes = subarray p (obj_start ob) (obj_end ob)
      in if otype (header ob) = OFS_DELTA then
           let typeAndSize = subarray bytes 0 (sizeEnd (header ob) - obj_start ob);
               bytes' = typeAndSize[0 := set_ref_delta (typeAndSize ! 0)] @
                 (case baseOid ob of Some b \<Rightarrow> b | None \<Rightarrow> []) @
                 drop (payloadStart (header ob) - obj_start ob) bytes
           in (bytes', crc32 bytes')
         else (bytes, obj_crc ob))"

definition build_object :: "buffer \<Rightarrow> build_state \<Rightarrow> pack_object \<Rightarrow> pack_error + build_state" where
  "build_object p st ob =
     (if obj_oid ob \<in> set (emitted st) then Inr st
      else case emit_object p ob of (bytes, c) \<Rightarrow>
        let pos = position st + length bytes
        in if pos > 0x7fffffff then Inl ConsolidatedTooLarge
           else Inr \<lparr>parts = parts st @ bytes,
                     built = built st @ [\<lparr>oid = obj_oid ob, crc = c, offset = position st\<rparr>],
                     emitted = emitted st @ [obj_oid ob], position = pos\<rparr>)"

fun build_objects :: "buffer \<Rightarrow> build_state \<Rightarrow> pack_object list \<Rightarrow> pack_error + build_state" where
  "build_objects p st [] = Inr st"
| "build_objects p st (ob # obs) = rbind (build_object p st ob) (\<lambda>st'. build_objects p st' obs)"

fun build_sources :: "build_state \<Rightarrow> verified_pack list \<Rightarrow> pack_error + build_state" where
  "build_sources st [] = Inr st"
| "build_sources st (v # vs) = rbind (build_objects (pack v) st (objects v)) (\<lambda>st'. build_sources st' vs)"

definition build_start :: build_state where
  "build_start = \<lparr>parts = [], built = [], emitted = [], position = 12\<rparr>"

definition pack_header :: "nat \<Rightarrow> buffer" where
  "pack_header n = PACK_SIGNATURE @ bytes32 2 @ bytes32 n"

record consolidated =
  c_name :: string
  c_pack :: buffer
  c_idx :: buffer

definition hex_digit :: "nat \<Rightarrow> char" where
  "hex_digit n = ''0123456789abcdef'' ! n"

definition to_hex :: "buffer \<Rightarrow> string" where
  "to_hex b = concat (map (\<lambda>x. [hex_digit (unat x div 16), hex_digit (unat x mod 16)]) b)"

definition compare_oid :: "idx_entry \<Rightarrow> idx_entry \<Rightarrow> int" where
  "compare_oid l r = buffer_compare (oid l) (oid r)"

definition buildConsolidatedPack :: "(buffer \<Rightarrow> buffer) \<Rightarrow> verified_pack list \<Rightarrow> pack_error + consolidated" where
  "buildConsolidatedPack sha1 sources =
     rbind (build_sources build_start sources) (\<lambda>st.
       let withoutTrailer = pack_header (length (built st)) @ parts st;
           checksum = sha1 withoutTrailer;
           es = js_sort compare_oid (built st)
       in Inr \<lparr>c_name = ''obts-pack-'' @ to_hex checksum, c_pack = withoutTrailer @ checksum,
               c_idx = buildPackIndex sha1 es checksum\<rparr>)"

section \<open>The table-driven CRC is the bitwise CRC\<close>

definition crc_byte_bitwise :: "32 word \<Rightarrow> byte \<Rightarrow> 32 word" where
  "crc_byte_bitwise c b = (crc_step ^^ 8) (c XOR ucast b)"

definition crc32_bitwise :: "buffer \<Rightarrow> nat" where
  "crc32_bitwise bytes = unat (NOT (foldl crc_byte_bitwise (NOT 0) bytes))"

lemma crc_step_odd: "crc_step x = (if odd x then 0xedb88320 XOR drop_bit 1 x else drop_bit 1 x)"
  by (simp add: crc_step_def and_one_eq odd_iff_mod_2_eq_one)

lemma crc_step_xor: "crc_step (x XOR y) = crc_step x XOR crc_step y"
  by (auto simp: crc_step_odd drop_bit_xor even_xor_iff ac_simps simp flip: xor.assoc)

lemma crc_steps_xor: "(crc_step ^^ n) (x XOR y) = (crc_step ^^ n) x XOR (crc_step ^^ n) y"
  by (induction n) (simp_all add: crc_step_xor)

lemma crc_steps_high:
  assumes "\<And>k. k < n \<Longrightarrow> \<not> bit x k"
  shows "(crc_step ^^ n) x = drop_bit n x"
  using assms
proof (induction n)
  case (Suc n)
  then have "even (drop_bit n x)" using Suc.prems [of n] by (simp add: bit_iff_odd_drop_bit)
  with Suc show ?case by (simp add: crc_step_odd)
qed simp

lemma crc_byte_bitwise_eq: "crc_byte c b = crc_byte_bitwise c b"
proof -
  define x where "x = c XOR (ucast b :: 32 word)"
  define lo where "lo = x AND 0xff"
  define hi where "hi = x AND NOT 0xff"
  have x: "x = lo XOR hi"
    by (rule bit_word_eqI) (auto simp: lo_def hi_def bit_simps)
  have mask: "(0xff :: 32 word) = mask 8" by (simp add: mask_eq_exp_minus_1)
  have "\<And>k. k < 8 \<Longrightarrow> \<not> bit hi k"
    unfolding hi_def mask by (simp add: bit_simps)
  then have "(crc_step ^^ 8) hi = drop_bit 8 hi" by (rule crc_steps_high)
  also have "drop_bit 8 hi = drop_bit 8 c"
    unfolding hi_def mask x_def
    by (rule bit_word_eqI) (auto simp: bit_simps bit_ucast_iff dest: bit_imp_le_length)
  finally have high: "(crc_step ^^ 8) hi = drop_bit 8 c" .
  have "lo = take_bit 8 x" unfolding lo_def mask by (simp add: take_bit_eq_mask)
  then have "unat lo < 256" using take_bit_nat_less_exp [of 8 "unat x"] by (simp add: unsigned_take_bit_eq)
  then have "CRC_TABLE ! unat lo = (crc_step ^^ 8) lo" by (simp add: CRC_TABLE_def)
  then have "crc_byte c b = (crc_step ^^ 8) lo XOR (crc_step ^^ 8) hi"
    by (simp add: crc_byte_def high lo_def x_def)
  also have "\<dots> = (crc_step ^^ 8) x" by (simp only: x crc_steps_xor)
  finally show ?thesis by (simp add: crc_byte_bitwise_def x_def)
qed

section \<open>Reading what was written\<close>

lemma concat_bytes32_length [simp]: "length (concat (map (\<lambda>x. bytes32 (f x)) xs)) = 4 * length xs"
  by (induction xs) auto

lemma concat_oid_length: "\<forall>e\<in>set es. length (oid e) = 20 \<Longrightarrow> length (concat (map oid es)) = 20 * length es"
  by (induction es) auto

lemma read_concat32:
  assumes "i < length xs" and "\<forall>x\<in>set xs. f x < 4294967296"
  shows "readUInt32BE (concat (map (\<lambda>x. bytes32 (f x)) xs) @ post) (i * 4) = Some (f (xs ! i))"
  using assms
proof (induction xs arbitrary: i)
  case (Cons x xs)
  show ?case
  proof (cases i)
    case 0
    with Cons show ?thesis by (simp add: readUInt32BE_bytes32)
  next
    case (Suc j)
    with Cons show ?thesis by (simp add: readUInt32BE_append2)
  qed
qed simp

lemma read_at32:
  assumes "i < length xs" and "\<forall>x\<in>set xs. f x < 4294967296" and "length pre = a"
  shows "read32 (pre @ concat (map (\<lambda>x. bytes32 (f x)) xs) @ post) (a + i * 4) = Inr (f (xs ! i))"
  using read_concat32 [OF assms(1,2), of post] assms(3) by (simp add: read32_def readUInt32BE_append2)

lemma subarray_concat20:
  assumes "i < length es" and "\<forall>e\<in>set es. length (oid e) = 20"
  shows "subarray (concat (map oid es) @ post) (i * 20) (i * 20 + 20) = oid (es ! i)"
  using assms
proof (induction es arbitrary: i)
  case (Cons e es)
  show ?case
  proof (cases i)
    case 0
    with Cons show ?thesis by (simp add: subarray_def)
  next
    case (Suc j)
    with Cons show ?thesis by (simp add: subarray_append2 add.commute [of 20])
  qed
qed simp

lemma subarray_at20:
  assumes "i < length es" and "\<forall>e\<in>set es. length (oid e) = 20" and "length pre = a"
  shows "subarray (pre @ concat (map oid es) @ post) (a + i * 20) (a + i * 20 + 20) = oid (es ! i)"
  using subarray_concat20 [OF assms(1,2), of post] assms(3) by (simp add: subarray_append2)

lemma subarray_mid: "length pre = a \<Longrightarrow> length m = n \<Longrightarrow> subarray (pre @ m @ post) a (a + n) = m"
  by (simp add: subarray_def)

section \<open>The fan-out table\<close>

definition first_byte :: "idx_entry \<Rightarrow> nat" where
  "first_byte e = unat (oid e ! 0)"

lemma first_byte_mono:
  assumes "compare_oid a b \<le> 0" and "oid a \<noteq> []" and "oid b \<noteq> []"
  shows "first_byte a \<le> first_byte b"
  using assms
  by (cases "oid a"; cases "oid b") (auto simp: compare_oid_def first_byte_def word_less_nat_alt split: if_splits)

lemma split_by_key:
  assumes "sorted (map f xs)"
  shows "xs = filter (\<lambda>x. f x < b) xs @ filter (\<lambda>x. f x = b) xs @ filter (\<lambda>x. (b::nat) < f x) xs"
  using assms
proof (induction xs)
  case (Cons x xs)
  have "f x \<le> f y" if "y \<in> set xs" for y using Cons.prems that by simp
  then have "b \<le> f x \<Longrightarrow> filter (\<lambda>x. f x < b) xs = []" "b < f x \<Longrightarrow> filter (\<lambda>x. f x = b) xs = []"
    by (fastforce simp: filter_empty_conv)+
  with Cons show ?case by (cases "f x < b"; cases "f x = b") auto
qed simp

lemma fan_advance_sorted:
  assumes "sorted (map first_byte es)"
  shows "fan_advance es b (length (filter (\<lambda>e. first_byte e < b) es)) = length (filter (\<lambda>e. first_byte e < Suc b) es)"
proof -
  let ?lt = "filter (\<lambda>e. first_byte e < b) es" and ?eq = "filter (\<lambda>e. first_byte e = b) es"
    and ?gt = "filter (\<lambda>e. b < first_byte e) es"
  have es: "es = ?lt @ ?eq @ ?gt" using assms by (rule split_by_key)
  have tw: "takeWhile (\<lambda>e. first_byte e \<le> b) (xs @ ys) = xs"
    if "\<forall>x\<in>set xs. first_byte x = b" "\<forall>y\<in>set ys. b < first_byte y" for xs ys
    using that by (cases ys) (auto simp: takeWhile_append2)
  have "takeWhile (\<lambda>e. first_byte e \<le> b) (?eq @ ?gt) = ?eq" by (rule tw) auto
  moreover have "drop (length ?lt) es = ?eq @ ?gt" by (subst es) simp
  moreover have "length (filter (\<lambda>e. first_byte e < Suc b) xs)
      = length (filter (\<lambda>e. first_byte e < b) xs) + length (filter (\<lambda>e. first_byte e = b) xs)" for xs
    by (induction xs) (auto simp: less_Suc_eq)
  ultimately show ?thesis by (simp add: fan_advance_def first_byte_def)
qed

lemma fanout_running_nth:
  "k < n - b \<Longrightarrow> r = length (filter (\<lambda>e. first_byte e < b) es) \<Longrightarrow>
   fanout_running es r [b..<n] ! k = length (filter (\<lambda>e. first_byte e < Suc (b + k)) es)"
proof (induction "n - b" arbitrary: b k r)
  case (Suc m)
  then have "[b..<n] = b # [Suc b..<n]" by (simp add: upt_conv_Cons)
  moreover have next_r: "r + fanout_count es b = length (filter (\<lambda>e. first_byte e < Suc b) es)"
    unfolding Suc.prems(2) fanout_count_def first_byte_def by (induction es) (auto simp: less_Suc_eq)
  ultimately show ?case
    using Suc.hyps(1) [of "Suc b" "k - 1" "r + fanout_count es b"] Suc.hyps(2) Suc.prems(1)
    by (cases k) (auto simp: Let_def)
qed simp

lemma fanout_running_length [simp]: "length (fanout_running es r bs) = length bs"
  by (induction bs arbitrary: r) (auto simp: Let_def)

section \<open>An index that was built parses back\<close>

definition idx_valid :: "idx_entry list \<Rightarrow> bool" where
  "idx_valid es \<longleftrightarrow> length es < 4294967296 \<and> sorted_wrt (\<lambda>a b. compare_oid a b \<le> 0) es \<and>
     (\<forall>e\<in>set es. length (oid e) = 20 \<and> crc e < 4294967296 \<and> offset e < 2147483648)"

lemma idx_entries_built:
  assumes valid: "idx_valid es"
    and oids: "\<And>i. i < length es \<Longrightarrow> subarray idx (oidStart + i * 20) (oidStart + i * 20 + 20) = oid (es ! i)"
    and crcs: "\<And>i. i < length es \<Longrightarrow> read32 idx (crcStart + i * 4) = Inr (crc (es ! i))"
    and offs: "\<And>i. i < length es \<Longrightarrow> read32 idx (offsetStart + i * 4) = Inr (offset (es ! i))"
  shows "n = length es - i \<Longrightarrow> i \<le> length es \<Longrightarrow> prev = (if i = 0 then None else Some (oid (es ! (i - 1)))) \<Longrightarrow>
    idx_entries idx oidStart crcStart offsetStart n i prev = Inr (drop i es)"
proof (induction n arbitrary: i prev)
  case (Suc n)
  then have i: "i < length es" by simp
  have "\<not> (case prev of None \<Rightarrow> False | Some p \<Rightarrow> buffer_compare p (oid (es ! i)) > 0)"
    using valid i Suc.prems(3) by (auto simp: idx_valid_def compare_oid_def sorted_wrt_iff_nth_less not_less)
  moreover have "offset (es ! i) < 2147483648" using valid i by (simp add: idx_valid_def)
  moreover have "idx_entries idx oidStart crcStart offsetStart n (Suc i) (Some (oid (es ! i))) = Inr (drop (Suc i) es)"
    using Suc.prems i by (intro Suc.IH) auto
  moreover have "drop i es = es ! i # drop (Suc i) es" using i by (simp add: Cons_nth_drop_Suc)
  ultimately show ?case using i by (simp add: oids crcs offs Let_def)
qed simp

lemma check_fanout_built:
  assumes "sorted (map first_byte es)" and "n \<le> 256"
    and "\<And>b. b < n \<Longrightarrow> read32 idx (8 + b * 4) = Inr (length (filter (\<lambda>e. first_byte e < Suc b) es))"
  shows "b \<le> n \<Longrightarrow> check_fanout idx es [b..<n] (length (filter (\<lambda>e. first_byte e < b) es)) = Inr ()"
proof (induction "n - b" arbitrary: b)
  case (Suc m)
  then have "[b..<n] = b # [Suc b..<n]" by (simp add: upt_conv_Cons)
  with Suc assms show ?case by (simp add: fan_advance_sorted Let_def)
qed simp

lemma first_byte_sorted:
  assumes "idx_valid es"
  shows "sorted (map first_byte es)"
proof -
  have "sorted_wrt (\<lambda>a b. compare_oid a b \<le> 0) es" "\<forall>e\<in>set es. oid e \<noteq> []"
    using assms by (auto simp: idx_valid_def)
  then show ?thesis
    unfolding sorted_map
    by (induction es) (auto intro: first_byte_mono)
qed

lemma first_byte_all: "filter (\<lambda>e. first_byte e < 256) es = es"
  by (simp add: filter_id_conv first_byte_def order_le_less_trans [OF unat_byte_le])

text \<open>Where the parts of a written index are.\<close>

lemma built_index_reads:
  assumes sha: "\<And>b. length (sha1 b) = 20" and valid: "idx_valid es" and cks: "length checksum = 20"
    and idx: "idx = buildPackIndex sha1 es checksum"
  shows "length idx = 1032 + 28 * length es + 40"
    and "\<And>b. b < 256 \<Longrightarrow> read32 idx (8 + b * 4) = Inr (length (filter (\<lambda>e. first_byte e < Suc b) es))"
    and "\<And>i. i < length es \<Longrightarrow> subarray idx (1032 + i * 20) (1032 + i * 20 + 20) = oid (es ! i)"
    and "\<And>i. i < length es \<Longrightarrow> read32 idx (1032 + length es * 20 + i * 4) = Inr (crc (es ! i))"
    and "\<And>i. i < length es \<Longrightarrow> read32 idx (1032 + length es * 20 + length es * 4 + i * 4) = Inr (offset (es ! i))"
    and "subarray idx (1032 + length es * 20 + length es * 4 + length es * 4) (1032 + length es * 20 + length es * 4 + length es * 4 + 20) = checksum"
    and "sha1 (subarray idx 0 (length idx - 20)) = subarray idx (length idx - 20) (length idx)"
    and "subarray idx 0 4 = IDX_SIGNATURE" and "readUInt32BE idx 4 = Some 2"
proof -
  define F where "F = concat (map (\<lambda>x. bytes32 x) (fanout_running es 0 [0..<256]))"
  define Os where "Os = concat (map oid es)"
  define Cs where "Cs = concat (map (\<lambda>e. bytes32 (crc e)) es)"
  define Fs where "Fs = concat (map (\<lambda>e. bytes32 (offset e)) es)"
  define body where "body = IDX_SIGNATURE @ bytes32 2 @ F @ Os @ Cs @ Fs @ checksum"
  have idx_def: "idx = body @ sha1 body"
    by (simp add: idx buildPackIndex_def idx_body_def body_def F_def Os_def Cs_def Fs_def)
  have e: "\<forall>e\<in>set es. length (oid e) = 20" "\<forall>e\<in>set es. crc e < 4294967296" "\<forall>e\<in>set es. offset e < 4294967296"
    "length es < 4294967296"
    using valid by (auto simp: idx_valid_def)
  have len: "length F = 1024" "length Os = 20 * length es" "length Cs = 4 * length es" "length Fs = 4 * length es"
    "length IDX_SIGNATURE = 4" "length body = 8 + 1024 + 28 * length es + 20"
    using concat_oid_length [OF e(1)] cks by (simp_all add: F_def Os_def Cs_def Fs_def IDX_SIGNATURE_def body_def)
  show "length idx = 1032 + 28 * length es + 40" using len sha by (simp add: idx_def)
  show "read32 idx (8 + b * 4) = Inr (length (filter (\<lambda>e. first_byte e < Suc b) es))" if "b < 256" for b
  proof -
    have small: "\<forall>x\<in>set (fanout_running es 0 [0..<256]). x < 4294967296"
      using fanout_running_nth [of _ 256 0 0 es] e(4)
      by (auto simp: in_set_conv_nth) (meson length_filter_le le_less_trans)
    have "read32 ((IDX_SIGNATURE @ bytes32 2) @ F @ Os @ Cs @ Fs @ checksum @ sha1 body) (8 + b * 4)
        = Inr (fanout_running es 0 [0..<256] ! b)"
      unfolding F_def by (rule read_at32) (use that small in \<open>simp_all add: IDX_SIGNATURE_def\<close>)
    with fanout_running_nth [of b 256 0 0 es] that show ?thesis by (simp add: idx_def body_def)
  qed
  show "subarray idx (1032 + i * 20) (1032 + i * 20 + 20) = oid (es ! i)" if "i < length es" for i
    using subarray_at20 [OF that e(1), of "IDX_SIGNATURE @ bytes32 2 @ F" 1032 "Cs @ Fs @ checksum @ sha1 body"] len
    by (simp add: idx_def body_def Os_def)
  show "read32 idx (1032 + length es * 20 + i * 4) = Inr (crc (es ! i))" if "i < length es" for i
    using read_at32 [OF that e(2), of "IDX_SIGNATURE @ bytes32 2 @ F @ Os" "1032 + length es * 20" "Fs @ checksum @ sha1 body"] len
    by (simp add: idx_def body_def Cs_def)
  show "read32 idx (1032 + length es * 20 + length es * 4 + i * 4) = Inr (offset (es ! i))" if "i < length es" for i
    using read_at32 [OF that e(3), of "IDX_SIGNATURE @ bytes32 2 @ F @ Os @ Cs" "1032 + length es * 20 + length es * 4" "checksum @ sha1 body"] len
    by (simp add: idx_def body_def Fs_def)
  show "subarray idx (1032 + length es * 20 + length es * 4 + length es * 4) (1032 + length es * 20 + length es * 4 + length es * 4 + 20) = checksum"
    using subarray_mid [of "IDX_SIGNATURE @ bytes32 2 @ F @ Os @ Cs @ Fs" _ checksum 20 "sha1 body"] len cks
    by (simp add: idx_def body_def ac_simps)
  show "sha1 (subarray idx 0 (length idx - 20)) = subarray idx (length idx - 20) (length idx)"
    using sha by (simp add: idx_def subarray_def)
  show "subarray idx 0 4 = IDX_SIGNATURE" "readUInt32BE idx 4 = Some 2"
    by (simp_all add: idx_def body_def subarray_def IDX_SIGNATURE_def readUInt32BE_def bytes32_def be32_def)
qed

lemma parse_built_index:
  assumes sha: "\<And>b. length (sha1 b) = 20" and valid: "idx_valid es" and cks: "length checksum = 20"
  shows "parsePackIndex sha1 (buildPackIndex sha1 es checksum) = Inr \<lparr>entries = es, packChecksum = checksum\<rparr>"
proof -
  define idx where "idx = buildPackIndex sha1 es checksum"
  note r = built_index_reads [OF sha valid cks idx_def]
  have "idx_entries idx 1032 (1032 + length es * 20) (1032 + length es * 20 + length es * 4) (length es) 0 None = Inr es"
    using idx_entries_built [OF valid r(3,4,5), of "length es" 0] by simp
  moreover have "check_fanout idx es [0..<256] 0 = Inr ()"
    using check_fanout_built [OF first_byte_sorted [OF valid] _ r(2), of 256 0] by simp
  moreover have "read32 idx (8 + 255 * 4) = Inr (length es)"
    using r(2) [of 255] by (simp add: first_byte_all)
  ultimately show ?thesis
    unfolding idx_def [symmetric] parsePackIndex_def using r(1,6,7,8,9) by (simp add: Let_def)
qed

end
