(* ===== verification/PackRebuild.thy ===== *)
theory PackRebuild
  imports PackFormat
begin

unbundle bit_operations_syntax

text \<open>
  Consolidation keeps every object. A verified pack denotes a map from object ids to contents
  (\<open>pack_lookup\<close>); \<open>buildConsolidatedPack\<close> of verified sources always passes \<open>parsePackIndex\<close> and
  \<open>verifyPack\<close> again, and the result denotes the union of the sources.
\<close>

section \<open>What an accepted index guarantees\<close>

lemma idx_entries_fields:
  assumes "idx_entries idx oidStart crcStart offsetStart n i prev = Inr es"
    and "oidStart + (i + n) * 20 \<le> length idx"
  shows "length es = n \<and> (\<forall>e\<in>set es. length (oid e) = 20 \<and> crc e < 4294967296 \<and> offset e < 2147483648)"
  using assms
proof (induction n arbitrary: i prev es)
  case (Suc n)
  let ?id = "subarray idx (oidStart + i * 20) (oidStart + i * 20 + 20)"
  from Suc.prems(1) obtain off c es' where
    r: "read32 idx (offsetStart + i * 4) = Inr off" "off < 2147483648" "read32 idx (crcStart + i * 4) = Inr c"
      "idx_entries idx oidStart crcStart offsetStart n (Suc i) (Some ?id) = Inr es'"
      "es = \<lparr>oid = ?id, crc = c, offset = off\<rparr> # es'"
    by (auto simp: Let_def rbind_Inr_iff split: if_splits)
  have "c < 4294967296"
    using r(3) readUInt32BE_Some [of "crcStart + i * 4" idx]
    by (auto simp: read32_def readUInt32BE_def split: if_splits)
  moreover have "length ?id = 20" using Suc.prems(2) by (simp add: length_subarray)
  moreover have "length es' = n \<and> (\<forall>e\<in>set es'. length (oid e) = 20 \<and> crc e < 4294967296 \<and> offset e < 2147483648)"
    using Suc.IH [OF r(4)] Suc.prems(2) by simp
  ultimately show ?case using r by simp
qed simp

lemma parsePackIndex_fields:
  assumes "parsePackIndex sha1 idx = Inr ix"
  shows "\<forall>e\<in>set (entries ix). length (oid e) = 20 \<and> crc e < 4294967296 \<and> offset e < 2147483648"
proof -
  from assms obtain count es where
    "idx_entries idx 1032 (1032 + count * 20) (1032 + count * 20 + count * 4) count 0 None = Inr es"
    "length idx = 1032 + count * 20 + count * 4 + count * 4 + 40" "entries ix = es"
    by (auto simp: parsePackIndex_def Let_def rbind_Inr_iff split: if_splits)
  then show ?thesis using idx_entries_fields [of idx 1032] by fastforce
qed

section \<open>What a verified pack guarantees\<close>

definition good_object :: "buffer \<Rightarrow> buffer set \<Rightarrow> pack_object \<Rightarrow> bool" where
  "good_object p oids ob \<longleftrightarrow>
     length (obj_oid ob) = 20 \<and> obj_start ob < obj_end ob \<and> obj_end ob \<le> length p \<and>
     obj_crc ob = crc32 (subarray p (obj_start ob) (obj_end ob)) \<and>
     readEntryHeader p (obj_start ob) (obj_end ob) = Inr (header ob) \<and>
     (otype (header ob) = OFS_DELTA \<longrightarrow> (\<exists>b. baseOid ob = Some b \<and> b \<in> oids)) \<and>
     (otype (header ob) = REF_DELTA \<longrightarrow>
        baseOid ob = Some (subarray p (payloadStart (header ob) - 20) (payloadStart (header ob))) \<and> the (baseOid ob) \<in> oids) \<and>
     (otype (header ob) \<noteq> OFS_DELTA \<and> otype (header ob) \<noteq> REF_DELTA \<longrightarrow> baseOid ob = None)"

definition pack_oids :: "verified_pack \<Rightarrow> buffer set" where
  "pack_oids v = obj_oid ` set (objects v)"

definition good_pack :: "verified_pack \<Rightarrow> bool" where
  "good_pack v \<longleftrightarrow> (\<forall>ob\<in>set (objects v). good_object (pack v) (pack_oids v) ob)"

lemma object_base_good:
  assumes "object_base p byOffset h = Inr b"
  shows "(otype h = OFS_DELTA \<longrightarrow> (\<exists>x. b = Some x \<and> x \<in> set (map oid byOffset))) \<and>
    (otype h = REF_DELTA \<longrightarrow> b = Some (subarray p (payloadStart h - 20) (payloadStart h)) \<and> the b \<in> set (map oid byOffset)) \<and>
    (otype h \<noteq> OFS_DELTA \<and> otype h \<noteq> REF_DELTA \<longrightarrow> b = None)"
proof (cases "otype h = OFS_DELTA")
  case True
  with assms obtain x where "map_of (rev (map (\<lambda>e. (Some (offset e), oid e)) byOffset)) (baseOffset h) = Some x" "b = Some x"
    by (auto simp: object_base_def split: option.splits)
  with True show ?thesis by (auto dest!: map_of_SomeD)
next
  case False
  with assms show ?thesis by (auto simp: object_base_def Let_def split: if_splits)
qed

lemma verify_objects_good:
  assumes "verify_objects p byOffset first xs = Inr os" and "\<forall>e\<in>set xs. length (oid e) = 20"
  shows "map obj_oid os = map oid xs \<and> (\<forall>ob\<in>set os. good_object p (set (map oid byOffset)) ob)"
  using assms
proof (induction xs arbitrary: first os)
  case (Cons x xs)
  let ?e = "case xs of [] \<Rightarrow> length p - 20 | y # _ \<Rightarrow> offset y"
  from Cons.prems(1) obtain h b os' where
    r: "readEntryHeader p (offset x) ?e = Inr h" "object_base p byOffset h = Inr b"
      "verify_objects p byOffset False xs = Inr os'" "offset x < ?e" "?e \<le> length p - 20"
      "crc32 (subarray p (offset x) ?e) = crc x"
      "os = \<lparr>obj_oid = oid x, obj_crc = crc x, obj_start = offset x, obj_end = ?e, header = h, baseOid = b\<rparr> # os'"
    by (auto simp: Let_def rbind_Inr_iff split: if_splits)
  have "?e \<le> length p" using r(5) by linarith
  then have "good_object p (set (map oid byOffset)) (hd os)"
    using r(1,4,6,7) object_base_good [OF r(2)] Cons.prems(2) by (auto simp: good_object_def)
  with Cons.IH [OF r(3)] Cons.prems(2) r(7) show ?case by simp
qed simp

lemma verifyPack_good:
  assumes "verifyPack sha1 p ix = Inr v" and "\<forall>e\<in>set (entries ix). length (oid e) = 20"
  shows "good_pack v \<and> pack v = p \<and> map obj_oid (objects v) = map oid (js_sort compare_offset (entries ix))"
proof -
  from assms(1) obtain os where
    os: "verify_objects p (js_sort compare_offset (entries ix)) True (js_sort compare_offset (entries ix)) = Inr os"
      "v = \<lparr>pack = p, objects = os\<rparr>"
    by (auto simp: verifyPack_def Let_def rbind_Inr_iff split: if_splits)
  from verify_objects_good [OF os(1)] assms(2) have
    g: "map obj_oid os = map oid (js_sort compare_offset (entries ix))"
      "\<forall>ob\<in>set os. good_object p (set (map oid (js_sort compare_offset (entries ix)))) ob"
    by auto
  have "pack_oids v = set (map oid (js_sort compare_offset (entries ix)))"
    unfolding pack_oids_def os(2) using g(1) by (metis list.set_map verified_pack.select_convs(2))
  with g os(2) show ?thesis by (simp add: good_pack_def)
qed

section \<open>Entry headers do not depend on their position\<close>

declare size_loop.simps [simp del] distance_loop.simps [simp del]

lemma byte_at_shift: "i < length bs \<Longrightarrow> byte_at (pre @ bs @ post) (length pre + i) = byte_at bs i"
  by (simp add: byte_at_def nth_append)

lemma size_loop_shift:
  assumes "e \<le> length bs"
  shows "size_loop (pre @ bs @ post) (length pre + e) k (length pre + c) b
    = map_sum id (\<lambda>x. length pre + x) (size_loop bs e k c b)"
  using assms
proof (induction bs e k c b rule: size_loop.induct)
  case (1 bs e k c b)
  show ?case
  proof (cases "b < 128 \<or> c \<ge> e \<or> k \<ge> 9")
    case True
    then show ?thesis
      by (auto simp: size_loop.simps [of bs e k c b] size_loop.simps [of "pre @ bs @ post" "length pre + e" k "length pre + c" b])
  next
    case False
    with 1 show ?thesis
      by (simp add: size_loop.simps [of bs e k c b] size_loop.simps [of "pre @ bs @ post" "length pre + e" k "length pre + c" b]
          byte_at_shift)
  qed
qed

lemma size_loop_ge: "size_loop p e k c b = Inr cur \<Longrightarrow> c \<le> cur \<and> (b \<ge> 128 \<longrightarrow> cur \<le> e)"
proof (induction p e k c b rule: size_loop.induct)
  case (1 p e k c b)
  show ?case
  proof (cases "b < 128")
    case True
    with 1 show ?thesis by (simp add: size_loop.simps [of p e k c b])
  next
    case False
    with 1 have rec: "size_loop p e (Suc k) (Suc c) (byte_at p c) = Inr cur" "c < e" "k < 9"
      by (simp_all add: size_loop.simps [of p e k c b] split: if_splits)
    with 1 False have "Suc c \<le> cur \<and> (byte_at p c \<ge> 128 \<longrightarrow> cur \<le> e)" by simp
    moreover have "byte_at p c < 128 \<Longrightarrow> cur = Suc c"
      using rec(1) by (simp add: size_loop.simps [of p e "Suc k"])
    ultimately show ?thesis using rec(2) by linarith
  qed
qed

text \<open>The loop reads only the bytes up to where it stops.\<close>

lemma size_loop_agree:
  assumes "size_loop p e k c b = Inr cur" and "\<And>j. c \<le> j \<Longrightarrow> j < cur \<Longrightarrow> byte_at q j = byte_at p j"
    and "b' < 128 \<longleftrightarrow> b < 128" and "cur \<le> e'"
  shows "size_loop q e' k c b' = Inr cur"
  using assms
proof (induction p e k c b arbitrary: b' rule: size_loop.induct)
  case (1 p e k c b)
  show ?case
  proof (cases "b < 128")
    case True
    with 1 have "c = cur" "b' < 128" by (simp_all add: size_loop.simps [of p e k c b])
    then show ?thesis by (simp add: size_loop.simps [of q e' k cur b'])
  next
    case False
    with 1 have rec: "size_loop p e (Suc k) (Suc c) (byte_at p c) = Inr cur" "k < 9" "c < e"
      by (simp_all add: size_loop.simps [of p e k c b] split: if_splits)
    then have "Suc c \<le> cur" using size_loop_ge by blast
    with False 1 rec show ?thesis by (simp add: size_loop.simps [of q e' k c b'])
  qed
qed

definition shift_header :: "nat \<Rightarrow> entry_header \<Rightarrow> entry_header" where
  "shift_header n h = h\<lparr>sizeEnd := n + sizeEnd h, payloadStart := n + payloadStart h\<rparr>"

lemma header_shift:
  assumes "bs \<noteq> []" and "byte_at bs 0 div 16 mod 8 \<noteq> OFS_DELTA"
  shows "readEntryHeader (pre @ bs @ post) (length pre) (length pre + length bs)
    = map_sum id (shift_header (length pre)) (readEntryHeader bs 0 (length bs))"
proof -
  have b: "byte_at (pre @ bs @ post) (length pre) = byte_at bs 0"
    using byte_at_shift [of 0 bs pre post] assms(1) by simp
  have "size_loop (pre @ bs @ post) (length pre + length bs) 0 (Suc (length pre)) (byte_at bs 0)
      = map_sum id (\<lambda>x. length pre + x) (size_loop bs (length bs) 0 1 (byte_at bs 0))"
    using size_loop_shift [of "length bs" bs pre post 0 1] by simp
  with assms(2) b show ?thesis
    by (cases "size_loop bs (length bs) 0 1 (byte_at bs 0)")
      (auto simp: readEntryHeader_def Let_def shift_header_def)
qed

lemma header_type: "readEntryHeader p s e = Inr h \<Longrightarrow> otype h = byte_at p s div 16 mod 8"
  by (auto simp: readEntryHeader_def Let_def rbind_Inr_iff split: if_splits prod.splits)

lemma header_plain:
  assumes "readEntryHeader p s e = Inr h" and "otype h \<noteq> OFS_DELTA"
  shows "baseOffset h = None \<and> payloadStart h = (if otype h = REF_DELTA then sizeEnd h + 20 else sizeEnd h) \<and> payloadStart h < e"
  using assms by (auto simp: readEntryHeader_def Let_def rbind_Inr_iff split: if_splits)

lemma distance_loop_ge: "distance_loop p e c b d = Inr (cur, d') \<Longrightarrow> c \<le> cur"
proof (induction p e c b d rule: distance_loop.induct)
  case (1 p e c b d)
  then show ?case
    by (cases "b < 128") (auto simp: distance_loop.simps [of p e c b d] split: if_splits)
qed

lemma header_ofs:
  assumes "readEntryHeader p s e = Inr h" and "otype h = OFS_DELTA"
  shows "size_loop p e 0 (Suc s) (byte_at p s) = Inr (sizeEnd h) \<and> s < sizeEnd h \<and> sizeEnd h < payloadStart h \<and> payloadStart h < e"
proof -
  from assms obtain cur cur' d where
    r: "size_loop p e 0 (Suc s) (byte_at p s) = Inr cur"
      "distance_loop p e (Suc cur) (byte_at p cur) (byte_at p cur mod 128) = Inr (cur', d)"
      "cur' < e" "sizeEnd h = cur" "payloadStart h = cur'"
    by (auto simp: readEntryHeader_def Let_def rbind_Inr_iff split: if_splits prod.splits)
  with distance_loop_ge [OF r(2)] size_loop_ge [OF r(1)] show ?thesis by auto
qed

section \<open>Emitted objects\<close>

type_synonym content = "nat \<times> buffer \<times> buffer option \<times> buffer"

text \<open>The content of an object as its entry gives it: the type (both kinds of delta count as a
  reference delta), the bytes of the size field without the type, the base object, the compressed
  payload.\<close>

definition content_of :: "buffer \<Rightarrow> nat \<Rightarrow> nat \<Rightarrow> entry_header \<Rightarrow> buffer option \<Rightarrow> content" where
  "content_of p s e h base =
     (if otype h = OFS_DELTA then REF_DELTA else otype h,
      (p ! s AND 0x8f) # subarray p (Suc s) (sizeEnd h), base, subarray p (payloadStart h) e)"

definition object_content :: "buffer \<Rightarrow> pack_object \<Rightarrow> content" where
  "object_content p ob = content_of p (obj_start ob) (obj_end ob) (header ob) (baseOid ob)"

definition entry_base :: "buffer \<Rightarrow> entry_header \<Rightarrow> buffer option" where
  "entry_base bs h = (if otype h = REF_DELTA then Some (subarray bs (payloadStart h - 20) (payloadStart h)) else None)"

text \<open>The bytes of one entry of the consolidated pack: a header that does not refer to an offset.\<close>

definition entry_ok :: "buffer \<Rightarrow> content \<Rightarrow> bool" where
  "entry_ok bs c \<longleftrightarrow> bs \<noteq> [] \<and> (\<exists>h. readEntryHeader bs 0 (length bs) = Inr h \<and> otype h \<noteq> OFS_DELTA \<and>
     c = content_of bs 0 (length bs) h (entry_base bs h))"

lemma subarray_shift: "length pre = n \<Longrightarrow> j \<le> length bs \<Longrightarrow> subarray (pre @ bs @ post) (n + i) (n + j) = subarray bs i j"
  by (simp add: subarray_def)

lemma byte_low: "unat (b :: byte) < 128 \<longleftrightarrow> \<not> bit b 7"
proof -
  have "unat b < 256" using unat_byte_le [of b] by simp
  moreover have "bit b 7 \<longleftrightarrow> bit (unat b) 7" by (simp add: bit_unsigned_iff)
  moreover have "bit (unat b) 7 \<longleftrightarrow> odd (unat b div 128)" by (simp add: bit_iff_odd)
  ultimately show ?thesis by (cases "unat b < 128") (auto simp: div_nat_eqI [where q = 1])
qed

lemma set_ref_delta_type: "unat (set_ref_delta b) div 16 mod 8 = 7"
proof -
  have k: "(0x70::byte) = push_bit 4 (mask 3)" by (simp add: mask_eq_exp_minus_1 push_bit_eq_mult)
  have "take_bit 3 (drop_bit 4 (set_ref_delta b)) = mask 3"
    unfolding set_ref_delta_def k by (rule bit_word_eqI) (auto simp: bit_simps)
  then have "unat (take_bit 3 (drop_bit 4 (set_ref_delta b))) = unat (mask 3 :: byte)" by (rule arg_cong)
  also have "unat (take_bit 3 (drop_bit 4 (set_ref_delta b))) = unat (set_ref_delta b) div 16 mod 8"
    using unat_byte_le [of "set_ref_delta b"]
    by (simp only: unsigned_take_bit_eq unsigned_drop_bit_eq) (simp add: take_bit_eq_mod drop_bit_eq_div)
  finally show ?thesis by (simp add: mask_eq_exp_minus_1)
qed

lemma set_ref_delta_low: "unat (set_ref_delta b) < 128 \<longleftrightarrow> unat b < 128"
  unfolding set_ref_delta_def byte_low by (simp add: bit_simps)

lemma header_payload: "readEntryHeader p s e = Inr h \<Longrightarrow> otype h \<noteq> OFS_DELTA \<Longrightarrow>
    s < sizeEnd h \<and> sizeEnd h \<le> payloadStart h \<and> payloadStart h < e \<and> (otype h = REF_DELTA \<longrightarrow> 20 \<le> payloadStart h)"
  by (auto simp: readEntryHeader_def Let_def rbind_Inr_iff split: if_splits dest!: size_loop_ge)

lemma content_of_shift:
  assumes "readEntryHeader bs 0 (length bs) = Inr h" and "otype h \<noteq> OFS_DELTA"
  shows "content_of (pre @ bs @ post) (length pre) (length pre + length bs) (shift_header (length pre) h) b
    = content_of bs 0 (length bs) h b"
    and "entry_base (pre @ bs @ post) (shift_header (length pre) h) = entry_base bs h"
proof -
  note h = header_payload [OF assms]
  have "subarray (pre @ bs @ post) (length pre + payloadStart h - 20) (length pre + payloadStart h)
      = subarray bs (payloadStart h - 20) (payloadStart h)" if "otype h = REF_DELTA"
    using h that subarray_shift [of pre "length pre" "payloadStart h" bs post "payloadStart h - 20"] by simp
  then show "entry_base (pre @ bs @ post) (shift_header (length pre) h) = entry_base bs h"
    by (simp add: entry_base_def shift_header_def)
  from h have "bs \<noteq> []" by auto
  moreover have "subarray (pre @ bs @ post) (Suc (length pre)) (length pre + sizeEnd h) = subarray bs (Suc 0) (sizeEnd h)"
    using subarray_shift [of pre "length pre" "sizeEnd h" bs post 1] h by simp
  ultimately show "content_of (pre @ bs @ post) (length pre) (length pre + length bs) (shift_header (length pre) h) b
    = content_of bs 0 (length bs) h b"
    using h by (simp add: content_of_def shift_header_def subarray_shift nth_append)
qed

lemma subarray_split: "s < e \<Longrightarrow> e \<le> length p \<Longrightarrow> p = take s p @ subarray p s e @ drop e p"
  by (simp add: subarray_def) (metis append_take_drop_id drop_drop le_add_diff_inverse2 less_imp_le)

lemma emit_plain:
  assumes "good_object p oids ob" and "otype (header ob) \<noteq> OFS_DELTA"
  shows "entry_ok (subarray p (obj_start ob) (obj_end ob)) (object_content p ob)"
proof -
  let ?bs = "subarray p (obj_start ob) (obj_end ob)" and ?pre = "take (obj_start ob) p"
  have g: "obj_start ob < obj_end ob" "obj_end ob \<le> length p" "readEntryHeader p (obj_start ob) (obj_end ob) = Inr (header ob)"
    "baseOid ob = entry_base p (header ob)"
    using assms by (auto simp: good_object_def entry_base_def)
  have p: "p = ?pre @ ?bs @ drop (obj_end ob) p"
    using g(1,2) by (rule subarray_split)
  have l: "length ?bs = obj_end ob - obj_start ob" "length ?pre = obj_start ob" using g(1,2) by (simp_all add: length_subarray)
  have b0: "byte_at p (obj_start ob) = byte_at ?bs 0"
    using byte_at_shift [of 0 ?bs ?pre "drop (obj_end ob) p"] l g p by simp
  from g l have ne: "?bs \<noteq> []" by auto
  have "byte_at ?bs 0 div 16 mod 8 \<noteq> OFS_DELTA" using assms(2) header_type [OF g(3)] b0 by simp
  from header_shift [OF ne this, of ?pre "drop (obj_end ob) p"] p l g(1,3)
  obtain h where h: "readEntryHeader ?bs 0 (length ?bs) = Inr h" "header ob = shift_header (obj_start ob) h"
    by (cases "readEntryHeader ?bs 0 (length ?bs)") auto
  then have t: "otype h \<noteq> OFS_DELTA" using assms(2) by (simp add: shift_header_def)
  have "object_content p ob = content_of ?bs 0 (length ?bs) h (entry_base ?bs h)"
    using content_of_shift [OF h(1) t, of ?pre "drop (obj_end ob) p"] p l g h(2)
    by (simp add: object_content_def)
  with ne h t show ?thesis by (auto simp: entry_ok_def)
qed


lemma emit_ofs:
  assumes good: "good_object p oids ob" and ofs: "otype (header ob) = OFS_DELTA" and oids: "\<forall>x\<in>oids. length x = 20"
    and emit: "emit_object p ob = (bs, c)"
  shows "entry_ok bs (object_content p ob)"
proof -
  let ?s = "obj_start ob" and ?e = "obj_end ob" and ?h = "header ob"
  define sb where "sb = subarray p ?s ?e"
  define n where "n = sizeEnd ?h - ?s"
  define m where "m = payloadStart ?h - ?s"
  from good ofs obtain b where g: "?s < ?e" "?e \<le> length p" "readEntryHeader p ?s ?e = Inr ?h" "baseOid ob = Some b" "length b = 20"
    using oids by (auto simp: good_object_def)
  note h = header_ofs [OF g(3) ofs]
  have len: "length sb = ?e - ?s" using g(1,2) by (simp add: sb_def length_subarray)
  have nm: "0 < n" "n < m" "m < length sb" using h len by (auto simp: n_def m_def)
  define hd0 where "hd0 = (take n sb)[0 := set_ref_delta (sb ! 0)]"
  have bs: "bs = hd0 @ b @ drop m sb"
    using emit ofs g(4) nm
    by (auto simp: emit_object_def Let_def hd0_def subarray_def [of sb] simp flip: sb_def n_def m_def)
  have lhd: "length hd0 = n" using nm by (simp add: hd0_def)
  have pby: "p = take ?s p @ sb @ drop ?e p" unfolding sb_def using g(1,2) by (rule subarray_split)
  have b0: "byte_at sb 0 = byte_at p ?s"
    using byte_at_shift [of 0 sb "take ?s p" "drop ?e p"] pby g nm by fastforce
  have "size_loop p ?e 0 (Suc ?s) (byte_at p ?s) = map_sum id (\<lambda>x. ?s + x) (size_loop sb (length sb) 0 1 (byte_at p ?s))"
    using size_loop_shift [of "length sb" sb "take ?s p" "drop ?e p" 0 1 "byte_at p ?s"] pby len g by simp
  with h have sz: "size_loop sb (length sb) 0 1 (byte_at sb 0) = Inr n"
    by (cases "size_loop sb (length sb) 0 1 (byte_at sb 0)") (auto simp: n_def b0)
  have bytes: "byte_at bs j = byte_at sb j" if "1 \<le> j" "j < n" for j
    using that nm lhd by (auto simp: byte_at_def bs nth_append hd0_def)
  have first: "bs ! 0 = set_ref_delta (sb ! 0)" using nm lhd by (simp add: bs nth_append hd0_def)
  have t0: "byte_at bs 0 = unat (set_ref_delta (sb ! 0))" using first lhd nm by (simp add: byte_at_def bs)
  have "size_loop bs (length bs) 0 1 (byte_at bs 0) = Inr n"
  proof (rule size_loop_agree [OF sz])
    show "byte_at bs 0 < 128 \<longleftrightarrow> byte_at sb 0 < 128" 
      using nm unfolding t0 by (auto simp: set_ref_delta_low byte_at_def)
    show "n \<le> length bs" using lhd by (simp add: bs)
  qed (use bytes in auto)
  moreover have "n + 20 < length bs" using lhd g(5) nm by (simp add: bs)
  ultimately have hdr: "readEntryHeader bs 0 (length bs) = Inr \<lparr>otype = 7, sizeEnd = n, payloadStart = n + 20, baseOffset = None\<rparr>"
    by (simp add: readEntryHeader_def t0 set_ref_delta_type)
  have "subarray bs n (n + 20) = b" using lhd g(5) by (simp add: bs subarray_def)
  moreover have "subarray bs (n + 20) (length bs) = subarray p (payloadStart ?h) ?e"
  proof -
    have "subarray bs (n + 20) (length bs) = drop m sb" using lhd g(5) by (simp add: bs subarray_def)
    also have "\<dots> = subarray p (payloadStart ?h) ?e" using h by (simp add: sb_def m_def subarray_def drop_take)
    finally show ?thesis .
  qed
  moreover have "subarray bs (Suc 0) n = subarray p (Suc ?s) (sizeEnd ?h)"
  proof -
    have "subarray bs (Suc 0) n = drop 1 (take n sb)" using lhd nm by (simp add: bs subarray_def hd0_def drop_update_cancel)
    also have "\<dots> = subarray p (Suc ?s) (sizeEnd ?h)"
      using nm h by (simp add: sb_def subarray_def n_def drop_take)
    finally show ?thesis .
  qed
  moreover have "bs ! 0 AND 0x8f = p ! ?s AND 0x8f"
  proof -
    have "sb ! 0 = p ! ?s" using g nm by (simp add: sb_def subarray_def)
    then show ?thesis unfolding first set_ref_delta_def by (simp add: bit.conj_disj_distrib2 and.assoc)
  qed
  ultimately have "object_content p ob = content_of bs 0 (length bs) \<lparr>otype = 7, sizeEnd = n, payloadStart = n + 20, baseOffset = None\<rparr>
      (entry_base bs \<lparr>otype = 7, sizeEnd = n, payloadStart = n + 20, baseOffset = None\<rparr>)"
    using ofs g(4) by (simp add: object_content_def content_of_def entry_base_def)
  with hdr lhd nm show ?thesis by (auto simp: entry_ok_def bs)
qed

lemma emit_object_ok:
  assumes "good_object p oids ob" and "\<forall>x\<in>oids. length x = 20" and "emit_object p ob = (bs, c)"
  shows "entry_ok bs (object_content p ob) \<and> c = crc32 bs"
proof (cases "otype (header ob) = OFS_DELTA")
  case True
  then show ?thesis using emit_ofs [OF assms(1) True assms(2,3)] assms(3) by (auto simp: emit_object_def Let_def)
next
  case False
  then show ?thesis using emit_plain [OF assms(1) False] assms(1,3) by (auto simp: emit_object_def Let_def good_object_def)
qed


section \<open>The layout of the consolidated pack\<close>

text \<open>One laid-out object: its id, its bytes and the content those bytes hold.\<close>

type_synonym slot = "buffer \<times> buffer \<times> content"

fun entries_at :: "nat \<Rightarrow> slot list \<Rightarrow> idx_entry list" where
  "entries_at pos [] = []"
| "entries_at pos ((i, bs, c) # xs) = \<lparr>oid = i, crc = crc32 bs, offset = pos\<rparr> # entries_at (pos + length bs) xs"

definition slot_bytes :: "slot list \<Rightarrow> buffer" where
  "slot_bytes xs = concat (map (\<lambda>(i, bs, c). bs) xs)"

definition slot_contents :: "slot list \<Rightarrow> (buffer \<times> content) list" where
  "slot_contents xs = map (\<lambda>(i, bs, c). (i, c)) xs"

definition slot_ok :: "slot \<Rightarrow> bool" where
  "slot_ok = (\<lambda>(i, bs, c). length i = 20 \<and> entry_ok bs c)"

lemma entries_at_append: "entries_at pos (xs @ ys) = entries_at pos xs @ entries_at (pos + length (slot_bytes xs)) ys"
  by (induction xs arbitrary: pos rule: list.induct) (auto simp: slot_bytes_def ac_simps)

lemma entries_at_oids: "map oid (entries_at pos xs) = map fst (slot_contents xs)"
  by (induction pos xs rule: entries_at.induct) (auto simp: slot_contents_def)

lemma length_entries_at [simp]: "length (entries_at pos xs) = length xs"
  by (induction pos xs rule: entries_at.induct) auto

lemma slot_bytes_simps [simp]: "slot_bytes [] = []" "slot_bytes ((i, bs, c) # xs) = bs @ slot_bytes xs"
  "slot_bytes (xs @ ys) = slot_bytes xs @ slot_bytes ys"
  by (simp_all add: slot_bytes_def)

lemma slot_contents_simps [simp]: "slot_contents [] = []" "slot_contents ((i, bs, c) # xs) = (i, c) # slot_contents xs"
  "slot_contents (xs @ ys) = slot_contents xs @ slot_contents ys"
  by (simp_all add: slot_contents_def)

lemma entry_ok_nonempty: "entry_ok bs c \<Longrightarrow> 0 < length bs"
  by (simp add: entry_ok_def)

lemma crc32_less: "crc32 bs < 4294967296"
  using unsigned_less [of "foldl crc_byte (- 1) bs XOR - 1", where ?'a = nat] by (simp add: crc32_def)

lemma entries_at_fields:
  "\<forall>x\<in>set xs. slot_ok x \<Longrightarrow> e \<in> set (entries_at pos xs) \<Longrightarrow>
   length (oid e) = 20 \<and> crc e < 4294967296 \<and> pos \<le> offset e \<and> offset e < pos + length (slot_bytes xs)"
proof (induction pos xs rule: entries_at.induct)
  case (2 pos i bs c xs)
  with crc32_less [of bs] show ?case by (auto simp: slot_ok_def dest: entry_ok_nonempty)
qed simp

lemma entries_at_sorted: "\<forall>x\<in>set xs. slot_ok x \<Longrightarrow> sorted_wrt (\<lambda>a b. offset a < offset b) (entries_at pos xs)"
proof (induction pos xs rule: entries_at.induct)
  case (2 pos i bs c xs)
  then have "0 < length bs" by (auto simp: slot_ok_def dest: entry_ok_nonempty)
  then have "pos < offset e" if "e \<in> set (entries_at (pos + length bs) xs)" for e
    using that 2(2) entries_at_fields [of xs e "pos + length bs"] by (cases bs) auto
  with 2 show ?case by simp
qed simp

text \<open>The layout verifies again, and every object has its content.\<close>

lemma verify_layout:
  assumes "p = pre @ slot_bytes xs @ trailer" and "length trailer = 20" and "12 \<le> length pre"
    and "first \<longrightarrow> length pre = 12" and "\<forall>x\<in>set xs. slot_ok x"
    and "\<forall>(i, t, z, base, d)\<in>set (slot_contents xs). \<forall>b. base = Some b \<longrightarrow> b \<in> set (map oid byOffset)"
  shows "\<exists>os. verify_objects p byOffset first (entries_at (length pre) xs) = Inr os \<and>
    map (\<lambda>ob. (obj_oid ob, object_content p ob)) os = slot_contents xs"
  using assms
proof (induction xs arbitrary: pre first)
  case (Cons x xs)
  obtain i bs c where x: "x = (i, bs, c)" by (cases x)
  let ?s = "length pre" and ?e = "length pre + length bs" and ?post = "slot_bytes xs @ trailer"
  have p: "p = pre @ bs @ ?post" "p = (pre @ bs) @ slot_bytes xs @ trailer" using Cons.prems(1) by (simp_all add: x)
  from Cons.prems(5) have ok: "entry_ok bs c" "length i = 20" by (simp_all add: x slot_ok_def)
  from ok(1) obtain h where h: "readEntryHeader bs 0 (length bs) = Inr h" "otype h \<noteq> OFS_DELTA"
    "c = content_of bs 0 (length bs) h (entry_base bs h)" "bs \<noteq> []"
    by (auto simp: entry_ok_def)
  let ?h = "shift_header ?s h"
  have e: "(case entries_at ?e xs of [] \<Rightarrow> length p - 20 | y # _ \<Rightarrow> offset y) = ?e"
    using Cons.prems(2) by (cases xs) (auto simp: p(1))
  have sub: "subarray p ?s ?e = bs" unfolding p(1) by (simp add: subarray_def)
  have "byte_at bs 0 div 16 mod 8 \<noteq> OFS_DELTA" using h header_type by fastforce
  then have hdr: "readEntryHeader p ?s ?e = Inr ?h"
    using header_shift [OF h(4), of pre ?post] h(1) by (simp add: p(1))
  have base: "object_base p byOffset ?h = Inr (entry_base bs h)"
    using Cons.prems(6) content_of_shift(2) [OF h(1,2), of pre ?post] h(2,3)
    by (auto simp: x object_base_def entry_base_def shift_header_def content_of_def p(1) Let_def split: if_splits)
  have cont: "content_of p ?s ?e ?h (entry_base bs h) = c"
    using content_of_shift(1) [OF h(1,2), of pre ?post] h(3) by (simp add: p(1))
  from Cons.IH [OF p(2), of False] Cons.prems obtain os where
    os: "verify_objects p byOffset False (entries_at ?e xs) = Inr os"
      "map (\<lambda>ob. (obj_oid ob, object_content p ob)) os = slot_contents xs"
    by (auto simp: x)
  have "?e \<le> length p - 20" "?s < ?e" using h(4) Cons.prems(2) by (simp_all add: p(1))
  then have "verify_objects p byOffset first (entries_at ?s (x # xs)) =
    Inr (\<lparr>obj_oid = i, obj_crc = crc32 bs, obj_start = ?s, obj_end = ?e, header = ?h, baseOid = entry_base bs h\<rparr> # os)"
    using Cons.prems(3,4) e sub hdr base os(1) by (simp add: x Let_def)
  with os(2) cont show ?case by (simp add: x object_content_def)
qed simp


section \<open>The build keeps the contents\<close>

definition source_contents :: "verified_pack \<Rightarrow> (buffer \<times> content) list" where
  "source_contents v = map (\<lambda>ob. (obj_oid ob, object_content (pack v) ob)) (objects v)"

text \<open>The object a verified pack gives for an id.\<close>

definition pack_lookup :: "verified_pack \<Rightarrow> buffer \<rightharpoonup> content" where
  "pack_lookup v = map_of (source_contents v)"

definition content_base :: "content \<Rightarrow> buffer option" where
  "content_base c = (case c of (t, z, base, d) \<Rightarrow> base)"

definition build_inv :: "build_state \<Rightarrow> slot list \<Rightarrow> bool" where
  "build_inv st xs \<longleftrightarrow> parts st = slot_bytes xs \<and> built st = entries_at 12 xs \<and> emitted st = map fst xs \<and>
     position st = 12 + length (slot_bytes xs) \<and> position st \<le> 0x7fffffff \<and> distinct (map fst xs) \<and> (\<forall>x\<in>set xs. slot_ok x)"

lemma fst_slot_contents: "map fst (slot_contents xs) = map fst xs"
  by (simp add: slot_contents_def case_prod_beta)

lemma build_object_inv:
  assumes "build_inv st xs" and "good_object p oids ob" and "\<forall>x\<in>oids. length x = 20"
    and "build_object p st ob = Inr st'"
  shows "\<exists>xs'. build_inv st' xs' \<and>
    map_of (slot_contents xs') = map_of [(obj_oid ob, object_content p ob)] ++ map_of (slot_contents xs)"
proof (cases "obj_oid ob \<in> set (emitted st)")
  case True
  with assms(1) have "obj_oid ob \<in> fst ` set (slot_contents xs)"
    using arg_cong [OF fst_slot_contents [of xs], of set] by (simp add: build_inv_def)
  then have "obj_oid ob \<in> dom (map_of (slot_contents xs))" by (simp add: dom_map_of_conv_image_fst)
  then have "map_of [(obj_oid ob, object_content p ob)] ++ map_of (slot_contents xs) = map_of (slot_contents xs)"
    by (auto simp: map_add_def fun_eq_iff split: option.splits)
  with True assms(1,4) show ?thesis by (auto simp: build_object_def)
next
  case False
  obtain bs c where emit: "emit_object p ob = (bs, c)" by fastforce
  note ok = emit_object_ok [OF assms(2,3) emit]
  let ?xs = "xs @ [(obj_oid ob, bs, object_content p ob)]"
  have "slot_ok (obj_oid ob, bs, object_content p ob)" using ok assms(2) by (simp add: slot_ok_def good_object_def)
  with False assms(1,4) ok emit have "build_inv st' ?xs"
    by (auto simp: build_object_def Let_def build_inv_def entries_at_append split: if_splits)
  then show ?thesis by (intro exI [of _ ?xs]) simp
qed

lemma build_objects_inv:
  assumes "build_inv st xs" and "\<forall>ob\<in>set obs. good_object p oids ob" and "\<forall>x\<in>oids. length x = 20"
    and "build_objects p st obs = Inr st'"
  shows "\<exists>xs'. build_inv st' xs' \<and>
    map_of (slot_contents xs') = map_of (map (\<lambda>ob. (obj_oid ob, object_content p ob)) obs) ++ map_of (slot_contents xs)"
  using assms
proof (induction obs arbitrary: st xs)
  case (Cons ob obs)
  from Cons.prems(4) obtain st1 where s1: "build_object p st ob = Inr st1" "build_objects p st1 obs = Inr st'"
    by (auto simp: rbind_Inr_iff)
  from build_object_inv [OF Cons.prems(1) _ Cons.prems(3) s1(1)] Cons.prems(2) obtain xs1 where
    x1: "build_inv st1 xs1" "map_of (slot_contents xs1) = map_of [(obj_oid ob, object_content p ob)] ++ map_of (slot_contents xs)"
    by auto
  from Cons.IH [OF x1(1) _ Cons.prems(3) s1(2)] Cons.prems(2) obtain xs' where
    x': "build_inv st' xs'" "map_of (slot_contents xs') = map_of (map (\<lambda>ob. (obj_oid ob, object_content p ob)) obs) ++ map_of (slot_contents xs1)"
    by auto
  then show ?case using x1(2) by (intro exI [of _ xs']) (auto simp: fun_eq_iff map_add_def split: option.splits)
qed auto


lemma build_sources_inv:
  assumes "build_inv st xs" and "\<forall>v\<in>set vs. good_pack v"
    and "build_sources st vs = Inr st'"
  shows "\<exists>xs'. build_inv st' xs' \<and> map_of (slot_contents xs') = map_of (concat (map source_contents vs)) ++ map_of (slot_contents xs)"
  using assms
proof (induction vs arbitrary: st xs)
  case (Cons v vs)
  from Cons.prems(3) obtain st1 where s1: "build_objects (pack v) st (objects v) = Inr st1" "build_sources st1 vs = Inr st'"
    by (auto simp: rbind_Inr_iff)
  have good: "\<forall>ob\<in>set (objects v). good_object (pack v) (pack_oids v) ob" using Cons.prems(2) by (simp add: good_pack_def)
  then have "\<forall>x\<in>pack_oids v. length x = 20" by (auto simp: good_object_def pack_oids_def)
  from build_objects_inv [OF Cons.prems(1) good this s1(1)] obtain xs1 where
    x1: "build_inv st1 xs1" "map_of (slot_contents xs1) = map_of (source_contents v) ++ map_of (slot_contents xs)"
    by (auto simp: source_contents_def)
  from Cons.IH [OF x1(1) _ s1(2)] Cons.prems(2) obtain xs' where
    "build_inv st' xs'" "map_of (slot_contents xs') = map_of (concat (map source_contents vs)) ++ map_of (slot_contents xs1)"
    by auto
  then show ?case using x1(2) by (intro exI [of _ xs']) simp
qed auto

lemma sorted_key_mset_unique:
  fixes f :: "'a \<Rightarrow> nat"
  assumes "mset xs = mset ys" and "sorted (map f xs)" and "sorted_wrt (\<lambda>a b. f a < f b) ys"
  shows "xs = ys"
proof (rule sorted_key_unique [where k = f])
  have strict: "sorted_wrt (<) (map f ys)" using assms(3) by (simp add: sorted_wrt_map)
  then show "sorted (map f ys)" "distinct ys" "inj_on f (set xs)"
    using mset_eq_setD [OF assms(1)] by (auto simp: strict_sorted_iff distinct_map)
  then show "distinct xs" "set xs = set ys" using assms(1) by (metis mset_eq_imp_distinct_iff, metis mset_eq_setD)
qed (rule assms(2))

interpretation offset_order: ordered_sort compare_offset offset
  by unfold_locales (auto simp: compare_offset_def)

lemma sort_back: "sorted_wrt (\<lambda>a b. offset a < offset b) es \<Longrightarrow> js_sort compare_offset (js_sort cmp es) = es"
  by (rule sorted_key_mset_unique [where f = offset]) (simp_all add: offset_order.sorted_by_key)

lemma slot_bytes_ge: "\<forall>x\<in>set xs. slot_ok x \<Longrightarrow> length xs \<le> length (slot_bytes xs)"
proof (induction xs)
  case (Cons x xs)
  obtain i bs c where x: "x = (i, bs, c)" by (cases x)
  with Cons have "0 < length bs" by (auto simp: slot_ok_def dest: entry_ok_nonempty)
  moreover have "length xs \<le> length (slot_bytes xs)" using Cons by simp
  ultimately show ?case by (cases bs) (simp_all add: x)
qed simp

lemma built_index_valid:
  assumes "build_inv st xs"
  shows "idx_valid (js_sort compare_oid (built st))"
proof -
  have b: "built st = entries_at 12 xs" "\<forall>x\<in>set xs. slot_ok x" "12 + length (slot_bytes xs) \<le> 2147483647"
    using assms by (simp_all add: build_inv_def)
  have "length xs < 4294967296" using slot_bytes_ge [OF b(2)] b(3) by simp
  moreover have "sorted_wrt (\<lambda>a b. compare_oid a b \<le> 0) (js_sort compare_oid (built st))"
    unfolding compare_oid_def by (rule sorted_js_sort) (use buffer_compare_total buffer_compare_trans in blast)+
  ultimately show ?thesis
    using entries_at_fields [OF b(2), of _ 12] b by (fastforce simp: idx_valid_def)
qed


text \<open>Reading back the two files of a pack, as the client does.\<close>

definition read_pack :: "(buffer \<Rightarrow> buffer) \<Rightarrow> buffer \<times> buffer \<Rightarrow> pack_error + verified_pack" where
  "read_pack sha1 = (\<lambda>(p, idx). rbind (parsePackIndex sha1 idx) (verifyPack sha1 p))"

lemma read_pack_good: "read_pack sha1 f = Inr v \<Longrightarrow> good_pack v"
  using parsePackIndex_fields verifyPack_good
  by (fastforce simp: read_pack_def rbind_Inr_iff split: prod.splits)

lemma read_packs_good: "list_all2 (\<lambda>f v. read_pack sha1 f = Inr v) files sources \<Longrightarrow> \<forall>v\<in>set sources. good_pack v"
  by (induction rule: list_all2_induct) (auto dest: read_pack_good)

lemma good_object_base: "good_object p oids ob \<Longrightarrow> baseOid ob = Some b \<Longrightarrow> b \<in> oids"
  by (cases "otype (header ob) = OFS_DELTA"; cases "otype (header ob) = REF_DELTA") (auto simp: good_object_def)

lemma good_pack_bases:
  assumes "good_pack v" and "(i, c) \<in> set (source_contents v)" and "content_base c = Some b"
  shows "b \<in> fst ` set (source_contents v)"
proof -
  from assms(2,3) obtain ob where "ob \<in> set (objects v)" "baseOid ob = Some b"
    by (auto simp: source_contents_def object_content_def content_of_def content_base_def)
  with assms(1) have "b \<in> pack_oids v" by (auto simp: good_pack_def intro: good_object_base)
  then show ?thesis by (auto simp: pack_oids_def source_contents_def image_image)
qed

lemma verify_built:
  assumes sha: "\<And>b. length (sha1 b) = 20" and inv: "build_inv st xs"
    and bases: "\<forall>(i, c)\<in>set (slot_contents xs). \<forall>b. content_base c = Some b \<longrightarrow> b \<in> set (map fst xs)"
    and w: "w = pack_header (length xs) @ slot_bytes xs"
  shows "\<exists>v. verifyPack sha1 (w @ sha1 w) \<lparr>entries = js_sort compare_oid (entries_at 12 xs), packChecksum = sha1 w\<rparr> = Inr v \<and>
    source_contents v = slot_contents xs"
proof -
  let ?p = "w @ sha1 w" and ?es = "entries_at 12 xs"
  have ok: "\<forall>x\<in>set xs. slot_ok x" "12 + length (slot_bytes xs) \<le> 2147483647" using inv by (simp_all add: build_inv_def)
  have hl: "length (pack_header n) = 12" for n by (simp add: pack_header_def PACK_SIGNATURE_def)
  have sorted: "js_sort compare_offset (js_sort compare_oid ?es) = ?es"
    using entries_at_sorted [OF ok(1)] by (rule sort_back)
  have oids: "set (map oid ?es) = set (map fst xs)" unfolding entries_at_oids fst_slot_contents ..
  have "\<exists>os. verify_objects ?p ?es True (entries_at (length (pack_header (length xs))) xs) = Inr os \<and>
      map (\<lambda>ob. (obj_oid ob, object_content ?p ob)) os = slot_contents xs"
    by (rule verify_layout [where trailer = "sha1 w"])
      (use sha ok bases oids in \<open>auto simp: w hl content_base_def\<close>)
  then obtain os where os: "verify_objects ?p ?es True ?es = Inr os" "map (\<lambda>ob. (obj_oid ob, object_content ?p ob)) os = slot_contents xs"
    by (auto simp: hl)
  have "length xs < 4294967296" using slot_bytes_ge [OF ok(1)] ok(2) by simp
  then have hd: "subarray ?p 0 4 = PACK_SIGNATURE" "read32 ?p 4 = Inr 2" "read32 ?p 8 = Inr (length xs)" "32 \<le> length ?p"
    using sha readUInt32BE_bytes32 [of "length xs" "slot_bytes xs @ sha1 w"]
      readUInt32BE_bytes32 [of 2 "bytes32 (length xs) @ slot_bytes xs @ sha1 w"]
      readUInt32BE_append2 [of PACK_SIGNATURE 4 "bytes32 2 @ bytes32 (length xs) @ slot_bytes xs @ sha1 w"]
      readUInt32BE_append2 [of "PACK_SIGNATURE @ bytes32 2" 8 "bytes32 (length xs) @ slot_bytes xs @ sha1 w"]
    by (simp_all add: w pack_header_def subarray_def PACK_SIGNATURE_def read32_def)
  have sum: "subarray ?p (length ?p - 20) (length ?p) = sha1 w" "subarray ?p 0 (length ?p - 20) = w"
    using sha by (simp_all add: subarray_def)
  have "verifyPack sha1 ?p \<lparr>entries = js_sort compare_oid ?es, packChecksum = sha1 w\<rparr> = Inr \<lparr>pack = ?p, objects = os\<rparr>"
    unfolding verifyPack_def using hd sum sorted os(1) by (simp add: Let_def)
  with os(2) show ?thesis by (auto simp: source_contents_def)
qed


lemma built_bases:
  assumes good: "\<forall>v\<in>set vs. good_pack v" and look: "map_of (slot_contents xs) = map_of (concat (map source_contents vs))"
    and c: "(i, c) \<in> set (slot_contents xs)" "distinct (map fst xs)" "content_base c = Some b"
  shows "b \<in> set (map fst xs)"
proof -
  have "map_of (slot_contents xs) i = Some c" using c by (intro map_of_is_SomeI) (simp_all add: fst_slot_contents)
  then have "(i, c) \<in> set (concat (map source_contents vs))" unfolding look by (rule map_of_SomeD)
  then obtain v where "v \<in> set vs" "(i, c) \<in> set (source_contents v)" by auto
  with good have "v \<in> set vs" "b \<in> fst ` set (source_contents v)" using good_pack_bases [OF _ _ c(3)] by blast+
  then have "b \<in> dom (map_of (concat (map source_contents vs)))"
    by (auto simp: dom_map_of_conv_image_fst image_UN)
  then have "b \<in> fst ` set (slot_contents xs)" by (simp add: look [symmetric] dom_map_of_conv_image_fst)
  then show ?thesis using arg_cong [OF fst_slot_contents [of xs], of set] by simp
qed

lemma build_reads_back:
  assumes sha: "\<And>b. length (sha1 b) = 20" and good: "\<forall>v\<in>set vs. good_pack v"
    and built: "buildConsolidatedPack sha1 vs = Inr c"
  shows "\<exists>v. read_pack sha1 (c_pack c, c_idx c) = Inr v \<and>
    pack_lookup v = map_of (concat (map source_contents vs)) \<and> distinct (map fst (source_contents v))"
proof -
  from built obtain st where st: "build_sources build_start vs = Inr st"
    "c_pack c = (pack_header (length (built st)) @ parts st) @ sha1 (pack_header (length (built st)) @ parts st)"
    "c_idx c = buildPackIndex sha1 (js_sort compare_oid (built st)) (sha1 (pack_header (length (built st)) @ parts st))"
    by (auto simp: buildConsolidatedPack_def Let_def rbind_Inr_iff)
  have "build_inv build_start []" by (simp add: build_inv_def build_start_def)
  from build_sources_inv [OF this good st(1)] obtain xs where
    xs: "build_inv st xs" "map_of (slot_contents xs) = map_of (concat (map source_contents vs))"
    by auto
  then have inv: "built st = entries_at 12 xs" "parts st = slot_bytes xs" "distinct (map fst xs)" by (simp_all add: build_inv_def)
  have "\<forall>(i, c)\<in>set (slot_contents xs). \<forall>b. content_base c = Some b \<longrightarrow> b \<in> set (map fst xs)"
    using built_bases [OF good xs(2) _ inv(3)] by blast
  from verify_built [of sha1, OF sha xs(1) this refl] obtain v where
    v: "verifyPack sha1 (c_pack c) \<lparr>entries = js_sort compare_oid (built st), packChecksum = sha1 (pack_header (length xs) @ slot_bytes xs)\<rparr> = Inr v"
      "source_contents v = slot_contents xs"
    by (auto simp: st(2) inv)
  have "parsePackIndex sha1 (c_idx c) = Inr \<lparr>entries = js_sort compare_oid (built st), packChecksum = sha1 (pack_header (length xs) @ slot_bytes xs)\<rparr>"
    unfolding st(3) by (subst parse_built_index [of sha1, OF sha built_index_valid [OF xs(1)] sha]) (simp add: inv)
  with v xs(2) inv(3) show ?thesis by (simp add: read_pack_def pack_lookup_def fst_slot_contents)
qed


section \<open>A concrete pair of packs\<close>

text \<open>The first pack has a blob and an offset delta on it, the second another blob and the first blob
  again. The digest function is a stand-in with the right length.\<close>

definition demo_sha1 :: "buffer \<Rightarrow> buffer" where
  "demo_sha1 b = replicate 20 (of_nat (length b))"

definition demo_blob :: buffer where "demo_blob = [0x31, 0xAA, 0xBB]"
definition demo_delta :: buffer where "demo_delta = [0x61, 0x03, 0xCC]"

definition demo_entries :: "byte \<Rightarrow> buffer \<Rightarrow> byte \<Rightarrow> buffer \<Rightarrow> idx_entry list" where
  "demo_entries i a j b = [\<lparr>oid = replicate 20 i, crc = crc32 a, offset = 12\<rparr>, \<lparr>oid = replicate 20 j, crc = crc32 b, offset = 15\<rparr>]"

definition demo_file :: "byte \<Rightarrow> buffer \<Rightarrow> byte \<Rightarrow> buffer \<Rightarrow> buffer \<times> buffer" where
  "demo_file i a j b =
     (let w = pack_header 2 @ a @ b
      in (w @ demo_sha1 w, buildPackIndex demo_sha1 (demo_entries i a j b) (demo_sha1 w)))"

definition demo_source :: "byte \<Rightarrow> buffer \<Rightarrow> byte \<Rightarrow> buffer \<Rightarrow> verified_pack" where
  "demo_source i a j b =
     \<lparr>pack = fst (demo_file i a j b), objects =
       [\<lparr>obj_oid = replicate 20 i, obj_crc = crc32 a, obj_start = 12, obj_end = 15,
         header = \<lparr>otype = 3, sizeEnd = 13, payloadStart = 13, baseOffset = None\<rparr>, baseOid = None\<rparr>,
        \<lparr>obj_oid = replicate 20 j, obj_crc = crc32 b, obj_start = 15, obj_end = 18,
         header = (if b = demo_delta then \<lparr>otype = 6, sizeEnd = 16, payloadStart = 17, baseOffset = Some 12\<rparr>
                   else \<lparr>otype = 3, sizeEnd = 16, payloadStart = 16, baseOffset = None\<rparr>),
         baseOid = (if b = demo_delta then Some (replicate 20 i) else None)\<rparr>]\<rparr>"

lemma buffer_compare_replicate: "i \<le> j \<Longrightarrow> buffer_compare (replicate n i) (replicate n j) \<le> 0"
  by (induction n) auto

lemma demo_valid:
  assumes "i \<le> j"
  shows "idx_valid (demo_entries i a j b)"
proof -
  have "compare_oid (hd (demo_entries i a j b)) (demo_entries i a j b ! 1) \<le> 0"
    using buffer_compare_replicate [OF assms, of 20] by (simp add: demo_entries_def compare_oid_def)
  then show ?thesis
    using crc32_less by (simp add: demo_entries_def idx_valid_def)
qed

lemma demo_parse:
  assumes "i \<le> j"
  shows "parsePackIndex demo_sha1 (snd (demo_file i a j b)) =
    Inr \<lparr>entries = demo_entries i a j b, packChecksum = demo_sha1 (pack_header 2 @ a @ b)\<rparr>"
  unfolding demo_file_def Let_def snd_conv
  by (intro parse_built_index demo_valid) (simp_all add: demo_sha1_def assms)

lemmas demo_simps = demo_source_def demo_file_def demo_entries_def demo_blob_def demo_delta_def demo_sha1_def
  pack_header_def PACK_SIGNATURE_def read32_def readUInt32BE_def bytes32_def be32_def subarray_def
  js_sort_def compare_offset_def byte_at_def

lemma demo_read:
  "read_pack demo_sha1 (demo_file 1 demo_blob 2 demo_delta) = Inr (demo_source 1 demo_blob 2 demo_delta)"
  "read_pack demo_sha1 (demo_file 1 demo_blob 3 demo_blob) = Inr (demo_source 1 demo_blob 3 demo_blob)"
proof -
  have "verifyPack demo_sha1 (fst (demo_file 1 demo_blob 2 demo_delta))
      \<lparr>entries = demo_entries 1 demo_blob 2 demo_delta, packChecksum = demo_sha1 (pack_header 2 @ demo_blob @ demo_delta)\<rparr>
    = Inr (demo_source 1 demo_blob 2 demo_delta)"
    by (simp add: demo_simps verifyPack_def Let_def readEntryHeader_def size_loop.simps distance_loop.simps object_base_def)
  then show "read_pack demo_sha1 (demo_file 1 demo_blob 2 demo_delta) = Inr (demo_source 1 demo_blob 2 demo_delta)"
    using demo_parse [of 1 2 demo_blob demo_delta] by (simp add: read_pack_def case_prod_beta)
  have "verifyPack demo_sha1 (fst (demo_file 1 demo_blob 3 demo_blob))
      \<lparr>entries = demo_entries 1 demo_blob 3 demo_blob, packChecksum = demo_sha1 (pack_header 2 @ demo_blob @ demo_blob)\<rparr>
    = Inr (demo_source 1 demo_blob 3 demo_blob)"
    by (simp add: demo_simps verifyPack_def Let_def readEntryHeader_def size_loop.simps distance_loop.simps object_base_def)
  then show "read_pack demo_sha1 (demo_file 1 demo_blob 3 demo_blob) = Inr (demo_source 1 demo_blob 3 demo_blob)"
    using demo_parse [of 1 3 demo_blob demo_blob] by (simp add: read_pack_def case_prod_beta)
qed

lemma demo_build: "\<exists>c. buildConsolidatedPack demo_sha1 [demo_source 1 demo_blob 2 demo_delta, demo_source 1 demo_blob 3 demo_blob] = Inr c"
  by (simp add: buildConsolidatedPack_def build_start_def build_object_def emit_object_def Let_def demo_simps split: prod.splits)

section \<open>Properties\<close>

text \<open>C7. Consolidation keeps every object: the pack and index that \<open>buildConsolidatedPack\<close> writes from
  source packs that were read and verified are accepted by \<open>parsePackIndex\<close> and \<open>verifyPack\<close>, hold each
  object id once, and give for every id the same content (type, size, base object and payload) as the
  first source that has it. Offset deltas, which become reference deltas, included.\<close>

theorem consolidation_keeps_objects:
  assumes "\<forall>b. length (sha1 b) = 20"
    and "list_all2 (\<lambda>f v. read_pack sha1 f = Inr v) files sources"
    and "buildConsolidatedPack sha1 sources = Inr c"
  shows "\<exists>v. read_pack sha1 (c_pack c, c_idx c) = Inr v \<and>
    pack_lookup v = map_of (concat (map source_contents sources)) \<and> distinct (map fst (source_contents v))"
  using assms(1,3) by (intro build_reads_back read_packs_good [OF assms(2)]) auto

theorem consolidation_keeps_objects_witness:
  "\<exists>c v. buildConsolidatedPack demo_sha1 [demo_source 1 demo_blob 2 demo_delta, demo_source 1 demo_blob 3 demo_blob] = Inr c \<and>
     read_pack demo_sha1 (c_pack c, c_idx c) = Inr v \<and> distinct (map fst (source_contents v))"
proof -
  obtain c where c: "buildConsolidatedPack demo_sha1 [demo_source 1 demo_blob 2 demo_delta, demo_source 1 demo_blob 3 demo_blob] = Inr c"
    using demo_build by blast
  have "\<forall>b. length (demo_sha1 b) = 20" by (simp add: demo_sha1_def)
  moreover have "list_all2 (\<lambda>f v. read_pack demo_sha1 f = Inr v) [demo_file 1 demo_blob 2 demo_delta, demo_file 1 demo_blob 3 demo_blob]
      [demo_source 1 demo_blob 2 demo_delta, demo_source 1 demo_blob 3 demo_blob]"
    using demo_read by simp
  ultimately show ?thesis using consolidation_keeps_objects [OF _ _ c] c by blast
qed


text \<open>Every read of the parser is inside the buffer once the lengths are checked.\<close>

lemma read32_total: "i + 4 \<le> length b \<Longrightarrow> read32 b i \<noteq> Inl e"
  using readUInt32BE_Some [of i b] by (auto simp: read32_def)

lemma idx_entries_errors:
  assumes "offsetStart + (i + n) * 4 \<le> length idx" and "crcStart + (i + n) * 4 \<le> length idx"
  shows "idx_entries idx oidStart crcStart offsetStart n i prev = Inl e \<Longrightarrow> e = IdxOrder \<or> e = IdxLargeOffset"
  using assms
proof (induction n arbitrary: i prev)
  case (Suc n)
  have "read32 idx (offsetStart + i * 4) \<noteq> Inl e" "read32 idx (crcStart + i * 4) \<noteq> Inl e"
    using Suc.prems(2,3) by (intro read32_total; simp)+
  with Suc.prems Suc.IH [of "Suc i"] show ?case
    by (auto simp: Let_def rbind_Inl_iff split: if_splits)
qed simp

lemma check_fanout_errors:
  "1032 \<le> length idx \<Longrightarrow> \<forall>b\<in>set bs. b < 256 \<Longrightarrow> check_fanout idx es bs cursor = Inl e \<Longrightarrow> e = IdxFanout"
proof (induction bs arbitrary: cursor)
  case (Cons b bs)
  have "read32 idx (8 + b * 4) \<noteq> Inl e" using Cons.prems by (intro read32_total) simp
  with Cons show ?case by (auto simp: Let_def rbind_Inl_iff split: if_splits)
qed simp

definition verification_error :: "pack_error \<Rightarrow> bool" where
  "verification_error e \<longleftrightarrow> e \<noteq> RangeErr \<and> e \<noteq> ConsolidatedTooLarge"

lemma parsePackIndex_errors: "parsePackIndex sha1 idx = Inl e \<Longrightarrow> verification_error e"
  using read32_total [of "8 + 255 * 4" idx]
  by (auto simp: parsePackIndex_def Let_def rbind_Inl_iff verification_error_def split: if_splits
      dest: idx_entries_errors [rotated 2] check_fanout_errors [rotated 2])

lemma size_loop_errors: "size_loop p e k c b = Inl x \<Longrightarrow> x = PackObjectHeader"
proof (induction p e k c b rule: size_loop.induct)
  case (1 p e k c b)
  then show ?case by (auto simp: size_loop.simps [of p e k c b] split: if_splits)
qed

lemma distance_loop_errors: "distance_loop p e c b d = Inl x \<Longrightarrow> x = PackObjectHeader"
proof (induction p e c b d rule: distance_loop.induct)
  case (1 p e c b d)
  then show ?case by (auto simp: distance_loop.simps [of p e c b d] split: if_splits)
qed

lemma readEntryHeader_errors: "readEntryHeader p s e = Inl x \<Longrightarrow> verification_error x"
  by (auto simp: readEntryHeader_def Let_def rbind_Inl_iff verification_error_def
      dest: size_loop_errors distance_loop_errors split: if_splits prod.splits)

lemma object_base_errors: "object_base p es h = Inl x \<Longrightarrow> verification_error x"
  by (auto simp: object_base_def Let_def verification_error_def split: if_splits option.splits)

lemma verify_objects_errors: "verify_objects p es first xs = Inl x \<Longrightarrow> verification_error x"
proof (induction xs arbitrary: first)
  case (Cons y ys)
  then show ?case
    by (auto simp: Let_def rbind_Inl_iff verification_error_def [of PackObjectBounds] verification_error_def [of PackObjectCrc]
        dest: readEntryHeader_errors object_base_errors split: if_splits)
qed simp

lemma verifyPack_errors: "verifyPack sha1 p ix = Inl x \<Longrightarrow> verification_error x"
  using read32_total [of 4 p] read32_total [of 8 p]
  by (auto simp: verifyPack_def Let_def rbind_Inl_iff verification_error_def [of PackHeader] verification_error_def [of PackVersion]
      verification_error_def [of PackObjectCount] verification_error_def [of PackChecksum]
      dest: verify_objects_errors split: if_splits)

text \<open>C37. Reading a pack pair never fails with the \<open>RangeError\<close> of an out-of-range buffer read,
  whatever the bytes are: every failure is one of the \<open>PackVerificationError\<close> codes.\<close>

theorem read_pack_errors: "\<nexists>e. read_pack sha1 (p, idx) = Inl e \<and> (e = RangeErr \<or> e = ConsolidatedTooLarge)"
  using parsePackIndex_errors verifyPack_errors
  by (fastforce simp: read_pack_def rbind_Inl_iff verification_error_def)


text \<open>An index written by \<open>buildPackIndex\<close> from entries in id order parses back to exactly those
  entries and the checksum, fan-out table and index digest included.\<close>

theorem index_roundtrip:
  assumes "\<forall>b. length (sha1 b) = 20" and "idx_valid es" and "length checksum = 20"
  shows "parsePackIndex sha1 (buildPackIndex sha1 es checksum) = Inr \<lparr>entries = es, packChecksum = checksum\<rparr>"
  using assms by (intro parse_built_index) auto

theorem index_roundtrip_witness:
  "idx_valid (demo_entries 1 demo_blob 2 demo_delta) \<and>
   parsePackIndex demo_sha1 (buildPackIndex demo_sha1 (demo_entries 1 demo_blob 2 demo_delta) (demo_sha1 [])) =
     Inr \<lparr>entries = demo_entries 1 demo_blob 2 demo_delta, packChecksum = demo_sha1 []\<rparr>"
proof -
  have v: "idx_valid (demo_entries 1 demo_blob 2 demo_delta)" by (rule demo_valid) simp
  have "\<forall>b. length (demo_sha1 b) = 20" by (simp add: demo_sha1_def)
  then show ?thesis using v index_roundtrip [OF _ v, of demo_sha1 "demo_sha1 []"] by blast
qed

text \<open>The table-driven CRC-32 equals the bitwise CRC-32 with the reflected polynomial
  \<open>0xedb88320\<close>, on every input.\<close>

theorem crc32_table_bitwise: "crc32 bytes = crc32_bitwise bytes"
proof -
  have "foldl crc_byte c bs = foldl crc_byte_bitwise c bs" for c bs
    by (induction bs arbitrary: c) (simp_all add: crc_byte_bitwise_eq)
  then show ?thesis by (simp add: crc32_def crc32_bitwise_def)
qed

end
