(* ===== verification/PackConsolidator.thy ===== *)
theory PackConsolidator
  imports Disk PackRebuild
begin

text \<open>
  \<open>selectConsolidationSources\<close> and \<open>createPackConsolidator\<close> of
  \<^verbatim>\<open>obsidian-plugin/src/git-pack-consolidation.cjs\<close>: choosing the packs, the journal, the writes, the
  removal of the sources and the recovery after a crash, over the file system of \<open>Disk\<close>. The options
  of the factory are the record \<open>pack_env\<close>; \<open>localeCompare\<close> is the collation of the runtime, \<open>suffix\<close>
  the time and random part of a temporary name.
\<close>

record pack_env =
  sha1_fn :: "buffer \<Rightarrow> buffer"
  packDir :: string
  journalPath :: string
  triggerPackCount :: nat
  maxPackBytes :: nat
  maxSources :: nat
  factor :: nat
  suffix :: "nat \<Rightarrow> string"
  localeCompare :: "string \<Rightarrow> string \<Rightarrow> int"

definition CONSOLIDATED_PREFIX :: string where
  "CONSOLIDATED_PREFIX = ''obts-pack-''"

section \<open>Choosing the sources\<close>

type_synonym pack_stat = "string \<times> nat"

definition compare_stat :: "(string \<Rightarrow> string \<Rightarrow> int) \<Rightarrow> pack_stat \<Rightarrow> pack_stat \<Rightarrow> int" where
  "compare_stat collate l r =
     (if snd l \<noteq> snd r then int (snd l) - int (snd r) else collate (fst l) (fst r))"

fun find_split :: "nat \<Rightarrow> pack_stat list \<Rightarrow> nat \<Rightarrow> nat" where
  "find_split f packs_s 0 = 0"
| "find_split f packs_s (Suc n) =
     (if snd (packs_s ! Suc n) < f * snd (packs_s ! n) then Suc n else find_split f packs_s n)"

function extend_split :: "nat \<Rightarrow> pack_stat list \<Rightarrow> nat \<Rightarrow> nat \<Rightarrow> nat" where
  "extend_split f packs_s totalBytes split =
     (if split < length packs_s \<and> snd (packs_s ! split) < f * totalBytes
      then extend_split f packs_s (totalBytes + snd (packs_s ! split)) (Suc split) else split)"
  by pat_completeness auto
termination by (relation "measure (\<lambda>(f, packs_s, totalBytes, split). length packs_s - split)") auto

fun take_sources :: "nat \<Rightarrow> nat \<Rightarrow> nat \<Rightarrow> nat \<Rightarrow> pack_stat list \<Rightarrow> pack_stat list" where
  "take_sources limit bytes taken totalBytes [] = []"
| "take_sources limit bytes taken totalBytes (p # ps) =
     (if taken \<ge> limit \<or> totalBytes + snd p > bytes then []
      else p # take_sources limit bytes (Suc taken) (totalBytes + snd p) ps)"

definition selectConsolidationSources :: "pack_env \<Rightarrow> pack_stat list \<Rightarrow> pack_stat list" where
  "selectConsolidationSources env packs =
     (let packs_s = js_sort (compare_stat (localeCompare env)) (filter (\<lambda>p. snd p \<le> maxPackBytes env) packs)
      in if length packs_s < 2 then []
         else let split0 = find_split (factor env) packs_s (length packs_s - 1);
                  split1 = (if split0 > 0 then split0 + 1 else split0);
                  totalBytes = sum_list (map snd (take split1 packs_s));
                  split2 = extend_split (factor env) packs_s totalBytes split1;
                  selected = take_sources (maxSources env) (maxPackBytes env) 0 0 (take split2 packs_s)
              in if length selected \<ge> 2 then selected else [])"

section \<open>File helpers\<close>

definition path_join :: "string \<Rightarrow> string \<Rightarrow> string" where
  "path_join dir name = dir @ ''/'' @ name"

definition packPath :: "pack_env \<Rightarrow> string \<Rightarrow> string" where
  "packPath env name = path_join (packDir env) (name @ ''.pack'')"

definition idxPath :: "pack_env \<Rightarrow> string \<Rightarrow> string" where
  "idxPath env name = path_join (packDir env) (name @ ''.idx'')"

definition isNotFound :: "io_error \<Rightarrow> bool" where
  "isNotFound e \<longleftrightarrow> e = NotFound"

definition readOptional :: "string \<Rightarrow> fdata option io" where
  "readOptional p = io_catch (io_bind (readFile p) (\<lambda>f. io_return (Some f)))
     (\<lambda>e. if isNotFound e then io_return None else io_throw e)"

definition removeIfPresent :: "string \<Rightarrow> bool io" where
  "removeIfPresent p = io_catch (io_bind (unlink p) (\<lambda>_. io_return True))
     (\<lambda>e. if isNotFound e then io_return False else io_throw e)"

definition check_persisted :: "string \<Rightarrow> fdata \<Rightarrow> unit io" where
  "check_persisted p f = io_bind (readOptional p) (\<lambda>persisted.
     if persisted \<noteq> Some f then io_throw (Verification ''persisted_bytes_mismatch'') else io_return ())"

definition writeVerified :: "string \<Rightarrow> fdata \<Rightarrow> unit io" where
  "writeVerified p f = io_bind (writeFile p f) (\<lambda>_. io_bind (sync_path p) (\<lambda>_. check_persisted p f))"

definition writeAtomicVerified :: "pack_env \<Rightarrow> string \<Rightarrow> fdata \<Rightarrow> unit io" where
  "writeAtomicVerified env p f = io_bind tick (\<lambda>n.
     let temporaryPath = p @ ''.tmp-'' @ suffix env n
     in io_bind
          (io_catch (io_bind (writeVerified temporaryPath f) (\<lambda>_. rename_file temporaryPath p))
            (\<lambda>e. io_bind (io_catch (removeIfPresent temporaryPath) (\<lambda>_. io_return False)) (\<lambda>_. io_throw e)))
          (\<lambda>_. io_bind (sync_path (before_last CHR ''/'' p)) (\<lambda>_. check_persisted p f)))"

section \<open>The journal\<close>

datatype journal = InvalidJournal | Journal string "string list"

definition name_char :: "char \<Rightarrow> bool" where
  "name_char c \<longleftrightarrow> c \<in> set ''ABCDEFGHIJKLMNOPQRSTUVWXYZabcdefghijklmnopqrstuvwxyz0123456789._-''"

definition validName :: "string \<Rightarrow> bool" where
  "validName name \<longleftrightarrow> name \<noteq> [] \<and> list_all name_char name \<and> \<not> js_includes name ''..''"

definition parse_journal :: "fdata \<Rightarrow> journal" where
  "parse_journal f =
     (case f of
        Raw _ \<Rightarrow> InvalidJournal
      | Text j \<Rightarrow>
          if as_number (jprop j ''version'') \<noteq> Some 1 then InvalidJournal
          else (case as_string (jprop j ''pack'') of
                  None \<Rightarrow> InvalidJournal
                | Some name \<Rightarrow>
                    if \<not> validName name \<or> \<not> js_startsWith name CONSOLIDATED_PREFIX then InvalidJournal
                    else (case as_array (jprop j ''sources'') of
                            None \<Rightarrow> InvalidJournal
                          | Some xs \<Rightarrow>
                              (case as_strings xs of
                                 None \<Rightarrow> InvalidJournal
                               | Some sources \<Rightarrow>
                                   if list_all validName sources \<and> name \<notin> set sources then Journal name sources
                                   else InvalidJournal))))"

definition journal_file :: "string \<Rightarrow> string list \<Rightarrow> fdata" where
  "journal_file name sources =
     Text (JObj [(''version'', JNum 1), (''pack'', JStr name), (''sources'', JArr (map JStr sources))])"

definition readJournal :: "pack_env \<Rightarrow> journal option io" where
  "readJournal env = io_bind (readOptional (journalPath env)) (\<lambda>bytes.
     io_return (map_option parse_journal bytes))"

section \<open>Reading packs\<close>

text \<open>The bytes of a file for the pack parsers. A JSON text has neither signature, so the parsers reject
  it in the header check, as they reject the empty file that stands for it here.\<close>

fun bytes_of :: "fdata \<Rightarrow> buffer" where
  "bytes_of (Raw b) = b"
| "bytes_of (Text j) = []"

fun error_code :: "pack_error \<Rightarrow> string" where
  "error_code IdxHeader = ''idx_header''"
| "error_code IdxLength = ''idx_length''"
| "error_code IdxChecksum = ''idx_checksum''"
| "error_code IdxOrder = ''idx_order''"
| "error_code IdxLargeOffset = ''idx_large_offset''"
| "error_code IdxFanout = ''idx_fanout''"
| "error_code PackHeader = ''pack_header''"
| "error_code PackVersion = ''pack_version''"
| "error_code PackObjectCount = ''pack_object_count''"
| "error_code PackChecksum = ''pack_checksum''"
| "error_code PackObjectBounds = ''pack_object_bounds''"
| "error_code PackObjectCrc = ''pack_object_crc''"
| "error_code PackDeltaBase = ''pack_delta_base''"
| "error_code PackThin = ''pack_thin''"
| "error_code PackObjectType = ''pack_object_type''"
| "error_code PackObjectHeader = ''pack_object_header''"
| "error_code ConsolidatedTooLarge = ''consolidated_too_large''"
| "error_code RangeErr = ''RangeError''"

text \<open>A result of the pack functions inside an asynchronous function. A \<open>RangeError\<close> is no
  \<open>PackVerificationError\<close>.\<close>

fun lift_pack :: "pack_error + 'a \<Rightarrow> 'a io" where
  "lift_pack (Inr x) = io_return x"
| "lift_pack (Inl e) = io_throw (if e = RangeErr then RangeFailure else Verification (error_code e))"

fun is_verification :: "io_error \<Rightarrow> bool" where
  "is_verification (Verification c) = True"
| "is_verification _ = False"

definition publishedOids :: "pack_env \<Rightarrow> string \<Rightarrow> buffer list option io" where
  "publishedOids env name = io_bind (readOptional (idxPath env name)) (\<lambda>idx.
     case idx of None \<Rightarrow> io_return None
     | Some fi \<Rightarrow> io_bind (readOptional (packPath env name)) (\<lambda>pck.
         case pck of None \<Rightarrow> io_return None
         | Some fp \<Rightarrow> io_bind (lift_pack (parsePackIndex (sha1_fn env) (bytes_of fi))) (\<lambda>index.
             io_bind (lift_pack (verifyPack (sha1_fn env) (bytes_of fp) index)) (\<lambda>_.
               io_return (Some (map oid (entries index)))))))"

fun allSourcesPresent :: "pack_env \<Rightarrow> string list \<Rightarrow> bool io" where
  "allSourcesPresent env [] = io_return True"
| "allSourcesPresent env (s # ss) = io_bind (readOptional (idxPath env s)) (\<lambda>i.
     if i = None then io_return False
     else io_bind (readOptional (packPath env s)) (\<lambda>p.
       if p = None then io_return False else allSourcesPresent env ss))"

section \<open>Removing sources\<close>

text \<open>Whether every object of the index is in the published pack; an index that does not parse is not.\<close>

definition index_contained :: "pack_env \<Rightarrow> buffer list \<Rightarrow> fdata \<Rightarrow> bool io" where
  "index_contained env published f = io_catch
     (io_bind (lift_pack (parsePackIndex (sha1_fn env) (bytes_of f))) (\<lambda>index.
        io_return (list_all (\<lambda>e. oid e \<in> set published) (entries index))))
     (\<lambda>e. if is_verification e then io_return False else io_throw e)"

definition remove_pack :: "pack_env \<Rightarrow> string \<Rightarrow> string option io" where
  "remove_pack env source = io_bind (removeIfPresent (idxPath env source)) (\<lambda>_.
     io_bind (removeIfPresent (packPath env source)) (\<lambda>_.
       io_bind (io_event (PackRemoved (packPath env source))) (\<lambda>_. io_return (Some source))))"

definition remove_source :: "pack_env \<Rightarrow> buffer list option \<Rightarrow> string \<Rightarrow> string option io" where
  "remove_source env published source =
     (case published of
        None \<Rightarrow> remove_pack env source
      | Some pub \<Rightarrow> io_bind (readOptional (idxPath env source)) (\<lambda>sourceIdx.
          case sourceIdx of
            None \<Rightarrow> remove_pack env source
          | Some f \<Rightarrow> io_bind (index_contained env pub f) (\<lambda>contained.
              if contained then remove_pack env source else io_return None)))"

definition removeSources :: "pack_env \<Rightarrow> string list \<Rightarrow> buffer list option \<Rightarrow> string list io" where
  "removeSources env sources published = io_bind (io_event BeginPackChange) (\<lambda>_.
     io_bind (io_finally (io_collect (remove_source env published) sources) EndPackChange) (\<lambda>removed.
       io_bind (if removed \<noteq> [] then sync_path (packDir env) else io_return ()) (\<lambda>_. io_return removed)))"

section \<open>Recovery\<close>

definition recover_journal :: "pack_env \<Rightarrow> string \<Rightarrow> string list \<Rightarrow> unit io" where
  "recover_journal env name sources = io_bind
     (io_catch (publishedOids env name) (\<lambda>e. if is_verification e then io_return None else io_throw e))
     (\<lambda>published.
        case published of
          Some pub \<Rightarrow> io_bind (removeSources env sources (Some pub)) (\<lambda>_. io_return ())
        | None \<Rightarrow> io_bind (allSourcesPresent env sources) (\<lambda>present.
            if present then io_bind (removeIfPresent (idxPath env name)) (\<lambda>_.
              io_bind (removeIfPresent (packPath env name)) (\<lambda>_. io_return ()))
            else io_throw (Verification ''recovery_blocked'')))"

definition readdir_or_empty :: "string \<Rightarrow> string list io" where
  "readdir_or_empty dir = io_catch (readdir dir) (\<lambda>e. if isNotFound e then io_return [] else io_throw e)"

definition remove_ignoring :: "string \<Rightarrow> unit io" where
  "remove_ignoring p = io_bind (removeIfPresent p) (\<lambda>_. io_return ())"

definition remove_journal_temporaries :: "pack_env \<Rightarrow> unit io" where
  "remove_journal_temporaries env =
     (let dir = before_last CHR ''/'' (journalPath env);
          prefix = after_last CHR ''/'' (journalPath env) @ ''.tmp-''
      in io_bind (readdir_or_empty dir) (\<lambda>names.
           io_each (\<lambda>n. if js_startsWith n prefix then remove_ignoring (path_join dir n) else io_return ()) names))"

definition drop_suffix :: "nat \<Rightarrow> string \<Rightarrow> string" where
  "drop_suffix k s = take (length s - k) s"

definition indexed_names :: "string list \<Rightarrow> string list" where
  "indexed_names names = map (drop_suffix 4) (filter (\<lambda>n. js_endsWith n ''.idx'') names)"

definition is_orphan :: "string list \<Rightarrow> string \<Rightarrow> bool" where
  "is_orphan names n \<longleftrightarrow> js_startsWith n CONSOLIDATED_PREFIX \<and>
     ((js_endsWith n ''.pack'' \<and> drop_suffix 5 n \<notin> set (indexed_names names)) \<or> js_includes n ''.tmp-'')"

text \<open>A missing pack directory ends the recovery; there is nothing to remove then.\<close>

definition remove_orphans :: "pack_env \<Rightarrow> unit io" where
  "remove_orphans env = io_bind (readdir_or_empty (packDir env)) (\<lambda>names.
     io_each (\<lambda>n. if is_orphan names n then remove_ignoring (path_join (packDir env) n) else io_return ()) names)"

definition recover :: "pack_env \<Rightarrow> unit io" where
  "recover env = io_bind (readJournal env) (\<lambda>journal.
     io_bind (case journal of Some (Journal name sources) \<Rightarrow> recover_journal env name sources | _ \<Rightarrow> io_return ()) (\<lambda>_.
       io_bind (if journal \<noteq> None then remove_ignoring (journalPath env) else io_return ()) (\<lambda>_.
         io_bind (io_get scannedForOrphans) (\<lambda>scanned.
           if journal = None \<and> scanned then io_return ()
           else io_bind io_scanned (\<lambda>_.
             io_bind (remove_journal_temporaries env) (\<lambda>_. remove_orphans env))))))"

section \<open>Consolidation\<close>

datatype outcome = Skipped string "string list" | Consolidated nat nat nat nat "string list"

definition stat_pack :: "pack_env \<Rightarrow> string \<Rightarrow> pack_stat option io" where
  "stat_pack env name = io_catch (io_bind (stat_size (packPath env name)) (\<lambda>n. io_return (Some (name, n))))
     (\<lambda>e. if isNotFound e then io_return None else io_throw e)"

text \<open>One candidate: the verified source, or the code it is rejected with.\<close>

definition verify_candidate :: "pack_env \<Rightarrow> string \<Rightarrow> (string + (string \<times> verified_pack)) option io" where
  "verify_candidate env name = io_bind (readOptional (idxPath env name)) (\<lambda>idx.
     io_bind (readOptional (packPath env name)) (\<lambda>pck.
       case (idx, pck) of
         (Some fi, Some fp) \<Rightarrow>
           (case read_pack (sha1_fn env) (bytes_of fp, bytes_of fi) of
              Inr v \<Rightarrow> io_return (Some (Inr (name, v)))
            | Inl e \<Rightarrow> if e = RangeErr then io_throw RangeFailure else io_return (Some (Inl (error_code e))))
       | _ \<Rightarrow> io_return (Some (Inl ''missing_pack_file''))))"

definition rights :: "('a + 'b) list \<Rightarrow> 'b list" where
  "rights xs = concat (map (case_sum (\<lambda>_. []) (\<lambda>b. [b])) xs)"

definition lefts :: "('a + 'b) list \<Rightarrow> 'a list" where
  "lefts xs = concat (map (case_sum (\<lambda>a. [a]) (\<lambda>_. [])) xs)"

text \<open>The check of the new pack before anything is written.\<close>

definition check_consolidated :: "pack_env \<Rightarrow> consolidated \<Rightarrow> verified_pack list \<Rightarrow> pack_index io" where
  "check_consolidated env c sources = io_bind (lift_pack (parsePackIndex (sha1_fn env) (c_idx c))) (\<lambda>index.
     io_bind (lift_pack (verifyPack (sha1_fn env) (c_pack c) index)) (\<lambda>_.
       let contained = uniq (map oid (entries index))
       in if length contained \<noteq> length (entries index) then io_throw (Verification ''consolidated_duplicate_object'')
          else if \<not> list_all (\<lambda>v. list_all (\<lambda>ob. obj_oid ob \<in> set contained) (objects v)) sources
          then io_throw (Verification ''consolidated_missing_object'')
          else io_return index))"

definition publish :: "pack_env \<Rightarrow> consolidated \<Rightarrow> string list \<Rightarrow> string list io" where
  "publish env c sourceNames =
     io_bind (writeAtomicVerified env (journalPath env) (journal_file (c_name c) sourceNames)) (\<lambda>_.
       io_bind (writeVerified (packPath env (c_name c)) (Raw (c_pack c))) (\<lambda>_.
         io_bind (writeAtomicVerified env (idxPath env (c_name c)) (Raw (c_idx c))) (\<lambda>_.
           io_bind (removeSources env sourceNames None) (\<lambda>removed.
             io_bind (remove_ignoring (journalPath env)) (\<lambda>_. io_return removed)))))"

definition consolidate_sources :: "pack_env \<Rightarrow> string \<Rightarrow> (string \<times> verified_pack) list \<Rightarrow> string list \<Rightarrow> outcome io" where
  "consolidate_sources env packSetKey sources rejected =
     (if length sources < 2
      then io_bind (io_settle (Some packSetKey)) (\<lambda>_. io_return (Skipped ''no_candidates'' rejected))
      else io_bind (lift_pack (buildConsolidatedPack (sha1_fn env) (map snd sources))) (\<lambda>c.
        io_bind (check_consolidated env c (map snd sources)) (\<lambda>index.
          if c_name c \<in> set (map fst sources)
          then io_bind (io_settle (Some packSetKey)) (\<lambda>_. io_return (Skipped ''no_candidates'' rejected))
          else io_bind (publish env c (map fst sources)) (\<lambda>removed.
            io_bind (io_settle None) (\<lambda>_.
              io_return (Consolidated (length sources) (length removed) (length (entries index)) (length (c_pack c)) rejected))))))"

definition consolidate_names :: "pack_env \<Rightarrow> string list \<Rightarrow> outcome io" where
  "consolidate_names env names =
     (if length names \<le> triggerPackCount env then io_return (Skipped ''below_trigger'' [])
      else let packSetKey = js_join [CHR 10] names
           in io_bind (io_get settledPackSet) (\<lambda>settled.
                if settled = Some packSetKey then io_return (Skipped ''settled'' [])
                else io_bind (io_collect (stat_pack env) names) (\<lambda>packs.
                  io_bind (io_collect (verify_candidate env) (map fst (selectConsolidationSources env packs))) (\<lambda>results.
                    consolidate_sources env packSetKey (rights results) (lefts results)))))"

definition consolidate :: "pack_env \<Rightarrow> outcome io" where
  "consolidate env = io_bind (recover env) (\<lambda>_.
     io_bind (io_catch (io_bind (readdir (packDir env)) (\<lambda>ns. io_return (Some ns)))
         (\<lambda>e. if isNotFound e then io_return None else io_throw e)) (\<lambda>listed.
       case listed of
         None \<Rightarrow> io_return (Skipped ''no_packs'' [])
       | Some ns \<Rightarrow> consolidate_names env (sort (indexed_names ns))))"

text \<open>\<open>serialized\<close>: a call starts after the call before it has settled, with a result or an error.\<close>

datatype request = RunConsolidation | RunRecovery

fun serialized :: "pack_env \<Rightarrow> request list \<Rightarrow> world \<Rightarrow> world" where
  "serialized env [] w = w"
| "serialized env (RunConsolidation # rs) w = serialized env rs (snd (consolidate env w))"
| "serialized env (RunRecovery # rs) w = serialized env rs (snd (recover env w))"


section \<open>What is selected\<close>

lemma take_sources_bounds:
  assumes "taken \<le> limit" and "totalBytes \<le> bytes" and "sel = take_sources limit bytes taken totalBytes ps"
  shows "taken + length sel \<le> limit \<and> totalBytes + sum_list (map snd sel) \<le> bytes \<and> (\<exists>k. sel = take k ps)"
  using assms
proof (induction ps arbitrary: taken totalBytes sel)
  case (Cons p ps)
  show ?case
  proof (cases "taken \<ge> limit \<or> totalBytes + snd p > bytes")
    case True
    with Cons.prems show ?thesis by (auto intro: exI [of _ 0])
  next
    case False
    let ?rest = "take_sources limit bytes (Suc taken) (totalBytes + snd p) ps"
    have "Suc taken + length ?rest \<le> limit \<and> totalBytes + snd p + sum_list (map snd ?rest) \<le> bytes \<and> (\<exists>k. ?rest = take k ps)"
      using Cons.IH [of "Suc taken" "totalBytes + snd p"] False by simp
    moreover obtain k where "?rest = take k ps" using calculation by blast
    ultimately show ?thesis using False Cons.prems(3) by (auto intro: exI [of _ "Suc k"])
  qed
qed simp

lemma find_split_le: "find_split f ps n \<le> n"
  by (induction n) auto

lemma select_cases:
  "selectConsolidationSources env packs = [] \<or> 2 \<le> length (selectConsolidationSources env packs) \<and>
   (\<exists>m. selectConsolidationSources env packs = take_sources (maxSources env) (maxPackBytes env) 0 0
     (take m (js_sort (compare_stat (localeCompare env)) (filter (\<lambda>p. snd p \<le> maxPackBytes env) packs))))"
  unfolding selectConsolidationSources_def Let_def by (simp only: split: if_split) blast

text \<open>The selection never exceeds the configured number of sources nor the configured size, is
  empty or has at least two packs, takes each pack at most as often as it is listed, and takes no pack
  above the size limit.\<close>

theorem select_bounds:
  "(selectConsolidationSources env packs = [] \<or> 2 \<le> length (selectConsolidationSources env packs)) \<and>
   length (selectConsolidationSources env packs) \<le> maxSources env \<and>
   sum_list (map snd (selectConsolidationSources env packs)) \<le> maxPackBytes env \<and>
   mset (selectConsolidationSources env packs) \<subseteq># mset packs"
proof -
  let ?s = "js_sort (compare_stat (localeCompare env)) (filter (\<lambda>p. snd p \<le> maxPackBytes env) packs)"
  have sub: "mset (take k (take m ?s)) \<subseteq># mset packs" for k m
  proof -
    have "mset (take j ?s) \<subseteq># mset ?s" for j by (metis append_take_drop_id mset_append mset_subset_eq_add_left)
    moreover have "mset ?s \<subseteq># mset packs" by (simp add: multiset_filter_subset)
    ultimately show ?thesis unfolding take_take by (rule subset_mset.order_trans)
  qed
  show ?thesis
  proof (cases "selectConsolidationSources env packs = []")
    case False
    then obtain m where m: "selectConsolidationSources env packs = take_sources (maxSources env) (maxPackBytes env) 0 0 (take m ?s)"
      "2 \<le> length (selectConsolidationSources env packs)"
      using select_cases by blast
    from take_sources_bounds [OF _ _ m(1)] obtain k where
      "length (selectConsolidationSources env packs) \<le> maxSources env"
      "sum_list (map snd (selectConsolidationSources env packs)) \<le> maxPackBytes env"
      "selectConsolidationSources env packs = take k (take m ?s)"
      by auto
    with sub [of k m] m(2) show ?thesis by simp
  qed simp
qed

interpretation stat_order: ordered_sort "compare_stat collate" snd for collate
  by unfold_locales (auto simp: compare_stat_def split: if_splits)

text \<open>Every pack that is left out although it fits is at least as large as every pack selected,
  whatever the collation.\<close>

theorem select_smallest_first:
  assumes p: "p \<in> set (selectConsolidationSources env packs)"
    and q: "q \<in> set packs" "snd q \<le> maxPackBytes env" "q \<notin> set (selectConsolidationSources env packs)"
  shows "snd p \<le> snd q"
proof -
  let ?cmp = "compare_stat (localeCompare env)"
  let ?s = "js_sort ?cmp (filter (\<lambda>p. snd p \<le> maxPackBytes env) packs)"
  have srt: "sorted_wrt (\<lambda>x y. snd x \<le> snd y) ?s" using stat_order.sorted_by_key by (simp add: sorted_map)
  from p obtain m where "selectConsolidationSources env packs = take_sources (maxSources env) (maxPackBytes env) 0 0 (take m ?s)"
    using select_cases [of env packs] by force
  from take_sources_bounds [OF _ _ this] obtain k where k: "selectConsolidationSources env packs = take k ?s"
    by (auto simp: take_take)
  have "q \<in> set ?s" using q(1,2) by simp
  then have "q \<in> set (drop k ?s)" using q(3) k by (metis UnE append_take_drop_id set_append)
  moreover have "\<forall>x\<in>set (take k ?s). \<forall>y\<in>set (drop k ?s). snd x \<le> snd y"
    using srt sorted_wrt_append [of "\<lambda>x y. snd x \<le> snd y" "take k ?s" "drop k ?s"] by (simp only: append_take_drop_id) blast
  moreover have "p \<in> set (take k ?s)" using p k by simp
  ultimately show ?thesis by blast
qed

theorem select_smallest_first_witness:
  "selectConsolidationSources \<lparr>sha1_fn = id, packDir = [], journalPath = [], triggerPackCount = 1, maxPackBytes = 100,
     maxSources = 2, factor = 2, suffix = (\<lambda>_. []), localeCompare = (\<lambda>_ _. 0)\<rparr> [(''c'', 9), (''a'', 5), (''b'', 6)] = [(''a'', 5), (''b'', 6)] \<and>
   snd (''b'', 6::nat) \<le> snd (''c'', 9::nat)"
proof -
  let ?env = "\<lparr>sha1_fn = id, packDir = [], journalPath = [], triggerPackCount = 1, maxPackBytes = 100,
     maxSources = 2, factor = 2, suffix = (\<lambda>_. []), localeCompare = (\<lambda>_ _. 0)\<rparr>"
  have sel: "selectConsolidationSources ?env [(''c'', 9), (''a'', 5), (''b'', 6)] = [(''a'', 5), (''b'', 6)]"
    by code_simp
  with select_smallest_first [of "(''b'', 6)" ?env "[(''c'', 9), (''a'', 5), (''b'', 6)]" "(''c'', 9)"] show ?thesis by simp
qed

end
