(* ===== verification/PackCrash.thy ===== *)
theory PackCrash
  imports PackConsolidator
begin

text \<open>
  Crash safety of pack consolidation: at every disk a run or a recovery goes through, each object that
  was stored in a readable pack is stored in a readable pack, and the journal, if there is one, still
  lets the next recovery finish.
\<close>

section \<open>The helpers\<close>

lemma triple_readOptional:
  "triple I (readOptional p) (\<lambda>r d. I d \<and> (\<forall>x. r = Inr x \<longrightarrow> file_at d p = x) \<and> (\<forall>e. r = Inl e \<longrightarrow> e = IoFailure)) C"
proof -
  have read: "triple I (readFile p) (\<lambda>r d. I d \<and> (case r of Inr f \<Rightarrow> file_at d p = Some f
      | Inl e \<Rightarrow> e = IoFailure \<or> (e = NotFound \<and> file_at d p = None))) C"
    unfolding readFile_def
    by (rule triple_weaken [OF triple_read [of I]]) (auto split: sum.splits option.splits)
  have "triple I (io_bind (readFile p) (\<lambda>f. io_return (Some f)))
      (\<lambda>r d. I d \<and> (case r of Inr x \<Rightarrow> file_at d p = x \<and> x \<noteq> None
        | Inl e \<Rightarrow> e = IoFailure \<or> (e = NotFound \<and> file_at d p = None))) C"
    by (rule triple_bind [OF read]) (auto intro!: triple_return)
  then show ?thesis unfolding readOptional_def isNotFound_def
    by (rule triple_catch) (auto intro!: triple_return triple_throw)
qed

lemma triple_removeIfPresent:
  assumes "\<And>d. I d \<Longrightarrow> I (del_file p d)" and "\<And>d. I d \<Longrightarrow> C d"
  shows "triple I (removeIfPresent p) (\<lambda>r d. I d \<and> (\<forall>x. r = Inr x \<longrightarrow> file_at d p = None) \<and> (\<forall>e. r = Inl e \<longrightarrow> e = IoFailure)) C"
proof -
  have un: "triple I (unlink p) (\<lambda>r d. I d \<and> (r = Inl NotFound \<or> r = Inr () \<longrightarrow> file_at d p = None) \<and>
      (\<forall>e. r = Inl e \<longrightarrow> e = IoFailure \<or> e = NotFound)) C"
    unfolding triple_def unlink_def
    using assms by (auto simp: commit_def split: prod.splits)
  have "triple I (io_bind (unlink p) (\<lambda>_. io_return True))
      (\<lambda>r d. I d \<and> (case r of Inr x \<Rightarrow> file_at d p = None | Inl e \<Rightarrow> e = IoFailure \<or> (e = NotFound \<and> file_at d p = None))) C"
    by (rule triple_bind [OF un]) (auto intro!: triple_return)
  then show ?thesis unfolding removeIfPresent_def isNotFound_def
    by (rule triple_catch) (auto intro!: triple_return triple_throw)
qed

lemma triple_remove_ignoring:
  assumes "\<And>d. I d \<Longrightarrow> I (del_file p d)" and "\<And>d. I d \<Longrightarrow> C d"
  shows "triple I (remove_ignoring p) (\<lambda>r d. I d \<and> (r = Inr () \<longrightarrow> file_at d p = None) \<and> (\<forall>e. r = Inl e \<longrightarrow> e = IoFailure)) C"
  unfolding remove_ignoring_def
  by (rule triple_bind [OF triple_removeIfPresent]) (use assms in \<open>auto intro!: triple_return\<close>)

lemma triple_check_persisted:
  "triple I (check_persisted p f) (\<lambda>r d. I d \<and> (r = Inr () \<longrightarrow> file_at d p = Some f)) C"
  unfolding check_persisted_def
  by (rule triple_bind [OF triple_readOptional [of I]]) (auto intro!: triple_return triple_throw)

lemma triple_writeVerified:
  assumes "\<And>d g. I d \<Longrightarrow> I (set_file p g d)" and "\<And>d. I d \<Longrightarrow> C d"
  shows "triple I (writeVerified p f) (\<lambda>r d. I d \<and> (r = Inr () \<longrightarrow> file_at d p = Some f)) C"
  unfolding writeVerified_def
proof (rule triple_bind [OF triple_write])
  show "triple I (io_bind (sync_path p) (\<lambda>_. check_persisted p f)) (\<lambda>r d. I d \<and> (r = Inr () \<longrightarrow> file_at d p = Some f)) C"
    by (rule triple_bind [OF triple_sync [of I]]) (auto intro: triple_weaken [OF triple_check_persisted [of I]])
qed (use assms in auto)

lemma triple_writeAtomic:
  assumes "\<And>k d g. I d \<Longrightarrow> I (set_file (p @ ''.tmp-'' @ suffix env k) g d)"
    and "\<And>k d. I d \<Longrightarrow> I (del_file (p @ ''.tmp-'' @ suffix env k) d)"
    and "\<And>k d. I d \<Longrightarrow> J (set_file p f (del_file (p @ ''.tmp-'' @ suffix env k) d))"
    and "\<And>d. I d \<Longrightarrow> C d" and "\<And>d. J d \<Longrightarrow> C d"
  shows "triple I (writeAtomicVerified env p f) (\<lambda>r d. (r = Inr () \<longrightarrow> J d) \<and> (I d \<or> J d)) C"
proof -
  have body: "triple I (io_bind
          (io_catch (io_bind (writeVerified tmp f) (\<lambda>_. rename_file tmp p))
            (\<lambda>e. io_bind (io_catch (removeIfPresent tmp) (\<lambda>_. io_return False)) (\<lambda>_. io_throw e)))
          (\<lambda>_. io_bind (sync_path q) (\<lambda>_. check_persisted p f)))
        (\<lambda>r d. (r = Inr () \<longrightarrow> J d) \<and> (I d \<or> J d)) C"
    if tmp: "tmp = p @ ''.tmp-'' @ suffix env k" for tmp q k
  proof (rule triple_bind)
    have ren: "triple I (io_bind (writeVerified tmp f) (\<lambda>_. rename_file tmp p)) (\<lambda>r d. case r of Inl e \<Rightarrow> I d | Inr _ \<Rightarrow> J d) C"
    proof (rule triple_bind [OF triple_writeVerified])
      show "triple (\<lambda>d. I d \<and> (Inr x = Inr () \<longrightarrow> file_at d tmp = Some f)) (rename_file tmp p) (\<lambda>r d. case r of Inl e \<Rightarrow> I d | Inr _ \<Rightarrow> J d) C"
        for x :: unit
        by (rule triple_weaken [OF triple_rename [where I = "\<lambda>d. I d \<and> file_at d tmp = Some f" and J = J]])
          (use assms tmp in \<open>auto split: sum.splits\<close>)
    qed (use assms tmp in auto)
    have rm: "triple I (io_catch (removeIfPresent tmp) (\<lambda>_. io_return False)) (\<lambda>r. I) C"
      by (rule triple_catch [OF triple_removeIfPresent]) (use assms tmp in \<open>auto intro!: triple_return\<close>)
    show "triple I (io_catch (io_bind (writeVerified tmp f) (\<lambda>_. rename_file tmp p))
            (\<lambda>e. io_bind (io_catch (removeIfPresent tmp) (\<lambda>_. io_return False)) (\<lambda>_. io_throw e)))
        (\<lambda>r d. case r of Inl e \<Rightarrow> I d | Inr _ \<Rightarrow> J d) C"
      by (rule triple_catch [OF ren]) (auto intro!: triple_bind [OF rm] triple_throw)
    show "triple (\<lambda>d. case Inr x of Inl e \<Rightarrow> I d | Inr _ \<Rightarrow> J d) (io_bind (sync_path q) (\<lambda>_. check_persisted p f))
        (\<lambda>r d. (r = Inr () \<longrightarrow> J d) \<and> (I d \<or> J d)) C" for x :: unit
      unfolding sum.case
      by (rule triple_bind [OF triple_sync [of J]]) (auto intro: triple_weaken [OF triple_check_persisted [of J]])
  qed auto
  then show ?thesis unfolding writeAtomicVerified_def Let_def
    by (intro triple_bind [OF triple_tick [of I]]) auto
qed


section \<open>The store\<close>

text \<open>The object ids of a pack that reads and verifies.\<close>

definition pack_at :: "pack_env \<Rightarrow> disk \<Rightarrow> string \<Rightarrow> buffer list option" where
  "pack_at env d n =
     (case (file_at d (idxPath env n), file_at d (packPath env n)) of
        (Some fi, Some fp) \<Rightarrow>
          (case read_pack (sha1_fn env) (bytes_of fp, bytes_of fi) of
             Inr v \<Rightarrow> Some (map obj_oid (objects v)) | Inl e \<Rightarrow> None)
      | _ \<Rightarrow> None)"

definition stored :: "pack_env \<Rightarrow> disk \<Rightarrow> string \<Rightarrow> buffer \<Rightarrow> bool" where
  "stored env d n i \<longleftrightarrow> (\<exists>os. pack_at env d n = Some os \<and> i \<in> set os)"

definition held :: "pack_env \<Rightarrow> disk \<Rightarrow> buffer set" where
  "held env d = {i. \<exists>n. stored env d n i}"

definition pack_present :: "pack_env \<Rightarrow> disk \<Rightarrow> string \<Rightarrow> bool" where
  "pack_present env d n \<longleftrightarrow> file_at d (idxPath env n) \<noteq> None \<and> file_at d (packPath env n) \<noteq> None"

text \<open>The journal can be acted upon: the pack it names is published, or every source is still there.\<close>

definition journal_ok :: "pack_env \<Rightarrow> disk \<Rightarrow> bool" where
  "journal_ok env d \<longleftrightarrow> (\<forall>f name sources. file_at d (journalPath env) = Some f \<and> parse_journal f = Journal name sources \<longrightarrow>
     pack_at env d name \<noteq> None \<or> (\<forall>s\<in>set sources. pack_present env d s))"

definition temporary_file :: "string \<Rightarrow> bool" where
  "temporary_file n \<longleftrightarrow> js_startsWith n CONSOLIDATED_PREFIX \<and> js_includes n ''.tmp-''"

text \<open>No readable pack carries the name of a temporary file.\<close>

definition names_proper :: "pack_env \<Rightarrow> disk \<Rightarrow> bool" where
  "names_proper env d \<longleftrightarrow> (\<forall>n. pack_at env d n \<noteq> None \<longrightarrow> \<not> temporary_file (n @ ''.idx'') \<and> \<not> temporary_file (n @ ''.pack''))"

text \<open>The journal lies outside the pack directory, and a temporary suffix has no dot and no slash.\<close>

definition env_ok :: "pack_env \<Rightarrow> bool" where
  "env_ok env \<longleftrightarrow> CHR ''/'' \<in> set (journalPath env) \<and>
     (\<forall>s. CHR ''/'' \<notin> set s \<longrightarrow> \<not> js_startsWith (journalPath env @ s) (packDir env @ ''/'')) \<and>
     (\<forall>k. CHR ''.'' \<notin> set (suffix env k) \<and> CHR ''/'' \<notin> set (suffix env k)) \<and> (\<forall>b. length (sha1_fn env b) = 20)"

section \<open>Paths\<close>

lemma startsWith_append [simp]: "js_startsWith (p @ s) p"
  by (simp add: js_startsWith_def)

lemma pack_paths [simp]:
  "idxPath env n = idxPath env m \<longleftrightarrow> n = m" "packPath env n = packPath env m \<longleftrightarrow> n = m"
  "idxPath env n \<noteq> packPath env m" "packPath env m \<noteq> idxPath env n"
proof -
  have "last (n @ ''.idx'') \<noteq> last (m @ ''.pack'')" for n m by simp
  then have "n @ ''.idx'' \<noteq> m @ ''.pack''" for n m by metis
  then show "idxPath env n \<noteq> packPath env m" "packPath env m \<noteq> idxPath env n"
    by (simp_all add: idxPath_def packPath_def path_join_def)
qed (simp_all add: idxPath_def packPath_def path_join_def)

lemma journal_path_apart:
  assumes "env_ok env" and "CHR ''/'' \<notin> set s"
  shows "journalPath env @ s \<noteq> idxPath env n" "journalPath env @ s \<noteq> packPath env n"
    "idxPath env n \<noteq> journalPath env @ s" "packPath env n \<noteq> journalPath env @ s"
proof -
  have "\<not> js_startsWith (journalPath env @ s) (packDir env @ ''/'')" using assms by (simp add: env_ok_def)
  moreover have "js_startsWith (idxPath env n) (packDir env @ ''/'')" "js_startsWith (packPath env n) (packDir env @ ''/'')"
    by (simp_all add: idxPath_def packPath_def path_join_def js_startsWith_def)
  ultimately show "journalPath env @ s \<noteq> idxPath env n" "journalPath env @ s \<noteq> packPath env n"
    "idxPath env n \<noteq> journalPath env @ s" "packPath env n \<noteq> journalPath env @ s"
    by metis+
qed

lemmas journal_path [simp] = journal_path_apart [where s = "[]", simplified]

lemma idx_temporary_apart:
  assumes "env_ok env"
  shows "idxPath env t @ ''.tmp-'' @ suffix env k \<noteq> idxPath env n" "idxPath env t @ ''.tmp-'' @ suffix env k \<noteq> packPath env n"
    "idxPath env t @ ''.tmp-'' @ suffix env k \<noteq> journalPath env"
proof -
  have s: "CHR ''.'' \<notin> set (''tmp-'' @ suffix env k)" using assms by (simp add: env_ok_def)
  have "after_last CHR ''.'' (idxPath env t @ ''.tmp-'' @ suffix env k) = ''tmp-'' @ suffix env k"
    using after_last_append [OF s, of "idxPath env t"] by simp
  moreover have "after_last CHR ''.'' (idxPath env n) = ''idx''" "after_last CHR ''.'' (packPath env n) = ''pack''"
    using after_last_append [of "CHR ''.''" "''idx''" "packDir env @ ''/'' @ n"]
      after_last_append [of "CHR ''.''" "''pack''" "packDir env @ ''/'' @ n"]
    by (simp_all add: idxPath_def packPath_def path_join_def)
  ultimately show "idxPath env t @ ''.tmp-'' @ suffix env k \<noteq> idxPath env n" "idxPath env t @ ''.tmp-'' @ suffix env k \<noteq> packPath env n"
    by auto
  have "js_startsWith (idxPath env t @ ''.tmp-'' @ suffix env k) (packDir env @ ''/'')"
    by (simp add: idxPath_def path_join_def js_startsWith_def)
  moreover have "\<not> js_startsWith (journalPath env @ []) (packDir env @ ''/'')" using assms unfolding env_ok_def by (metis empty_iff empty_set)
  ultimately show "idxPath env t @ ''.tmp-'' @ suffix env k \<noteq> journalPath env" by auto
qed

section \<open>Framing\<close>

lemma pack_at_cong:
  assumes "file_at d (idxPath env n) = file_at d' (idxPath env n)" and "file_at d (packPath env n) = file_at d' (packPath env n)"
  shows "pack_at env d n = pack_at env d' n"
  using assms by (simp add: pack_at_def)

lemma pack_at_none: "file_at d (idxPath env n) = None \<or> file_at d (packPath env n) = None \<Longrightarrow> pack_at env d n = None"
  by (auto simp: pack_at_def split: option.splits)

lemma pack_at_del: "pack_at env (del_file p d) n = (if p = idxPath env n \<or> p = packPath env n then None else pack_at env d n)"
  by (auto simp: pack_at_none intro: pack_at_cong)

lemma held_del_pack:
  assumes "K \<subseteq> held env d" and "p = idxPath env n \<or> p = packPath env n" and "\<And>i. stored env d n i \<Longrightarrow> \<exists>m. m \<noteq> n \<and> stored env d m i"
  shows "K \<subseteq> held env (del_file p d)"
proof
  fix i assume "i \<in> K"
  with assms(1) obtain m where "stored env d m i" by (auto simp: held_def)
  with assms(3) obtain m' where m: "m' \<noteq> n" "stored env d m' i" by metis
  with assms(2) have "stored env (del_file p d) m' i" by (auto simp: stored_def pack_at_del)
  then show "i \<in> held env (del_file p d)" by (auto simp: held_def)
qed

lemma held_del_other:
  assumes "K \<subseteq> held env d" and "\<And>n. p = idxPath env n \<or> p = packPath env n \<Longrightarrow> pack_at env d n = None"
  shows "K \<subseteq> held env (del_file p d)"
proof
  fix i assume "i \<in> K"
  with assms(1) obtain m where "stored env d m i" by (auto simp: held_def)
  then have "stored env (del_file p d) m i" using assms(2) [of m] by (auto simp: stored_def pack_at_del)
  then show "i \<in> held env (del_file p d)" by (auto simp: held_def)
qed

text \<open>A disk with only files of another: what recovery leaves.\<close>

definition shrunk :: "disk \<Rightarrow> disk \<Rightarrow> bool" where
  "shrunk d0 d \<longleftrightarrow> (\<forall>p f. file_at d p = Some f \<longrightarrow> file_at d0 p = Some f)"

lemma shrunk_refl [simp]: "shrunk d d"
  by (simp add: shrunk_def)

lemma shrunk_del [simp]: "shrunk d0 d \<Longrightarrow> shrunk d0 (del_file p d)"
  by (auto simp: shrunk_def)

lemma shrunk_pack:
  assumes "shrunk d0 d" and "pack_at env d n = Some os"
  shows "pack_at env d0 n = Some os"
proof -
  from assms(2) obtain fi fp where "file_at d (idxPath env n) = Some fi" "file_at d (packPath env n) = Some fp"
    by (auto simp: pack_at_def split: option.splits)
  with assms have "file_at d0 (idxPath env n) = Some fi" "file_at d0 (packPath env n) = Some fp" by (auto simp: shrunk_def)
  with assms(2) \<open>file_at d (idxPath env n) = Some fi\<close> \<open>file_at d (packPath env n) = Some fp\<close> show ?thesis by (simp add: pack_at_def)
qed

lemma shrunk_proper: "shrunk d0 d \<Longrightarrow> names_proper env d0 \<Longrightarrow> names_proper env d"
  unfolding names_proper_def using shrunk_pack by fastforce


lemma read_pack_oids:
  assumes "parsePackIndex sha1 i = Inr ix" and "verifyPack sha1 p ix = Inr v"
  shows "set (map obj_oid (objects v)) = set (map oid (entries ix))"
proof -
  have "map obj_oid (objects v) = map oid (js_sort compare_offset (entries ix))"
    using verifyPack_good [OF assms(2)] parsePackIndex_fields [OF assms(1)] by blast
  then show ?thesis by (metis set_js_sort set_map)
qed

lemma stored_index:
  assumes "stored env d n i" and "file_at d (idxPath env n) = Some f" and "parsePackIndex (sha1_fn env) (bytes_of f) = Inr ix"
  shows "i \<in> set (map oid (entries ix))"
  using assms read_pack_oids [OF assms(3)]
  by (fastforce simp: stored_def pack_at_def read_pack_def split: option.splits sum.splits)

section \<open>Removing sources\<close>

definition safe_disk :: "pack_env \<Rightarrow> buffer set \<Rightarrow> disk \<Rightarrow> bool" where
  "safe_disk env K d \<longleftrightarrow> K \<subseteq> held env d \<and> journal_ok env d \<and> names_proper env d"

text \<open>While the sources of a published pack are removed.\<close>

definition removing :: "pack_env \<Rightarrow> buffer set \<Rightarrow> disk \<Rightarrow> string \<Rightarrow> string list \<Rightarrow> disk \<Rightarrow> bool" where
  "removing env K d0 name sources d \<longleftrightarrow> shrunk d0 d \<and> names_proper env d0 \<and> K \<subseteq> held env d \<and> pack_at env d name \<noteq> None \<and>
     (\<forall>f. file_at d (journalPath env) = Some f \<longrightarrow> (\<exists>ss. parse_journal f = Journal name ss) \<or> parse_journal f = InvalidJournal)"

lemma removing_safe: "removing env K d0 name sources d \<Longrightarrow> safe_disk env K d"
  using shrunk_proper by (fastforce simp: removing_def safe_disk_def journal_ok_def)

lemma removing_shrunk: "removing env K d0 name sources d \<Longrightarrow> shrunk d0 d \<and> safe_disk env K d"
  using removing_safe removing_def by blast

definition covered :: "pack_env \<Rightarrow> disk \<Rightarrow> string \<Rightarrow> string \<Rightarrow> bool" where
  "covered env d name n \<longleftrightarrow> (\<forall>i. stored env d n i \<longrightarrow> stored env d name i)"

lemma removing_del:
  assumes "removing env K d0 name sources d" and "covered env d name n" and "n \<noteq> name" and "p = idxPath env n \<or> p = packPath env n"
    and "env_ok env"
  shows "removing env K d0 name sources (del_file p d) \<and> covered env (del_file p d) name n"
proof -
  have "K \<subseteq> held env (del_file p d)"
  proof (rule held_del_pack)
    show "K \<subseteq> held env d" using assms(1) by (simp add: removing_def)
    show "\<exists>m. m \<noteq> n \<and> stored env d m i" if "stored env d n i" for i
      using that assms(2,3) by (auto simp: covered_def)
  qed fact
  moreover have "p \<noteq> journalPath env" using assms(4,5) by auto
  moreover have "pack_at env (del_file p d) name = pack_at env d name" using assms(3,4) by (auto simp: pack_at_del)
  moreover have "covered env (del_file p d) name n" using assms(4) by (auto simp: covered_def stored_def pack_at_del)
  ultimately show ?thesis using assms(1) by (auto simp: removing_def)
qed

lemma triple_remove_pack:
  assumes "env_ok env" and "n \<noteq> name"
  shows "triple (\<lambda>d. removing env K d0 name sources d \<and> covered env d name n) (remove_pack env n)
    (\<lambda>r d. removing env K d0 name sources d \<and> (\<forall>e. r = Inl e \<longrightarrow> e = IoFailure)) (safe_disk env K)"
  unfolding remove_pack_def
proof (rule triple_bind [OF triple_removeIfPresent])
  show "triple (\<lambda>d. (removing env K d0 name sources d \<and> covered env d name n) \<and> (\<forall>y. Inr x = Inr y \<longrightarrow> file_at d (idxPath env n) = None) \<and>
      (\<forall>e. Inr x = Inl e \<longrightarrow> e = IoFailure))
    (io_bind (removeIfPresent (packPath env n)) (\<lambda>_. io_bind (io_event (PackRemoved (packPath env n))) (\<lambda>_. io_return (Some n))))
    (\<lambda>r d. removing env K d0 name sources d \<and> (\<forall>e. r = Inl e \<longrightarrow> e = IoFailure)) (safe_disk env K)" for x :: bool
  proof (rule triple_bind [where R = "\<lambda>r d. removing env K d0 name sources d \<and> (\<forall>e. r = Inl e \<longrightarrow> e = IoFailure)"])
    show "triple (\<lambda>d. (removing env K d0 name sources d \<and> covered env d name n) \<and> (\<forall>y. Inr x = Inr y \<longrightarrow> file_at d (idxPath env n) = None) \<and>
        (\<forall>e. Inr x = Inl e \<longrightarrow> e = IoFailure)) (removeIfPresent (packPath env n))
      (\<lambda>r d. removing env K d0 name sources d \<and> (\<forall>e. r = Inl e \<longrightarrow> e = IoFailure)) (safe_disk env K)"
      by (rule triple_weaken [OF triple_removeIfPresent [where I = "\<lambda>d. removing env K d0 name sources d \<and> covered env d name n"]])
        (use removing_del [OF _ _ assms(2) _ assms(1)] removing_safe in blast)+
    show "triple (\<lambda>d. removing env K d0 name sources d \<and> (\<forall>e. Inr y = Inl e \<longrightarrow> e = IoFailure))
      (io_bind (io_event (PackRemoved (packPath env n))) (\<lambda>_. io_return (Some n)))
      (\<lambda>r d. removing env K d0 name sources d \<and> (\<forall>e. r = Inl e \<longrightarrow> e = IoFailure)) (safe_disk env K)" for y :: bool
      by (rule triple_bind [OF triple_event]) (auto intro: triple_return)
  qed auto
qed (use removing_del [OF _ _ assms(2) _ assms(1)] removing_safe in blast)+


lemma triple_index_contained:
  "triple I (index_contained env pub f) (\<lambda>r d. I d \<and>
     (r = Inr True \<longrightarrow> (\<exists>ix. parsePackIndex (sha1_fn env) (bytes_of f) = Inr ix \<and> set (map oid (entries ix)) \<subseteq> set pub)) \<and>
     (\<forall>e. r = Inl e \<longrightarrow> e = IoFailure)) C"
proof (cases "parsePackIndex (sha1_fn env) (bytes_of f)")
  case (Inl e)
  then have "verification_error e" by (rule parsePackIndex_errors)
  with Inl show ?thesis
    by (intro triple_pure) (auto simp: index_contained_def io_catch_def io_bind_def io_throw_def io_return_def verification_error_def)
next
  case (Inr ix)
  then show ?thesis
    by (intro triple_pure) (auto simp: index_contained_def io_catch_def io_bind_def io_throw_def io_return_def list_all_iff)
qed

lemma covered_shrunk:
  assumes "removing env K d0 name sources d" and "covered env d0 name n"
  shows "covered env d name n"
proof -
  from assms(1) obtain os where os: "shrunk d0 d" "pack_at env d name = Some os" by (auto simp: removing_def)
  then have "pack_at env d0 name = Some os" by (rule shrunk_pack)
  with assms(2) os show ?thesis by (auto simp: covered_def stored_def dest: shrunk_pack)
qed

lemma triple_remove_source:
  assumes ok: "env_ok env" and n: "n \<noteq> name" and os: "pack_at env d0 name = Some os"
    and pub: "case published of None \<Rightarrow> covered env d0 name n | Some pub \<Rightarrow> set pub \<subseteq> set os"
  shows "triple (removing env K d0 name sources) (remove_source env published n)
    (\<lambda>r d. removing env K d0 name sources d \<and> (\<forall>e. r = Inl e \<longrightarrow> e = IoFailure)) (safe_disk env K)"
proof (cases published)
  case None
  with pub have "covered env d0 name n" by simp
  then have "\<And>d. removing env K d0 name sources d \<Longrightarrow> covered env d name n" by (rule covered_shrunk [rotated])
  then show ?thesis unfolding remove_source_def None option.case
    by (intro triple_weaken [OF triple_remove_pack [OF ok n]]) auto
next
  case (Some p)
  have pos: "\<And>d. removing env K d0 name sources d \<Longrightarrow> pack_at env d name = Some os"
    using os by (auto simp: removing_def dest: shrunk_pack)
  have cov_none: "covered env d name n" if "file_at d (idxPath env n) = None" for d
    using that by (simp add: covered_def stored_def pack_at_none)
  have cov: "covered env d name n"
    if "removing env K d0 name sources d" "file_at d (idxPath env n) = Some f"
      "parsePackIndex (sha1_fn env) (bytes_of f) = Inr ix" "oid ` set (entries ix) \<subseteq> set p" for d f ix
    using that pub pos [OF that(1)] Some stored_index [OF _ that(2,3)] by (fastforce simp: covered_def stored_def)
  show ?thesis unfolding remove_source_def Some option.case
  proof (rule triple_bind [OF triple_readOptional [of "removing env K d0 name sources"]])
    fix sourceIdx
    show "triple (\<lambda>d. removing env K d0 name sources d \<and> (\<forall>x. Inr sourceIdx = Inr x \<longrightarrow> file_at d (idxPath env n) = x) \<and>
        (\<forall>e. Inr sourceIdx = Inl e \<longrightarrow> e = IoFailure))
      (case sourceIdx of None \<Rightarrow> remove_pack env n
       | Some f \<Rightarrow> io_bind (index_contained env p f) (\<lambda>contained. if contained then remove_pack env n else io_return None))
      (\<lambda>r d. removing env K d0 name sources d \<and> (\<forall>e. r = Inl e \<longrightarrow> e = IoFailure)) (safe_disk env K)"
    proof (cases sourceIdx)
      case None
      then show ?thesis
        by (simp, intro triple_weaken [OF triple_remove_pack [OF ok n]]) (auto intro: cov_none)
    next
      case (Some f)
      have "triple (\<lambda>d. removing env K d0 name sources d \<and> file_at d (idxPath env n) = Some f)
        (io_bind (index_contained env p f) (\<lambda>contained. if contained then remove_pack env n else io_return None))
        (\<lambda>r d. removing env K d0 name sources d \<and> (\<forall>e. r = Inl e \<longrightarrow> e = IoFailure)) (safe_disk env K)"
      proof (rule triple_bind [OF triple_index_contained])
        show "triple (\<lambda>d. (removing env K d0 name sources d \<and> file_at d (idxPath env n) = Some f) \<and>
           (Inr x = Inr True \<longrightarrow> (\<exists>ix. parsePackIndex (sha1_fn env) (bytes_of f) = Inr ix \<and> set (map oid (entries ix)) \<subseteq> set p)) \<and>
           (\<forall>e. Inr x = Inl e \<longrightarrow> e = IoFailure)) (if x then remove_pack env n else io_return None)
          (\<lambda>r d. removing env K d0 name sources d \<and> (\<forall>e. r = Inl e \<longrightarrow> e = IoFailure)) (safe_disk env K)" for x
        proof (cases x)
          case True
          then show ?thesis
            by (simp, intro triple_weaken [OF triple_remove_pack [OF ok n]]) (auto intro: cov)
        qed (auto intro!: triple_return)
      qed auto
      with Some show ?thesis by simp
    qed
  qed auto
qed


lemma triple_removeSources:
  assumes ok: "env_ok env" and os: "pack_at env d0 name = Some os" and n: "name \<notin> set sources"
    and pub: "case published of None \<Rightarrow> \<forall>n\<in>set sources. covered env d0 name n | Some pub \<Rightarrow> set pub \<subseteq> set os"
  shows "triple (removing env K d0 name sources) (removeSources env sources published)
    (\<lambda>r d. removing env K d0 name sources d \<and> (\<forall>e. r = Inl e \<longrightarrow> e = IoFailure)) (safe_disk env K)"
proof -
  let ?I = "removing env K d0 name sources" and ?E = "\<lambda>r :: io_error + string list. \<forall>e. r = Inl e \<longrightarrow> e = IoFailure"
  have loop: "triple ?I (io_finally (io_collect (remove_source env published) sources) EndPackChange) (\<lambda>r d. ?I d \<and> ?E r) (safe_disk env K)"
    by (intro triple_finally triple_collect_errors triple_remove_source [OF ok _ os]) (use n pub in \<open>auto split: option.splits\<close>)
  have sync: "triple ?I (io_bind (if rs \<noteq> [] then sync_path (packDir env) else io_return ()) (\<lambda>_. io_return rs)) (\<lambda>r d. ?I d \<and> ?E r) (safe_disk env K)" for rs
    by (rule triple_bind [where R = "\<lambda>r d. ?I d \<and> (\<forall>e. r = Inl e \<longrightarrow> e = IoFailure)"])
      (auto intro: triple_return triple_sync)
  have "triple ?I (io_bind (io_finally (io_collect (remove_source env published) sources) EndPackChange) (\<lambda>removed.
      io_bind (if removed \<noteq> [] then sync_path (packDir env) else io_return ()) (\<lambda>_. io_return removed))) (\<lambda>r d. ?I d \<and> ?E r) (safe_disk env K)"
    by (rule triple_bind [OF loop triple_weaken [OF sync]]) auto
  then show ?thesis unfolding removeSources_def
    by (intro triple_seq [OF triple_event [of ?I], where P' = "\<lambda>_. ?I"]) auto
qed

section \<open>Recovery\<close>

definition published_result :: "pack_env \<Rightarrow> disk \<Rightarrow> string \<Rightarrow> io_error + buffer list option \<Rightarrow> bool" where
  "published_result env d name r \<longleftrightarrow> (case r of
     Inr (Some pub) \<Rightarrow> \<exists>os. pack_at env d name = Some os \<and> set os = set pub
   | Inr None \<Rightarrow> pack_at env d name = None
   | Inl e \<Rightarrow> e = IoFailure \<or> is_verification e \<and> pack_at env d name = None)"

lemma published_verify:
  assumes "file_at d (idxPath env name) = Some fi" and "file_at d (packPath env name) = Some fp"
  shows "published_result env d name (fst (io_bind (lift_pack (parsePackIndex (sha1_fn env) (bytes_of fi))) (\<lambda>index.
         io_bind (lift_pack (verifyPack (sha1_fn env) (bytes_of fp) index)) (\<lambda>_. io_return (Some (map oid (entries index))))) w))"
proof (cases "parsePackIndex (sha1_fn env) (bytes_of fi)")
  case (Inl e)
  with assms parsePackIndex_errors [OF Inl] show ?thesis
    by (simp add: published_result_def io_bind_def io_throw_def pack_at_def read_pack_def verification_error_def)
next
  case (Inr ix)
  show ?thesis
  proof (cases "verifyPack (sha1_fn env) (bytes_of fp) ix")
    case (Inl e)
    with assms Inr verifyPack_errors [OF Inl] show ?thesis
      by (simp add: published_result_def io_bind_def io_throw_def io_return_def pack_at_def read_pack_def verification_error_def)
  next
    case (Inr v)
    with assms \<open>parsePackIndex (sha1_fn env) (bytes_of fi) = Inr ix\<close> read_pack_oids show ?thesis
      by (fastforce simp: published_result_def io_bind_def io_throw_def io_return_def pack_at_def read_pack_def)
  qed
qed

lemma lift_pack_quiet [simp]: "disk (snd (lift_pack r w)) = disk w" "log (snd (lift_pack r w)) = log w"
  by (cases r; simp add: io_return_def io_throw_def)+

lemma bind_quiet:
  assumes "\<And>w. disk (snd (m w)) = disk w \<and> log (snd (m w)) = log w" and "\<And>x w. disk (snd (f x w)) = disk w \<and> log (snd (f x w)) = log w"
  shows "disk (snd (io_bind m f w)) = disk w \<and> log (snd (io_bind m f w)) = log w"
  using assms(1) [of w] assms(2) [of _ "snd (m w)"] by (auto simp: io_bind_def split: prod.splits sum.splits)

lemma return_quiet [simp]: "disk (snd (io_return x w)) = disk w" "log (snd (io_return x w)) = log w"
  by (simp_all add: io_return_def)

lemma triple_publishedOids:
  "triple ((=) d0) (publishedOids env name) (\<lambda>r d. d = d0 \<and> published_result env d0 name r) C"
proof -
  let ?Q = "\<lambda>r d. d = d0 \<and> published_result env d0 name r"
  have verify: "triple (\<lambda>d. d = d0 \<and> file_at d (idxPath env name) = Some fi \<and> file_at d (packPath env name) = Some fp)
      (io_bind (lift_pack (parsePackIndex (sha1_fn env) (bytes_of fi))) (\<lambda>index.
         io_bind (lift_pack (verifyPack (sha1_fn env) (bytes_of fp) index)) (\<lambda>_. io_return (Some (map oid (entries index))))))
      ?Q C" for fi fp
    by (rule triple_pure [OF bind_quiet [OF _ bind_quiet]]) (auto intro: published_verify)
  have none: "published_result env d0 name (Inr None)" if "file_at d0 (idxPath env name) = None \<or> file_at d0 (packPath env name) = None"
    using that by (simp add: published_result_def pack_at_none)
  have io: "published_result env d0 name (Inl IoFailure)" by (simp add: published_result_def)
  have pck: "triple (\<lambda>d. d = d0 \<and> file_at d (idxPath env name) = Some fi) (io_bind (readOptional (packPath env name)) (\<lambda>pck.
         case pck of None \<Rightarrow> io_return None
         | Some fp \<Rightarrow> io_bind (lift_pack (parsePackIndex (sha1_fn env) (bytes_of fi))) (\<lambda>index.
             io_bind (lift_pack (verifyPack (sha1_fn env) (bytes_of fp) index)) (\<lambda>_.
               io_return (Some (map oid (entries index))))))) ?Q C" for fi
    by (rule triple_bind [OF triple_readOptional])
      (auto intro!: triple_return triple_pre [OF verify] simp: none io split: option.splits)
  show ?thesis unfolding publishedOids_def
    by (rule triple_bind [OF triple_readOptional])
      (auto intro!: triple_return triple_pre [OF pck] simp: none io split: option.splits)
qed

lemma triple_allSourcesPresent:
  "triple ((=) d0) (allSourcesPresent env ss) (\<lambda>r d. d = d0 \<and> (case r of
     Inr b \<Rightarrow> b = (\<forall>s\<in>set ss. pack_present env d0 s) | Inl e \<Rightarrow> e = IoFailure)) C"
proof (induction ss)
  case (Cons s ss)
  let ?Q = "\<lambda>r d. d = d0 \<and> (case r of Inr b \<Rightarrow> b = (\<forall>s\<in>set (s # ss). pack_present env d0 s) | Inl e \<Rightarrow> e = IoFailure)"
  have rec: "triple (\<lambda>d. d = d0 \<and> pack_present env d0 s) (allSourcesPresent env ss) ?Q C"
  proof (cases "pack_present env d0 s")
    case True
    then show ?thesis by (intro triple_weaken [OF Cons]) (auto split: sum.splits)
  qed (simp add: triple_def)
  have pck: "triple (\<lambda>d. d = d0 \<and> file_at d0 (idxPath env s) \<noteq> None) (io_bind (readOptional (packPath env s)) (\<lambda>p.
       if p = None then io_return False else allSourcesPresent env ss)) ?Q C"
    by (rule triple_bind [OF triple_readOptional])
      (auto intro!: triple_return triple_pre [OF rec] simp: pack_present_def)
  show ?case unfolding allSourcesPresent.simps
    by (rule triple_bind [OF triple_readOptional])
      (auto intro!: triple_return triple_pre [OF pck] simp: pack_present_def)
qed (auto intro: triple_return)


lemma parse_journal_fresh: "parse_journal f = Journal name sources \<Longrightarrow> name \<notin> set sources"
  by (auto simp: parse_journal_def split: fdata.splits if_splits option.splits)

definition only_io :: "io_error + 'a \<Rightarrow> bool" where
  "only_io r \<longleftrightarrow> (\<forall>e. r = Inl e \<longrightarrow> e = IoFailure)"

text \<open>While the files of a pack that never was published are removed: the sources are all there.\<close>

definition undoing :: "pack_env \<Rightarrow> buffer set \<Rightarrow> disk \<Rightarrow> string \<Rightarrow> string list \<Rightarrow> disk \<Rightarrow> bool" where
  "undoing env K d0 name sources d \<longleftrightarrow> shrunk d0 d \<and> names_proper env d0 \<and> K \<subseteq> held env d \<and> pack_at env d name = None \<and>
     file_at d (journalPath env) = file_at d0 (journalPath env) \<and> (\<forall>s\<in>set sources. pack_present env d s)"

lemma undoing_del:
  assumes "undoing env K d0 name sources d" and "env_ok env" and "name \<notin> set sources" and "p = idxPath env name \<or> p = packPath env name"
  shows "undoing env K d0 name sources (del_file p d)"
proof -
  have "K \<subseteq> held env (del_file p d)"
    using assms(1,4) by (intro held_del_other) (auto simp: undoing_def)
  moreover have "pack_at env (del_file p d) name = None" using assms(4) by (auto simp: pack_at_del)
  moreover have "\<forall>s\<in>set sources. pack_present env (del_file p d) s"
    using assms(1,3,4) by (auto simp: undoing_def pack_present_def)
  ultimately show ?thesis using assms(1,2,4) by (auto simp: undoing_def)
qed

lemma undoing_safe:
  assumes "undoing env K d0 name sources d" and "file_at d0 (journalPath env) = Some f" and "parse_journal f = Journal name sources"
  shows "safe_disk env K d"
  using assms shrunk_proper by (auto simp: undoing_def safe_disk_def journal_ok_def)

lemma triple_published:
  "triple ((=) d0) (io_catch (publishedOids env name) (\<lambda>e. if is_verification e then io_return None else io_throw e))
      (\<lambda>r d. d = d0 \<and> published_result env d0 name r \<and> only_io r) C"
proof (rule triple_catch [where R = "\<lambda>r d. d = d0 \<and> published_result env d0 name r"])
  show "triple (\<lambda>d. d = d0 \<and> published_result env d0 name (Inl e)) (if is_verification e then io_return None else io_throw e)
      (\<lambda>r d. d = d0 \<and> published_result env d0 name r \<and> only_io r) C" for e
    by (cases e) (auto intro!: triple_return triple_throw simp: published_result_def only_io_def)
qed (auto simp: only_io_def intro: triple_publishedOids)

lemma triple_finish_removal:
  assumes ok: "env_ok env" and safe: "safe_disk env K d0" and fresh: "name \<notin> set sources"
    and j: "file_at d0 (journalPath env) = Some f" "parse_journal f = Journal name sources"
    and pub: "published_result env d0 name (Inr (Some p))"
  shows "triple ((=) d0) (io_bind (removeSources env sources (Some p)) (\<lambda>_. io_return ()))
    (\<lambda>r d. shrunk d0 d \<and> safe_disk env K d \<and> only_io r) (safe_disk env K)"
proof -
  obtain os where os: "pack_at env d0 name = Some os" "set os = set p" using pub by (auto simp: published_result_def)
  have "triple (removing env K d0 name sources) (removeSources env sources (Some p))
      (\<lambda>r d. removing env K d0 name sources d \<and> (\<forall>e. r = Inl e \<longrightarrow> e = IoFailure)) (safe_disk env K)"
    using os by (intro triple_removeSources [OF ok os(1) fresh]) auto
  then have "triple (removing env K d0 name sources) (io_bind (removeSources env sources (Some p)) (\<lambda>_. io_return ()))
      (\<lambda>r d. shrunk d0 d \<and> safe_disk env K d \<and> only_io r) (safe_disk env K)"
    by (rule triple_bind) (use removing_shrunk in \<open>auto intro!: triple_return simp: only_io_def\<close>)
  then show ?thesis by (rule triple_pre) (use os safe j in \<open>auto simp: removing_def safe_disk_def\<close>)
qed

lemma triple_undo:
  assumes ok: "env_ok env" and fresh: "name \<notin> set sources"
    and j: "file_at d0 (journalPath env) = Some f" "parse_journal f = Journal name sources"
  shows "triple (undoing env K d0 name sources) (io_bind (removeIfPresent (idxPath env name)) (\<lambda>_.
      io_bind (removeIfPresent (packPath env name)) (\<lambda>_. io_return ())))
    (\<lambda>r d. shrunk d0 d \<and> safe_disk env K d \<and> only_io r) (safe_disk env K)"
proof -
  let ?Q = "\<lambda>r d. shrunk d0 d \<and> safe_disk env K d \<and> only_io r"
  have rm: "triple (undoing env K d0 name sources) (removeIfPresent q) (\<lambda>r d. undoing env K d0 name sources d \<and> only_io r) (safe_disk env K)"
    if q: "q = idxPath env name \<or> q = packPath env name" for q
    by (rule triple_weaken [OF triple_removeIfPresent [where I = "undoing env K d0 name sources" and p = q and C = "safe_disk env K"]])
      (use undoing_del [OF _ ok fresh q] undoing_safe [OF _ j] in \<open>auto simp: only_io_def\<close>)
  have fin: "shrunk d0 d \<and> safe_disk env K d" if "undoing env K d0 name sources d" for d
    using that undoing_safe [OF that j] by (simp add: undoing_def)
  show ?thesis
  proof (rule triple_seq [OF rm, where P' = "\<lambda>_. undoing env K d0 name sources"])
    show "triple (undoing env K d0 name sources) (io_bind (removeIfPresent (packPath env name)) (\<lambda>_. io_return ())) ?Q (safe_disk env K)"
      by (rule triple_bind [OF rm]) (use fin in \<open>auto intro!: triple_return simp: only_io_def\<close>)
  qed (use fin in \<open>auto simp: only_io_def\<close>)
qed

lemma triple_unpublished:
  assumes ok: "env_ok env" and safe: "safe_disk env K d0" and fresh: "name \<notin> set sources"
    and j: "file_at d0 (journalPath env) = Some f" "parse_journal f = Journal name sources"
    and unpub: "pack_at env d0 name = None"
  shows "triple ((=) d0) (io_bind (allSourcesPresent env sources) (\<lambda>present.
      if present then io_bind (removeIfPresent (idxPath env name)) (\<lambda>_.
        io_bind (removeIfPresent (packPath env name)) (\<lambda>_. io_return ()))
      else io_throw (Verification ''recovery_blocked'')))
    (\<lambda>r d. shrunk d0 d \<and> safe_disk env K d \<and> only_io r) (safe_disk env K)"
proof -
  have all: "\<forall>s\<in>set sources. pack_present env d0 s" using safe j unpub by (auto simp: safe_disk_def journal_ok_def)
  have u: "undoing env K d0 name sources d0" using all unpub safe by (simp add: undoing_def safe_disk_def)
  have body: "triple (\<lambda>d. x \<and> undoing env K d0 name sources d) (if x then io_bind (removeIfPresent (idxPath env name)) (\<lambda>_.
        io_bind (removeIfPresent (packPath env name)) (\<lambda>_. io_return ())) else io_throw (Verification ''recovery_blocked''))
    (\<lambda>r d. shrunk d0 d \<and> safe_disk env K d \<and> only_io r) (safe_disk env K)" for x
    using triple_undo [OF ok fresh j] by (cases x) (simp_all add: triple_def)
  show ?thesis
    by (rule triple_seq [OF triple_allSourcesPresent body]) (use all u safe in \<open>auto simp: only_io_def\<close>)
qed

lemma triple_recover_journal:
  assumes ok: "env_ok env" and safe: "safe_disk env K d0"
    and j: "file_at d0 (journalPath env) = Some f" "parse_journal f = Journal name sources"
  shows "triple ((=) d0) (recover_journal env name sources) (\<lambda>r d. shrunk d0 d \<and> safe_disk env K d \<and> only_io r) (safe_disk env K)"
  unfolding recover_journal_def
proof (rule triple_bind [OF triple_published])
  note fresh = parse_journal_fresh [OF j(2)]
  fix x
  show "triple (\<lambda>d. d = d0 \<and> published_result env d0 name (Inr x) \<and> only_io (Inr x :: io_error + buffer list option))
    (case x of Some pub \<Rightarrow> io_bind (removeSources env sources (Some pub)) (\<lambda>_. io_return ())
     | None \<Rightarrow> io_bind (allSourcesPresent env sources) (\<lambda>present.
            if present then io_bind (removeIfPresent (idxPath env name)) (\<lambda>_.
              io_bind (removeIfPresent (packPath env name)) (\<lambda>_. io_return ()))
            else io_throw (Verification ''recovery_blocked'')))
    (\<lambda>r d. shrunk d0 d \<and> safe_disk env K d \<and> only_io r) (safe_disk env K)"
  proof (cases "published_result env d0 name (Inr x)")
    case True
    show ?thesis
    proof (cases x)
      case None
      then have "pack_at env d0 name = None" using True by (simp add: published_result_def)
      then show ?thesis unfolding None option.case
        by (intro triple_pre [OF triple_unpublished [OF ok safe fresh j]]) simp_all
    next
      case (Some p)
      with True show ?thesis
        by (simp, intro triple_pre [OF triple_finish_removal [OF ok safe fresh j]]) simp_all
    qed
  qed (simp add: triple_def)
qed (use safe in \<open>auto simp: only_io_def\<close>)


lemma safe_del_journal:
  assumes "safe_disk env K d" and "env_ok env"
  shows "safe_disk env K (del_file (journalPath env) d)"
proof -
  have "K \<subseteq> held env (del_file (journalPath env) d)"
    using assms by (intro held_del_other) (auto simp: safe_disk_def)
  moreover have "names_proper env (del_file (journalPath env) d)"
    using assms shrunk_proper [OF shrunk_del [OF shrunk_refl]] by (simp add: safe_disk_def)
  ultimately show ?thesis by (simp add: safe_disk_def journal_ok_def)
qed

text \<open>After the journal is gone: only removals, and no journal.\<close>

definition cleaning :: "pack_env \<Rightarrow> buffer set \<Rightarrow> disk \<Rightarrow> disk \<Rightarrow> bool" where
  "cleaning env K d0 d \<longleftrightarrow> shrunk d0 d \<and> names_proper env d0 \<and> K \<subseteq> held env d \<and> file_at d (journalPath env) = None"

lemma cleaning_safe: "cleaning env K d0 d \<Longrightarrow> safe_disk env K d"
  using shrunk_proper by (auto simp: cleaning_def safe_disk_def journal_ok_def)

lemma cleaning_del:
  assumes "cleaning env K d0 d" and "\<And>n. p = idxPath env n \<or> p = packPath env n \<Longrightarrow> pack_at env d n = None"
  shows "cleaning env K d0 (del_file p d)"
  using assms held_del_other [of K env d p] by (auto simp: cleaning_def)

lemma children_no_slash: "n \<in> set (children d dir) \<Longrightarrow> CHR ''/'' \<notin> set n"
  by (auto simp: children_def)

lemma children_complete:
  assumes "file_at d (path_join dir n) \<noteq> None" and "CHR ''/'' \<notin> set n"
  shows "n \<in> set (children d dir)"
proof -
  have "path_join dir n \<in> set (map fst (files d))" using assms(1) by (force dest: map_of_SomeD)
  then show ?thesis using assms(2) unfolding children_def set_uniq set_map set_filter
    by (intro image_eqI [of _ _ "path_join dir n"]) (auto simp: path_join_def js_startsWith_def)
qed

lemma journal_temporary_path:
  assumes "env_ok env" and "js_startsWith n (after_last CHR ''/'' (journalPath env) @ ''.tmp-'')" and "CHR ''/'' \<notin> set n"
  shows "\<exists>s. path_join (before_last CHR ''/'' (journalPath env)) n = journalPath env @ s \<and> CHR ''/'' \<notin> set s"
proof -
  let ?a = "after_last CHR ''/'' (journalPath env)"
  from assms(2) obtain r where r: "n = (?a @ ''.tmp-'') @ r" unfolding js_startsWith_def by (metis append_take_drop_id)
  have "before_last CHR ''/'' (journalPath env) @ CHR ''/'' # ?a = journalPath env"
    using assms(1) by (intro before_after_last) (simp add: env_ok_def)
  with r have "path_join (before_last CHR ''/'' (journalPath env)) n = journalPath env @ ''.tmp-'' @ r"
    by (simp add: path_join_def)
  with r assms(3) show ?thesis by (intro exI [of _ "''.tmp-'' @ r"]) auto
qed


lemma triple_readdir_or_empty:
  "triple I (readdir_or_empty dir) (\<lambda>r d. I d \<and> only_io r \<and> (\<forall>ns. r = Inr ns \<longrightarrow> ns = [] \<or> ns = children d dir)) C"
proof -
  have read: "triple I (readdir dir) (\<lambda>r d. I d \<and> (case r of Inr ns \<Rightarrow> ns = children d dir
      | Inl e \<Rightarrow> e = IoFailure \<or> (e = NotFound \<and> dir \<notin> set (dirs d)))) C"
    unfolding readdir_def
    by (rule triple_weaken [OF triple_read [of I]]) (auto split: sum.splits if_splits)
  show ?thesis unfolding readdir_or_empty_def isNotFound_def
    by (rule triple_catch [OF read]) (auto intro!: triple_return triple_throw simp: only_io_def)
qed

lemma triple_remove_each:
  assumes "\<And>n d. n \<in> set ns \<Longrightarrow> sel n \<Longrightarrow> I d \<Longrightarrow> I (del_file (path_join dir n) d)" and "\<And>d. I d \<Longrightarrow> C d"
  shows "triple I (io_each (\<lambda>n. if sel n then remove_ignoring (path_join dir n) else io_return ()) ns) (\<lambda>r d. I d \<and> only_io r) C"
proof -
  have "triple I (if sel n then remove_ignoring (path_join dir n) else io_return ()) (\<lambda>r d. I d \<and> (\<forall>e. r = Inl e \<longrightarrow> e = IoFailure)) C"
    if "n \<in> set ns" for n
  proof (cases "sel n")
    case True
    then have "triple I (remove_ignoring (path_join dir n)) (\<lambda>r d. I d \<and> (\<forall>e. r = Inl e \<longrightarrow> e = IoFailure)) C"
      by (intro triple_weaken [OF triple_remove_ignoring [where I = I and C = C]]) (use assms that in auto)
    with True show ?thesis by simp
  qed (auto intro: triple_return)
  then show ?thesis unfolding only_io_def by (rule triple_each_errors)
qed

lemma triple_journal_temporaries:
  assumes "env_ok env"
  shows "triple (cleaning env K d0) (remove_journal_temporaries env) (\<lambda>r d. cleaning env K d0 d \<and> only_io r) (safe_disk env K)"
proof -
  let ?dir = "before_last CHR ''/'' (journalPath env)" and ?pre = "after_last CHR ''/'' (journalPath env) @ ''.tmp-''"
  have del: "cleaning env K d0 (del_file (path_join ?dir n) d)"
    if "CHR ''/'' \<notin> set n" "js_startsWith n ?pre" "cleaning env K d0 d" for n d
  proof (rule cleaning_del [OF that(3)])
    from journal_temporary_path [OF assms that(2,1)] obtain s where "path_join ?dir n = journalPath env @ s" "CHR ''/'' \<notin> set s" by blast
    then show "pack_at env d m = None" if "path_join ?dir n = idxPath env m \<or> path_join ?dir n = packPath env m" for m
      using that journal_path_apart [OF assms, of s] by auto
  qed
  have loop: "triple (cleaning env K d0) (io_each (\<lambda>n. if js_startsWith n ?pre then remove_ignoring (path_join ?dir n) else io_return ()) ns)
      (\<lambda>r d. cleaning env K d0 d \<and> only_io r) (safe_disk env K)" if "\<forall>n\<in>set ns. CHR ''/'' \<notin> set n" for ns
    by (rule triple_remove_each) (use del that cleaning_safe in auto)
  have "triple (\<lambda>d. cleaning env K d0 d \<and> (\<forall>n\<in>set ns. CHR ''/'' \<notin> set n))
      (io_each (\<lambda>n. if js_startsWith n ?pre then remove_ignoring (path_join ?dir n) else io_return ()) ns)
      (\<lambda>r d. cleaning env K d0 d \<and> only_io r) (safe_disk env K)" for ns
    using loop [of ns] by (cases "\<forall>n\<in>set ns. CHR ''/'' \<notin> set n") (auto elim: triple_pre simp: triple_def)
  then show ?thesis unfolding remove_journal_temporaries_def Let_def
    by (rule triple_seq [OF triple_readdir_or_empty [of "cleaning env K d0"]])
      (use children_no_slash in \<open>auto simp: only_io_def\<close>)
qed

lemma pack_suffixes [simp]: "drop_suffix 4 (m @ ''.idx'') = m" "drop_suffix 5 (m @ ''.pack'') = m" "js_endsWith (m @ s) s"
  by (simp_all add: js_endsWith_def drop_suffix_def)

lemma indexed_complete:
  assumes "file_at d (idxPath env m) \<noteq> None" and "CHR ''/'' \<notin> set m"
  shows "m \<in> set (indexed_names (children d (packDir env)))"
proof -
  have "m @ ''.idx'' \<in> set (children d (packDir env))"
    using assms by (intro children_complete) (auto simp: idxPath_def)
  then show ?thesis unfolding indexed_names_def set_map set_filter
    by (intro image_eqI [of _ _ "m @ ''.idx''"]) auto
qed

text \<open>While the orphans of one listing are removed: a name that was not indexed has no index.\<close>

definition sweeping :: "pack_env \<Rightarrow> buffer set \<Rightarrow> disk \<Rightarrow> string list \<Rightarrow> disk \<Rightarrow> bool" where
  "sweeping env K d0 names d \<longleftrightarrow> cleaning env K d0 d \<and>
     (\<forall>m. CHR ''/'' \<notin> set m \<and> m \<notin> set (indexed_names names) \<longrightarrow> file_at d (idxPath env m) = None)"

lemma sweeping_safe: "sweeping env K d0 names d \<Longrightarrow> safe_disk env K d"
  unfolding sweeping_def by (blast intro: cleaning_safe)

lemma sweeping_del:
  assumes s: "sweeping env K d0 names d" and p: "names_proper env d0" and n: "CHR ''/'' \<notin> set n" "is_orphan names n"
  shows "sweeping env K d0 names (del_file (path_join (packDir env) n) d)"
proof -
  have "pack_at env d m = None"
    if m: "path_join (packDir env) n = idxPath env m \<or> path_join (packDir env) n = packPath env m" for m
  proof (cases "temporary_file n")
    case True
    have "names_proper env d" using s p by (auto simp: sweeping_def cleaning_def intro: shrunk_proper)
    with True m show ?thesis by (auto simp: names_proper_def idxPath_def packPath_def path_join_def)
  next
    case False
    with n(2) have o: "js_endsWith n ''.pack''" "drop_suffix 5 n \<notin> set (indexed_names names)"
      by (auto simp: is_orphan_def temporary_file_def)
    have "n \<noteq> m @ ''.idx''" using o(1) by (auto simp: js_endsWith_def)
    with m have nm: "n = m @ ''.pack''" by (auto simp: idxPath_def packPath_def path_join_def)
    with o(2) n(1) s show ?thesis by (auto simp: sweeping_def intro: pack_at_none)
  qed
  then have "cleaning env K d0 (del_file (path_join (packDir env) n) d)"
    using s by (intro cleaning_del) (auto simp: sweeping_def)
  with s show ?thesis by (auto simp: sweeping_def)
qed

lemma triple_remove_orphans:
  assumes "names_proper env d0"
  shows "triple (cleaning env K d0) (remove_orphans env) (\<lambda>r d. cleaning env K d0 d \<and> only_io r) (safe_disk env K)"
proof -
  have loop: "triple (\<lambda>d. (ns = [] \<and> cleaning env K d0 d) \<or> (sweeping env K d0 ns d \<and> (\<forall>n\<in>set ns. CHR ''/'' \<notin> set n)))
      (io_each (\<lambda>n. if is_orphan ns n then remove_ignoring (path_join (packDir env) n) else io_return ()) ns)
      (\<lambda>r d. cleaning env K d0 d \<and> only_io r) (safe_disk env K)" for ns
  proof (cases "ns = []")
    case True
    then show ?thesis by (auto intro!: triple_return simp: only_io_def sweeping_def)
  next
    case False
    have "triple (\<lambda>d. sweeping env K d0 ns d \<and> (\<forall>n\<in>set ns. CHR ''/'' \<notin> set n))
      (io_each (\<lambda>n. if is_orphan ns n then remove_ignoring (path_join (packDir env) n) else io_return ()) ns)
      (\<lambda>r d. (sweeping env K d0 ns d \<and> (\<forall>n\<in>set ns. CHR ''/'' \<notin> set n)) \<and> only_io r) (safe_disk env K)"
      by (rule triple_remove_each) (use sweeping_del [OF _ assms] sweeping_safe in auto)
    then show ?thesis by (rule triple_weaken) (use False in \<open>auto simp: sweeping_def\<close>)
  qed
  have start: "sweeping env K d0 (children d (packDir env)) d \<and> (\<forall>n\<in>set (children d (packDir env)). CHR ''/'' \<notin> set n)"
    if "cleaning env K d0 d" for d
    unfolding sweeping_def using that children_no_slash indexed_complete [of d env] by blast
  show ?thesis unfolding remove_orphans_def
    by (rule triple_seq [OF triple_readdir_or_empty [of "cleaning env K d0"] loop]) (use start in \<open>auto simp: only_io_def\<close>)
qed


lemma triple_sweep:
  assumes "env_ok env" and "names_proper env d0"
  shows "triple (cleaning env K d0) (io_bind io_scanned (\<lambda>_. io_bind (remove_journal_temporaries env) (\<lambda>_. remove_orphans env)))
    (\<lambda>r d. cleaning env K d0 d \<and> only_io r) (safe_disk env K)"
proof (rule triple_seq [OF triple_scanned [of "cleaning env K d0"], where P' = "\<lambda>_. cleaning env K d0"])
  show "triple (cleaning env K d0) (io_bind (remove_journal_temporaries env) (\<lambda>_. remove_orphans env))
    (\<lambda>r d. cleaning env K d0 d \<and> only_io r) (safe_disk env K)"
    by (rule triple_seq [OF triple_journal_temporaries [OF assms(1)] triple_remove_orphans [OF assms(2)]]) (auto simp: only_io_def)
qed auto

text \<open>Recovery from any disk whose journal can be acted upon: no object is lost at any point, the
  journal stays usable, only a failing call stops it, and when it returns the journal is gone.\<close>

lemma triple_recover:
  assumes ok: "env_ok env" and safe: "safe_disk env K d0"
  shows "triple ((=) d0) (recover env) (\<lambda>r d. shrunk d0 d \<and> safe_disk env K d \<and> only_io r \<and>
      (r = Inr () \<longrightarrow> file_at d (journalPath env) = None)) (safe_disk env K)"
proof -
  let ?Q = "\<lambda>r d. shrunk d0 d \<and> safe_disk env K d \<and> only_io r \<and> (r = Inr () \<longrightarrow> file_at d (journalPath env) = None)"
  let ?S = "\<lambda>d. shrunk d0 d \<and> safe_disk env K d"
  have proper: "names_proper env d0" using safe by (simp add: safe_disk_def)
  have clean: "cleaning env K d0 d" if "?S d" "file_at d (journalPath env) = None" for d
    using that proper by (simp add: cleaning_def safe_disk_def)
  have fin: "?Q r d" if "cleaning env K d0 d \<and> only_io r" for r d
    using that cleaning_safe by (auto simp: cleaning_def)
  have sweep: "triple (cleaning env K d0) (if b then io_return () else
      io_bind io_scanned (\<lambda>_. io_bind (remove_journal_temporaries env) (\<lambda>_. remove_orphans env))) ?Q (safe_disk env K)" for b
  proof (cases b)
    case True
    then show ?thesis using fin by (auto intro!: triple_return simp: only_io_def)
  next
    case False
    have "triple (cleaning env K d0) (io_bind io_scanned (\<lambda>_. io_bind (remove_journal_temporaries env) (\<lambda>_. remove_orphans env))) ?Q (safe_disk env K)"
      by (rule triple_weaken [OF triple_sweep [OF ok proper, of K]]) (use fin in auto)
    with False show ?thesis by simp
  qed
  have scan: "triple (cleaning env K d0) (io_bind (io_get scannedForOrphans) (\<lambda>scanned.
      if b \<and> scanned then io_return () else io_bind io_scanned (\<lambda>_. io_bind (remove_journal_temporaries env) (\<lambda>_. remove_orphans env))))
    ?Q (safe_disk env K)" for b
    by (rule triple_seq [OF triple_get [of "cleaning env K d0"] sweep]) auto
  have del: "?S (del_file (journalPath env) d)" if "?S d" for d
    using that safe_del_journal [OF _ ok] by simp
  have rm: "triple (\<lambda>d. ?S d \<and> (j = None \<longrightarrow> file_at d (journalPath env) = None)) (if j \<noteq> None then remove_ignoring (journalPath env) else io_return ())
      (\<lambda>r d. ?S d \<and> only_io r \<and> (r = Inr () \<longrightarrow> file_at d (journalPath env) = None)) (safe_disk env K)" for j :: "journal option"
  proof (cases j)
    case (Some x)
    have "triple ?S (remove_ignoring (journalPath env)) (\<lambda>r d. ?S d \<and> only_io r \<and> (r = Inr () \<longrightarrow> file_at d (journalPath env) = None)) (safe_disk env K)"
      by (rule triple_weaken [OF triple_remove_ignoring [where I = ?S and C = "safe_disk env K"]]) (use del in \<open>auto simp: only_io_def\<close>)
    with Some show ?thesis by simp
  qed (auto intro!: triple_return simp: only_io_def)
  have tail: "triple (\<lambda>d. ?S d \<and> (j = None \<longrightarrow> file_at d (journalPath env) = None))
     (io_bind (if j \<noteq> None then remove_ignoring (journalPath env) else io_return ()) (\<lambda>_.
         io_bind (io_get scannedForOrphans) (\<lambda>scanned.
           if j = None \<and> scanned then io_return ()
           else io_bind io_scanned (\<lambda>_. io_bind (remove_journal_temporaries env) (\<lambda>_. remove_orphans env))))) ?Q (safe_disk env K)" for j :: "journal option"
    by (rule triple_seq [OF rm scan]) (use clean in \<open>auto simp: only_io_def\<close>)
  have act: "triple (\<lambda>d. d = d0 \<and> j = map_option parse_journal (file_at d0 (journalPath env)))
      (case j of Some (Journal name sources) \<Rightarrow> recover_journal env name sources | _ \<Rightarrow> io_return ())
      (\<lambda>r d. ?S d \<and> only_io r \<and> (j = None \<longrightarrow> file_at d (journalPath env) = None)) (safe_disk env K)" for j
  proof (cases "j = map_option parse_journal (file_at d0 (journalPath env))")
    case True
    show ?thesis
    proof (cases "\<exists>name sources. j = Some (Journal name sources)")
      case False
      then have "(case j of Some (Journal name sources) \<Rightarrow> recover_journal env name sources | _ \<Rightarrow> io_return ()) = io_return ()"
        by (auto split: option.splits journal.splits)
      with safe True show ?thesis by (auto intro!: triple_return simp: only_io_def)
    next
      case j: True
      with True obtain f name sources where f: "file_at d0 (journalPath env) = Some f" "parse_journal f = Journal name sources" "j = Some (Journal name sources)"
        by auto
      show ?thesis unfolding f(3) option.case journal.case
        by (rule triple_weaken [OF triple_recover_journal [OF ok safe f(1,2)]]) auto
    qed
  qed (simp add: triple_def)
  have "triple ((=) d0) (readJournal env) (\<lambda>r d. d = d0 \<and> only_io r \<and> (\<forall>j. r = Inr j \<longrightarrow> j = map_option parse_journal (file_at d0 (journalPath env)))) (safe_disk env K)"
    unfolding readJournal_def
    by (rule triple_bind [OF triple_readOptional]) (auto intro!: triple_return simp: only_io_def)
  then show ?thesis unfolding recover_def
    by (rule triple_seq [OF _ triple_seq [OF act tail]]) (use safe in \<open>auto simp: only_io_def\<close>)
qed


section \<open>Publishing\<close>

definition reads :: "pack_env \<Rightarrow> disk \<Rightarrow> string \<Rightarrow> verified_pack \<Rightarrow> bool" where
  "reads env d n v \<longleftrightarrow> (\<exists>fi fp. file_at d (idxPath env n) = Some fi \<and> file_at d (packPath env n) = Some fp \<and>
     read_pack (sha1_fn env) (bytes_of fp, bytes_of fi) = Inr v)"

lemma reads_stored: "reads env d n v \<Longrightarrow> stored env d n i \<longleftrightarrow> i \<in> obj_oid ` set (objects v)"
  by (auto simp: reads_def stored_def pack_at_def)

definition source_oids :: "(string \<times> verified_pack) list \<Rightarrow> buffer set" where
  "source_oids sources = (\<Union>(n, v)\<in>set sources. obj_oid ` set (objects v))"

text \<open>Two packs with the same digest hold the same objects: a pack already stored under the name of the
  pack built from stored sources has no object the sources do not have.\<close>

definition digest_consistent :: "pack_env \<Rightarrow> disk \<Rightarrow> bool" where
  "digest_consistent env d \<longleftrightarrow> (\<forall>sources c os. (\<forall>(n, v)\<in>set sources. reads env d n v) \<and>
     buildConsolidatedPack (sha1_fn env) (map snd sources) = Inr c \<and> pack_at env d (c_name c) = Some os \<longrightarrow>
     set os \<subseteq> source_oids sources)"

lemma shrunk_reads: "shrunk d0 d \<Longrightarrow> reads env d n v \<Longrightarrow> reads env d0 n v"
  unfolding reads_def shrunk_def by blast

lemma shrunk_digest:
  assumes "shrunk d0 d" and "digest_consistent env d0"
  shows "digest_consistent env d"
  unfolding digest_consistent_def
proof (intro allI impI)
  fix sources c os
  assume a: "(\<forall>(n, v)\<in>set sources. reads env d n v) \<and>
     buildConsolidatedPack (sha1_fn env) (map snd sources) = Inr c \<and> pack_at env d (c_name c) = Some os"
  then have "\<forall>(n, v)\<in>set sources. reads env d0 n v" using shrunk_reads [OF assms(1)] by blast
  moreover have "pack_at env d0 (c_name c) = Some os" using a shrunk_pack [OF assms(1)] by blast
  ultimately show "set os \<subseteq> source_oids sources" using a assms(2) unfolding digest_consistent_def by blast
qed

definition unchanged_but :: "pack_env \<Rightarrow> string \<Rightarrow> disk \<Rightarrow> disk \<Rightarrow> bool" where
  "unchanged_but env t d1 d \<longleftrightarrow> (\<forall>n. n \<noteq> t \<longrightarrow> file_at d (idxPath env n) = file_at d1 (idxPath env n) \<and>
     file_at d (packPath env n) = file_at d1 (packPath env n))"

lemma unchanged_stored: "unchanged_but env t d1 d \<Longrightarrow> n \<noteq> t \<Longrightarrow> stored env d n i = stored env d1 n i"
  using pack_at_cong [of d env n d1] by (simp add: unchanged_but_def stored_def)

text \<open>What is known when a consolidation starts to write.\<close>

definition plan :: "pack_env \<Rightarrow> buffer set \<Rightarrow> disk \<Rightarrow> (string \<times> verified_pack) list \<Rightarrow> consolidated \<Rightarrow> bool" where
  "plan env K d1 sources c \<longleftrightarrow> K \<subseteq> held env d1 \<and> file_at d1 (journalPath env) = None \<and>
     (\<forall>(n, v)\<in>set sources. reads env d1 n v) \<and> buildConsolidatedPack (sha1_fn env) (map snd sources) = Inr c \<and>
     c_name c \<notin> set (map fst sources) \<and> digest_consistent env d1 \<and> names_proper env d1"

lemma plan_held:
  assumes "plan env K d1 sources c" and "unchanged_but env (c_name c) d1 d"
  shows "K \<subseteq> held env d"
proof
  fix i assume "i \<in> K"
  then obtain n where n: "stored env d1 n i" using assms(1) by (auto simp: plan_def held_def)
  have "\<exists>m. m \<noteq> c_name c \<and> stored env d1 m i"
  proof (cases "n = c_name c")
    case True
    with n obtain os where os: "pack_at env d1 (c_name c) = Some os" "i \<in> set os" by (auto simp: stored_def)
    then have "i \<in> source_oids sources" using assms(1) unfolding plan_def digest_consistent_def by blast
    then obtain m v where m: "(m, v) \<in> set sources" "i \<in> obj_oid ` set (objects v)" by (auto simp: source_oids_def)
    then have "stored env d1 m i" using assms(1) reads_stored [of env d1 m v i] by (auto simp: plan_def)
    moreover have "m \<noteq> c_name c" using m(1) assms(1) by (force simp: plan_def)
    ultimately show ?thesis by blast
  qed (use n in blast)
  then show "i \<in> held env d" using unchanged_stored [OF assms(2)] by (auto simp: held_def)
qed

lemma plan_present:
  assumes "plan env K d1 sources c" and "unchanged_but env (c_name c) d1 d" and "s \<in> set (map fst sources)"
  shows "pack_present env d s"
proof -
  have "s \<noteq> c_name c" using assms(1,3) unfolding plan_def by blast
  moreover obtain v where "reads env d1 s v" using assms(1,3) by (fastforce simp: plan_def)
  ultimately show ?thesis using assms(2) by (auto simp: reads_def pack_present_def unchanged_but_def)
qed

lemma includes_append: "js_includes s p \<Longrightarrow> p \<noteq> [] \<Longrightarrow> \<exists>a b. s = a @ p @ b"
proof (induction s p rule: js_includes.induct)
  case (2 x xs p)
  show ?case
  proof (cases "js_startsWith (x # xs) p")
    case True
    then show ?thesis unfolding js_startsWith_def by (metis append_Nil append_take_drop_id)
  next
    case False
    with 2 obtain a b where "xs = a @ p @ b" by auto
    then show ?thesis by (intro exI [of _ "x # a"] exI [of _ b]) simp
  qed
qed simp

lemma one_dot_proper:
  assumes "CHR ''.'' \<notin> set n" and "CHR ''.'' \<notin> set e" and "hd e \<noteq> CHR ''t''"
  shows "\<not> js_includes (n @ CHR ''.'' # e) ''.tmp-''"
proof
  assume "js_includes (n @ CHR ''.'' # e) ''.tmp-''"
  then obtain a b where ab: "n @ CHR ''.'' # e = a @ ''.tmp-'' @ b" using includes_append by blast
  then have "filter ((=) CHR ''.'') (n @ CHR ''.'' # e) = filter ((=) CHR ''.'') (a @ ''.tmp-'' @ b)" by (rule arg_cong)
  moreover have "filter ((=) CHR ''.'') n = []" "filter ((=) CHR ''.'') e = []" using assms(1,2) by (auto simp: filter_empty_conv)
  ultimately have "filter ((=) CHR ''.'') a = []" by (cases "filter ((=) CHR ''.'') a") auto
  then have "CHR ''.'' \<notin> set a" by (auto simp: filter_empty_conv)
  with ab assms(1) have "e = ''tmp-'' @ b" by (auto simp: append_eq_append_conv2 Cons_eq_append_conv append_eq_Cons_conv)
  with assms(3) show False by simp
qed

lemma hex_no_dot: "CHR ''.'' \<notin> set (to_hex b)"
proof -
  have "hex_digit n \<noteq> CHR ''.''" if "n < 16" for n
  proof -
    have "hex_digit n \<in> set ''0123456789abcdef''" using that unfolding hex_digit_def by (intro nth_mem) simp
    then show ?thesis by auto
  qed
  then have "hex_digit (unat x div 16) \<noteq> CHR ''.''" "hex_digit (unat x mod 16) \<noteq> CHR ''.''" for x :: byte
    using unat_byte_le [of x] by auto
  then show ?thesis unfolding to_hex_def by (induction b) (auto simp: not_sym)
qed

lemma consolidated_name_proper:
  assumes "buildConsolidatedPack sha1 vs = Inr c"
  shows "\<not> temporary_file (c_name c @ ''.idx'')" "\<not> temporary_file (c_name c @ ''.pack'')"
proof -
  from assms obtain b where "c_name c = ''obts-pack-'' @ to_hex b"
    by (auto simp: buildConsolidatedPack_def Let_def rbind_Inr_iff)
  then have "CHR ''.'' \<notin> set (c_name c)" using hex_no_dot by auto
  then show "\<not> temporary_file (c_name c @ ''.idx'')" "\<not> temporary_file (c_name c @ ''.pack'')"
    using one_dot_proper [of "c_name c" "''idx''"] one_dot_proper [of "c_name c" "''pack''"]
    by (simp_all add: temporary_file_def)
qed

lemma plan_proper:
  assumes "plan env K d1 sources c" and "unchanged_but env (c_name c) d1 d"
  shows "names_proper env d"
  unfolding names_proper_def
proof (intro allI impI)
  fix n assume "pack_at env d n \<noteq> None"
  then show "\<not> temporary_file (n @ ''.idx'') \<and> \<not> temporary_file (n @ ''.pack'')"
    using assms consolidated_name_proper pack_at_cong [of d env n d1]
    by (cases "n = c_name c") (auto simp: plan_def names_proper_def unchanged_but_def)
qed

lemma parse_journal_file: "parse_journal (journal_file t names) = Journal name ss \<Longrightarrow> name = t \<and> ss = names"
  by (auto simp: parse_journal_def journal_file_def split: if_splits)

lemma journal_file_cases: "parse_journal (journal_file t names) = Journal t names \<or> parse_journal (journal_file t names) = InvalidJournal"
  by (auto simp: parse_journal_def journal_file_def)

definition journaled :: "pack_env \<Rightarrow> disk \<Rightarrow> (string \<times> verified_pack) list \<Rightarrow> consolidated \<Rightarrow> disk \<Rightarrow> bool" where
  "journaled env d1 sources c d \<longleftrightarrow> unchanged_but env (c_name c) d1 d \<and>
     file_at d (journalPath env) = Some (journal_file (c_name c) (map fst sources))"

lemma journaled_safe:
  assumes "plan env K d1 sources c" and "journaled env d1 sources c d"
  shows "safe_disk env K d"
proof -
  have "journal_ok env d"
    using assms plan_present [OF assms(1)] by (auto simp: journal_ok_def journaled_def dest!: parse_journal_file)
  with assms plan_held [OF assms(1)] plan_proper [OF assms(1)] show ?thesis by (auto simp: safe_disk_def journaled_def)
qed

lemma consolidated_oids:
  assumes ok: "env_ok env" and plan: "plan env K d1 sources c"
    and files: "file_at d (packPath env (c_name c)) = Some (Raw (c_pack c))" "file_at d (idxPath env (c_name c)) = Some (Raw (c_idx c))"
  shows "\<exists>os. pack_at env d (c_name c) = Some os \<and> set os = source_oids sources"
proof -
  have good: "\<forall>v\<in>set (map snd sources). good_pack v"
    using plan read_pack_good by (fastforce simp: plan_def reads_def)
  have "buildConsolidatedPack (sha1_fn env) (map snd sources) = Inr c" using plan by (simp add: plan_def)
  from build_reads_back [OF _ good this] ok obtain v where
    v: "read_pack (sha1_fn env) (c_pack c, c_idx c) = Inr v"
      "pack_lookup v = map_of (concat (map source_contents (map snd sources)))"
    by (auto simp: env_ok_def)
  have dom: "dom (map_of (source_contents v)) = obj_oid ` set (objects v)" for v
    by (auto simp: dom_map_of_conv_image_fst source_contents_def image_image)
  have "obj_oid ` set (objects v) = dom (map_of (concat (map source_contents (map snd sources))))"
    using v(2) dom [of v] by (simp add: pack_lookup_def)
  also have "\<dots> = source_oids sources"
    by (auto simp: dom_map_of_conv_image_fst source_contents_def source_oids_def image_UN image_image case_prod_beta)
  finally show ?thesis using v(1) files by (simp add: pack_at_def)
qed


lemma unchanged_files:
  assumes "unchanged_but env t d1 d" and "\<And>n. n \<noteq> t \<Longrightarrow> p \<noteq> idxPath env n \<and> p \<noteq> packPath env n"
  shows "unchanged_but env t d1 (set_file p f d)" "unchanged_but env t d1 (del_file p d)"
  using assms by (auto simp: unchanged_but_def)

lemma journal_temporary:
  assumes "env_ok env"
  shows "journalPath env @ ''.tmp-'' @ suffix env k \<noteq> idxPath env n" "journalPath env @ ''.tmp-'' @ suffix env k \<noteq> packPath env n"
    "journalPath env \<noteq> journalPath env @ ''.tmp-'' @ suffix env k"
  using journal_path_apart [OF assms, of "''.tmp-'' @ suffix env k"] assms by (auto simp: env_ok_def)

lemma triple_write_journal:
  assumes ok: "env_ok env" and plan: "plan env K d1 sources c"
  shows "triple ((=) d1) (writeAtomicVerified env (journalPath env) (journal_file (c_name c) (map fst sources)))
    (\<lambda>r d. safe_disk env K d \<and> (r = Inr () \<longrightarrow> journaled env d1 sources c d)) (safe_disk env K)"
proof -
  let ?I = "\<lambda>d. unchanged_but env (c_name c) d1 d \<and> file_at d (journalPath env) = None"
  have safe: "safe_disk env K d" if "?I d" for d
    using that plan_held [OF plan] plan_proper [OF plan] by (simp add: safe_disk_def journal_ok_def)
  have "triple ?I (writeAtomicVerified env (journalPath env) (journal_file (c_name c) (map fst sources)))
      (\<lambda>r d. (r = Inr () \<longrightarrow> journaled env d1 sources c d) \<and> (?I d \<or> journaled env d1 sources c d)) (safe_disk env K)"
    by (rule triple_writeAtomic)
      (use ok safe journaled_safe [OF plan] journal_temporary [OF ok] in
        \<open>auto simp: journaled_def intro!: unchanged_files\<close>)
  then show ?thesis
    by (rule triple_weaken) (use plan safe journaled_safe [OF plan] in \<open>auto simp: unchanged_but_def plan_def\<close>)
qed

lemma triple_write_pack:
  assumes ok: "env_ok env" and plan: "plan env K d1 sources c"
  shows "triple (journaled env d1 sources c) (writeVerified (packPath env (c_name c)) (Raw (c_pack c)))
    (\<lambda>r d. journaled env d1 sources c d \<and> (r = Inr () \<longrightarrow> file_at d (packPath env (c_name c)) = Some (Raw (c_pack c)))) (safe_disk env K)"
  by (rule triple_writeVerified)
    (use ok journaled_safe [OF plan] in \<open>auto simp: journaled_def intro!: unchanged_files\<close>)

definition published :: "pack_env \<Rightarrow> disk \<Rightarrow> (string \<times> verified_pack) list \<Rightarrow> consolidated \<Rightarrow> disk \<Rightarrow> bool" where
  "published env d1 sources c d \<longleftrightarrow> journaled env d1 sources c d \<and>
     file_at d (packPath env (c_name c)) = Some (Raw (c_pack c)) \<and> file_at d (idxPath env (c_name c)) = Some (Raw (c_idx c))"

lemma triple_write_index:
  assumes ok: "env_ok env" and plan: "plan env K d1 sources c"
  shows "triple (\<lambda>d. journaled env d1 sources c d \<and> file_at d (packPath env (c_name c)) = Some (Raw (c_pack c)))
    (writeAtomicVerified env (idxPath env (c_name c)) (Raw (c_idx c)))
    (\<lambda>r d. safe_disk env K d \<and> (r = Inr () \<longrightarrow> published env d1 sources c d)) (safe_disk env K)"
proof -
  let ?I = "\<lambda>d. journaled env d1 sources c d \<and> file_at d (packPath env (c_name c)) = Some (Raw (c_pack c))"
  have "triple ?I (writeAtomicVerified env (idxPath env (c_name c)) (Raw (c_idx c)))
      (\<lambda>r d. (r = Inr () \<longrightarrow> published env d1 sources c d) \<and> (?I d \<or> published env d1 sources c d)) (safe_disk env K)"
    by (rule triple_writeAtomic)
      (use ok journaled_safe [OF plan] idx_temporary_apart [OF ok] idx_temporary_apart [OF ok, THEN not_sym] in
        \<open>auto simp: published_def journaled_def intro!: unchanged_files\<close>)
  then show ?thesis
    by (rule triple_weaken) (use journaled_safe [OF plan] in \<open>auto simp: published_def\<close>)
qed

lemma published_removing:
  assumes ok: "env_ok env" and plan: "plan env K d1 sources c" and pub: "published env d1 sources c d"
  shows "removing env K d (c_name c) (map fst sources) d" "n \<in> set (map fst sources) \<Longrightarrow> covered env d (c_name c) n"
proof -
  obtain os where os: "pack_at env d (c_name c) = Some os" "set os = source_oids sources"
    using consolidated_oids [OF ok plan] pub by (auto simp: published_def)
  have j: "journaled env d1 sources c d" using pub by (simp add: published_def)
  then have "K \<subseteq> held env d" using plan_held [OF plan] by (simp add: journaled_def)
  moreover have "names_proper env d" using plan_proper [OF plan] j by (simp add: journaled_def)
  ultimately show "removing env K d (c_name c) (map fst sources) d"
    using os(1) j journal_file_cases by (auto simp: removing_def journaled_def)
  assume n: "n \<in> set (map fst sources)"
  then obtain v where v: "(n, v) \<in> set sources" "reads env d1 n v" using plan by (auto simp: plan_def)
  have "n \<noteq> c_name c" using plan n unfolding plan_def by blast
  then have "stored env d n i = stored env d1 n i" for i using j by (auto simp: journaled_def unchanged_stored)
  then show "covered env d (c_name c) n"
    using os v reads_stored [OF v(2)] by (auto simp: covered_def stored_def source_oids_def)
qed

lemma triple_retire:
  assumes ok: "env_ok env" and plan: "plan env K d1 sources c"
  shows "triple (published env d1 sources c) (io_bind (removeSources env (map fst sources) None) (\<lambda>removed.
      io_bind (remove_ignoring (journalPath env)) (\<lambda>_. io_return removed))) (\<lambda>r. safe_disk env K) (safe_disk env K)"
proof -
  have fresh: "c_name c \<notin> set (map fst sources)" using plan unfolding plan_def by blast
  have rmj: "triple (safe_disk env K) (io_bind (remove_ignoring (journalPath env)) (\<lambda>_. io_return removed)) (\<lambda>r. safe_disk env K) (safe_disk env K)"
    for removed :: "string list"
    by (rule triple_bind [OF triple_remove_ignoring]) (use ok safe_del_journal in \<open>auto intro: triple_return\<close>)
  have "triple ((=) d) (io_bind (removeSources env (map fst sources) None) (\<lambda>removed.
      io_bind (remove_ignoring (journalPath env)) (\<lambda>_. io_return removed))) (\<lambda>r. safe_disk env K) (safe_disk env K)"
    if pub: "published env d1 sources c d" for d
  proof -
    obtain os where os: "pack_at env d (c_name c) = Some os"
      using consolidated_oids [OF ok plan] pub by (auto simp: published_def)
    have "triple (removing env K d (c_name c) (map fst sources)) (removeSources env (map fst sources) None)
        (\<lambda>r d'. removing env K d (c_name c) (map fst sources) d' \<and> (\<forall>e. r = Inl e \<longrightarrow> e = IoFailure)) (safe_disk env K)"
      using published_removing(2) [OF ok plan pub] by (intro triple_removeSources [OF ok os fresh]) auto
    then have "triple ((=) d) (removeSources env (map fst sources) None) (\<lambda>r. safe_disk env K) (safe_disk env K)"
      by (rule triple_weaken) (use published_removing(1) [OF ok plan pub] removing_safe in auto)
    then show ?thesis by (rule triple_bind) (auto intro: rmj)
  qed
  then show ?thesis unfolding triple_def by blast
qed

lemma triple_publish:
  assumes ok: "env_ok env" and plan: "plan env K d1 sources c"
  shows "triple ((=) d1) (publish env c (map fst sources)) (\<lambda>r. safe_disk env K) (safe_disk env K)"
  unfolding publish_def
proof (rule triple_seq [OF triple_write_journal [OF ok plan]
      triple_seq [OF triple_write_pack [OF ok plan] triple_seq [OF triple_write_index [OF ok plan] triple_retire [OF ok plan]]]])
qed (use journaled_safe [OF plan] in auto)


section \<open>A whole run\<close>

lemma triple_verify_candidate:
  "triple ((=) d1) (verify_candidate env name) (\<lambda>r d. d1 = d \<and>
     (\<forall>y. r = Inr (Some y) \<longrightarrow> (case y of Inr (n, v) \<Rightarrow> n = name \<and> reads env d1 n v | Inl _ \<Rightarrow> True))) C"
proof -
  let ?Q = "\<lambda>r d. d1 = d \<and> (\<forall>y. r = Inr (Some y) \<longrightarrow> (case y of Inr (n, v) \<Rightarrow> n = name \<and> reads env d1 n v | Inl _ \<Rightarrow> True))"
  have body: "triple (\<lambda>d. d1 = d \<and> file_at d (idxPath env name) = idx \<and> file_at d (packPath env name) = pck)
     (case (idx, pck) of
         (Some fi, Some fp) \<Rightarrow>
           (case read_pack (sha1_fn env) (bytes_of fp, bytes_of fi) of
              Inr v \<Rightarrow> io_return (Some (Inr (name, v)))
            | Inl e \<Rightarrow> if e = RangeErr then io_throw RangeFailure else io_return (Some (Inl (error_code e))))
       | _ \<Rightarrow> io_return (Some (Inl ''missing_pack_file''))) ?Q C" for idx pck
    by (auto intro!: triple_return triple_throw simp: reads_def split: option.splits sum.splits)
  have pck: "triple (\<lambda>d. d1 = d \<and> file_at d (idxPath env name) = idx) (io_bind (readOptional (packPath env name)) (\<lambda>pck.
       case (idx, pck) of
         (Some fi, Some fp) \<Rightarrow>
           (case read_pack (sha1_fn env) (bytes_of fp, bytes_of fi) of
              Inr v \<Rightarrow> io_return (Some (Inr (name, v)))
            | Inl e \<Rightarrow> if e = RangeErr then io_throw RangeFailure else io_return (Some (Inl (error_code e))))
       | _ \<Rightarrow> io_return (Some (Inl ''missing_pack_file'')))) ?Q C" for idx
    by (rule triple_seq [OF triple_readOptional body]) auto
  show ?thesis unfolding verify_candidate_def
    by (rule triple_seq [OF triple_readOptional pck]) auto
qed

lemma triple_stat_pack: "triple ((=) d1) (stat_pack env name) (\<lambda>r. (=) d1) C"
proof -
  have "triple ((=) d1) (io_bind (stat_size (packPath env name)) (\<lambda>n. io_return (Some (name, n)))) (\<lambda>r. (=) d1) C"
    unfolding stat_size_def by (rule triple_bind [OF triple_read]) (auto intro: triple_return)
  then show ?thesis unfolding stat_pack_def
    by (rule triple_catch) (auto intro: triple_return triple_throw)
qed

lemma triple_lift_pack: "triple ((=) d1) (lift_pack r) (\<lambda>r' d. d1 = d \<and> (\<forall>x. r' = Inr x \<longrightarrow> r = Inr x)) C"
  by (cases r) (auto intro: triple_return triple_throw)

lemma triple_check_consolidated: "triple ((=) d1) (check_consolidated env c vs) (\<lambda>r. (=) d1) C"
proof -
  have "triple ((=) d1) (let contained = uniq (map oid (entries index))
       in if length contained \<noteq> length (entries index) then io_throw (Verification ''consolidated_duplicate_object'')
          else if \<not> list_all (\<lambda>v. list_all (\<lambda>ob. obj_oid ob \<in> set contained) (objects v)) vs
          then io_throw (Verification ''consolidated_missing_object'')
          else io_return index) (\<lambda>r. (=) d1) C" for index
    by (auto simp: Let_def intro: triple_return triple_throw)
  then have "triple ((=) d1) (io_bind (lift_pack (verifyPack (sha1_fn env) (c_pack c) index)) (\<lambda>_.
       let contained = uniq (map oid (entries index))
       in if length contained \<noteq> length (entries index) then io_throw (Verification ''consolidated_duplicate_object'')
          else if \<not> list_all (\<lambda>v. list_all (\<lambda>ob. obj_oid ob \<in> set contained) (objects v)) vs
          then io_throw (Verification ''consolidated_missing_object'')
          else io_return index)) (\<lambda>r. (=) d1) C" for index
    by (rule triple_seq [OF triple_lift_pack]) auto
  then show ?thesis unfolding check_consolidated_def by (rule triple_seq [OF triple_lift_pack]) auto
qed

text \<open>The disk a run starts to consolidate from.\<close>

definition ready :: "pack_env \<Rightarrow> buffer set \<Rightarrow> disk \<Rightarrow> bool" where
  "ready env K d \<longleftrightarrow> safe_disk env K d \<and> file_at d (journalPath env) = None \<and> digest_consistent env d"

lemma triple_consolidate_sources:
  assumes ok: "env_ok env" and rdy: "ready env K d1" and src: "\<forall>(n, v)\<in>set sources. reads env d1 n v"
  shows "triple ((=) d1) (consolidate_sources env key sources rejected) (\<lambda>r. safe_disk env K) (safe_disk env K)"
proof -
  have safe: "safe_disk env K d1" using rdy by (simp add: ready_def)
  have settle: "triple ((=) d1) (io_bind (io_settle s) (\<lambda>_. io_return x)) (\<lambda>r. safe_disk env K) (safe_disk env K)" for s and x :: outcome
    by (rule triple_bind [OF triple_settle]) (use safe in \<open>auto intro: triple_return\<close>)
  have fin: "triple (safe_disk env K) (io_bind (io_settle s) (\<lambda>_. io_return x)) (\<lambda>r. safe_disk env K) (safe_disk env K)" for s and x :: outcome
    by (rule triple_bind [OF triple_settle]) (auto intro: triple_return)
  have pub: "triple ((=) d1) (if c_name c \<in> set (map fst sources)
          then io_bind (io_settle (Some key)) (\<lambda>_. io_return (Skipped ''no_candidates'' rejected))
          else io_bind (publish env c (map fst sources)) (\<lambda>removed.
            io_bind (io_settle None) (\<lambda>_. io_return (Consolidated (length sources) (length removed) (length (entries index)) (length (c_pack c)) rejected))))
      (\<lambda>r. safe_disk env K) (safe_disk env K)"
    if c: "buildConsolidatedPack (sha1_fn env) (map snd sources) = Inr c" for c index
  proof (cases "c_name c \<in> set (map fst sources)")
    case True
    then show ?thesis using settle by simp
  next
    case False
    then have "plan env K d1 sources c" using rdy src c by (simp add: plan_def ready_def safe_disk_def)
    from triple_seq [OF triple_publish [OF ok this] fin] False show ?thesis by simp
  qed
  have chk: "triple (\<lambda>d. d1 = d \<and> (\<forall>x. Inr c = Inr x \<longrightarrow> buildConsolidatedPack (sha1_fn env) (map snd sources) = Inr x))
      (io_bind (check_consolidated env c (map snd sources)) (\<lambda>index.
          if c_name c \<in> set (map fst sources)
          then io_bind (io_settle (Some key)) (\<lambda>_. io_return (Skipped ''no_candidates'' rejected))
          else io_bind (publish env c (map fst sources)) (\<lambda>removed.
            io_bind (io_settle None) (\<lambda>_. io_return (Consolidated (length sources) (length removed) (length (entries index)) (length (c_pack c)) rejected)))))
      (\<lambda>r. safe_disk env K) (safe_disk env K)" for c
  proof (cases "buildConsolidatedPack (sha1_fn env) (map snd sources) = Inr c")
    case True
    show ?thesis
      by (rule triple_pre [where P = "(=) d1", OF triple_seq [OF triple_check_consolidated pub [OF True]]]) (use safe in auto)
  qed (simp add: triple_def)
  show ?thesis unfolding consolidate_sources_def
    using settle triple_bind [OF triple_lift_pack chk] safe by auto
qed


lemma rights_reads:
  assumes "\<forall>y\<in>set results. \<exists>x\<in>set names. case y of Inr (n, v) \<Rightarrow> n = x \<and> reads env d1 n v | Inl (_ :: string) \<Rightarrow> True"
  shows "\<forall>(n, v)\<in>set (rights results). reads env d1 n v"
proof -
  have "reads env d1 n v" if "(n, v) \<in> set (rights results)" for n v
  proof -
    from that have "Inr (n, v) \<in> set results" by (auto simp: rights_def split: sum.splits)
    with assms show ?thesis by fastforce
  qed
  then show ?thesis by blast
qed

lemma triple_consolidate_names:
  assumes ok: "env_ok env" and rdy: "ready env K d1"
  shows "triple ((=) d1) (consolidate_names env names) (\<lambda>r. safe_disk env K) (safe_disk env K)"
proof -
  have safe: "safe_disk env K d1" using rdy by (simp add: ready_def)
  have last: "triple (\<lambda>d. d1 = d \<and> (\<forall>y\<in>set results. \<exists>x\<in>set ns. case y of Inr (n, v) \<Rightarrow> n = x \<and> reads env d1 n v | Inl _ \<Rightarrow> True))
      (consolidate_sources env key (rights results) (lefts results)) (\<lambda>r. safe_disk env K) (safe_disk env K)" for results ns key
  proof (cases "\<forall>y\<in>set results. \<exists>x\<in>set ns. case y of Inr (n, v) \<Rightarrow> n = x \<and> reads env d1 n v | Inl _ \<Rightarrow> True")
    case True
    from triple_consolidate_sources [OF ok rdy rights_reads [OF True]] show ?thesis by (rule triple_pre) simp
  next
    case False
    then show ?thesis unfolding triple_def by blast
  qed
  have cand: "triple ((=) d1) (io_bind (io_collect (verify_candidate env) ns) (\<lambda>results.
      consolidate_sources env key (rights results) (lefts results))) (\<lambda>r. safe_disk env K) (safe_disk env K)" for ns key
    by (rule triple_seq [OF triple_collect [OF triple_verify_candidate] last [of _ ns]]) (use safe in auto)
  have stats: "triple ((=) d1) (io_collect (stat_pack env) names) (\<lambda>r. (=) d1) (safe_disk env K)"
    by (rule triple_weaken [OF triple_collect_errors [where E = "\<lambda>_. True"]]) (auto intro: triple_weaken [OF triple_stat_pack])
  have "triple ((=) d1) (io_bind (io_collect (stat_pack env) names) (\<lambda>packs.
      io_bind (io_collect (verify_candidate env) (map fst (selectConsolidationSources env packs))) (\<lambda>results.
        consolidate_sources env key (rights results) (lefts results)))) (\<lambda>r. safe_disk env K) (safe_disk env K)" for key
    by (rule triple_seq [OF stats cand]) (use safe in auto)
  then have "triple ((=) d1) (if settled = Some key then io_return (Skipped ''settled'' []) else
      io_bind (io_collect (stat_pack env) names) (\<lambda>packs.
        io_bind (io_collect (verify_candidate env) (map fst (selectConsolidationSources env packs))) (\<lambda>results.
          consolidate_sources env key (rights results) (lefts results)))) (\<lambda>r. safe_disk env K) (safe_disk env K)" for settled key
    using safe by (auto intro: triple_return)
  from triple_seq [OF triple_get [of "(=) d1"] this] safe show ?thesis
    unfolding consolidate_names_def Let_def by (auto intro: triple_return)
qed

lemma triple_consolidate:
  assumes ok: "env_ok env" and safe: "safe_disk env K d0" and dig: "digest_consistent env d0"
  shows "triple ((=) d0) (consolidate env) (\<lambda>r. safe_disk env K) (safe_disk env K)"
proof -
  have names: "triple (ready env K) (consolidate_names env ns) (\<lambda>r. safe_disk env K) (safe_disk env K)" for ns
    using triple_consolidate_names [OF ok] unfolding triple_def by blast
  have read: "triple (ready env K) (io_bind (readdir (packDir env)) (\<lambda>ns. io_return (Some ns))) (\<lambda>r. ready env K) (safe_disk env K)"
    unfolding readdir_def by (rule triple_bind [OF triple_read]) (auto intro: triple_return)
  have listing: "triple (ready env K) (io_catch (io_bind (readdir (packDir env)) (\<lambda>ns. io_return (Some ns)))
         (\<lambda>e. if isNotFound e then io_return None else io_throw e)) (\<lambda>r. ready env K) (safe_disk env K)"
    by (rule triple_catch [OF read]) (auto intro: triple_return triple_throw)
  have rest: "triple (ready env K) (io_bind (io_catch (io_bind (readdir (packDir env)) (\<lambda>ns. io_return (Some ns)))
         (\<lambda>e. if isNotFound e then io_return None else io_throw e)) (\<lambda>listed.
       case listed of None \<Rightarrow> io_return (Skipped ''no_packs'' [])
       | Some ns \<Rightarrow> consolidate_names env (sort (indexed_names ns)))) (\<lambda>r. safe_disk env K) (safe_disk env K)"
    by (rule triple_bind [OF listing]) (auto intro: triple_return names split: option.splits simp: ready_def)
  show ?thesis unfolding consolidate_def
    by (rule triple_seq [OF triple_recover [OF ok safe] rest]) (use shrunk_digest [OF _ dig] in \<open>auto simp: ready_def\<close>)
qed

section \<open>Properties\<close>

text \<open>The disks an operation goes through, the last one included.\<close>

definition visited :: "'a io \<Rightarrow> world \<Rightarrow> disk set" where
  "visited m w = set (take (length (log (snd (m w))) - length (log w)) (log (snd (m w)))) \<union> {disk (snd (m w))}"

lemma triple_visited:
  assumes "triple P m Q C" and "P (disk w)" and "\<And>r d. Q r d \<Longrightarrow> C d"
  shows "\<forall>d\<in>visited m w. C d" "Q (fst (m w)) (disk (snd (m w)))"
proof -
  from assms(1,2) obtain new where m: "Q (fst (m w)) (disk (snd (m w)))" "log (snd (m w)) = new @ log w" "\<forall>d\<in>set new. C d"
    unfolding triple_def by blast
  then show "\<forall>d\<in>visited m w. C d" "Q (fst (m w)) (disk (snd (m w)))" using assms(3) by (auto simp: visited_def)
qed


definition demo_env :: pack_env where
  "demo_env = \<lparr>sha1_fn = demo_sha1, packDir = ''g/objects/pack'', journalPath = ''g/obts-pack-consolidation.json'',
     triggerPackCount = 1, maxPackBytes = 8388608, maxSources = 256, factor = 2, suffix = (\<lambda>_. ''0''), localeCompare = (\<lambda>_ _. 0)\<rparr>"

definition demo_files :: "(string \<times> fdata) list" where
  "demo_files =
     [(''g/objects/pack/a.pack'', Raw (fst (demo_file 1 demo_blob 2 demo_delta))), (''g/objects/pack/a.idx'', Raw (snd (demo_file 1 demo_blob 2 demo_delta))),
      (''g/objects/pack/b.pack'', Raw (fst (demo_file 1 demo_blob 3 demo_blob))), (''g/objects/pack/b.idx'', Raw (snd (demo_file 1 demo_blob 3 demo_blob)))]"

definition demo_world :: "fault list \<Rightarrow> world" where
  "demo_world fs = \<lparr>disk = \<lparr>files = demo_files, dirs = [''g'', ''g/objects/pack'']\<rparr>, faults = fs, clock = 0, log = [], events = [],
     settledPackSet = None, scannedForOrphans = False\<rparr>"

lemma demo_env_ok: "env_ok demo_env"
  by (simp add: env_ok_def demo_env_def js_startsWith_def demo_sha1_def)

lemma demo_pack_names: "pack_at demo_env (disk (demo_world fs)) n \<noteq> None \<Longrightarrow> n = ''a'' \<or> n = ''b''"
  by (auto simp: pack_at_def demo_env_def demo_world_def demo_files_def packPath_def idxPath_def path_join_def split: if_splits)

lemma demo_store_ok:
  "journal_ok demo_env (disk (demo_world fs))" "names_proper demo_env (disk (demo_world fs))"
  "digest_consistent demo_env (disk (demo_world fs))"
proof -
  show "journal_ok demo_env (disk (demo_world fs))"
    by (simp add: journal_ok_def demo_env_def demo_world_def demo_files_def)
  have "\<not> temporary_file (n @ ''.idx'') \<and> \<not> temporary_file (n @ ''.pack'')" if "n = ''a'' \<or> n = ''b''" for n
    using that by (auto simp: temporary_file_def js_startsWith_def CONSOLIDATED_PREFIX_def)
  then show "names_proper demo_env (disk (demo_world fs))"
    unfolding names_proper_def using demo_pack_names by blast
  have "pack_at demo_env (disk (demo_world fs)) (c_name c) = None" if "buildConsolidatedPack s vs = Inr c" for s vs c
  proof -
    from that have "length (c_name c) > 1" by (auto simp: buildConsolidatedPack_def Let_def rbind_Inr_iff)
    then have "c_name c \<noteq> ''a''" "c_name c \<noteq> ''b''" by auto
    then show ?thesis using demo_pack_names by blast
  qed
  then show "digest_consistent demo_env (disk (demo_world fs))" by (auto simp: digest_consistent_def)
qed

text \<open>C1. A consolidation run never loses an object: whatever calls fail, whichever write is torn and
  wherever the process dies, every disk the run goes through still has every object id that a readable
  pack held at the start in a readable pack, and a journal on it names a pack that is published or
  sources that are all still there. The digests are assumed not to collide on the stored packs.\<close>

theorem consolidation_crash_safe:
  assumes "env_ok env" and "journal_ok env (disk w)" and "names_proper env (disk w)" and "digest_consistent env (disk w)"
  shows "visited (consolidate env) w \<subseteq> {d. held env (disk w) \<subseteq> held env d \<and> journal_ok env d \<and> names_proper env d}"
proof -
  have "safe_disk env (held env (disk w)) (disk w)" using assms by (simp add: safe_disk_def)
  from triple_visited(1) [OF triple_consolidate [OF assms(1) this assms(4)], of w] show ?thesis
    by (auto simp: safe_disk_def)
qed

theorem consolidation_crash_safe_witness:
  "visited (consolidate demo_env) (demo_world [Fine, Fine, Torn 3]) \<subseteq>
     {d. held demo_env (disk (demo_world [Fine, Fine, Torn 3])) \<subseteq> held demo_env d \<and> journal_ok demo_env d \<and> names_proper demo_env d}"
  using consolidation_crash_safe [OF demo_env_ok demo_store_ok] .

end
