(* ===== verification/PackRecovery.thy ===== *)
theory PackRecovery
  imports PackCrash
begin

text \<open>
  Recovery completes: it fails only when a call of the file system failed, and when it returns the journal is acted upon and gone.
  The first part is a logic of blame over the operations of \<open>Disk\<close>: an operation that ends with a failure of the file system has consumed
  a fault of the environment. The second part follows what the journal asks for through the recovery.
\<close>

named_theorems blame \<open>operations that fail with \<open>IoFailure\<close> only after a fault\<close>

section \<open>Blame\<close>

definition consumes :: "'a io \<Rightarrow> bool" where
  "consumes m \<longleftrightarrow> (\<forall>w. \<exists>used. faults w = used @ faults (snd (m w)))"

definition blames :: "'a io \<Rightarrow> bool" where
  "blames m \<longleftrightarrow> (\<forall>w. \<exists>used. faults w = used @ faults (snd (m w)) \<and> (fst (m w) = Inl IoFailure \<longrightarrow> (\<exists>f \<in> set used. f \<noteq> Fine)))"

lemma blames_consumes: "blames m \<Longrightarrow> consumes m"
  unfolding blames_def consumes_def by meson

lemma blames_quiet:
  assumes "\<And>w. faults (snd (m w)) = faults w" and "\<And>w. fst (m w) \<noteq> Inl IoFailure"
  shows "blames m"
  using assms by (simp add: blames_def)

lemma blames_simple [blame]: "blames (io_return x)" "blames (io_event ev)" "blames (io_get f)" "blames io_scanned"
  by (auto intro!: blames_quiet simp: io_return_def io_event_def io_get_def io_scanned_def)

lemma blames_throw: "e \<noteq> IoFailure \<Longrightarrow> blames (io_throw e)"
  by (auto intro!: blames_quiet simp: io_throw_def)

lemma consumes_throw: "consumes (io_throw e)"
  by (simp add: consumes_def io_throw_def)

lemma blames_bind [blame]:
  assumes "blames m" and "\<And>x. blames (f x)"
  shows "blames (io_bind m f)"
  unfolding blames_def
proof
  fix w
  obtain u where u: "faults w = u @ faults (snd (m w))" "fst (m w) = Inl IoFailure \<longrightarrow> (\<exists>f \<in> set u. f \<noteq> Fine)"
    using assms(1) unfolding blames_def by blast
  show "\<exists>used. faults w = used @ faults (snd (io_bind m f w)) \<and> (fst (io_bind m f w) = Inl IoFailure \<longrightarrow> (\<exists>f \<in> set used. f \<noteq> Fine))"
  proof (cases "fst (m w)")
    case (Inl e)
    then show ?thesis using u by (intro exI [of _ u]) (auto simp: io_bind_def split: prod.splits)
  next
    case (Inr x)
    obtain v where "faults (snd (m w)) = v @ faults (snd (f x (snd (m w))))" "fst (f x (snd (m w))) = Inl IoFailure \<longrightarrow> (\<exists>f \<in> set v. f \<noteq> Fine)"
      using assms(2) [of x] unfolding blames_def by blast
    then show ?thesis using u Inr by (intro exI [of _ "u @ v"]) (auto simp: io_bind_def split: prod.splits)
  qed
qed

lemma blames_catch:
  assumes "blames m" and "\<And>e. consumes (h e)" and "\<And>e. e \<noteq> IoFailure \<Longrightarrow> blames (h e)"
  shows "blames (io_catch m h)"
  unfolding blames_def
proof
  fix w
  obtain u where u: "faults w = u @ faults (snd (m w))" "fst (m w) = Inl IoFailure \<longrightarrow> (\<exists>f \<in> set u. f \<noteq> Fine)"
    using assms(1) unfolding blames_def by blast
  show "\<exists>used. faults w = used @ faults (snd (io_catch m h w)) \<and> (fst (io_catch m h w) = Inl IoFailure \<longrightarrow> (\<exists>f \<in> set used. f \<noteq> Fine))"
  proof (cases "fst (m w)")
    case (Inr x)
    then show ?thesis using u by (intro exI [of _ u]) (auto simp: io_catch_def split: prod.splits)
  next
    case (Inl e)
    obtain v where "faults (snd (m w)) = v @ faults (snd (h e (snd (m w))))"
      "e \<noteq> IoFailure \<longrightarrow> fst (h e (snd (m w))) = Inl IoFailure \<longrightarrow> (\<exists>f \<in> set v. f \<noteq> Fine)"
      using assms(2,3) [of e] unfolding blames_def consumes_def by (cases "e = IoFailure") blast+
    then show ?thesis using u Inl by (intro exI [of _ "u @ v"]) (auto simp: io_catch_def split: prod.splits)
  qed
qed

text \<open>The handlers of the code give a value for one kind of error and throw every other error again.\<close>

lemma blames_catch_kind [blame]: "blames m \<Longrightarrow> blames (io_catch m (\<lambda>e. if k e then io_return x else io_throw e))"
  by (rule blames_catch) (auto intro: blames_consumes blames_simple blames_throw consumes_throw)

lemma next_fault_used: "next_fault w = (fl, w') \<Longrightarrow> \<exists>used. faults w = used @ faults w' \<and> (fl \<noteq> Fine \<longrightarrow> fl \<in> set used)"
  by (rule exI [of _ "take 1 (faults w)"]) (cases "faults w"; auto simp: next_fault_def)

lemma blames_read:
  assumes "\<And>d. f d \<noteq> Inl IoFailure"
  shows "blames (io_read f)"
  unfolding blames_def
proof
  fix w
  obtain fl w' where n: "next_fault w = (fl, w')" by fastforce
  from next_fault_used [OF n] assms show "\<exists>used. faults w = used @ faults (snd (io_read f w)) \<and> (fst (io_read f w) = Inl IoFailure \<longrightarrow> (\<exists>f \<in> set used. f \<noteq> Fine))"
    by (auto simp: io_read_def n)
qed

lemma blames_calls [blame]: "blames (readFile p)" "blames (readdir p)" "blames (sync_path p)"
  by (auto intro!: blames_read simp: readFile_def readdir_def sync_path_def split: option.splits if_splits)

lemma blames_unlink [blame]: "blames (unlink p)"
  unfolding blames_def
proof
  fix w
  obtain fl w' where n: "next_fault w = (fl, w')" by fastforce
  from next_fault_used [OF n] show "\<exists>used. faults w = used @ faults (snd (unlink p w)) \<and> (fst (unlink p w) = Inl IoFailure \<longrightarrow> (\<exists>f \<in> set used. f \<noteq> Fine))"
    by (auto simp: unlink_def n commit_def)
qed

lemma blames_finally [blame]: "blames m \<Longrightarrow> blames (io_finally m ev)"
  unfolding blames_def io_finally_def by (simp add: case_prod_beta)

lemma blames_each [blame]: "(\<And>x. blames (f x)) \<Longrightarrow> blames (io_each f xs)"
  by (induction xs) (auto intro: blame)

lemma blames_collect [blame]: "(\<And>x. blames (f x)) \<Longrightarrow> blames (io_collect f xs)"
  by (induction xs) (auto intro: blame)

lemma blames_lift_pack [blame]: "blames (lift_pack r)"
  by (cases r) (auto intro: blame blames_throw)

section \<open>Recovery blames the file system\<close>

lemma blames_helpers [blame]:
  "blames (readOptional p)" "blames (removeIfPresent p)" "blames (remove_ignoring p)" "blames (readdir_or_empty p)"
  unfolding remove_ignoring_def readOptional_def removeIfPresent_def readdir_or_empty_def by (intro blame)+

lemma blames_publishedOids [blame]: "blames (publishedOids env name)"
  unfolding publishedOids_def by (intro blame) (auto intro!: blame split: option.splits)

lemma blames_allSourcesPresent [blame]: "blames (allSourcesPresent env ss)"
  by (induction ss) (auto intro!: blame)

lemma blames_removeSources [blame]: "blames (removeSources env sources pub)"
proof -
  have p: "blames (remove_pack env s)" for s unfolding remove_pack_def by (intro blame)
  have "blames (index_contained env pub f)" for pub f unfolding index_contained_def by (intro blame)
  then have "blames (remove_source env pub s)" for s
    unfolding remove_source_def by (auto intro!: blame p split: option.splits)
  then show ?thesis unfolding removeSources_def by (auto intro!: blame)
qed

lemma blames_recover: "blames (recover env)"
proof -
  have "blames (recover_journal env name sources)" for name sources
    unfolding recover_journal_def by (intro blame) (auto intro!: blame blames_throw split: option.splits)
  then have "blames (case j of Some (Journal name sources) \<Rightarrow> recover_journal env name sources | _ \<Rightarrow> io_return ())" for j
    by (auto intro: blame split: option.splits journal.splits)
  moreover have "blames (remove_journal_temporaries env)" "blames (remove_orphans env)"
    unfolding remove_journal_temporaries_def remove_orphans_def Let_def by (auto intro!: blame)
  ultimately show ?thesis unfolding recover_def readJournal_def by (auto intro!: blame)
qed

section \<open>What the journal asks for\<close>

definition pack_gone :: "pack_env \<Rightarrow> disk \<Rightarrow> string \<Rightarrow> bool" where
  "pack_gone env d n \<longleftrightarrow> file_at d (idxPath env n) = None \<and> file_at d (packPath env n) = None"

text \<open>A source that the published pack replaces: its index lists only objects of that pack, or it has no index any more.\<close>

definition replaced :: "pack_env \<Rightarrow> buffer set \<Rightarrow> disk \<Rightarrow> string \<Rightarrow> bool" where
  "replaced env os d s \<longleftrightarrow> (case file_at d (idxPath env s) of None \<Rightarrow> True
     | Some f \<Rightarrow> \<exists>ix. parsePackIndex (sha1_fn env) (bytes_of f) = Inr ix \<and> set (map oid (entries ix)) \<subseteq> os)"

text \<open>A pack that was published has replaced its sources; of one that was not nothing is left.\<close>

definition journal_settled :: "pack_env \<Rightarrow> disk \<Rightarrow> string \<Rightarrow> string list \<Rightarrow> disk \<Rightarrow> bool" where
  "journal_settled env d0 name sources d \<longleftrightarrow> (case pack_at env d0 name of
     None \<Rightarrow> pack_gone env d name | Some os \<Rightarrow> \<forall>s \<in> set sources. replaced env (set os) d0 s \<longrightarrow> pack_gone env d s)"

lemma pack_gone_del: "pack_gone env d n \<Longrightarrow> pack_gone env (del_file p d) n"
  by (simp add: pack_gone_def)

lemma journal_settled_del: "journal_settled env d0 name sources d \<Longrightarrow> journal_settled env d0 name sources (del_file p d)"
  by (auto simp: journal_settled_def pack_gone_del split: option.splits)

abbreviation any :: "disk \<Rightarrow> bool" where
  "any \<equiv> \<lambda>_. True"

lemma not_isl: "\<not> isl r \<longleftrightarrow> (\<exists>x. r = Inr x)"
  by (cases r) auto

lemma triple_remove_both:
  assumes "\<And>d p. I d \<Longrightarrow> I (del_file p d)" and k: "\<And>J. triple J k (\<lambda>r. J) any"
  shows "triple I (io_bind (removeIfPresent (idxPath env n)) (\<lambda>_. io_bind (removeIfPresent (packPath env n)) (\<lambda>_. k)))
    (\<lambda>r d. I d \<and> (\<not> isl r \<longrightarrow> pack_gone env d n)) any"
proof (rule triple_bind [OF triple_removeIfPresent [where I = I and C = any]])
  let ?I = "\<lambda>d. I d \<and> file_at d (idxPath env n) = None"
  have "triple ?I (removeIfPresent (packPath env n)) (\<lambda>r d. I d \<and> (\<not> isl r \<longrightarrow> pack_gone env d n)) any"
    by (rule triple_weaken [OF triple_removeIfPresent [where I = ?I and C = any]]) (use assms(1) in \<open>auto simp: pack_gone_def not_isl\<close>)
  then have "triple ?I (io_bind (removeIfPresent (packPath env n)) (\<lambda>_. k)) (\<lambda>r d. I d \<and> (\<not> isl r \<longrightarrow> pack_gone env d n)) any"
    by (rule triple_seq [where P' = "\<lambda>_ d. I d \<and> pack_gone env d n"]) (auto intro: triple_weaken [OF k [of "\<lambda>d. I d \<and> pack_gone env d n"]])
  then show "triple (\<lambda>d. I d \<and> (\<forall>y. Inr x = Inr y \<longrightarrow> file_at d (idxPath env n) = None) \<and> (\<forall>e. Inr x = Inl e \<longrightarrow> e = IoFailure))
      (io_bind (removeIfPresent (packPath env n)) (\<lambda>_. k)) (\<lambda>r d. I d \<and> (\<not> isl r \<longrightarrow> pack_gone env d n)) any" for x :: bool
    by (rule triple_pre) simp
qed (use assms(1) in auto)

lemma triple_pack_gone:
  assumes "\<And>d p. I d \<Longrightarrow> I (del_file p d)"
  shows "triple I (remove_pack env n) (\<lambda>r d. I d \<and> (\<not> isl r \<longrightarrow> pack_gone env d n)) any"
  unfolding remove_pack_def
  by (rule triple_remove_both) (auto intro: assms triple_seq [OF triple_event] triple_return)

lemma triple_contained:
  "triple I (index_contained env pub f)
     (\<lambda>r d. I d \<and> (\<forall>b. r = Inr b \<longrightarrow> b = (\<exists>ix. parsePackIndex (sha1_fn env) (bytes_of f) = Inr ix \<and> set (map oid (entries ix)) \<subseteq> set pub))) C"
  by (cases "parsePackIndex (sha1_fn env) (bytes_of f)"; intro triple_pure)
    (auto simp: index_contained_def io_catch_def io_bind_def io_throw_def io_return_def list_all_iff)

lemma triple_source_settled:
  assumes I: "\<And>d p. I d \<Longrightarrow> I (del_file p d)" "\<And>d. I d \<Longrightarrow> shrunk d0 d"
  shows "triple I (remove_source env (Some pub) s) (\<lambda>r d. I d \<and> (\<not> isl r \<longrightarrow> replaced env (set pub) d0 s \<longrightarrow> pack_gone env d s)) any"
proof -
  let ?Q = "\<lambda>r d. I d \<and> (\<not> isl r \<longrightarrow> replaced env (set pub) d0 s \<longrightarrow> pack_gone env d s)"
  have rm: "triple I (remove_pack env s) ?Q any" by (rule triple_weaken [OF triple_pack_gone [of I]]) (use I(1) in auto)
  have some: "triple (\<lambda>d. I d \<and> file_at d (idxPath env s) = Some f)
      (io_bind (index_contained env pub f) (\<lambda>contained. if contained then remove_pack env s else io_return None)) ?Q any" for f
  proof (rule triple_bind [OF triple_contained])
    fix x
    show "triple (\<lambda>d. (I d \<and> file_at d (idxPath env s) = Some f) \<and>
        (\<forall>b. Inr x = Inr b \<longrightarrow> b = (\<exists>ix. parsePackIndex (sha1_fn env) (bytes_of f) = Inr ix \<and> set (map oid (entries ix)) \<subseteq> set pub)))
      (if x then remove_pack env s else io_return None) ?Q any"
    proof (cases x)
      case True
      then show ?thesis by (subst if_P) (simp, rule triple_pre [OF rm], simp)
    next
      case False
      have "\<not> replaced env (set pub) d0 s" if "I d" "file_at d (idxPath env s) = Some f"
          "\<not> (\<exists>ix. parsePackIndex (sha1_fn env) (bytes_of f) = Inr ix \<and> set (map oid (entries ix)) \<subseteq> set pub)" for d
        using that I(2) by (auto simp: replaced_def shrunk_def)
      then show ?thesis using False by (auto intro!: triple_return)
    qed
  qed auto
  show ?thesis unfolding remove_source_def option.case
  proof (rule triple_bind [OF triple_readOptional [of I]])
    fix i
    show "triple (\<lambda>d. I d \<and> (\<forall>x. Inr i = Inr x \<longrightarrow> file_at d (idxPath env s) = x) \<and> (\<forall>e. Inr i = Inl e \<longrightarrow> e = IoFailure))
      (case i of None \<Rightarrow> remove_pack env s
       | Some f \<Rightarrow> io_bind (index_contained env pub f) (\<lambda>contained. if contained then remove_pack env s else io_return None)) ?Q any"
      by (cases i) (auto intro: triple_pre [OF rm] triple_pre [OF some])
  qed auto
qed

lemma triple_sources_settled:
  assumes I: "\<And>d p. I d \<Longrightarrow> I (del_file p d)" "\<And>d. I d \<Longrightarrow> shrunk d0 d"
  shows "triple I (io_collect (remove_source env (Some pub)) ss)
    (\<lambda>r d. I d \<and> (\<not> isl r \<longrightarrow> (\<forall>s \<in> set ss. replaced env (set pub) d0 s \<longrightarrow> pack_gone env d s))) any"
  using I
proof (induction ss arbitrary: I)
  case (Cons s ss)
  let ?G = "\<lambda>s d. replaced env (set pub) d0 s \<longrightarrow> pack_gone env d s"
  let ?J = "\<lambda>d. I d \<and> ?G s d"
  have "triple ?J (io_collect (remove_source env (Some pub)) ss) (\<lambda>r d. ?J d \<and> (\<not> isl r \<longrightarrow> (\<forall>s \<in> set ss. ?G s d))) any"
    using Cons.prems by (intro Cons.IH) (auto intro: pack_gone_del)
  then have rest: "triple ?J (io_bind (io_collect (remove_source env (Some pub)) ss) (\<lambda>ys. io_return (case y of None \<Rightarrow> ys | Some b \<Rightarrow> b # ys)))
      (\<lambda>r d. I d \<and> (\<not> isl r \<longrightarrow> (\<forall>s \<in> set (s # ss). ?G s d))) any" for y
    by (rule triple_bind) (auto intro!: triple_return)
  show ?case unfolding io_collect.simps
    by (rule triple_seq [OF triple_source_settled rest]) (use Cons.prems in auto)
qed (auto intro: triple_return)

lemma triple_journal_settled:
  "triple ((=) d0) (recover_journal env name sources) (\<lambda>r d. \<not> isl r \<longrightarrow> journal_settled env d0 name sources d) any"
  unfolding recover_journal_def
proof (rule triple_bind [OF triple_published])
  let ?Q = "\<lambda>r d. \<not> isl r \<longrightarrow> journal_settled env d0 name sources d"
  fix x
  have some: "triple ((=) d0) (io_bind (removeSources env sources (Some pub)) (\<lambda>_. io_return ())) ?Q any"
    if p: "pack_at env d0 name = Some os" "set os = set pub" for pub os
  proof -
    let ?S = "\<lambda>d. \<forall>s \<in> set sources. replaced env (set pub) d0 s \<longrightarrow> pack_gone env d s"
    have fin: "?S d \<Longrightarrow> journal_settled env d0 name sources d" for d using p by (simp add: journal_settled_def)
    have loop: "triple (shrunk d0) (io_finally (io_collect (remove_source env (Some pub)) sources) EndPackChange) (\<lambda>r d. \<not> isl r \<longrightarrow> ?S d) any"
      by (rule triple_finally, rule triple_weaken [OF triple_sources_settled [of "shrunk d0"]]) auto
    have sync: "triple ?S (io_bind (if removed \<noteq> [] then sync_path (packDir env) else io_return ()) (\<lambda>_. io_return removed)) (\<lambda>r. ?S) any" for removed
      by (rule triple_bind [where R = "\<lambda>r. ?S"]) (auto intro: triple_return triple_weaken [OF triple_sync [of ?S]])
    have "triple (shrunk d0) (io_bind (io_finally (io_collect (remove_source env (Some pub)) sources) EndPackChange) (\<lambda>removed.
        io_bind (if removed \<noteq> [] then sync_path (packDir env) else io_return ()) (\<lambda>_. io_return removed))) (\<lambda>r d. \<not> isl r \<longrightarrow> ?S d) any"
      by (rule triple_seq [OF loop, where P' = "\<lambda>_. ?S"], rule triple_weaken [OF sync]) auto
    then have "triple (shrunk d0) (removeSources env sources (Some pub)) (\<lambda>r d. \<not> isl r \<longrightarrow> ?S d) any"
      unfolding removeSources_def by (intro triple_seq [OF triple_event [of "shrunk d0"], where P' = "\<lambda>_. shrunk d0"]) auto
    then have "triple ((=) d0) (removeSources env sources (Some pub)) (\<lambda>r d. \<not> isl r \<longrightarrow> ?S d) any" by (rule triple_pre) auto
    then show ?thesis by (rule triple_bind) (auto intro!: triple_return fin)
  qed
  have none: "triple ((=) d0) (io_bind (allSourcesPresent env sources) (\<lambda>present.
      if present then io_bind (removeIfPresent (idxPath env name)) (\<lambda>_. io_bind (removeIfPresent (packPath env name)) (\<lambda>_. io_return ()))
      else io_throw (Verification ''recovery_blocked''))) ?Q any" if p: "pack_at env d0 name = None"
  proof -
    have "triple any (io_bind (removeIfPresent (idxPath env name)) (\<lambda>_. io_bind (removeIfPresent (packPath env name)) (\<lambda>_. io_return ()))) ?Q any"
      by (rule triple_weaken [OF triple_remove_both [of any]]) (use p in \<open>auto intro: triple_return simp: journal_settled_def\<close>)
    then show ?thesis by (intro triple_seq [OF triple_allSourcesPresent, where P' = "\<lambda>_. any"]) (auto intro: triple_throw)
  qed
  show "triple (\<lambda>d. d = d0 \<and> published_result env d0 name (Inr x) \<and> only_io (Inr x :: io_error + buffer list option))
    (case x of Some pub \<Rightarrow> io_bind (removeSources env sources (Some pub)) (\<lambda>_. io_return ())
     | None \<Rightarrow> io_bind (allSourcesPresent env sources) (\<lambda>present.
            if present then io_bind (removeIfPresent (idxPath env name)) (\<lambda>_.
              io_bind (removeIfPresent (packPath env name)) (\<lambda>_. io_return ()))
            else io_throw (Verification ''recovery_blocked''))) ?Q any"
  proof (cases "published_result env d0 name (Inr x)")
    case True
    then show ?thesis
      by (cases x) (auto simp: published_result_def intro: triple_pre [OF some] triple_pre [OF none])
  qed (simp add: triple_def)
qed auto

lemma triple_removals:
  assumes "\<And>d p. I d \<Longrightarrow> I (del_file p d)"
  shows "triple I (remove_ignoring p) (\<lambda>r. I) any" "triple I (remove_journal_temporaries env) (\<lambda>r. I) any" "triple I (remove_orphans env) (\<lambda>r. I) any"
proof -
  show "triple I (remove_ignoring p) (\<lambda>r. I) any" by (rule triple_weaken [OF triple_remove_ignoring [where I = I and C = any]]) (use assms in auto)
  have each: "triple I (io_each (\<lambda>n. if sel n then remove_ignoring (path_join dir n) else io_return ()) ns) (\<lambda>r. I) any" for sel dir ns
    by (rule triple_weaken [OF triple_remove_each [where I = I and C = any]]) (use assms in auto)
  show "triple I (remove_journal_temporaries env) (\<lambda>r. I) any" unfolding remove_journal_temporaries_def Let_def
    by (rule triple_seq [OF triple_readdir_or_empty [of I] each]) auto
  show "triple I (remove_orphans env) (\<lambda>r. I) any" unfolding remove_orphans_def
    by (rule triple_seq [OF triple_readdir_or_empty [of I] each]) auto
qed

lemma triple_recover_settled:
  assumes j: "file_at d0 (journalPath env) = Some f" "parse_journal f = Journal name sources"
  shows "triple ((=) d0) (recover env) (\<lambda>r d. \<not> isl r \<longrightarrow> journal_settled env d0 name sources d) any"
proof -
  let ?I = "journal_settled env d0 name sources"
  note rm = triple_removals [of ?I, OF journal_settled_del]
  have sweep: "triple ?I (if b then io_return () else io_bind io_scanned (\<lambda>_. io_bind (remove_journal_temporaries env) (\<lambda>_. remove_orphans env))) (\<lambda>r. ?I) any" for b
    by (auto intro!: triple_return triple_seq [OF triple_scanned [of ?I] triple_seq [OF rm(2,3)]])
  have "triple ?I (io_bind (io_get scannedForOrphans) (\<lambda>scanned.
      if b \<and> scanned then io_return () else io_bind io_scanned (\<lambda>_. io_bind (remove_journal_temporaries env) (\<lambda>_. remove_orphans env)))) (\<lambda>r. ?I) any" for b
    by (rule triple_seq [OF triple_get [of ?I] sweep]) auto
  then have tail: "triple ?I (io_bind (if k \<noteq> None then remove_ignoring (journalPath env) else io_return ()) (\<lambda>_.
      io_bind (io_get scannedForOrphans) (\<lambda>scanned. if k = None \<and> scanned then io_return ()
        else io_bind io_scanned (\<lambda>_. io_bind (remove_journal_temporaries env) (\<lambda>_. remove_orphans env))))) (\<lambda>r. ?I) any" for k :: "journal option"
    by (rule triple_seq [where R = "\<lambda>r. ?I" and P' = "\<lambda>_. ?I", rotated]) (auto intro: triple_return rm(1))
  have act: "triple (\<lambda>d. d = d0 \<and> k = Some (Journal name sources))
      (case k of Some (Journal name sources) \<Rightarrow> recover_journal env name sources | _ \<Rightarrow> io_return ()) (\<lambda>r d. \<not> isl r \<longrightarrow> ?I d) any" for k
  proof (cases "k = Some (Journal name sources)")
    case True
    show ?thesis unfolding True option.case journal.case by (rule triple_pre [OF triple_journal_settled]) simp
  qed (simp add: triple_def)
  have read: "triple ((=) d0) (readJournal env) (\<lambda>r d. d = d0 \<and> (\<forall>k. r = Inr k \<longrightarrow> k = Some (Journal name sources))) any"
    unfolding readJournal_def by (rule triple_bind [OF triple_readOptional]) (use j in \<open>auto intro!: triple_return\<close>)
  have "triple (\<lambda>d. d = d0 \<and> k = Some (Journal name sources)) (io_bind (case k of Some (Journal name sources) \<Rightarrow> recover_journal env name sources | _ \<Rightarrow> io_return ()) (\<lambda>_.
      io_bind (if k \<noteq> None then remove_ignoring (journalPath env) else io_return ()) (\<lambda>_.
        io_bind (io_get scannedForOrphans) (\<lambda>scanned. if k = None \<and> scanned then io_return ()
          else io_bind io_scanned (\<lambda>_. io_bind (remove_journal_temporaries env) (\<lambda>_. remove_orphans env))))))
      (\<lambda>r d. \<not> isl r \<longrightarrow> ?I d) any" for k
    by (rule triple_seq [OF act, where P' = "\<lambda>_. ?I"], rule triple_weaken [OF tail]) auto
  then show ?thesis unfolding recover_def by (rule triple_seq [OF read]) auto
qed

section \<open>Properties\<close>

text \<open>C21. Recovery finishes what a crash left. From a disk as \<open>consolidation_crash_safe\<close> leaves it no object is lost on the way; recovery fails only with the
  failure of a file system call that the environment made fail during this run, so it is never blocked and without faults it returns; and when it returns
  the journal is gone and was acted upon: if the pack it names was published, every source that this pack replaces is gone, and if not, nothing of the pack is
  left.\<close>

theorem recovery_completes:
  assumes "env_ok env" and "journal_ok env (disk w)" and "names_proper env (disk w)"
  shows "visited (recover env) w \<subseteq> {d. held env (disk w) \<subseteq> held env d \<and> journal_ok env d \<and> names_proper env d} \<and>
    (case fst (recover env w) of
       Inl e \<Rightarrow> e = IoFailure \<and> (\<exists>used. faults w = used @ faults (snd (recover env w)) \<and> (\<exists>f \<in> set used. f \<noteq> Fine))
     | Inr _ \<Rightarrow> file_at (disk (snd (recover env w))) (journalPath env) = None \<and>
         (\<forall>f name sources. file_at (disk w) (journalPath env) = Some f \<and> parse_journal f = Journal name sources \<longrightarrow>
            journal_settled env (disk w) name sources (disk (snd (recover env w)))))"
proof -
  have "safe_disk env (held env (disk w)) (disk w)" using assms by (simp add: safe_disk_def)
  note t = triple_visited [OF triple_recover [OF assms(1) this], of w]
  have "journal_settled env (disk w) name sources (disk (snd (recover env w)))"
    if "file_at (disk w) (journalPath env) = Some f" "parse_journal f = Journal name sources" "fst (recover env w) = Inr x" for f name sources x
    using triple_recover_settled [OF that(1,2)] that(3) by (simp add: triple_def)
  moreover have "\<exists>used. faults w = used @ faults (snd (recover env w)) \<and> (\<exists>f \<in> set used. f \<noteq> Fine)" if "fst (recover env w) = Inl IoFailure"
    using blames_recover [of env] that unfolding blames_def by metis
  ultimately show ?thesis using t by (cases "fst (recover env w)") (auto simp: safe_disk_def only_io_def)
qed

text \<open>A crash after the journal and a part of the new pack were written: recovery returns, and the journal and the part are gone.\<close>

definition crashed_world :: world where
  "crashed_world = (demo_world [])\<lparr>disk := \<lparr>files = (''g/obts-pack-consolidation.json'', journal_file ''obts-pack-x'' [''a'', ''b'']) #
     (''g/objects/pack/obts-pack-x.pack'', Raw [1]) # demo_files, dirs = [''g'', ''g/objects/pack'']\<rparr>\<rparr>"

lemma crashed_pack_names: "pack_at demo_env (disk crashed_world) n \<noteq> None \<Longrightarrow> n = ''a'' \<or> n = ''b''"
  by (auto simp: pack_at_def demo_env_def crashed_world_def demo_files_def packPath_def idxPath_def path_join_def split: if_splits)

lemma crashed_journal: "file_at (disk crashed_world) (journalPath demo_env) = Some (journal_file ''obts-pack-x'' [''a'', ''b''])"
  "parse_journal (journal_file ''obts-pack-x'' [''a'', ''b'']) = Journal ''obts-pack-x'' [''a'', ''b'']"
  by (simp add: crashed_world_def demo_env_def) code_simp

lemma crashed_ok: "journal_ok demo_env (disk crashed_world)" "names_proper demo_env (disk crashed_world)"
proof -
  have "pack_present demo_env (disk crashed_world) ''a''" "pack_present demo_env (disk crashed_world) ''b''"
    by (simp_all add: pack_present_def demo_env_def crashed_world_def demo_files_def packPath_def idxPath_def path_join_def)
  then show "journal_ok demo_env (disk crashed_world)" using crashed_journal by (auto simp: journal_ok_def)
  have "\<not> temporary_file (n @ ''.idx'') \<and> \<not> temporary_file (n @ ''.pack'')" if "n = ''a'' \<or> n = ''b''" for n
    using that by (auto simp: temporary_file_def js_startsWith_def CONSOLIDATED_PREFIX_def)
  then show "names_proper demo_env (disk crashed_world)" unfolding names_proper_def using crashed_pack_names by blast
qed

theorem recovery_completes_witness:
  "fst (recover demo_env crashed_world) = Inr () \<and> file_at (disk (snd (recover demo_env crashed_world))) (journalPath demo_env) = None \<and>
   pack_gone demo_env (disk (snd (recover demo_env crashed_world))) ''obts-pack-x''"
proof -
  have "pack_at demo_env (disk crashed_world) ''obts-pack-x'' = None" using crashed_pack_names [of "''obts-pack-x''"] by (cases "pack_at demo_env (disk crashed_world) ''obts-pack-x''") auto
  moreover have "faults crashed_world = []" by (simp add: crashed_world_def demo_world_def)
  ultimately show ?thesis using recovery_completes [OF demo_env_ok crashed_ok] crashed_journal
    by (cases "fst (recover demo_env crashed_world)") (auto simp: journal_settled_def)
qed

end
