(* ===== verification/GitObjectCache.thy ===== *)
theory GitObjectCache
  imports Prelude "HOL-Library.Extended_Nat"
begin

text \<open>
  \<^verbatim>\<open>obsidian-plugin/src/git-object-cache.cjs\<close>: the memo of parsed objects (\<open>createImmutableObjectMemo\<close>),
  the pack-change counter (\<open>beginPackChange\<close>), the retry loop of \<open>run\<close>, and the maintenance that trims
  the loaded packs of an epoch to a byte budget.

  Indexes, packs and cache entries are objects compared by identity, so they are named by numbers; the
  contents of the index objects are in a heap. What an awaited promise gives is an argument, and so is
  what other tasks do to the shared state during an \<open>await\<close>.
\<close>

section \<open>The memo\<close>

record 'v memo =
  m_values :: "(string \<times> 'v \<times> nat) list"
  m_weight :: nat
  m_hits :: nat
  m_misses :: nat

definition memo_max :: "int option \<Rightarrow> nat" where
  "memo_max maxWeight = (case maxWeight of None \<Rightarrow> 0 | Some i \<Rightarrow> nat (max 0 i))"

definition createImmutableObjectMemo :: "'v memo" where
  "createImmutableObjectMemo = \<lparr>m_values = [], m_weight = 0, m_hits = 0, m_misses = 0\<rparr>"

text \<open>A \<open>Map\<close> iterates in insertion order: \<open>set\<close> on a present key keeps its place, \<open>delete\<close> then
  \<open>set\<close> moves it to the end.\<close>

fun map_set :: "'k \<Rightarrow> 'v \<Rightarrow> ('k \<times> 'v) list \<Rightarrow> ('k \<times> 'v) list" where
  "map_set k v [] = [(k, v)]"
| "map_set k v ((k', v') # kvs) = (if k = k' then (k, v) # kvs else (k', v') # map_set k v kvs)"

definition map_delete :: "'k \<Rightarrow> ('k \<times> 'v) list \<Rightarrow> ('k \<times> 'v) list" where
  "map_delete k kvs = filter (\<lambda>(k', _). k' \<noteq> k) kvs"

fun evict_loop :: "nat \<Rightarrow> (string \<times> 'v \<times> nat) list \<Rightarrow> nat \<Rightarrow> (string \<times> 'v \<times> nat) list \<times> nat" where
  "evict_loop maxWeight [] weight = ([], weight)"
| "evict_loop maxWeight ((k, v, w) # kvs) weight =
     (if weight \<le> maxWeight then ((k, v, w) # kvs, weight) else evict_loop maxWeight kvs (weight - w))"

definition evict :: "nat \<Rightarrow> 'v memo \<Rightarrow> 'v memo" where
  "evict maxWeight m = (case evict_loop maxWeight (m_values m) (m_weight m) of (kvs, w) \<Rightarrow> m\<lparr>m_values := kvs, m_weight := w\<rparr>)"

text \<open>\<open>get\<close> up to its \<open>await\<close>: a hit returns at once.\<close>

definition memo_lookup :: "string \<Rightarrow> 'v memo \<Rightarrow> 'v option \<times> 'v memo" where
  "memo_lookup key m =
     (case map_of (m_values m) key of
        Some (v, w) \<Rightarrow> (Some v, m\<lparr>m_hits := Suc (m_hits m), m_values := map_set key (v, w) (map_delete key (m_values m))\<rparr>)
      | None \<Rightarrow> (None, m\<lparr>m_misses := Suc (m_misses m)\<rparr>))"

text \<open>\<open>get\<close> after the value is loaded; other calls may have run in between.\<close>

definition memo_insert :: "nat \<Rightarrow> ('v \<Rightarrow> nat) \<Rightarrow> string \<Rightarrow> 'v \<Rightarrow> 'v memo \<Rightarrow> 'v memo" where
  "memo_insert maxWeight weigh key value m =
     (let entryWeight = max 1 (weigh value)
      in if entryWeight > maxWeight then m
         else let base = (case map_of (m_values m) key of Some (v, w) \<Rightarrow> m_weight m - w | None \<Rightarrow> m_weight m)
              in evict maxWeight (m\<lparr>m_values := map_set key (value, entryWeight) (m_values m), m_weight := base + entryWeight\<rparr>))"

definition memo_clear :: "'v memo \<Rightarrow> 'v memo" where
  "memo_clear m = m\<lparr>m_values := [], m_weight := 0\<rparr>"

definition memo_stats :: "'v memo \<Rightarrow> nat \<times> nat \<times> nat \<times> nat" where
  "memo_stats m = (length (m_values m), m_weight m, m_hits m, m_misses m)"

text \<open>Any interleaving of the two halves of \<open>get\<close> and \<open>clear\<close>; \<open>load\<close> is what the object store gives
  for a key, the same at every time because objects are immutable.\<close>

inductive memo_reachable :: "nat \<Rightarrow> ('v \<Rightarrow> nat) \<Rightarrow> (string \<Rightarrow> 'v) \<Rightarrow> 'v memo \<Rightarrow> bool"
  for maxWeight :: nat and weigh :: "'v \<Rightarrow> nat" and load :: "string \<Rightarrow> 'v" where
  memo_start: "memo_reachable maxWeight weigh load createImmutableObjectMemo"
| memo_get: "memo_reachable maxWeight weigh load m \<Longrightarrow> memo_reachable maxWeight weigh load (snd (memo_lookup key m))"
| memo_loaded: "memo_reachable maxWeight weigh load m \<Longrightarrow> memo_reachable maxWeight weigh load (memo_insert maxWeight weigh key (load key) m)"
| memo_cleared: "memo_reachable maxWeight weigh load m \<Longrightarrow> memo_reachable maxWeight weigh load (memo_clear m)"

section \<open>Pack changes\<close>

record pack_changes =
  depth :: nat
  generation :: nat
  idle :: bool
  openChanges :: "nat set"
  nextChange :: nat

definition no_changes :: pack_changes where
  "no_changes = \<lparr>depth = 0, generation = 0, idle = True, openChanges = {}, nextChange = 0\<rparr>"

text \<open>The returned function is named by a number; \<open>openChanges\<close> are those whose \<open>ended\<close> is still false.
  \<open>idle\<close> tells whether the promise \<open>packChanges.idle\<close> is resolved.\<close>

definition beginPackChange :: "pack_changes \<Rightarrow> nat \<times> pack_changes" where
  "beginPackChange pc =
     (nextChange pc,
      pc\<lparr>idle := (if depth pc = 0 then False else idle pc), depth := Suc (depth pc), generation := Suc (generation pc),
         openChanges := insert (nextChange pc) (openChanges pc), nextChange := Suc (nextChange pc)\<rparr>)"

text \<open>The second component tells whether the epoch is rotated.\<close>

definition endPackChange :: "nat \<Rightarrow> pack_changes \<Rightarrow> pack_changes \<times> bool" where
  "endPackChange c pc =
     (if c \<notin> openChanges pc then (pc, False)
      else let pc' = pc\<lparr>openChanges := openChanges pc - {c}, depth := depth pc - 1, generation := Suc (generation pc)\<rparr>
           in if depth pc' > 0 then (pc', False) else (pc'\<lparr>idle := True\<rparr>, True))"

inductive change_step :: "pack_changes \<Rightarrow> pack_changes \<Rightarrow> bool" where
  change_begin: "change_step pc (snd (beginPackChange pc))"
| change_end: "c \<in> openChanges pc \<Longrightarrow> change_step pc (fst (endPackChange c pc))"

section \<open>The retry loop of run\<close>

definition PACK_CHANGE_RETRIES :: nat where
  "PACK_CHANGE_RETRIES = 2"

datatype ('e, 'r) attempt = Returned 'r | Failed 'e

text \<open>One attempt: its outcome, and the pack changes when it started and when it failed.\<close>

type_synonym ('e, 'r) trial = "('e, 'r) attempt \<times> pack_changes \<times> pack_changes"

definition overlapped :: "pack_changes \<Rightarrow> pack_changes \<Rightarrow> bool" where
  "overlapped before after \<longleftrightarrow> depth after > 0 \<or> generation after \<noteq> generation before"

text \<open>The loop on the attempts the environment gives; \<open>None\<close> when they run out. The result is what the
  call returns or throws and the number of attempts it made.\<close>

fun run_loop :: "bool \<Rightarrow> nat \<Rightarrow> ('e, 'r) trial list \<Rightarrow> (('e + 'r) \<times> nat) option" where
  "run_loop write attempt [] = None"
| "run_loop write attempt ((Returned r, before, after) # ts) = Some (Inr r, Suc attempt)"
| "run_loop write attempt ((Failed e, before, after) # ts) =
     (if \<not> overlapped before after \<or> attempt \<ge> PACK_CHANGE_RETRIES \<or> write then Some (Inl e, Suc attempt)
      else run_loop write (Suc attempt) ts)"

section \<open>Epochs and maintenance\<close>

record index_object =
  i_pack :: "nat option"
  i_checksumVerified :: bool
  i_offsetCache :: nat

record epoch =
  packMap :: "(string \<times> nat) list option"
  otherSymbols :: bool
  inFlight :: nat
  known :: "(string \<times> nat \<times> nat) list"
  retained :: "nat list"

record cache =
  current :: epoch
  epochs :: nat
  heap :: "nat \<Rightarrow> index_object"

definition newEpoch :: epoch where
  "newEpoch = \<lparr>packMap = None, otherSymbols = False, inFlight = 0, known = [], retained = []\<rparr>"

definition rotate :: "cache \<Rightarrow> cache" where
  "rotate c = c\<lparr>current := newEpoch, epochs := Suc (epochs c)\<rparr>"

definition retain_bytes :: "int option \<Rightarrow> nat" where
  "retain_bytes maxRetained = (case maxRetained of None \<Rightarrow> 0 | Some i \<Rightarrow> nat (max 0 i))"

definition busy_bytes :: "int option \<Rightarrow> int option \<Rightarrow> nat" where
  "busy_bytes maxRetained maxBusy =
     (case maxBusy of
        Some i \<Rightarrow> nat (max (int (retain_bytes maxRetained)) i)
      | None \<Rightarrow> max (2 * retain_bytes maxRetained) (16 * 1024 * 1024))"

text \<open>What an entry of the pack map settles to: still pending, an index object, or nothing usable (a
  rejection, or a value that is no index).\<close>

datatype settled = Pending | Unusable | Index nat

text \<open>One iteration of the first loop of \<open>refreshKnown\<close>; \<open>interf\<close> is what other tasks do during the
  \<open>await\<close>.\<close>

definition refresh_entry :: "(nat \<Rightarrow> settled) \<Rightarrow> (epoch \<Rightarrow> epoch) \<Rightarrow> string \<times> nat \<Rightarrow> epoch \<Rightarrow> epoch" where
  "refresh_entry settle interf = (\<lambda>(key, entry) ep.
     if (case map_of (known ep) key of Some (e, _) \<Rightarrow> e = entry | None \<Rightarrow> False) then ep
     else let ep' = interf ep; pm = (case packMap ep' of None \<Rightarrow> [] | Some m \<Rightarrow> m)
          in if settle entry = Pending \<or> map_of pm key \<noteq> Some entry then ep'
             else (case settle entry of
                     Index i \<Rightarrow> ep'\<lparr>known := map_set key (entry, i) (known ep')\<rparr>
                   | _ \<Rightarrow> ep'\<lparr>packMap := Some (map_delete key pm), known := map_delete key (known ep')\<rparr>))"

definition drop_unlisted :: "epoch \<Rightarrow> epoch" where
  "drop_unlisted ep = (let pm = (case packMap ep of None \<Rightarrow> [] | Some m \<Rightarrow> m)
     in ep\<lparr>known := filter (\<lambda>(k, _). k \<in> set (map fst pm)) (known ep)\<rparr>)"

definition refreshKnown :: "(nat \<Rightarrow> settled) \<Rightarrow> (epoch \<Rightarrow> epoch) \<Rightarrow> epoch \<Rightarrow> epoch" where
  "refreshKnown settle interf ep =
     drop_unlisted (fold (refresh_entry settle interf) (case packMap ep of None \<Rightarrow> [] | Some m \<Rightarrow> m) ep)"

text \<open>\<open>loadedPacks\<close>: the packs with a known size. \<open>size_of\<close> is the settled size of a pack object,
  \<open>None\<close> while pending, infinite when it is rejected or has no length.\<close>

definition loadedPacks :: "(nat \<Rightarrow> enat option) \<Rightarrow> (nat \<Rightarrow> index_object) \<Rightarrow> epoch \<Rightarrow> (nat \<times> nat \<times> enat) list" where
  "loadedPacks size_of h ep = concat (map (\<lambda>(k, e, i).
     case i_pack (h i) of None \<Rightarrow> []
     | Some p \<Rightarrow> (case size_of p of None \<Rightarrow> [] | Some b \<Rightarrow> [(i, p, b)])) (known ep))"

definition clearOffsetCaches :: "epoch \<Rightarrow> (nat \<Rightarrow> index_object) \<Rightarrow> nat \<Rightarrow> index_object" where
  "clearOffsetCaches ep h i = (if i \<in> set (map (\<lambda>(k, e, i). i) (known ep)) then (h i)\<lparr>i_offsetCache := 0\<rparr> else h i)"

text \<open>The budget loop: indexes kept, and indexes whose pack is dropped.\<close>

fun trim :: "nat \<Rightarrow> enat \<Rightarrow> (nat \<times> nat \<times> enat) list \<Rightarrow> nat list \<times> nat list" where
  "trim retainBytes acc [] = ([], [])"
| "trim retainBytes acc ((i, p, b) # es) =
     (if acc + b \<le> enat retainBytes
      then (case trim retainBytes (acc + b) es of (keep, gone) \<Rightarrow> (i # keep, gone))
      else (case trim retainBytes acc es of (keep, gone) \<Rightarrow> (keep, i # gone)))"

definition drop_packs :: "nat list \<Rightarrow> (nat \<Rightarrow> index_object) \<Rightarrow> nat \<Rightarrow> index_object" where
  "drop_packs gone h i = (if i \<in> set gone then (h i)\<lparr>i_pack := None, i_checksumVerified := False\<rparr> else h i)"

text \<open>\<open>byIndex\<close> is a \<open>Map\<close>: the last entry of an index counts.\<close>

definition keep_order :: "epoch \<Rightarrow> (nat \<times> nat \<times> enat) list \<Rightarrow> (nat \<times> nat \<times> enat) list" where
  "keep_order ep live =
     filter (\<lambda>(i, p, b). i \<notin> set (retained ep)) live @
     concat (map (\<lambda>i. case map_of (rev (map (\<lambda>e. (fst e, e)) live)) i of None \<Rightarrow> [] | Some e \<Rightarrow> [e]) (retained ep))"

text \<open>\<open>maintain\<close> after its awaits, on the current epoch; \<open>loaded\<close> is what \<open>loadedPacks\<close> found.\<close>

definition maintain_finish :: "nat \<Rightarrow> nat \<Rightarrow> (nat \<times> nat \<times> enat) list \<Rightarrow> cache \<Rightarrow> cache" where
  "maintain_finish retainBytes busyBytes loaded c =
     (let ep = current c; h = clearOffsetCaches ep (heap c);
          live = filter (\<lambda>(i, p, b). i_pack (h i) = Some p) loaded
      in if inFlight ep > 0 then
           (if sum_list (map (\<lambda>(i, p, b). b) live) > enat busyBytes then rotate (c\<lparr>heap := h\<rparr>) else c\<lparr>heap := h\<rparr>)
         else case trim retainBytes 0 (keep_order ep live) of (keep, gone) \<Rightarrow>
           c\<lparr>heap := drop_packs gone h, current := ep\<lparr>retained := keep\<rparr>\<rparr>)"

definition maintain :: "nat \<Rightarrow> nat \<Rightarrow> (nat \<Rightarrow> settled) \<Rightarrow> (epoch \<Rightarrow> epoch) \<Rightarrow> (nat \<Rightarrow> enat option) \<Rightarrow> cache \<Rightarrow> cache" where
  "maintain retainBytes busyBytes settle interf size_of c =
     (case packMap (current c) of
        None \<Rightarrow> if otherSymbols (current c) \<and> inFlight (current c) = 0 then rotate c else c
      | Some m \<Rightarrow>
          let c' = c\<lparr>current := refreshKnown settle interf (current c)\<rparr>
          in maintain_finish retainBytes busyBytes (loadedPacks size_of (heap c') (current c')) c')"

text \<open>The part of \<open>run\<close> on the epoch: the command is counted while it runs; when it fails otherwise than
  by a missing object, on the epoch that is still current, later commands start a fresh cache.\<close>

definition run_start :: "cache \<Rightarrow> cache" where
  "run_start c = c\<lparr>current := (current c)\<lparr>inFlight := Suc (inFlight (current c))\<rparr>\<rparr>"

definition run_finish :: "bool \<Rightarrow> bool \<Rightarrow> cache \<Rightarrow> cache" where
  "run_finish sameEpoch failedOtherwise c =
     (if \<not> sameEpoch then c
      else let c' = c\<lparr>current := (current c)\<lparr>inFlight := inFlight (current c) - 1\<rparr>\<rparr>
           in if failedOtherwise then rotate c' else c')"

definition base_name :: "string \<Rightarrow> string" where
  "base_name p = after_last CHR ''/'' p"

definition idx_name :: "string \<Rightarrow> string" where
  "idx_name n = (if js_endsWith n ''.pack'' then take (length n - 5) n @ ''.idx'' else n)"

definition forget :: "string \<Rightarrow> cache \<Rightarrow> cache" where
  "forget path c =
     (case packMap (current c) of
        None \<Rightarrow> c
      | Some m \<Rightarrow>
          let name = idx_name (base_name path); ep = current c
          in c\<lparr>current := ep\<lparr>packMap := Some (filter (\<lambda>(k, _). base_name k \<noteq> name) m),
                             known := filter (\<lambda>(k, _). k \<notin> set (map fst m) \<or> base_name k \<noteq> name) (known ep)\<rparr>\<rparr>)"

record cache_stats =
  s_epoch :: nat
  s_indexes :: nat
  s_retainedPacks :: nat
  s_cachedObjects :: nat
  s_inFlight :: nat

definition stats :: "cache \<Rightarrow> cache_stats" where
  "stats c = (let ep = current c; is = map (\<lambda>(k, e, i). heap c i) (known ep)
     in \<lparr>s_epoch = epochs c, s_indexes = (case packMap ep of None \<Rightarrow> 0 | Some m \<Rightarrow> length m),
         s_retainedPacks = length (filter (\<lambda>x. i_pack x \<noteq> None) is),
         s_cachedObjects = sum_list (map i_offsetCache is), s_inFlight = inFlight ep\<rparr>)"

section \<open>Wrapping the git commands\<close>

definition CACHED_COMMANDS :: "string list" where
  "CACHED_COMMANDS = [''readCommit'', ''readTree'', ''readBlob'', ''readObject'', ''readTag'', ''isDescendent'',
     ''findMergeBase'', ''packObjects'', ''walk'', ''log'']"

datatype dispatch = ThroughCache | Direct

text \<open>How \<open>withGitObjectCaches\<close> calls a command: \<open>hasArgs\<close>, \<open>hasCache\<close> and \<open>hasFs\<close> are the truth of
  \<open>args\<close>, \<open>args.cache\<close> and \<open>args.fs\<close>, \<open>found\<close> whether there is a cache for the file system.\<close>

definition dispatch_command :: "string \<Rightarrow> bool \<Rightarrow> bool \<Rightarrow> bool \<Rightarrow> bool \<Rightarrow> dispatch" where
  "dispatch_command name hasArgs hasCache hasFs found =
     (if name \<in> set CACHED_COMMANDS \<and> hasArgs \<and> \<not> hasCache \<and> hasFs \<and> found then ThroughCache else Direct)"


section \<open>The memo stays within its weight\<close>

definition entry_weights :: "(string \<times> 'v \<times> nat) list \<Rightarrow> nat" where
  "entry_weights kvs = sum_list (map (\<lambda>(k, v, w). w) kvs)"

definition memo_ok :: "nat \<Rightarrow> (string \<Rightarrow> 'v) \<Rightarrow> 'v memo \<Rightarrow> bool" where
  "memo_ok maxWeight load m \<longleftrightarrow> distinct (map fst (m_values m)) \<and> m_weight m = entry_weights (m_values m) \<and>
     m_weight m \<le> maxWeight \<and> (\<forall>(k, v, w)\<in>set (m_values m). v = load k)"

lemma map_set_fresh: "k \<notin> set (map fst kvs) \<Longrightarrow> map_set k v kvs = kvs @ [(k, v)]"
  by (induction kvs) auto

lemma map_set_keys: "set (map fst (map_set k v kvs)) = insert k (set (map fst kvs))"
proof (induction kvs)
  case (Cons kv kvs)
  then show ?case by (cases kv; cases "k = fst kv") auto
qed simp

lemma map_set_distinct: "distinct (map fst kvs) \<Longrightarrow> distinct (map fst (map_set k v kvs))"
proof (induction kvs)
  case (Cons kv kvs)
  then show ?case using map_set_keys [of k v kvs] by (cases kv) auto
qed simp

lemma map_set_elem: "x \<in> set (map_set k v kvs) \<Longrightarrow> x = (k, v) \<or> x \<in> set kvs"
  by (induction kvs) (auto split: if_splits)

lemma entry_weights_set:
  "map_of kvs k = None \<Longrightarrow> entry_weights (map_set k (v, w) kvs) = entry_weights kvs + w"
  "map_of kvs k = Some (v', w') \<Longrightarrow> entry_weights (map_set k (v, w) kvs) = entry_weights kvs - w' + w \<and> w' \<le> entry_weights kvs"
  by (induction kvs) (auto simp: entry_weights_def split: if_splits)

lemma entry_weights_delete:
  "distinct (map fst kvs) \<Longrightarrow> map_of kvs k = Some (v, w) \<Longrightarrow> entry_weights (map_delete k kvs) + w = entry_weights kvs"
proof (induction kvs)
  case (Cons kv kvs)
  have "map_delete k kvs = kvs" if "k \<notin> fst ` set kvs"
    using that by (force simp: map_delete_def filter_id_conv)
  with Cons show ?case by (cases kv) (auto simp: entry_weights_def map_delete_def split: if_splits)
qed simp

lemma evict_loop_ok:
  "weight = entry_weights kvs \<Longrightarrow> evict_loop maxWeight kvs weight = (kvs', weight') \<Longrightarrow>
   weight' = entry_weights kvs' \<and> weight' \<le> maxWeight \<and> suffix kvs' kvs"
proof (induction maxWeight kvs weight rule: evict_loop.induct)
  case (2 maxWeight k v w kvs weight)
  then show ?case by (auto simp: entry_weights_def split: if_splits intro: suffix_ConsI)
qed (simp add: entry_weights_def)

lemma evict_ok:
  assumes "distinct (map fst (m_values m))" and "m_weight m = entry_weights (m_values m)" and "\<forall>(k, v, w)\<in>set (m_values m). v = load k"
  shows "memo_ok maxWeight load (evict maxWeight m)"
proof -
  obtain kvs w where e: "evict_loop maxWeight (m_values m) (m_weight m) = (kvs, w)" by fastforce
  from evict_loop_ok [OF assms(2) e] have r: "w = entry_weights kvs" "w \<le> maxWeight" "suffix kvs (m_values m)" by auto
  from r(3) obtain pre where "m_values m = pre @ kvs" by (auto elim: suffixE)
  with assms r(1,2) e show ?thesis by (auto simp: evict_def memo_ok_def)
qed

lemma memo_lookup_ok:
  assumes "memo_ok maxWeight load m"
  shows "memo_ok maxWeight load (snd (memo_lookup key m)) \<and> fst (memo_lookup key m) \<in> {None, Some (load key)}"
proof (cases "map_of (m_values m) key")
  case (Some vw)
  obtain v w where vw: "vw = (v, w)" by (cases vw)
  let ?rest = "map_delete key (m_values m)"
  have d: "distinct (map fst (m_values m))" using assms by (simp add: memo_ok_def)
  have fresh: "key \<notin> set (map fst ?rest)" by (auto simp: map_delete_def)
  have "v = load key" using assms Some vw by (auto simp: memo_ok_def dest!: map_of_SomeD)
  moreover have "entry_weights ?rest + w = entry_weights (m_values m)" using entry_weights_delete [OF d] Some vw by simp
  moreover have "distinct (map fst ?rest)" "set ?rest \<subseteq> set (m_values m)"
    using d by (auto simp: map_delete_def distinct_map_filter)
  ultimately show ?thesis using assms Some vw fresh map_set_fresh [OF fresh]
    by (auto simp: memo_lookup_def memo_ok_def entry_weights_def)
qed (use assms in \<open>simp add: memo_lookup_def memo_ok_def\<close>)

lemma memo_insert_ok:
  assumes "memo_ok maxWeight load m"
  shows "memo_ok maxWeight load (memo_insert maxWeight weigh key (load key) m)"
proof (cases "max 1 (weigh (load key)) > maxWeight")
  case False
  have d: "distinct (map fst (m_values m))" "m_weight m = entry_weights (m_values m)" "\<forall>(k, v, w)\<in>set (m_values m). v = load k"
    using assms by (auto simp: memo_ok_def)
  let ?w = "max 1 (weigh (load key))" and ?b = "case map_of (m_values m) key of Some (v, w) \<Rightarrow> m_weight m - w | None \<Rightarrow> m_weight m"
  have "?b + ?w = entry_weights (map_set key (load key, ?w) (m_values m))"
  proof (cases "map_of (m_values m) key")
    case (Some vw)
    then show ?thesis using entry_weights_set(2) [of "m_values m" key "fst vw" "snd vw"] d(2) by (cases vw) auto
  qed (simp add: d(2) entry_weights_set(1))
  with False d(3) map_set_distinct [OF d(1)] show ?thesis unfolding memo_insert_def Let_def
    by (auto intro!: evict_ok dest!: map_set_elem)
qed (use assms in \<open>simp add: memo_insert_def\<close>)

lemma memo_reachable_ok: "memo_reachable maxWeight weigh load m \<Longrightarrow> memo_ok maxWeight load m"
proof (induction rule: memo_reachable.induct)
  case memo_start
  then show ?case by (simp add: memo_ok_def createImmutableObjectMemo_def entry_weights_def)
next
  case (memo_cleared m)
  then show ?case by (simp add: memo_ok_def memo_clear_def entry_weights_def)
qed (auto simp: memo_lookup_ok memo_insert_ok)

text \<open>C38. In every state of the memo, under any interleaving of lookups, finished loads and clears, the
  recorded weight is the sum of the weights of the cached values and at most the configured maximum, no
  key is cached twice, and a lookup gives nothing or exactly the value the object store has for the key.\<close>

theorem memo_bounded:
  assumes "memo_reachable maxWeight weigh load m"
  shows "m_weight m = sum_list (map (\<lambda>(k, v, w). w) (m_values m)) \<and> m_weight m \<le> maxWeight \<and>
    distinct (map fst (m_values m)) \<and> fst (memo_lookup key m) \<in> {None, Some (load key)}"
  using memo_reachable_ok [OF assms] memo_lookup_ok by (auto simp: memo_ok_def entry_weights_def)

theorem memo_bounded_witness:
  "m_weight (memo_insert 3 id ''b'' 2 (memo_insert 3 id ''a'' 2 createImmutableObjectMemo)) = 2 \<and>
   fst (memo_lookup ''b'' (memo_insert 3 id ''b'' 2 (memo_insert 3 id ''a'' 2 createImmutableObjectMemo))) \<in> {None, Some (2::nat)}"
proof -
  let ?load = "\<lambda>_. 2::nat"
  have "memo_reachable 3 id ?load (memo_insert 3 id ''b'' (?load ''b'') (memo_insert 3 id ''a'' (?load ''a'') createImmutableObjectMemo))"
    by (intro memo_loaded memo_start)
  from memo_bounded [OF this, of "''b''"] show ?thesis
    by (simp add: memo_insert_def createImmutableObjectMemo_def evict_def memo_lookup_def)
qed


section \<open>Pack changes are seen\<close>

definition changes_ok :: "pack_changes \<Rightarrow> bool" where
  "changes_ok pc \<longleftrightarrow> finite (openChanges pc) \<and> depth pc = card (openChanges pc) \<and> (idle pc \<longleftrightarrow> depth pc = 0) \<and>
     (\<forall>c\<in>openChanges pc. c < nextChange pc)"

lemma change_step_ok:
  assumes "change_step pc pc'" and "changes_ok pc"
  shows "changes_ok pc' \<and> generation pc' = Suc (generation pc)"
  using assms
proof (cases rule: change_step.cases)
  case change_begin
  then show ?thesis using assms(2) by (auto simp: changes_ok_def beginPackChange_def less_Suc_eq)
next
  case (change_end c)
  have c: "card (openChanges pc - {c}) = depth pc - 1" using change_end(2) assms(2) by (simp add: changes_ok_def)
  have "pc' = (let pc' = pc\<lparr>openChanges := openChanges pc - {c}, depth := depth pc - 1, generation := Suc (generation pc)\<rparr>
      in if depth pc' > 0 then pc' else pc'\<lparr>idle := True\<rparr>)"
    using change_end by (simp add: endPackChange_def Let_def)
  with c assms(2) show ?thesis by (cases "depth pc - 1 > 0") (auto simp: changes_ok_def Let_def)
qed

lemma change_steps_ok:
  "change_step\<^sup>*\<^sup>* pc pc' \<Longrightarrow> changes_ok pc \<Longrightarrow> changes_ok pc' \<and> generation pc \<le> generation pc' \<and> (generation pc = generation pc' \<longrightarrow> pc = pc')"
proof (induction rule: rtranclp_induct)
  case (step y z)
  then show ?case using change_step_ok [OF step(2)] by auto
qed simp

text \<open>A command that failed is retried exactly when a pack change was open at its start or its end, or
  began or ended in between: the test of \<open>run\<close> misses no change. The depth is the number of changes
  that have begun and not ended, and the idle promise is resolved exactly when there is none.\<close>

theorem pack_change_seen:
  assumes "change_step\<^sup>*\<^sup>* no_changes before" and "change_step\<^sup>*\<^sup>* before after"
  shows "(overlapped before after \<longleftrightarrow> before \<noteq> after \<or> openChanges before \<noteq> {}) \<and>
    depth after = card (openChanges after) \<and> (idle after \<longleftrightarrow> openChanges after = {})"
proof -
  have "changes_ok no_changes" by (simp add: changes_ok_def no_changes_def)
  from change_steps_ok [OF assms(1) this] have b: "changes_ok before" by blast
  note a = change_steps_ok [OF assms(2) b]
  then have "depth after = 0 \<longleftrightarrow> openChanges after = {}" by (auto simp: changes_ok_def)
  with a show ?thesis by (auto simp: overlapped_def changes_ok_def)
qed

theorem pack_change_seen_witness:
  "overlapped no_changes (fst (endPackChange 0 (snd (beginPackChange no_changes)))) \<and>
   depth (fst (endPackChange 0 (snd (beginPackChange no_changes)))) = 0"
proof -
  let ?a = "fst (endPackChange 0 (snd (beginPackChange no_changes)))"
  have "change_step no_changes (snd (beginPackChange no_changes))" by (rule change_begin)
  moreover have "change_step (snd (beginPackChange no_changes)) ?a"
    by (rule change_end) (simp add: beginPackChange_def no_changes_def)
  ultimately have "change_step\<^sup>*\<^sup>* no_changes ?a" by (meson converse_rtranclp_into_rtranclp r_into_rtranclp)
  from pack_change_seen [OF rtranclp.rtrancl_refl this] show ?thesis
    by (simp add: beginPackChange_def endPackChange_def no_changes_def)
qed

section \<open>Retries are bounded\<close>

lemma run_loop_spec:
  assumes "run_loop wr a ts = Some (r, n)" and "a \<le> PACK_CHANGE_RETRIES"
  shows "a < n \<and> n \<le> Suc PACK_CHANGE_RETRIES \<and> n - a \<le> length ts \<and> (wr \<longrightarrow> n = Suc a) \<and>
    (case fst (ts ! (n - Suc a)) of Returned x \<Rightarrow> r = Inr x | Failed e \<Rightarrow> r = Inl e) \<and>
    (\<forall>k < n - Suc a. (\<exists>e. fst (ts ! k) = Failed e) \<and> overlapped (fst (snd (ts ! k))) (snd (snd (ts ! k))))"
  using assms
proof (induction wr a ts rule: run_loop.induct)
  case (3 wr a e before after ts)
  show ?case
  proof (cases "\<not> overlapped before after \<or> a \<ge> PACK_CHANGE_RETRIES \<or> wr")
    case True
    with 3 show ?thesis by auto
  next
    case False
    with 3 have ih: "Suc a < n \<and> n \<le> Suc PACK_CHANGE_RETRIES \<and> n - Suc a \<le> length ts \<and> (wr \<longrightarrow> n = Suc (Suc a)) \<and>
      (case fst (ts ! (n - Suc (Suc a))) of Returned x \<Rightarrow> r = Inr x | Failed e \<Rightarrow> r = Inl e) \<and>
      (\<forall>k < n - Suc (Suc a). (\<exists>e. fst (ts ! k) = Failed e) \<and> overlapped (fst (snd (ts ! k))) (snd (snd (ts ! k))))" by simp
    then have n: "n - Suc a = Suc (n - Suc (Suc a))" by linarith
    have "(\<exists>x. fst (((Failed e, before, after) # ts) ! k) = Failed x) \<and>
        overlapped (fst (snd (((Failed e, before, after) # ts) ! k))) (snd (snd (((Failed e, before, after) # ts) ! k)))"
      if "k < n - Suc a" for k
      using that ih False by (cases k) (auto simp: n)
    moreover have "((Failed e, before, after) # ts) ! (n - Suc a) = ts ! (n - Suc (Suc a))" by (simp add: n)
    moreover have "n - a \<le> length ((Failed e, before, after) # ts)" using ih by simp linarith
    ultimately show ?thesis using ih False by auto
  qed
qed auto

lemma run_loop_total: "PACK_CHANGE_RETRIES - a < length ts \<Longrightarrow> \<exists>x. run_loop wr a ts = Some x"
  by (induction wr a ts rule: run_loop.induct) auto

text \<open>\<open>run\<close> makes at most three attempts and always settles by the third; a writing command is
  attempted once; the result is that of the last attempt, and every attempt before it failed while a
  pack change overlapped it.\<close>

theorem run_attempts_bounded:
  assumes "3 \<le> length ts"
  shows "\<exists>r n. run_loop wr 0 ts = Some (r, n) \<and> 1 \<le> n \<and> n \<le> 3 \<and> (n = 1 \<or> \<not> wr) \<and>
    (case fst (ts ! (n - 1)) of Returned x \<Rightarrow> r = Inr x | Failed e \<Rightarrow> r = Inl e) \<and>
    list_all (\<lambda>(t, before, after). (\<exists>e. t = Failed e) \<and> overlapped before after) (take (n - 1) ts)"
proof -
  from run_loop_total [of 0 ts wr] assms obtain r n where rn: "run_loop wr 0 ts = Some (r, n)"
    by (auto simp: PACK_CHANGE_RETRIES_def)
  note s = run_loop_spec [OF rn]
  have "list_all (\<lambda>(t, before, after). (\<exists>e. t = Failed e) \<and> overlapped before after) (take (n - 1) ts)"
    unfolding list_all_length using s assms by (auto simp: PACK_CHANGE_RETRIES_def case_prod_beta)
  with rn s show ?thesis by (intro exI [of _ r] exI [of _ n]) (auto simp: PACK_CHANGE_RETRIES_def)
qed

theorem run_attempts_bounded_witness:
  "\<exists>r n. run_loop False 0 [(Failed ''x'', no_changes, snd (beginPackChange no_changes)), (Returned (1::nat), no_changes, no_changes),
      (Returned 2, no_changes, no_changes)] = Some (r, n) \<and> n \<le> 3"
  using run_attempts_bounded [of "[(Failed ''x'', no_changes, snd (beginPackChange no_changes)), (Returned (1::nat), no_changes, no_changes),
      (Returned 2, no_changes, no_changes)]" False] by (auto simp del: run_loop.simps)


section \<open>Maintenance keeps the byte budget\<close>

definition bytes_total :: "(nat \<times> nat \<times> enat) list \<Rightarrow> enat" where
  "bytes_total es = sum_list (map (\<lambda>(i, p, b). b) es)"

lemma bytes_total_mset: "mset xs = mset ys \<Longrightarrow> bytes_total xs = bytes_total ys"
  unfolding bytes_total_def by (simp flip: sum_mset_sum_list)

lemma trim_budget:
  "trim R acc es = (keep, gone) \<Longrightarrow> acc \<le> enat R \<Longrightarrow> distinct (map fst es) \<Longrightarrow>
   acc + bytes_total (filter (\<lambda>e. fst e \<notin> set gone) es) \<le> enat R \<and>
   keep = map fst (filter (\<lambda>e. fst e \<notin> set gone) es) \<and> set gone \<subseteq> fst ` set es"
proof (induction R acc es arbitrary: keep gone rule: trim.induct)
  case (2 R acc i p b es)
  show ?case
  proof (cases "acc + b \<le> enat R")
    case True
    obtain k g where t: "trim R (acc + b) es = (k, g)" by fastforce
    with 2 True have kg: "keep = i # k" "gone = g" by auto
    have "i \<notin> set g" using 2(1) [OF True t True] 2(5) by auto
    with 2(1) [OF True t True] 2(5) kg show ?thesis by (auto simp: bytes_total_def add.assoc)
  next
    case False
    obtain k g where t: "trim R acc es = (k, g)" by fastforce
    with 2 False have kg: "keep = k" "gone = i # g" by auto
    have "filter (\<lambda>e. fst e \<noteq> i \<and> fst e \<notin> set g) es = filter (\<lambda>e. fst e \<notin> set g) es"
      using 2(5) by (intro filter_cong) auto
    with 2(2) [OF False t 2(4)] 2(5) kg show ?thesis by auto
  qed
qed (simp add: bytes_total_def)

lemma loadedPacks_subseq: "subseq (map fst (loadedPacks size_of h ep)) (map (\<lambda>(k, e, i). i) (known ep))"
proof -
  have "subseq (map fst (concat (map (\<lambda>(k, e, i). case i_pack (h i) of None \<Rightarrow> []
     | Some p \<Rightarrow> (case size_of p of None \<Rightarrow> [] | Some b \<Rightarrow> [(i, p, b)])) kn))) (map (\<lambda>(k, e, i). i) kn)" for kn :: "(string \<times> nat \<times> nat) list"
    by (induction kn) (auto split: option.splits)
  then show ?thesis by (simp add: loadedPacks_def)
qed

lemma loadedPacks_distinct: "distinct (map (\<lambda>(k, e, i). i) (known ep)) \<Longrightarrow> distinct (map fst (loadedPacks size_of h ep))"
  using loadedPacks_subseq by (metis distinct_nthsI subseq_conv_nths)

lemma loadedPacks_pack: "(i, p, b) \<in> set (loadedPacks size_of h ep) \<Longrightarrow> i_pack (h i) = Some p \<and> size_of p = Some b"
  by (auto simp: loadedPacks_def split: option.splits)

lemma loadedPacks_dropped:
  assumes "\<And>i. i_pack (h' i) = (if i \<in> set gone then None else i_pack (h i))" and "known ep' = known ep"
  shows "loadedPacks size_of h' ep' = filter (\<lambda>e. fst e \<notin> set gone) (loadedPacks size_of h ep)"
proof -
  have "concat (map (\<lambda>(k, e, i). case i_pack (h' i) of None \<Rightarrow> []
     | Some p \<Rightarrow> (case size_of p of None \<Rightarrow> [] | Some b \<Rightarrow> [(i, p, b)])) kn) =
    filter (\<lambda>e. fst e \<notin> set gone) (concat (map (\<lambda>(k, e, i). case i_pack (h i) of None \<Rightarrow> []
     | Some p \<Rightarrow> (case size_of p of None \<Rightarrow> [] | Some b \<Rightarrow> [(i, p, b)])) kn))" for kn :: "(string \<times> nat \<times> nat) list"
    by (induction kn) (auto simp: assms(1) split: option.splits)
  then show ?thesis by (simp add: loadedPacks_def assms(2))
qed

lemma keep_order_mset:
  assumes d: "distinct (map fst live)" and r: "distinct (retained ep)"
  shows "mset (keep_order ep live) = mset live"
proof -
  let ?m = "map_of (rev (map (\<lambda>e. (fst e, e)) live))"
  let ?old = "\<lambda>R. concat (map (\<lambda>i. case ?m i of None \<Rightarrow> [] | Some e \<Rightarrow> [e]) R)"
  have "distinct (map fst (rev (map (\<lambda>e. (fst e, e)) live)))" using d by (simp add: rev_map [symmetric] comp_def)
  then have lk: "?m i = Some e \<longleftrightarrow> e \<in> set live \<and> fst e = i" for i e by (auto simp: map_of_eq_Some_iff)
  have "map fst (?old R) = filter (\<lambda>i. ?m i \<noteq> None) R" for R
  proof (induction R)
    case (Cons i R)
    show ?case
    proof (cases "?m i")
      case (Some e)
      then have "fst e = i" using lk by blast
      with Cons Some show ?thesis by (cases e) simp
    qed (use Cons in simp)
  qed simp
  then have "distinct (map fst (?old (retained ep)))" using r by simp
  then have "distinct (?old (retained ep))" by (simp add: distinct_map)
  moreover have old: "set (?old R) = {e \<in> set live. fst e \<in> set R}" for R
  proof -
    have "e \<in> set (?old R) \<longleftrightarrow> (\<exists>i\<in>set R. ?m i = Some e)" for e
      by (cases e) (force split: option.splits)
    then have "e \<in> set (?old R) \<longleftrightarrow> e \<in> {e \<in> set live. fst e \<in> set R}" for e by (simp only: lk) blast
    then show ?thesis by (rule set_eqI)
  qed
  moreover have "distinct live" using d by (simp add: distinct_map)
  ultimately have "distinct (keep_order ep live)" unfolding keep_order_def by auto
  moreover have "set (keep_order ep live) = set live" unfolding keep_order_def set_append old by auto
  ultimately show ?thesis using \<open>distinct live\<close> by (metis set_eq_iff_mset_eq_distinct)
qed

lemma refresh_inFlight: "inFlight (refreshKnown settle id ep) = inFlight ep \<and> retained (refreshKnown settle id ep) = retained ep"
proof -
  have one: "inFlight (refresh_entry settle id x ep) = inFlight ep \<and> retained (refresh_entry settle id x ep) = retained ep" for x ep
    by (cases x) (auto simp: refresh_entry_def Let_def split: option.splits settled.splits)
  have "inFlight (fold (refresh_entry settle id) xs ep) = inFlight ep \<and> retained (fold (refresh_entry settle id) xs ep) = retained ep" for xs
    by (induction xs arbitrary: ep) (auto simp: one)
  then show ?thesis by (simp add: refreshKnown_def drop_unlisted_def Let_def)
qed

text \<open>After a maintenance pass with no command in flight the packs that stay loaded fit in the retained
  byte budget, and the epoch records exactly the indexes of those packs.\<close>

theorem maintain_within_budget:
  assumes "packMap (current c) = Some m" and "inFlight (current c) = 0" and "distinct (retained (current c))"
    and "distinct (map (\<lambda>(k, e, i). i) (known (refreshKnown settle id (current c))))"
    and "c' = maintain retainBytes busyBytes settle id size_of c"
  shows "sum_list (map (\<lambda>(i, p, b). b) (loadedPacks size_of (heap c') (current c'))) \<le> enat retainBytes \<and>
    set (retained (current c')) = set (map fst (loadedPacks size_of (heap c') (current c'))) \<and> distinct (retained (current c'))"
proof -
  define ep where "ep = refreshKnown settle id (current c)"
  define h where "h = clearOffsetCaches ep (heap c)"
  define loaded where "loaded = loadedPacks size_of (heap c) ep"
  have hp: "i_pack (h i) = i_pack (heap c i)" for i by (simp add: h_def clearOffsetCaches_def)
  have d: "distinct (map fst loaded)" unfolding loaded_def using assms(4) by (intro loadedPacks_distinct) (simp add: ep_def)
  have live: "filter (\<lambda>(i, p, b). i_pack (h i) = Some p) loaded = loaded"
    using loadedPacks_pack by (auto simp: filter_id_conv loaded_def hp)
  have ms: "mset (keep_order ep loaded) = mset loaded"
    using d assms(3) refresh_inFlight [of settle "current c"] by (intro keep_order_mset) (simp_all add: ep_def)
  obtain keep gone where t: "trim retainBytes 0 (keep_order ep loaded) = (keep, gone)" by fastforce
  have "distinct (map fst (keep_order ep loaded))"
    using d ms by (metis mset_eq_imp_distinct_iff mset_map)
  from trim_budget [OF t _ this] have tb: "bytes_total (filter (\<lambda>e. fst e \<notin> set gone) (keep_order ep loaded)) \<le> enat retainBytes"
    "keep = map fst (filter (\<lambda>e. fst e \<notin> set gone) (keep_order ep loaded))"
    by simp_all
  have c': "c' = c\<lparr>current := ep\<lparr>retained := keep\<rparr>, heap := drop_packs gone h\<rparr>"
    using assms(1,2,5) t live refresh_inFlight [of settle "current c"]
    by (simp add: maintain_def maintain_finish_def Let_def ep_def [symmetric] h_def [symmetric] loaded_def [symmetric])
  have l': "loadedPacks size_of (heap c') (current c') = filter (\<lambda>e. fst e \<notin> set gone) loaded"
    unfolding loaded_def by (rule loadedPacks_dropped) (simp_all add: c' drop_packs_def hp)
  have ms': "mset (filter (\<lambda>e. fst e \<notin> set gone) (keep_order ep loaded)) = mset (filter (\<lambda>e. fst e \<notin> set gone) loaded)"
    using ms by (simp add: mset_filter)
  then have "bytes_total (filter (\<lambda>e. fst e \<notin> set gone) loaded) \<le> enat retainBytes"
    using tb(1) bytes_total_mset [OF ms'] by simp
  moreover have "set keep = set (map fst (filter (\<lambda>e. fst e \<notin> set gone) loaded))"
    unfolding tb(2) set_map using mset_eq_setD [OF ms'] by simp
  moreover have "distinct keep" unfolding tb(2) using \<open>distinct (map fst (keep_order ep loaded))\<close> by (rule distinct_map_filter)
  ultimately show ?thesis by (simp add: l' bytes_total_def) (simp add: c')
qed


theorem maintain_within_budget_witness:
  "\<exists>c'. c' = maintain 10 100 (\<lambda>_. Index 7) id (\<lambda>_. Some 4)
      \<lparr>current = \<lparr>packMap = Some [(''a.idx'', 1)], otherSymbols = False, inFlight = 0, known = [], retained = []\<rparr>, epochs = 0,
       heap = (\<lambda>_. \<lparr>i_pack = Some 3, i_checksumVerified = True, i_offsetCache = 5\<rparr>)\<rparr> \<and>
     set (retained (current c')) = set (map fst (loadedPacks (\<lambda>_. Some 4) (heap c') (current c')))"
proof -
  let ?c = "\<lparr>current = \<lparr>packMap = Some [(''a.idx'', 1)], otherSymbols = False, inFlight = 0, known = [], retained = []\<rparr>, epochs = 0,
       heap = (\<lambda>_. \<lparr>i_pack = Some 3, i_checksumVerified = True, i_offsetCache = 5\<rparr>)\<rparr>"
  have "distinct (map (\<lambda>(k, e, i). i) (known (refreshKnown (\<lambda>_. Index 7) id (current ?c))))"
    by (simp add: refreshKnown_def refresh_entry_def drop_unlisted_def)
  with maintain_within_budget [of ?c "[(''a.idx'', 1)]" "\<lambda>_. Index 7" _ 10 100 "\<lambda>_. Some 4"] show ?thesis by simp
qed

end
