(* ===== verification/BlobSizeReader.thy ===== *)
theory BlobSizeReader
  imports PackRebuild
begin

text \<open>
  \<^verbatim>\<open>obsidian-plugin/src/blob-size-reader.cjs\<close>: \<open>blobSizeFromGit\<close> finds the size of a blob by reading small
  ranges of the loose object or of the pack and its index. The files are a map from paths to bytes, on
  which \<open>readFileRange\<close> gives the bytes of a range that exist; the directory listing is a list. The
  inflater is the package pako: \<open>inflate\<close> gives, for the compressed bytes pushed so far, whether it
  failed, whether it stopped because the output is full, whether the stream ended, and the output.
  Errors are \<open>None\<close>: the outermost \<open>catch\<close> turns each of them into \<open>null\<close>. \<open>Enoent\<close> is told apart where
  the code does.
\<close>

datatype read_error = Enoent | Broken

abbreviation READ_LIMIT :: nat where "READ_LIMIT \<equiv> 256"
abbreviation COMPRESSED_LIMIT :: nat where "COMPRESSED_LIMIT \<equiv> 1024"
abbreviation OUTPUT_LIMIT :: nat where "OUTPUT_LIMIT \<equiv> 256"
abbreviation MAX_DELTA_DEPTH :: nat where "MAX_DELTA_DEPTH \<equiv> 32"

definition MAX_SAFE :: nat where
  "MAX_SAFE = 2 ^ 53 - 1"

record inflate_state =
  inf_error :: bool
  inf_stopped :: bool
  inf_ended :: bool
  inf_output :: buffer

record git_store =
  store_files :: "string \<rightharpoonup> buffer"
  store_packs :: "string list"
  store_inflate :: "buffer \<Rightarrow> inflate_state"

definition read_range :: "git_store \<Rightarrow> string \<Rightarrow> nat \<Rightarrow> nat \<Rightarrow> read_error + buffer" where
  "read_range g f pos n =
     (if pos > MAX_SAFE \<or> n > READ_LIMIT then Inl Broken
      else (case store_files g f of None \<Rightarrow> Inl Enoent | Some b \<Rightarrow> Inr (subarray b pos (pos + n))))"

text \<open>\<open>parseVarint\<close>: at most ten bytes from \<open>start\<close>; a truncated number is told apart from one that is
  too large.\<close>

datatype varint = Value nat nat | Truncated | Overflow

fun varint_loop :: "buffer \<Rightarrow> nat \<Rightarrow> nat \<Rightarrow> nat \<Rightarrow> nat \<Rightarrow> varint" where
  "varint_loop bytes 0 index value shift = Truncated"
| "varint_loop bytes (Suc left) index value shift =
     (if index \<ge> length bytes then Truncated
      else let v = value + (unat (bytes ! index) mod 128) * 2 ^ shift
           in if v > MAX_SAFE then Overflow
              else if unat (bytes ! index) < 128 then Value v (Suc index)
              else varint_loop bytes left (Suc index) v (shift + 7))"

definition parseVarint :: "buffer \<Rightarrow> nat \<Rightarrow> varint" where
  "parseVarint bytes start = varint_loop bytes 10 start 0 0"

text \<open>\<open>inflatePrefix\<close>: sixteen reads of 64 bytes at most; \<open>parse\<close> gives a result, nothing yet, or fails.\<close>

datatype 'a parsed = Done 'a | More | Reject

fun inflate_loop :: "git_store \<Rightarrow> string \<Rightarrow> nat \<Rightarrow> (buffer \<Rightarrow> 'a parsed) \<Rightarrow> nat \<Rightarrow> nat \<Rightarrow> buffer \<Rightarrow> read_error + 'a" where
  "inflate_loop g f pos parse 0 total_read input = Inl Broken"
| "inflate_loop g f pos parse (Suc left) total_read input =
     rbind (read_range g f (pos + total_read) 64) (\<lambda>chunk.
       if chunk = [] then Inl Broken
       else let st = store_inflate g (input @ chunk)
            in if inf_error st then Inl Broken
               else (case parse (inf_output st) of
                       Done x \<Rightarrow> Inr x
                     | Reject \<Rightarrow> Inl Broken
                     | More \<Rightarrow>
                         if inf_ended st \<or> inf_stopped st \<or> length (inf_output st) \<ge> OUTPUT_LIMIT \<or> length chunk < 64 then Inl Broken
                         else inflate_loop g f pos parse left (total_read + 64) (input @ chunk)))"

definition inflatePrefix :: "git_store \<Rightarrow> string \<Rightarrow> nat \<Rightarrow> (buffer \<Rightarrow> 'a parsed) \<Rightarrow> read_error + 'a" where
  "inflatePrefix g f pos parse = inflate_loop g f pos parse (COMPRESSED_LIMIT div 64) 0 []"

section \<open>Loose objects\<close>

datatype object_type = Commit | Tree | Blob | Tag

definition ascii :: "buffer \<Rightarrow> string" where
  "ascii b = map (\<lambda>x. char_of (unat x mod 128 :: nat)) b"

definition type_of_name :: "string \<Rightarrow> object_type option" where
  "type_of_name s = (if s = ''blob'' then Some Blob else if s = ''tree'' then Some Tree
     else if s = ''commit'' then Some Commit else if s = ''tag'' then Some Tag else None)"

fun decimal_loop :: "nat \<Rightarrow> string \<Rightarrow> nat" where
  "decimal_loop acc [] = acc"
| "decimal_loop acc (c # cs) = decimal_loop (acc * 10 + (of_char c - 48)) cs"

definition decimal :: "string \<Rightarrow> nat option" where
  "decimal s = (if s \<noteq> [] \<and> list_all is_digit s \<and> (s = ''0'' \<or> hd s \<noteq> CHR ''0'') then Some (decimal_loop 0 s) else None)"

text \<open>The header of a loose object: the type, a space, the size, a zero byte.\<close>

definition parse_loose :: "buffer \<Rightarrow> (object_type \<times> nat) parsed" where
  "parse_loose bytes =
     (if 0 \<notin> set bytes then More
      else let header = ascii (takeWhile (\<lambda>x. x \<noteq> 0) bytes); name = takeWhile (\<lambda>c. c \<noteq> CHR '' '') header
           in case (type_of_name name, decimal (drop (length name + 1) header)) of
                (Some t, Some n) \<Rightarrow> if length name < length header \<and> n \<le> MAX_SAFE then Done (t, n) else Reject
              | _ \<Rightarrow> Reject)"

definition loose :: "git_store \<Rightarrow> string \<Rightarrow> string \<Rightarrow> read_error + (object_type \<times> nat) option" where
  "loose g gitdir oid_hex =
     (case inflatePrefix g (gitdir @ ''/objects/'' @ take 2 oid_hex @ ''/'' @ drop 2 oid_hex) 0 parse_loose of
        Inr x \<Rightarrow> Inr (Some x) | Inl Enoent \<Rightarrow> Inr None | Inl Broken \<Rightarrow> Inl Broken)"

section \<open>The index\<close>

function search_loop :: "(nat \<Rightarrow> read_error + buffer) \<Rightarrow> buffer \<Rightarrow> nat \<Rightarrow> nat \<Rightarrow> read_error + nat" where
  "search_loop entry needle low high =
     (if low < high then
        let middle = low + (high - low) div 2
        in rbind (entry middle) (\<lambda>candidate.
             if length candidate \<noteq> 20 then Inl Broken
             else if buffer_compare candidate needle < 0 then search_loop entry needle (Suc middle) high
             else search_loop entry needle low middle)
      else Inr low)"
  by pat_completeness auto
termination by (relation "measure (\<lambda>(entry, needle, low, high). high - low)") auto

definition word32 :: "buffer \<Rightarrow> read_error + nat" where
  "word32 b = (if length b \<noteq> 4 then Inl Broken else (case readUInt32BE b 0 of None \<Rightarrow> Inl Broken | Some n \<Rightarrow> Inr n))"

definition be64 :: "buffer \<Rightarrow> nat" where
  "be64 b = foldl (\<lambda>n x. n * 256 + unat x) 0 b"

text \<open>The range of entries with the first byte of the id, and the number of entries.\<close>

definition locate_range :: "git_store \<Rightarrow> string \<Rightarrow> nat \<Rightarrow> read_error + (nat \<times> nat \<times> nat)" where
  "locate_range g indexFile k =
     rbind (read_range g indexFile 0 8) (\<lambda>hdr.
       if length hdr \<noteq> 8 \<or> readUInt32BE hdr 0 \<noteq> Some 0xff744f63 \<or> readUInt32BE hdr 4 \<noteq> Some 2 then Inl Broken
       else rbind (if k = 0 then Inr None else map_sum id Some (read_range g indexFile (8 + (k - 1) * 4) 4)) (\<lambda>firstBytes.
         rbind (read_range g indexFile (8 + k * 4) 4) (\<lambda>lastBytes.
           rbind (word32 lastBytes) (\<lambda>last.
             rbind (case firstBytes of None \<Rightarrow> Inr 0 | Some b \<Rightarrow> word32 b) (\<lambda>first.
               rbind (read_range g indexFile (8 + 255 * 4) 4) (\<lambda>countBytes.
                 rbind (word32 countBytes) (\<lambda>taken.
                   if last < first then Inl Broken else Inr (first, last, taken))))))))"

text \<open>The offset of entry \<open>low\<close>.\<close>

definition locate_offset :: "git_store \<Rightarrow> string \<Rightarrow> nat \<Rightarrow> nat \<Rightarrow> read_error + nat" where
  "locate_offset g indexFile taken low =
     (let offsets = 8 + 1024 + taken * 24
      in rbind (read_range g indexFile (offsets + low * 4) 4) (\<lambda>offsetBytes.
           rbind (word32 offsetBytes) (\<lambda>offsetValue.
             rbind (if offsetValue \<ge> 0x80000000
                    then rbind (read_range g indexFile (offsets + taken * 4 + (offsetValue - 0x80000000) * 8) 8) (\<lambda>large.
                           if length large \<noteq> 8 then Inl Broken else Inr (be64 large))
                    else Inr offsetValue) (\<lambda>off.
               if off > MAX_SAFE \<or> off < 12 then Inl Broken else Inr off))))"

text \<open>One index file; \<open>None\<close> continues with the next one.\<close>

definition locate_in :: "git_store \<Rightarrow> string \<Rightarrow> buffer \<Rightarrow> read_error + nat option" where
  "locate_in g indexFile needle =
     rbind (locate_range g indexFile (unat (needle ! 0))) (\<lambda>(first, last, taken).
       rbind (search_loop (\<lambda>i. read_range g indexFile (8 + 1024 + i * 20) 20) needle first last) (\<lambda>low.
         if low \<ge> last then Inr None
         else rbind (read_range g indexFile (8 + 1024 + low * 20) 20) (\<lambda>candidate.
           if candidate \<noteq> needle then Inr None
           else map_sum id Some (locate_offset g indexFile taken low))))"

fun locate_all :: "git_store \<Rightarrow> string \<Rightarrow> buffer \<Rightarrow> string list \<Rightarrow> read_error + (string \<times> nat) option" where
  "locate_all g gitdir needle [] = Inr None"
| "locate_all g gitdir needle (name # names) =
     (if \<not> js_endsWith name ''.idx'' then locate_all g gitdir needle names
      else rbind (locate_in g (gitdir @ ''/objects/pack/'' @ name) needle) (\<lambda>found.
        case found of
          None \<Rightarrow> locate_all g gitdir needle names
        | Some off \<Rightarrow> Inr (Some (gitdir @ ''/objects/pack/'' @ take (length name - 4) name @ ''.pack'', off))))"

definition hex_value :: "char \<Rightarrow> nat" where
  "hex_value c = (if of_char c < (58::nat) then of_char c - 48 else of_char c - 87)"

fun from_hex :: "string \<Rightarrow> buffer" where
  "from_hex (a # b # cs) = of_nat (hex_value a * 16 + hex_value b) # from_hex cs"
| "from_hex _ = []"

definition locate :: "git_store \<Rightarrow> string \<Rightarrow> string \<Rightarrow> read_error + (string \<times> nat) option" where
  "locate g gitdir oid_hex = locate_all g gitdir (from_hex oid_hex) (store_packs g)"

section \<open>Resolving\<close>

text \<open>The size field of an entry header: the size, the cursor after it.\<close>

function entry_size_loop :: "buffer \<Rightarrow> nat \<Rightarrow> nat \<Rightarrow> nat \<Rightarrow> nat \<Rightarrow> (nat \<times> nat) option" where
  "entry_size_loop hdr b sz shift cursor =
     (if b < 128 then Some (sz, cursor)
      else if cursor \<ge> length hdr \<or> shift > 52 then None
      else entry_size_loop hdr (unat (hdr ! cursor)) (sz + (unat (hdr ! cursor) mod 128) * 2 ^ shift) (shift + 7) (Suc cursor))"
  by pat_completeness auto
termination by (relation "measure (\<lambda>(hdr, b, sz, shift, cursor). length hdr - cursor)") auto

function entry_distance_loop :: "buffer \<Rightarrow> nat \<Rightarrow> nat \<Rightarrow> nat \<Rightarrow> (nat \<times> nat) option" where
  "entry_distance_loop hdr b distance cursor =
     (if b < 128 then Some (distance, cursor)
      else if cursor \<ge> length hdr \<or> distance > MAX_SAFE then None
      else entry_distance_loop hdr (unat (hdr ! cursor)) ((distance + 1) * 128 + unat (hdr ! cursor) mod 128) (Suc cursor))"
  by pat_completeness auto
termination by (relation "measure (\<lambda>(hdr, b, distance, cursor). length hdr - cursor)") auto

definition parse_delta :: "nat \<Rightarrow> buffer \<Rightarrow> nat parsed" where
  "parse_delta base_size bytes =
     (case parseVarint bytes 0 of
        Truncated \<Rightarrow> More
      | Overflow \<Rightarrow> Reject
      | Value baseSize firstEnd \<Rightarrow>
          (case parseVarint bytes firstEnd of
             Truncated \<Rightarrow> More
           | Overflow \<Rightarrow> Reject
           | Value result secondEnd \<Rightarrow>
               if secondEnd > length bytes then More
               else if baseSize \<noteq> base_size then Reject else Done result))"

definition pack_type :: "nat \<Rightarrow> object_type" where
  "pack_type t = (if t = 1 then Commit else if t = 2 then Tree else if t = 3 then Blob else Tag)"

definition need :: "'a option \<Rightarrow> read_error + 'a" where
  "need x = (case x of None \<Rightarrow> Inl Broken | Some y \<Rightarrow> Inr y)"

text \<open>\<open>resolve\<close>: \<open>fuel\<close> is what is left of the delta depth, so a chain deeper than \<open>MAX_DELTA_DEPTH\<close> fails.
  The object is given by its id or by its place in a pack.\<close>

fun resolve :: "git_store \<Rightarrow> string \<Rightarrow> nat \<Rightarrow> string + (string \<times> nat) \<Rightarrow> read_error + (object_type \<times> nat)" where
  "resolve g gitdir 0 what = Inl Broken"
| "resolve g gitdir (Suc fuel) what =
     rbind (case what of
              Inl oid_hex \<Rightarrow> loose g gitdir oid_hex
            | Inr place \<Rightarrow> Inr None) (\<lambda>value.
       case value of
         Some v \<Rightarrow> Inr v
       | None \<Rightarrow>
           rbind (case what of Inl oid_hex \<Rightarrow> rbind (locate g gitdir oid_hex) need | Inr place \<Rightarrow> Inr place) (\<lambda>(f, off).
             rbind (read_range g f 0 12) (\<lambda>packHeader.
               if length packHeader \<noteq> 12 \<or> take 4 packHeader \<noteq> PACK_SIGNATURE \<or>
                  (readUInt32BE packHeader 4 \<noteq> Some 2 \<and> readUInt32BE packHeader 4 \<noteq> Some 3) then Inl Broken
               else rbind (read_range g f off 128) (\<lambda>hdr.
                 if hdr = [] then Inl Broken
                 else let b = unat (hdr ! 0); t = b div 16 mod 8
                      in rbind (need (entry_size_loop hdr b (b mod 16) 4 1)) (\<lambda>(sz, cursor).
                           if sz > MAX_SAFE then Inl Broken
                           else if 1 \<le> t \<and> t \<le> 4 then Inr (pack_type t, sz)
                           else rbind
                             (if t = OFS_DELTA then
                                if cursor \<ge> length hdr then Inl Broken
                                else rbind (need (entry_distance_loop hdr (unat (hdr ! cursor)) (unat (hdr ! cursor) mod 128) (Suc cursor)))
                                  (\<lambda>(distance, cursor').
                                     if distance > MAX_SAFE \<or> distance = 0 \<or> distance \<ge> off then Inl Broken
                                     else rbind (resolve g gitdir fuel (Inr (f, off - distance))) (\<lambda>base. Inr (base, cursor')))
                              else if t = REF_DELTA then
                                if cursor + 20 > length hdr then Inl Broken
                                else rbind (resolve g gitdir fuel (Inl (to_hex (subarray hdr cursor (cursor + 20))))) (\<lambda>base. Inr (base, cursor + 20))
                              else Inl Broken)
                             (\<lambda>((base_type, base_size), cursor').
                                if base_type \<noteq> Blob then Inl Broken
                                else rbind (inflatePrefix g f (off + cursor') (parse_delta base_size)) (\<lambda>resultSize.
                                  Inr (base_type, resultSize))))))))"

definition is_oid :: "string \<Rightarrow> bool" where
  "is_oid s \<longleftrightarrow> length s = 40 \<and> list_all (\<lambda>c. c \<in> set ''0123456789abcdef'') s"

definition blobSizeFromGit :: "git_store \<Rightarrow> string \<Rightarrow> string \<Rightarrow> nat option" where
  "blobSizeFromGit g gitdir oid_hex =
     (if \<not> is_oid oid_hex then None
      else (case resolve g gitdir (Suc MAX_DELTA_DEPTH) (Inl oid_hex) of
              Inl e \<Rightarrow> None
            | Inr (t, sz) \<Rightarrow> if t = Blob \<and> sz \<le> MAX_SAFE then Some sz else None))"


section \<open>The binary search\<close>

declare search_loop.simps [simp del]

lemma search_loop_spec:
  assumes "\<And>i. i < high \<Longrightarrow> entry i = Inr (f i) \<and> length (f i) = 20"
    and "\<And>i j. i \<le> j \<Longrightarrow> j < high \<Longrightarrow> buffer_compare (f j) needle < 0 \<Longrightarrow> buffer_compare (f i) needle < 0"
    and "low \<le> high"
  shows "\<exists>r. search_loop entry needle low high = Inr r \<and> low \<le> r \<and> r \<le> high \<and>
    (\<forall>i. low \<le> i \<and> i < r \<longrightarrow> buffer_compare (f i) needle < 0) \<and>
    (\<forall>i. r \<le> i \<and> i < high \<longrightarrow> \<not> buffer_compare (f i) needle < 0)"
  using assms
proof (induction entry needle low high rule: search_loop.induct)
  case (1 entry needle low high)
  show ?case
  proof (cases "low < high")
    case False
    then have "search_loop entry needle low high = Inr low" by (subst search_loop.simps) simp
    with False 1(5) show ?thesis by (intro exI [of _ low]) auto
  next
    case True
    define m where "m = low + (high - low) div 2"
    have m: "low \<le> m" "m < high" using True by (auto simp: m_def)
    have em: "entry m = Inr (f m)" "length (f m) = 20" using 1(3) [OF m(2)] by auto
    show ?thesis
    proof (cases "buffer_compare (f m) needle < 0")
      case lt: True
      have "\<exists>r. search_loop entry needle (Suc m) high = Inr r \<and> Suc m \<le> r \<and> r \<le> high \<and>
          (\<forall>i. Suc m \<le> i \<and> i < r \<longrightarrow> buffer_compare (f i) needle < 0) \<and> (\<forall>i. r \<le> i \<and> i < high \<longrightarrow> \<not> buffer_compare (f i) needle < 0)"
        by (rule 1(1) [OF True m_def]) (use em lt m 1(3,4) in auto)
      then obtain r where r: "search_loop entry needle (Suc m) high = Inr r" "Suc m \<le> r" "r \<le> high"
        "\<And>i. Suc m \<le> i \<Longrightarrow> i < r \<Longrightarrow> buffer_compare (f i) needle < 0" "\<And>i. r \<le> i \<Longrightarrow> i < high \<Longrightarrow> \<not> buffer_compare (f i) needle < 0" by blast
      moreover have "buffer_compare (f i) needle < 0" if "i < r" for i
        using that r(4) 1(4) [OF _ m(2) lt, of i] by (cases "i \<le> m") auto
      ultimately show ?thesis using True em lt m
        by (intro exI [of _ r]) (auto simp: search_loop.simps [of entry needle low high] Let_def m_def [symmetric])
    next
      case ge: False
      have "\<exists>r. search_loop entry needle low m = Inr r \<and> low \<le> r \<and> r \<le> m \<and>
          (\<forall>i. low \<le> i \<and> i < r \<longrightarrow> buffer_compare (f i) needle < 0) \<and> (\<forall>i. r \<le> i \<and> i < m \<longrightarrow> \<not> buffer_compare (f i) needle < 0)"
        by (rule 1(2) [OF True m_def]) (use em ge m 1(3,4) in auto)
      then obtain r where r: "search_loop entry needle low m = Inr r" "low \<le> r" "r \<le> m"
        "\<And>i. low \<le> i \<Longrightarrow> i < r \<Longrightarrow> buffer_compare (f i) needle < 0" "\<And>i. r \<le> i \<Longrightarrow> i < m \<Longrightarrow> \<not> buffer_compare (f i) needle < 0" by blast
      moreover have "\<not> buffer_compare (f i) needle < 0" if "r \<le> i" "i < high" for i
        using that r(5) [of i] ge 1(4) [of m i] by (cases "i < m") auto
      ultimately show ?thesis using True em ge m
        by (intro exI [of _ r]) (auto simp: search_loop.simps [of entry needle low high] Let_def m_def [symmetric])
    qed
  qed
qed

lemma readUInt32BE_subarray: "i + 4 \<le> length b \<Longrightarrow> readUInt32BE (subarray b i (i + 4)) 0 = readUInt32BE b i"
  by (simp add: readUInt32BE_def subarray_def nth_take numeral_eq_Suc)

lemma read_range_built:
  assumes "store_files g f = Some idx" and "pos + n \<le> length idx" and "length idx \<le> MAX_SAFE" and "n \<le> 256"
  shows "read_range g f pos n = Inr (subarray idx pos (pos + n))"
  using assms by (simp add: read_range_def)

lemma word32_read:
  assumes "read32 idx pos = Inr v"
  shows "word32 (subarray idx pos (pos + 4)) = Inr v \<and> pos + 4 \<le> length idx"
proof -
  have "readUInt32BE idx pos = Some v" using assms by (simp add: read32_def split: option.splits)
  moreover have "pos + 4 \<le> length idx" using calculation by (simp add: readUInt32BE_def split: if_splits)
  ultimately show ?thesis by (simp add: word32_def readUInt32BE_subarray length_subarray)
qed


lemma sorted_filter_nth:
  assumes "sorted (map f xs)" and "i < length xs"
  shows "i < length (filter (\<lambda>x. f x < b) xs) \<longleftrightarrow> f (xs ! i) < (b::nat)"
proof -
  let ?lt = "filter (\<lambda>x. f x < b) xs" and ?ge = "filter (\<lambda>x. f x = b) xs @ filter (\<lambda>x. b < f x) xs"
  have split: "xs = ?lt @ ?ge" using split_by_key [OF assms(1)] by simp
  show ?thesis
  proof (cases "i < length ?lt")
    case True
    then have "xs ! i = ?lt ! i" by (subst split) (simp add: nth_append)
    then have "xs ! i \<in> set ?lt" using True by (metis nth_mem)
    with True show ?thesis by simp
  next
    case False
    then have "xs ! i = ?ge ! (i - length ?lt)" by (subst split) (simp only: nth_append if_False)
    moreover have "i - length ?lt < length ?ge" using False assms(2) arg_cong [OF split, of length] by simp
    ultimately have "xs ! i \<in> set ?ge" by (metis nth_mem)
    with False show ?thesis by auto
  qed
qed

lemma locate_range_built:
  assumes sha: "\<And>b. length (sha1 b) = 20" and valid: "idx_valid es" and cks: "length checksum = 20"
    and f: "store_files g f = Some (buildPackIndex sha1 es checksum)" and k: "k < 256"
  shows "locate_range g f k = Inr (length (filter (\<lambda>e. first_byte e < k) es), length (filter (\<lambda>e. first_byte e < Suc k) es), length es)"
proof -
  define idx where "idx = buildPackIndex sha1 es checksum"
  note r = built_index_reads [OF sha valid cks idx_def]
  have len: "length es < 4294967296" using valid by (simp add: idx_valid_def)
  have safe: "length idx \<le> MAX_SAFE" using r(1) len by (simp add: MAX_SAFE_def)
  have rd: "read_range g f pos n = Inr (subarray idx pos (pos + n))" if "pos + n \<le> length idx" "n \<le> 256" for pos n
    using read_range_built [of g f idx pos n] f that safe by (simp add: idx_def)
  have word: "\<exists>x. read_range g f (8 + b * 4) 4 = Inr x \<and> word32 x = Inr (length (filter (\<lambda>e. first_byte e < Suc b) es))" if "b < 256" for b
    using word32_read [OF r(2) [OF that]] rd [of "8 + b * 4" 4] by simp
  have hdr: "read_range g f 0 8 = Inr (subarray idx 0 8)" using rd [of 0 8] r(1) by simp
  have "idx ! i = IDX_SIGNATURE ! i" if "i < 4" for i
    using that arg_cong [OF r(8), of "\<lambda>x. x ! i"] by (simp add: subarray_def)
  from this [of 0] this [of 1] this [of 2] this [of 3]
  have "idx ! 0 = 0xff" "idx ! Suc 0 = 0x74" "idx ! Suc (Suc 0) = 0x4f" "idx ! Suc (Suc (Suc 0)) = 0x63" "idx ! 2 = 0x4f" "idx ! 3 = 0x63"
    by (simp_all add: IDX_SIGNATURE_def numeral_2_eq_2 numeral_3_eq_3)
  then have sig: "length (subarray idx 0 8) = 8" "readUInt32BE (subarray idx 0 8) 0 = Some 0xff744f63" "readUInt32BE (subarray idx 0 8) 4 = Some 2"
    using r(1,9) by (simp_all add: subarray_def readUInt32BE_def be32_def)
  have mono: "\<not> length (filter (\<lambda>e. first_byte e < Suc k) es) < length (filter (\<lambda>e. first_byte e < k) es)"
    by (induction es) auto
  obtain l where l: "read_range g f (8 + k * 4) 4 = Inr l" "word32 l = Inr (length (filter (\<lambda>e. first_byte e < Suc k) es))"
    using word [OF k] by blast
  obtain t where t: "read_range g f (8 + 255 * 4) 4 = Inr t" "word32 t = Inr (length es)"
    using word [of 255] by (auto simp: first_byte_all)
  show ?thesis
  proof (cases "k = 0")
    case True
    with hdr sig l t show ?thesis by (simp add: locate_range_def)
  next
    case False
    have "k - 1 < 256" using k by simp
    from word [OF this] False obtain a where a: "read_range g f (8 + (k - 1) * 4) 4 = Inr a"
      "word32 a = Inr (length (filter (\<lambda>e. first_byte e < k) es))" by auto
    with False hdr sig l t mono show ?thesis by (simp add: locate_range_def)
  qed
qed

lemma locate_offset_built:
  assumes sha: "\<And>b. length (sha1 b) = 20" and valid: "idx_valid es" and cks: "length checksum = 20"
    and f: "store_files g f = Some (buildPackIndex sha1 es checksum)" and i: "i < length es" and off: "12 \<le> offset (es ! i)"
  shows "locate_offset g f (length es) i = Inr (offset (es ! i))"
proof -
  define idx where "idx = buildPackIndex sha1 es checksum"
  note r = built_index_reads [OF sha valid cks idx_def]
  have len: "length es < 4294967296" "offset (es ! i) < 2147483648" using valid i by (simp_all add: idx_valid_def)
  have safe: "length idx \<le> MAX_SAFE" using r(1) len by (simp add: MAX_SAFE_def)
  let ?pos = "1032 + length es * 20 + length es * 4 + i * 4"
  note w = word32_read [OF r(5) [OF i]]
  have "8 + 1024 + length es * 24 + i * 4 = ?pos" by simp
  moreover have "read_range g f ?pos 4 = Inr (subarray idx ?pos (?pos + 4))"
    using read_range_built [of g f idx ?pos 4] f w safe by (simp add: idx_def)
  ultimately obtain x where "read_range g f (8 + 1024 + length es * 24 + i * 4) 4 = Inr x" "word32 x = Inr (offset (es ! i))"
    using w by metis
  then show ?thesis using off len unfolding locate_offset_def Let_def by (simp add: MAX_SAFE_def)
qed

lemma buffer_compare_le_less:
  assumes "buffer_compare a b \<le> 0" and "buffer_compare b c < 0"
  shows "buffer_compare a c < 0"
proof -
  have "buffer_compare a c \<le> 0" using assms by (intro buffer_compare_trans [of a b c]) auto
  moreover have "buffer_compare a c \<noteq> 0"
  proof
    assume "buffer_compare a c = 0"
    then have "a = c" by (simp only: buffer_compare_0)
    with assms buffer_compare_swap [of b c] show False by simp
  qed
  ultimately show ?thesis by linarith
qed

text \<open>The first index in the range of the fan-out table whose id is not less than the needle is that of the needle, if it is there.\<close>

lemma first_at_least_finds:
  assumes cmp: "\<And>i j. i \<le> j \<Longrightarrow> j < length es \<Longrightarrow> buffer_compare (oid (es ! i)) (oid (es ! j)) \<le> 0"
    and range: "\<And>i. i < length es \<Longrightarrow> oid (es ! i) = needle \<Longrightarrow> lo \<le> i \<and> i < hi" and hi: "hi \<le> length es"
    and less: "\<And>i. lo \<le> i \<Longrightarrow> i < q \<Longrightarrow> buffer_compare (oid (es ! i)) needle < 0"
    and geq: "\<And>i. q \<le> i \<Longrightarrow> i < hi \<Longrightarrow> \<not> buffer_compare (oid (es ! i)) needle < 0"
  shows "map_option offset (find (\<lambda>e. oid e = needle) es) =
     (if q \<ge> hi then None else if oid (es ! q) \<noteq> needle then None else Some (offset (es ! q)))"
proof (cases "find (\<lambda>e. oid e = needle) es")
  case None
  then have "q < hi \<Longrightarrow> oid (es ! q) \<noteq> needle" using hi nth_mem [of q es] unfolding find_None_iff by auto
  with None show ?thesis by auto
next
  case (Some e)
  then obtain i where i: "i < length es" "oid (es ! i) = needle" "e = es ! i" "\<And>j. j < i \<Longrightarrow> oid (es ! j) \<noteq> needle"
    unfolding find_Some_iff by blast
  have qi: "q \<le> i" using less [of i] range [OF i(1,2)] i(2) by (cases "i < q") simp_all
  then have q: "q < hi" using range [OF i(1,2)] by simp
  have "buffer_compare (oid (es ! q)) needle \<le> 0" using cmp [OF qi i(1)] unfolding i(2) .
  then have "buffer_compare (oid (es ! q)) needle = 0" using geq [OF order_refl q] by linarith
  then have "oid (es ! q) = needle" by (simp only: buffer_compare_0)
  moreover from this have "q = i" using i(4) [of q] qi by (cases "q < i") simp_all
  ultimately show ?thesis using Some q i(3) by simp
qed

lemma locate_built:
  assumes sha: "\<And>b. length (sha1 b) = 20" and valid: "idx_valid es" and cks: "length checksum = 20"
    and f: "store_files g f = Some (buildPackIndex sha1 es checksum)" and offs: "\<forall>e\<in>set es. 12 \<le> offset e" and needle: "length needle = 20"
  shows "locate_in g f needle = Inr (map_option offset (find (\<lambda>e. oid e = needle) es))"
proof -
  define idx where "idx = buildPackIndex sha1 es checksum"
  note r = built_index_reads [OF sha valid cks idx_def]
  have len: "length es < 4294967296" "\<And>i. i < length es \<Longrightarrow> length (oid (es ! i)) = 20" using valid by (simp_all add: idx_valid_def)
  have safe: "length idx \<le> MAX_SAFE" using r(1) len by (simp add: MAX_SAFE_def)
  define k where "k = unat (needle ! 0)"
  define lo where "lo = length (filter (\<lambda>e. first_byte e < k) es)"
  define hi where "hi = length (filter (\<lambda>e. first_byte e < Suc k) es)"
  have k: "k < 256" using unat_byte_le [of "needle ! 0"] by (simp add: k_def)
  have hi: "hi \<le> length es" by (simp add: hi_def)
  have lohi: "lo \<le> hi" unfolding lo_def hi_def by (induction es) auto
  have ent: "read_range g f (8 + 1024 + i * 20) 20 = Inr (oid (es ! i))" if "i < length es" for i
    using read_range_built [of g f idx "1032 + i * 20" 20] r(1) r(3) [OF that] f that safe by (simp add: idx_def)
  have cmp: "buffer_compare (oid (es ! i)) (oid (es ! j)) \<le> 0" if "i \<le> j" "j < length es" for i j
  proof (cases "i = j")
    case False
    then show ?thesis using that valid by (auto simp: idx_valid_def compare_oid_def sorted_wrt_iff_nth_less)
  qed simp
  have mono: "buffer_compare (oid (es ! i)) needle < 0" if "i \<le> j" "j < hi" "buffer_compare (oid (es ! j)) needle < 0" for i j
    by (rule buffer_compare_le_less [OF cmp [of i j] that(3)]) (use that hi in simp_all)
  have pre: "read_range g f (8 + 1024 + i * 20) 20 = Inr (oid (es ! i)) \<and> length (oid (es ! i)) = 20" if "i < hi" for i
    using that hi ent [of i] len(2) [of i] by simp
  obtain q where q: "search_loop (\<lambda>i. read_range g f (8 + 1024 + i * 20) 20) needle lo hi = Inr q" "lo \<le> q" "q \<le> hi"
    "\<And>i. lo \<le> i \<Longrightarrow> i < q \<Longrightarrow> buffer_compare (oid (es ! i)) needle < 0"
    "\<And>i. q \<le> i \<Longrightarrow> i < hi \<Longrightarrow> \<not> buffer_compare (oid (es ! i)) needle < 0"
  proof -
    have "\<exists>r. search_loop (\<lambda>i. read_range g f (8 + 1024 + i * 20) 20) needle lo hi = Inr r \<and> lo \<le> r \<and> r \<le> hi \<and>
        (\<forall>i. lo \<le> i \<and> i < r \<longrightarrow> buffer_compare (oid (es ! i)) needle < 0) \<and>
        (\<forall>i. r \<le> i \<and> i < hi \<longrightarrow> \<not> buffer_compare (oid (es ! i)) needle < 0)"
      by (rule search_loop_spec [OF pre _ lohi]) (auto intro: mono)
    then show thesis by (elim exE conjE, intro that) auto
  qed
  have loc: "locate_in g f needle = (if q \<ge> hi then Inr None else if oid (es ! q) \<noteq> needle then Inr None else Inr (Some (offset (es ! q))))"
  proof (cases "q < hi")
    case False
    with locate_range_built [OF sha valid cks f k] q(1) show ?thesis
      unfolding locate_in_def k_def [symmetric] lo_def [symmetric] hi_def [symmetric] by simp
  next
    case True
    then have ql: "q < length es" using hi by simp
    then have "locate_offset g f (length es) q = Inr (offset (es ! q))"
      using offs by (intro locate_offset_built [OF sha valid cks f]) auto
    with True locate_range_built [OF sha valid cks f k] q(1) ent [OF ql] show ?thesis
      unfolding locate_in_def k_def [symmetric] lo_def [symmetric] hi_def [symmetric] by simp
  qed
  have range: "lo \<le> i \<and> i < hi" if i: "i < length es" "oid (es ! i) = needle" for i
  proof -
    have "first_byte (es ! i) = k" using i(2) by (simp add: first_byte_def k_def)
    then have "\<not> i < lo" "i < hi"
      unfolding lo_def hi_def by (simp_all only: sorted_filter_nth [OF first_byte_sorted [OF valid] i(1)] lessI less_irrefl not_False_eq_True)
    then show ?thesis by (simp only: not_less)
  qed
  have "map_option offset (find (\<lambda>e. oid e = needle) es) =
      (if q \<ge> hi then None else if oid (es ! q) \<noteq> needle then None else Some (offset (es ! q)))"
    by (rule first_at_least_finds [where lo = lo]) (fact cmp range hi q(4) q(5))+
  then show ?thesis unfolding loc by presburger
qed

text \<open>C39. On an index that \<open>buildPackIndex\<close> wrote, the binary search over the fan-out table returns what a linear
  search of its entries returns: the offset of the first entry with the id, and nothing when no entry has it.\<close>

theorem locate_finds:
  assumes "\<And>b. length (sha1 b) = 20" and "idx_valid es" and "length checksum = 20"
    and "store_files g f = Some (buildPackIndex sha1 es checksum)" and "\<forall>e\<in>set es. 12 \<le> offset e" and "length needle = 20"
  shows "locate_in g f needle = Inr (map_option offset (find (\<lambda>e. oid e = needle) es))"
  using assms by (rule locate_built)

definition demo_store :: git_store where
  "demo_store = \<lparr>store_files = (\<lambda>f. Some (buildPackIndex demo_sha1 (demo_entries 1 demo_blob 3 demo_blob) (replicate 20 0))),
     store_packs = [''a.idx''], store_inflate = (\<lambda>b. \<lparr>inf_error = True, inf_stopped = False, inf_ended = False, inf_output = []\<rparr>)\<rparr>"

theorem locate_finds_witness:
  "locate_in demo_store ''a.idx'' (replicate 20 3) = Inr (Some 15) \<and> locate_in demo_store ''a.idx'' (replicate 20 2) = Inr None"
proof -
  have "locate_in demo_store ''a.idx'' n = Inr (map_option offset (find (\<lambda>e. oid e = n) (demo_entries 1 demo_blob 3 demo_blob)))"
    if "length n = 20" for n
    by (rule locate_finds [of demo_sha1 _ "replicate 20 0"])
      (use demo_valid [of 1 3 demo_blob demo_blob] that in \<open>simp_all add: demo_sha1_def demo_store_def demo_entries_def\<close>)
  from this [of "replicate 20 3"] this [of "replicate 20 2"] show ?thesis by (simp add: demo_entries_def)
qed

end
