(* ===== verification/DeviceStatusReporter.thy ===== *)
theory DeviceStatusReporter
  imports Prelude
begin

text \<open>
  \<^verbatim>\<open>obsidian-plugin/src/device-status-reporter.cjs\<close>: a reporter that sends the newest status snapshot of a
  device, one at a time, and backs off after failures. The variables of the closure are the record
  \<open>reporter\<close>. The promise \<open>running\<close> is \<open>Idle\<close> (null), \<open>Scheduled\<close> (\<open>run\<close> has not been entered), \<open>Sending s\<close>
  (\<open>run\<close> awaits \<open>send s\<close>) or \<open>Ended\<close> (\<open>run\<close> has returned, \<open>finally\<close> has not run). Each operation is one
  turn of the event loop; \<open>now ()\<close> is read where the code reads it, so a turn takes its clock readings as
  arguments. Times are milliseconds.
\<close>

definition DEVICE_STATUS_HEARTBEAT_MS :: nat where
  "DEVICE_STATUS_HEARTBEAT_MS = 2 * 60 * 1000"

definition DEVICE_STATUS_RETRY_MS :: nat where
  "DEVICE_STATUS_RETRY_MS = 30 * 1000"

record snapshot =
  signature :: string
  force :: bool
  feedback :: bool

datatype running = Idle | Scheduled | Sending snapshot | Ended

record reporter =
  r_pending :: "snapshot option"
  r_running :: running
  acceptedSignature :: "string option"
  acceptedAt :: nat
  retryAt :: nat
  failures :: nat
  requiresServerFeedback :: bool
  r_closed :: bool

definition createDeviceStatusReporter :: reporter where
  "createDeviceStatusReporter = \<lparr>r_pending = None, r_running = Idle, acceptedSignature = None, acceptedAt = 0,
     retryAt = 0, failures = 0, requiresServerFeedback = False, r_closed = False\<rparr>"

definition unchanged :: "reporter \<Rightarrow> snapshot \<Rightarrow> nat \<Rightarrow> bool" where
  "unchanged st s t \<longleftrightarrow> \<not> force s \<and> \<not> feedback s \<and> Some (signature s) = acceptedSignature st \<and>
     t - acceptedAt st < DEVICE_STATUS_HEARTBEAT_MS"

text \<open>The loop of \<open>run\<close> up to its next \<open>await\<close> or its end. A \<open>continue\<close> finds \<open>pending\<close> empty, since nothing
  else runs in between, so the loop body runs at most once in a turn.\<close>

definition run_turn :: "nat \<Rightarrow> nat \<Rightarrow> reporter \<Rightarrow> reporter" where
  "run_turn t1 t2 st =
     (case r_pending st of
        None \<Rightarrow> st\<lparr>r_running := Ended\<rparr>
      | Some s \<Rightarrow>
          if r_closed st then st\<lparr>r_running := Ended\<rparr>
          else if unchanged st s t1 then st\<lparr>r_pending := None, r_running := Ended\<rparr>
          else if t2 < retryAt st then st\<lparr>r_pending := None, r_running := Ended\<rparr>
          else st\<lparr>r_pending := None, r_running := Sending s\<rparr>)"

definition backoff :: "nat \<Rightarrow> nat" where
  "backoff n = min DEVICE_STATUS_HEARTBEAT_MS (DEVICE_STATUS_RETRY_MS * 2 ^ (n - 1))"

definition send_ok :: "snapshot \<Rightarrow> nat \<Rightarrow> nat \<Rightarrow> nat \<Rightarrow> reporter \<Rightarrow> reporter" where
  "send_ok s t t1 t2 st =
     (if r_closed st then st\<lparr>r_running := Ended\<rparr>
      else run_turn t1 t2 (st\<lparr>acceptedSignature := Some (signature s), acceptedAt := t, retryAt := 0, failures := 0\<rparr>))"

definition send_failed :: "nat \<Rightarrow> nat \<Rightarrow> nat \<Rightarrow> reporter \<Rightarrow> reporter" where
  "send_failed t t1 t2 st =
     (if r_closed st then st\<lparr>r_running := Ended\<rparr>
      else let n = min (failures st + 1) 3
           in run_turn t1 t2 (st\<lparr>failures := n, retryAt := t + backoff n\<rparr>))"

definition start :: "reporter \<Rightarrow> reporter" where
  "start st = (if r_running st = Idle then st\<lparr>r_running := Scheduled\<rparr> else st)"

definition run_finally :: "reporter \<Rightarrow> reporter" where
  "run_finally st = (let st' = st\<lparr>r_running := Idle\<rparr> in if r_pending st' \<noteq> None then start st' else st')"

definition close_reporter :: "reporter \<Rightarrow> reporter" where
  "close_reporter st = st\<lparr>r_closed := True, r_pending := None, requiresServerFeedback := False\<rparr>"

definition request_report :: "snapshot \<Rightarrow> reporter \<Rightarrow> reporter" where
  "request_report s st =
     (if r_closed st then st
      else start (st\<lparr>requiresServerFeedback := feedback s,
        r_pending := Some (case r_pending st of Some p \<Rightarrow> if force p then s\<lparr>force := True\<rparr> else s | None \<Rightarrow> s)\<rparr>))"

definition heartbeatDue :: "nat \<Rightarrow> reporter \<Rightarrow> bool" where
  "heartbeatDue t st \<longleftrightarrow> \<not> r_closed st \<and>
     (requiresServerFeedback st \<or> acceptedSignature st = None \<or> t - acceptedAt st \<ge> DEVICE_STATUS_HEARTBEAT_MS)"

section \<open>Runs\<close>

text \<open>What the server sees, newest first: a snapshot was sent, or the reply to the last one arrived.\<close>

datatype exchange = Sent nat snapshot | Accepted nat | Failed nat

definition sent :: "reporter \<Rightarrow> nat \<Rightarrow> exchange list" where
  "sent st t = (case r_running st of Sending s \<Rightarrow> [Sent t s] | _ \<Rightarrow> [])"

text \<open>The turns that need no caller: entering \<open>run\<close>, the reply of \<open>send\<close>, and \<open>finally\<close>. The clock does not run
  backwards within a turn.\<close>

inductive turn :: "reporter \<times> exchange list \<Rightarrow> reporter \<times> exchange list \<Rightarrow> bool" where
  turn_enter: "r_running st = Scheduled \<Longrightarrow> t1 \<le> t2 \<Longrightarrow> st' = run_turn t1 t2 st \<Longrightarrow> turn (st, l) (st', sent st' t2 @ l)"
| turn_ok: "r_running st = Sending s \<Longrightarrow> t \<le> t1 \<Longrightarrow> t1 \<le> t2 \<Longrightarrow> st' = send_ok s t t1 t2 st \<Longrightarrow>
    turn (st, l) (st', sent st' t2 @ Accepted t # l)"
| turn_fail: "r_running st = Sending s \<Longrightarrow> t \<le> t1 \<Longrightarrow> t1 \<le> t2 \<Longrightarrow> st' = send_failed t t1 t2 st \<Longrightarrow>
    turn (st, l) (st', sent st' t2 @ Failed t # l)"
| turn_finally: "r_running st = Ended \<Longrightarrow> turn (st, l) (run_finally st, l)"

inductive reporter_step :: "reporter \<times> exchange list \<Rightarrow> reporter \<times> exchange list \<Rightarrow> bool" where
  step_turn: "turn x y \<Longrightarrow> reporter_step x y"
| step_request: "reporter_step (st, l) (request_report s st, l)"
| step_close: "reporter_step (st, l) (close_reporter st, l)"

inductive_cases turn_cases: "turn (st, l) y"
inductive_cases reporter_step_cases: "reporter_step (st, l) y"

text \<open>The length of the current run of failures and the earliest time of the next report after the log \<open>l\<close>.\<close>

fun failed_since :: "exchange list \<Rightarrow> nat" where
  "failed_since [] = 0"
| "failed_since (Failed t # l) = Suc (failed_since l)"
| "failed_since (Accepted t # l) = 0"
| "failed_since (Sent t s # l) = failed_since l"

fun earliest :: "exchange list \<Rightarrow> nat" where
  "earliest [] = 0"
| "earliest (Failed t # l) = t + backoff (min (failed_since l + 1) 3)"
| "earliest (Accepted t # l) = 0"
| "earliest (Sent t s # l) = earliest l"

text \<open>Every report waits for the answer of the one before it and for its backoff.\<close>

fun paced :: "exchange list \<Rightarrow> bool" where
  "paced [] \<longleftrightarrow> True"
| "paced (Sent t s # l) \<longleftrightarrow> earliest l \<le> t \<and> (case l of Sent _ _ # _ \<Rightarrow> False | _ \<Rightarrow> True) \<and> paced l"
| "paced (x # l) \<longleftrightarrow> paced l"

definition awaiting :: "exchange list \<Rightarrow> bool" where
  "awaiting l \<longleftrightarrow> (case l of Sent _ _ # _ \<Rightarrow> True | _ \<Rightarrow> False)"

definition reporter_ok :: "reporter \<times> exchange list \<Rightarrow> bool" where
  "reporter_ok x = (case x of (st, l) \<Rightarrow>
     paced l \<and> (awaiting l \<longleftrightarrow> (\<exists>s. r_running st = Sending s)) \<and>
     (\<not> r_closed st \<longrightarrow> retryAt st = earliest l \<and> failures st = min (failed_since l) 3) \<and>
     (r_pending st \<noteq> None \<longrightarrow> r_running st \<noteq> Idle \<and> \<not> r_closed st))"

lemma run_turn_simps [simp]:
  "retryAt (run_turn t1 t2 st) = retryAt st" "failures (run_turn t1 t2 st) = failures st" "r_closed (run_turn t1 t2 st) = r_closed st"
  by (auto simp: run_turn_def split: option.splits)

lemma sent_run_turn:
  "sent (run_turn t1 t2 st) t = (case r_running (run_turn t1 t2 st) of Sending s \<Rightarrow> [Sent t s] | _ \<Rightarrow> [])"
  by (simp add: sent_def)

text \<open>The shared part of the three turns that enter the loop: \<open>l\<close> already records the reply.\<close>

lemma run_turn_ok:
  assumes "paced l" and "\<not> awaiting l" and "\<not> r_closed st \<Longrightarrow> retryAt st = earliest l \<and> failures st = min (failed_since l) 3"
    and "r_pending st \<noteq> None \<Longrightarrow> \<not> r_closed st"
  shows "reporter_ok (run_turn t1 t2 st, sent (run_turn t1 t2 st) t2 @ l)"
  using assms by (auto simp: reporter_ok_def run_turn_def sent_def awaiting_def split: option.splits list.splits exchange.splits)

lemma turn_keeps_ok:
  assumes "turn x y" and "reporter_ok x"
  shows "reporter_ok y"
  using assms
proof (induction rule: turn.induct)
  case (turn_enter st t1 t2 st' l)
  show ?case unfolding turn_enter(3) by (rule run_turn_ok) (use turn_enter in \<open>auto simp: reporter_ok_def\<close>)
next
  case (turn_ok st s t t1 t2 st' l)
  show ?case
  proof (cases "r_closed st")
    case True
    with turn_ok show ?thesis by (auto simp: send_ok_def reporter_ok_def sent_def awaiting_def)
  next
    case False
    then show ?thesis unfolding turn_ok(4) send_ok_def if_not_P [OF False]
      by (intro run_turn_ok) (use turn_ok in \<open>auto simp: reporter_ok_def awaiting_def\<close>)
  qed
next
  case (turn_fail st s t t1 t2 st' l)
  show ?case
  proof (cases "r_closed st")
    case True
    with turn_fail show ?thesis by (auto simp: send_failed_def reporter_ok_def sent_def awaiting_def)
  next
    case False
    then show ?thesis unfolding turn_fail(4) send_failed_def Let_def if_not_P [OF False]
      by (intro run_turn_ok) (use turn_fail in \<open>auto simp: reporter_ok_def awaiting_def min_def\<close>)
  qed
next
  case (turn_finally st l)
  then show ?case by (auto simp: run_finally_def start_def reporter_ok_def Let_def)
qed

lemma reporter_step_keeps_ok:
  assumes "reporter_step x y" and "reporter_ok x"
  shows "reporter_ok y"
  using assms
proof (induction rule: reporter_step.induct)
  case (step_turn x y)
  then show ?case by (rule turn_keeps_ok)
next
  case (step_request st l s)
  then show ?case by (cases "r_running st") (auto simp: request_report_def start_def reporter_ok_def)
next
  case (step_close st l)
  then show ?case by (auto simp: close_reporter_def reporter_ok_def)
qed

interpretation reports: invariant_system "\<lambda>x. x = (createDeviceStatusReporter, [])" reporter_step reporter_ok
proof
  show "reporter_ok x" if "x = (createDeviceStatusReporter, [])" for x
    using that by (simp add: reporter_ok_def createDeviceStatusReporter_def awaiting_def)
qed (rule reporter_step_keeps_ok)

lemmas reporter_reachable_ok = reports.reachable [OF refl]

lemma closed_step:
  assumes "reporter_step (st, l) (st', l')" and "r_closed st"
  shows "r_closed st' \<and> (l' = l \<or> (\<exists>t. l' = Accepted t # l \<or> l' = Failed t # l))"
  using assms
  by (auto elim!: reporter_step_cases turn_cases simp: sent_def run_turn_def send_ok_def send_failed_def run_finally_def
      start_def request_report_def close_reporter_def Let_def split: option.splits if_splits)

text \<open>The number of turns left until \<open>flush\<close> returns, when no one makes requests.\<close>

definition turns_left :: "reporter \<Rightarrow> nat" where
  "turns_left st = (let p = r_pending st \<noteq> None in
     case r_running st of Idle \<Rightarrow> 0 | Ended \<Rightarrow> (if p then 5 else 1) | Scheduled \<Rightarrow> (if p then 4 else 2) | Sending s \<Rightarrow> (if p then 3 else 2))"

lemma turn_decreases:
  assumes "turn (st, l) (st', l')" and "r_pending st \<noteq> None \<Longrightarrow> \<not> r_closed st"
  shows "turns_left st' < turns_left st"
  using assms
  by (auto elim!: turn_cases simp: turns_left_def run_turn_def send_ok_def send_failed_def run_finally_def
      start_def Let_def split: option.splits if_splits)

lemma paced_append: "paced (newer @ l) \<Longrightarrow> paced l"
proof (induction newer)
  case (Cons x newer)
  then show ?case by (cases x) auto
qed simp

lemma backoff_after: "backoff (min (n + 1) 3) = (if n = 0 then 30000 else if n = 1 then 60000 else 120000)"
proof -
  consider "n = 0" | "n = 1" | "2 \<le> n" by linarith
  then show ?thesis by cases (simp_all add: backoff_def DEVICE_STATUS_HEARTBEAT_MS_def DEVICE_STATUS_RETRY_MS_def min_def)
qed

lemma earliest_failed: "earliest (Failed t # l) = t + (if failed_since l = 0 then 30000 else if failed_since l = 1 then 60000 else 120000)"
  unfolding earliest.simps(2) backoff_after ..

text \<open>C22. However requests, replies and closing interleave, a report is only sent when the one before it has been
  answered, and after a failed one no earlier than 30, 60 or 120 seconds after the first, second or any later
  failure in a row. Once the reporter is closed no turn sends anything, whatever is still outstanding.\<close>

theorem reporter_paced:
  assumes "reporter_step\<^sup>*\<^sup>* (createDeviceStatusReporter, []) (st, newer @ Sent t s # older)"
  shows "\<not> awaiting older \<and>
    (case older of Failed t0 # l \<Rightarrow> t0 + (if failed_since l = 0 then 30000 else if failed_since l = 1 then 60000 else 120000) \<le> t
       | _ \<Rightarrow> True) \<and>
    (r_closed st \<longrightarrow> (\<forall>st' l'. reporter_step (st, newer @ Sent t s # older) (st', l') \<longrightarrow>
       r_closed st' \<and> length (filter (\<lambda>x. \<exists>t s. x = Sent t s) l') = length (filter (\<lambda>x. \<exists>t s. x = Sent t s) (newer @ Sent t s # older))))"
proof (intro conjI allI impI)
  have p: "paced (Sent t s # older)"
    by (rule paced_append [of newer]) (use reporter_reachable_ok [OF assms] in \<open>simp add: reporter_ok_def\<close>)
  then show "\<not> awaiting older" by (auto simp: awaiting_def split: list.splits exchange.splits)
  show "case older of Failed t0 # l \<Rightarrow> t0 + (if failed_since l = 0 then 30000 else if failed_since l = 1 then 60000 else 120000) \<le> t | _ \<Rightarrow> True"
    using p by (cases older rule: earliest.cases) (simp_all add: earliest_failed del: earliest.simps(2))
next
  fix st' l' assume c: "r_closed st" "reporter_step (st, newer @ Sent t s # older) (st', l')"
  note r = closed_step [OF c(2,1)]
  then show "r_closed st'" by blast
  from r show "length (filter (\<lambda>x. \<exists>t s. x = Sent t s) l') = length (filter (\<lambda>x. \<exists>t s. x = Sent t s) (newer @ Sent t s # older))"
    by auto
qed

definition demo_snapshot :: snapshot where
  "demo_snapshot = \<lparr>signature = ''ok'', force = False, feedback = False\<rparr>"

definition demo_reporter :: "nat \<Rightarrow> running \<Rightarrow> nat \<Rightarrow> nat \<Rightarrow> reporter" where
  "demo_reporter n r retry f = \<lparr>r_pending = (if n = 0 then None else Some demo_snapshot), r_running = r, acceptedSignature = None, acceptedAt = 0,
     retryAt = retry, failures = f, requiresServerFeedback = False, r_closed = False\<rparr>"

lemmas demo_reporter_simps = demo_reporter_def demo_snapshot_def createDeviceStatusReporter_def request_report_def start_def run_turn_def
  send_failed_def run_finally_def unchanged_def sent_def backoff_def DEVICE_STATUS_HEARTBEAT_MS_def DEVICE_STATUS_RETRY_MS_def Let_def

lemma demo_report_run:
  "reporter_step\<^sup>*\<^sup>* (createDeviceStatusReporter, []) (demo_reporter 0 (Sending demo_snapshot) 30000 1,
     [Sent 30000 demo_snapshot, Failed 0, Sent 0 demo_snapshot])"
proof -
  have "reporter_step (createDeviceStatusReporter, []) (demo_reporter 1 Scheduled 0 0, [])"
    using step_request [of createDeviceStatusReporter "[]" demo_snapshot] by (simp add: demo_reporter_simps)
  moreover have "turn (demo_reporter 1 Scheduled 0 0, []) (demo_reporter 0 (Sending demo_snapshot) 0 0, [Sent 0 demo_snapshot])"
    using turn_enter [of "demo_reporter 1 Scheduled 0 0" 0 0 _ "[]"] by (simp add: demo_reporter_simps)
  moreover have "reporter_step (demo_reporter 0 (Sending demo_snapshot) 0 0, [Sent 0 demo_snapshot])
      (demo_reporter 1 (Sending demo_snapshot) 0 0, [Sent 0 demo_snapshot])"
    using step_request [of "demo_reporter 0 (Sending demo_snapshot) 0 0" "[Sent 0 demo_snapshot]" demo_snapshot] by (simp add: demo_reporter_simps)
  moreover have "turn (demo_reporter 1 (Sending demo_snapshot) 0 0, [Sent 0 demo_snapshot])
      (demo_reporter 0 (Sending demo_snapshot) 30000 1, [Sent 30000 demo_snapshot, Failed 0, Sent 0 demo_snapshot])"
    using turn_fail [of "demo_reporter 1 (Sending demo_snapshot) 0 0" demo_snapshot 0 30000 30000 _ "[Sent 0 demo_snapshot]"]
    by (simp add: demo_reporter_simps)
  ultimately show ?thesis by (meson rtranclp.rtrancl_into_rtrancl rtranclp.rtrancl_refl step_turn)
qed

theorem reporter_paced_witness: "\<not> awaiting [Failed 0, Sent 0 demo_snapshot] \<and> 0 + 30000 \<le> (30000::nat)"
  using reporter_paced [of _ "[]" 30000 demo_snapshot "[Failed 0, Sent 0 demo_snapshot]", unfolded append_Nil, OF demo_report_run] by simp

text \<open>A requested status is never stranded: while one is pending the reporter is running and not closed; without
  further requests it comes to rest after at most five turns, whatever the replies are; and when no turn is possible
  \<open>running\<close> is null and nothing is pending, so \<open>flush\<close> returns.\<close>

theorem reporter_flushes:
  assumes "reporter_step\<^sup>*\<^sup>* (createDeviceStatusReporter, []) (st, l)"
  shows "(r_pending st \<noteq> None \<longrightarrow> r_running st \<noteq> Idle \<and> \<not> r_closed st) \<and>
    (\<forall>n y. (turn ^^ n) (st, l) y \<longrightarrow> n \<le> 5) \<and>
    ((\<nexists>y. turn (st, l) y) \<longleftrightarrow> r_running st = Idle) \<and> (r_running st = Idle \<longrightarrow> r_pending st = None)"
proof -
  have ok: "reporter_ok (st, l)" by (rule reporter_reachable_ok [OF assms])
  have "turns_left (fst y) + n \<le> turns_left st \<and> reporter_ok y" if "(turn ^^ n) (st, l) y" for n y
    using that
  proof (induction n arbitrary: y)
    case (Suc n)
    then obtain z where z: "(turn ^^ n) (st, l) z" "turn z y" by auto
    with Suc.IH have "turns_left (fst z) + n \<le> turns_left st" "reporter_ok z" by auto
    moreover have "turns_left (fst y) < turns_left (fst z)"
      using turn_decreases [of "fst z" "snd z" "fst y" "snd y"] z(2) \<open>reporter_ok z\<close> by (auto simp: reporter_ok_def split: prod.splits)
    ultimately show ?case using turn_keeps_ok z(2) by auto
  qed (use ok in simp)
  moreover have "turns_left st \<le> 5" by (simp add: turns_left_def Let_def split: running.split)
  ultimately have "n \<le> 5" if "(turn ^^ n) (st, l) y" for n y using that by fastforce
  moreover have "(\<nexists>y. turn (st, l) y) \<longleftrightarrow> r_running st = Idle"
    by (cases "r_running st") (auto elim: turn_cases intro: turn_enter turn_ok turn_finally)
  ultimately show ?thesis using ok by (auto simp: reporter_ok_def)
qed

theorem reporter_flushes_witness:
  "\<not> r_closed (demo_reporter 0 (Sending demo_snapshot) 30000 1) \<and>
   (\<exists>y. turn (demo_reporter 0 (Sending demo_snapshot) 30000 1, [Sent 30000 demo_snapshot, Failed 0, Sent 0 demo_snapshot]) y)"
  using reporter_flushes [OF demo_report_run] by (auto simp: demo_reporter_def)

end
