(* ===== verification/PluginVersion.thy ===== *)
theory PluginVersion
  imports Prelude
begin

text \<open>
  \<^verbatim>\<open>src/shared/pluginCompatibility.ts\<close>: parsing and ordering the versions of the plugin. \<open>Number\<close> of a digit string is
  the nearest double; \<open>js_number\<close> rounds to 53 significant bits, half to even, and what is \<open>Infinity\<close> in JavaScript is
  \<open>2 ^ 1024\<close> here, which compares the same way.
\<close>

definition is_version_char :: "char \<Rightarrow> bool" where
  "is_version_char c \<longleftrightarrow> (let n = of_char c :: nat in
     48 \<le> n \<and> n \<le> 57 \<or> 65 \<le> n \<and> n \<le> 90 \<or> 97 \<le> n \<and> n \<le> 122 \<or> c = CHR ''.'' \<or> c = CHR ''-'')"

fun excess_bits :: "nat \<Rightarrow> nat" where
  "excess_bits n = (if n < 2 ^ 53 then 0 else Suc (excess_bits (n div 2)))"

definition round_double :: "nat \<Rightarrow> nat" where
  "round_double n =
     (let k = excess_bits n; q = n div 2 ^ k; r = n mod 2 ^ k;
          up = (2 * r > 2 ^ k \<or> 2 * r = 2 ^ k \<and> odd q)
      in if k = 0 then n else min (2 ^ 1024) ((if up then q + 1 else q) * 2 ^ k))"

definition js_number :: "string \<Rightarrow> nat" where
  "js_number s = round_double (digits_value s)"

record parsed_version =
  major :: nat
  minor :: nat
  patch :: nat
  prerelease :: "string list"

text \<open>\<open>(0|[1-9]\d*)\<close>\<close>

definition number_part :: "string \<Rightarrow> bool" where
  "number_part s \<longleftrightarrow> s \<noteq> [] \<and> list_all is_digit s \<and> (s = ''0'' \<or> hd s \<noteq> CHR ''0'')"

text \<open>The longest run of digits and what follows it; the next character of the pattern is not a digit, so a shorter
  run never matches.\<close>

definition split_digits :: "string \<Rightarrow> string \<times> string" where
  "split_digits s = (takeWhile is_digit s, dropWhile is_digit s)"

text \<open>\<open>(?:-([0-9A-Za-z.-]+))?(?:\+[0-9A-Za-z.-]+)?$\<close>: the text of the group, empty when it is absent.\<close>

definition parse_suffix :: "string \<Rightarrow> string option" where
  "parse_suffix s =
     (let (pre, rest) = (case expect CHR ''-'' s of
            None \<Rightarrow> ([], s)
          | Some t \<Rightarrow> (takeWhile is_version_char t, if takeWhile is_version_char t = [] then s else dropWhile is_version_char t))
      in case rest of
           [] \<Rightarrow> Some pre
         | x # build \<Rightarrow> if x = CHR ''+'' \<and> build \<noteq> [] \<and> list_all is_version_char build then Some pre else None)"

definition parseVersion :: "string \<Rightarrow> parsed_version option" where
  "parseVersion value =
     (let s = (case value of x # xs \<Rightarrow> if x = CHR ''v'' then xs else value | [] \<Rightarrow> value);
          (a, s1) = split_digits s
      in Option.bind (expect CHR ''.'' s1) (\<lambda>s2. let (b, s3) = split_digits s2 in
         Option.bind (expect CHR ''.'' s3) (\<lambda>s4. let (c, s5) = split_digits s4 in
         if number_part a \<and> number_part b \<and> number_part c then
           map_option (\<lambda>pre. \<lparr>major = js_number a, minor = js_number b, patch = js_number c,
               prerelease = (if pre = [] then [] else js_split CHR ''.'' pre)\<rparr>)
             (parse_suffix s5)
         else None)))"

definition is_numeric :: "string \<Rightarrow> bool" where
  "is_numeric s \<longleftrightarrow> s \<noteq> [] \<and> list_all is_digit s"

definition compare_part :: "string \<Rightarrow> string \<Rightarrow> int" where
  "compare_part leftPart rightPart =
     (if is_numeric leftPart \<and> is_numeric rightPart then if js_number leftPart < js_number rightPart then -1 else 1
      else if is_numeric leftPart \<noteq> is_numeric rightPart then if is_numeric leftPart then -1 else 1
      else if leftPart < rightPart then -1 else 1)"

fun compare_prerelease :: "string list \<Rightarrow> string list \<Rightarrow> int" where
  "compare_prerelease [] [] = 0"
| "compare_prerelease [] (r # rs) = -1"
| "compare_prerelease (l # ls) [] = 1"
| "compare_prerelease (l # ls) (r # rs) = (if l = r then compare_prerelease ls rs else compare_part l r)"

definition compareVersions :: "parsed_version \<Rightarrow> parsed_version \<Rightarrow> int" where
  "compareVersions left right =
     (if major left \<noteq> major right then if major left < major right then -1 else 1
      else if minor left \<noteq> minor right then if minor left < minor right then -1 else 1
      else if patch left \<noteq> patch right then if patch left < patch right then -1 else 1
      else if prerelease left = [] \<or> prerelease right = [] then
        (if length (prerelease left) = length (prerelease right) then 0 else if length (prerelease left) = 0 then 1 else -1)
      else compare_prerelease (prerelease left) (prerelease right))"

definition MINIMUM_PLUGIN_VERSION :: string where "MINIMUM_PLUGIN_VERSION = ''0.2.0''"
definition RECOMMENDED_PLUGIN_VERSION :: string where "RECOMMENDED_PLUGIN_VERSION = ''0.7.5''"
definition PLUGIN_UPDATE_URL :: string where "PLUGIN_UPDATE_URL = ''obsidian://brat?plugin=nareto%2Fobts''"

definition isPluginVersionAtLeast :: "string option \<Rightarrow> string \<Rightarrow> bool" where
  "isPluginVersionAtLeast version minimumVersion =
     (case version of
        None \<Rightarrow> False
      | Some v \<Rightarrow> v \<noteq> [] \<and> (case (parseVersion v, parseVersion minimumVersion) of
          (Some current, Some minimum) \<Rightarrow> compareVersions current minimum \<ge> 0 | _ \<Rightarrow> False))"

record plugin_compatibility =
  current_version :: string
  minimum_version :: string
  recommended_version :: string
  update_required :: bool
  update_available :: bool
  update_url :: string

definition describePluginCompatibility :: "string \<Rightarrow> plugin_compatibility" where
  "describePluginCompatibility version =
     (let below = (\<lambda>bound. case (parseVersion version, parseVersion bound) of
            (Some c, Some b) \<Rightarrow> compareVersions c b < 0 | _ \<Rightarrow> True);
          updateRequired = below MINIMUM_PLUGIN_VERSION
      in \<lparr>current_version = version, minimum_version = MINIMUM_PLUGIN_VERSION, recommended_version = RECOMMENDED_PLUGIN_VERSION,
          update_required = updateRequired, update_available = (updateRequired \<or> below RECOMMENDED_PLUGIN_VERSION),
          update_url = PLUGIN_UPDATE_URL\<rparr>)"

section \<open>The order of versions\<close>

declare excess_bits.simps [simp del]

lemma js_number_exact: "digits_value s < 2 ^ 53 \<Longrightarrow> js_number s = digits_value s"
  by (simp add: js_number_def round_double_def excess_bits.simps)

lemmas version_eval = parseVersion_def split_digits_def expect_def parse_suffix_def number_part_def is_digit_def is_version_char_def
  js_number_exact digits_value_def Let_def

text \<open>The release part of a version, ordered lexicographically, with a pre-release below its release.\<close>

lemma compareVersions_trans_release:
  assumes "compareVersions c b \<ge> 0" and "compareVersions b a \<ge> 0" and "prerelease a = []"
  shows "compareVersions c a \<ge> 0"
  using assms by (auto simp: compareVersions_def split: if_splits)

lemma bounds_parse:
  "parseVersion MINIMUM_PLUGIN_VERSION = Some \<lparr>major = 0, minor = 2, patch = 0, prerelease = []\<rparr>"
  "parseVersion RECOMMENDED_PLUGIN_VERSION = Some \<lparr>major = 0, minor = 7, patch = 5, prerelease = []\<rparr>"
  by (simp_all add: MINIMUM_PLUGIN_VERSION_def RECOMMENDED_PLUGIN_VERSION_def version_eval)

lemma demo_versions:
  "parseVersion ''0.10.0'' = Some \<lparr>major = 0, minor = 10, patch = 0, prerelease = []\<rparr>"
  "parseVersion ''0.7.5'' = Some \<lparr>major = 0, minor = 7, patch = 5, prerelease = []\<rparr>"
  "parseVersion ''0.2.0-beta.1'' = Some \<lparr>major = 0, minor = 2, patch = 0, prerelease = [''beta'', ''1'']\<rparr>"
  "parseVersion ''1.0.0-01'' = Some \<lparr>major = 1, minor = 0, patch = 0, prerelease = [''01'']\<rparr>"
  "parseVersion ''1.0.0-1'' = Some \<lparr>major = 1, minor = 0, patch = 0, prerelease = [''1'']\<rparr>"
  by (simp_all add: version_eval)

lemma parseVersion_Nil: "parseVersion [] = None"
  by (simp add: version_eval)

text \<open>A plugin is told to update exactly when its version is not at least the minimum, and offered an update
  exactly when it is not at least the recommended version: the two bounds are consistent. A version at least as high as
  an accepted one is accepted too.\<close>

theorem compatibility_spec:
  "update_required (describePluginCompatibility v) = (\<not> isPluginVersionAtLeast (Some v) MINIMUM_PLUGIN_VERSION) \<and>
   update_available (describePluginCompatibility v) = (\<not> isPluginVersionAtLeast (Some v) RECOMMENDED_PLUGIN_VERSION) \<and>
   (isPluginVersionAtLeast (Some w) v \<longrightarrow> \<not> update_required (describePluginCompatibility v) \<longrightarrow> \<not> update_required (describePluginCompatibility w)) \<and>
   (isPluginVersionAtLeast (Some w) v \<longrightarrow> \<not> update_available (describePluginCompatibility v) \<longrightarrow> \<not> update_available (describePluginCompatibility w))"
proof -
  have req: "update_required (describePluginCompatibility u) = (\<not> isPluginVersionAtLeast (Some u) MINIMUM_PLUGIN_VERSION)" for u
    by (auto simp: describePluginCompatibility_def isPluginVersionAtLeast_def bounds_parse parseVersion_Nil Let_def split: option.splits)
  have "compareVersions \<lparr>major = 0, minor = 7, patch = 5, prerelease = []\<rparr> \<lparr>major = 0, minor = 2, patch = 0, prerelease = []\<rparr> \<ge> 0"
    by (simp add: compareVersions_def)
  then have rm: "compareVersions c \<lparr>major = 0, minor = 7, patch = 5, prerelease = []\<rparr> \<ge> 0 \<Longrightarrow>
      compareVersions c \<lparr>major = 0, minor = 2, patch = 0, prerelease = []\<rparr> \<ge> 0" for c
    using compareVersions_trans_release by force
  have av: "update_available (describePluginCompatibility u) = (\<not> isPluginVersionAtLeast (Some u) RECOMMENDED_PLUGIN_VERSION)" for u
    using rm by (fastforce simp: describePluginCompatibility_def isPluginVersionAtLeast_def bounds_parse parseVersion_Nil Let_def split: option.splits)
  have up: "isPluginVersionAtLeast (Some w) b" if "isPluginVersionAtLeast (Some w) v" "isPluginVersionAtLeast (Some v) b"
      "b \<in> {MINIMUM_PLUGIN_VERSION, RECOMMENDED_PLUGIN_VERSION}" for b
  proof -
    note at_least = that(1,2) and bound = that(3)
    obtain c d e where p: "parseVersion w = Some c" "parseVersion v = Some d" "parseVersion b = Some e" "w \<noteq> []"
        "compareVersions c d \<ge> 0" "compareVersions d e \<ge> 0"
      using at_least by (auto simp: isPluginVersionAtLeast_def split: option.splits)
    moreover have "prerelease e = []" using p(3) bound by (auto simp: bounds_parse)
    ultimately show ?thesis using compareVersions_trans_release [of c d e] by (simp add: isPluginVersionAtLeast_def)
  qed
  then show ?thesis using req av by simp
qed

theorem compatibility_spec_witness:
  "\<not> update_required (describePluginCompatibility ''0.10.0'') \<and> update_required (describePluginCompatibility ''0.2.0-beta.1'')"
proof -
  have "isPluginVersionAtLeast (Some ''0.10.0'') ''0.7.5''" "isPluginVersionAtLeast (Some ''0.7.5'') MINIMUM_PLUGIN_VERSION"
      "\<not> isPluginVersionAtLeast (Some ''0.2.0-beta.1'') MINIMUM_PLUGIN_VERSION"
    by (simp_all add: isPluginVersionAtLeast_def bounds_parse demo_versions compareVersions_def)
  then show ?thesis using compatibility_spec [of "''0.7.5''" "''0.10.0''"] compatibility_spec [of "''0.2.0-beta.1''"] by blast
qed

text \<open>The comparison is not antisymmetric on the versions the pattern admits: numeric identifiers that differ only in
  leading zeros compare as greater in both directions.\<close>

lemma leading_zero_both_greater:
  "compareVersions (the (parseVersion ''1.0.0-01'')) (the (parseVersion ''1.0.0-1'')) = 1 \<and>
   compareVersions (the (parseVersion ''1.0.0-1'')) (the (parseVersion ''1.0.0-01'')) = 1"
  by (simp add: demo_versions compareVersions_def compare_part_def is_numeric_def is_digit_def js_number_exact digits_value_def)

end
