(* ===== verification/ConflictDiff.thy ===== *)
theory ConflictDiff
  imports Prelude
begin

text \<open>
  \<^verbatim>\<open>frontend/dashboard/src/conflictDiff.ts\<close>: the side-by-side diff of a conflicting file, the text that the reviewer's
  line choices give, and the collapsed display of the diff. The package \<open>diff\<close> is a parameter: \<open>diff_lines\<close> and
  \<open>diff_words\<close> give the list of change objects of two strings.
\<close>

datatype content_kind = Text | Large_text | Binary

record review_file =
  file_path :: string
  content_kind :: content_kind
  server_content :: "string option"
  device_content :: "string option"
  server_bytes :: "nat option"
  device_bytes :: "nat option"

record review_path =
  server_path :: "string option"
  device_path :: "string option"
  affected_paths :: "string list"

record diff_part =
  part_value :: string
  added :: bool
  removed :: bool

record diff_token =
  token_text :: string
  token_changed :: bool

datatype line_resolution = Server | Device | Both

record change_row =
  change_id :: string
  serverLine :: "nat option"
  deviceLine :: "nat option"
  serverText :: "string option"
  deviceText :: "string option"
  serverTokens :: "diff_token list"
  deviceTokens :: "diff_token list"

datatype diff_row = Context string nat nat string | Change change_row

definition hasDivergentFinalPaths :: "review_path \<Rightarrow> bool" where
  "hasDivergentFinalPaths g \<longleftrightarrow> server_path g \<noteq> device_path g"

definition isAgreedFileDeletion :: "review_file \<Rightarrow> bool" where
  "isAgreedFileDeletion f \<longleftrightarrow> server_content f = None \<and> device_content f = None \<and> server_bytes f = None \<and> device_bytes f = None"

section \<open>Manual targets\<close>

record manual_target =
  target_label :: string
  target_path :: string
  target_deleted :: bool

datatype target_error = Choose_final_path string | Selected_twice string

definition is_space :: "char \<Rightarrow> bool" where
  "is_space c \<longleftrightarrow> of_char c \<in> {9::nat, 10, 11, 12, 13, 32, 160}"

definition js_trim :: "string \<Rightarrow> string" where
  "js_trim s = rev (dropWhile is_space (rev (dropWhile is_space s)))"

fun validate_targets :: "string set \<Rightarrow> manual_target list \<Rightarrow> target_error option" where
  "validate_targets targets [] = None"
| "validate_targets targets (g # gs) =
     (if target_deleted g then validate_targets targets gs
      else let path = js_trim (target_path g)
           in if path = [] then Some (Choose_final_path (target_label g))
              else if path \<in> targets then Some (Selected_twice path)
              else validate_targets (insert path targets) gs)"

definition validateManualPathTargets :: "string list \<Rightarrow> manual_target list \<Rightarrow> target_error option" where
  "validateManualPathTargets existingPaths groups = validate_targets (set existingPaths) groups"

section \<open>Building the diff\<close>

definition is_eol :: "char \<Rightarrow> bool" where
  "is_eol c \<longleftrightarrow> c = CHR 0x0D \<or> c = CHR 0x0A"

lemma dropWhile_smaller: "dropWhile P s = a # rest \<Longrightarrow> length rest < length s"
  by (metis impossible_Cons leI length_dropWhile_le order_trans)

function splitLines :: "string \<Rightarrow> string list" where
  "splitLines s =
     (if s = [] then []
      else let line = takeWhile (\<lambda>c. \<not> is_eol c) s
           in case dropWhile (\<lambda>c. \<not> is_eol c) s of
                [] \<Rightarrow> [line]
              | a # rest \<Rightarrow>
                  if a = CHR 0x0D \<and> rest \<noteq> [] \<and> hd rest = CHR 0x0A then (line @ [a, CHR 0x0A]) # splitLines (tl rest)
                  else (line @ [a]) # splitLines rest)"
  by pat_completeness auto

termination
  by (relation "measure length") (auto dest!: dropWhile_smaller dest: sym [of _ "dropWhile _ _"])

definition stripLineEnding :: "string \<Rightarrow> string" where
  "stripLineEnding s =
     (if js_endsWith s [CHR 0x0D, CHR 0x0A] then butlast (butlast s)
      else if s \<noteq> [] \<and> is_eol (last s) then butlast s else s)"

definition or_empty :: "string option \<Rightarrow> string" where
  "or_empty s = (case s of None \<Rightarrow> [] | Some t \<Rightarrow> t)"

definition wordTokens :: "(string \<Rightarrow> string \<Rightarrow> diff_part list) \<Rightarrow> string option \<Rightarrow> string option \<Rightarrow> diff_token list \<times> diff_token list" where
  "wordTokens diff_words s d =
     (let ps = diff_words (stripLineEnding (or_empty s)) (stripLineEnding (or_empty d))
      in (map (\<lambda>p. \<lparr>token_text = part_value p, token_changed = removed p\<rparr>) (filter (\<lambda>p. \<not> added p) ps),
          map (\<lambda>p. \<lparr>token_text = part_value p, token_changed = added p\<rparr>) (filter (\<lambda>p. \<not> removed p) ps)))"

definition nth_or_null :: "'a list \<Rightarrow> nat \<Rightarrow> 'a option" where
  "nth_or_null xs i = (if i < length xs then Some (xs ! i) else None)"

text \<open>The rows of one run of changed parts; a line number is used up by a row that has a text on that side.\<close>

definition change_rows :: "(string \<Rightarrow> string \<Rightarrow> diff_part list) \<Rightarrow> string list \<Rightarrow> string list \<Rightarrow> nat \<Rightarrow> nat \<Rightarrow> nat \<Rightarrow> diff_row list" where
  "change_rows diff_words serverLines deviceLines sl dl ch =
     map (\<lambda>i. let s = nth_or_null serverLines i; d = nth_or_null deviceLines i; w = wordTokens diff_words s d
              in Change \<lparr>change_id = ''change-'' @ decimal_string (ch + i), serverLine = map_option (\<lambda>_. sl + i) s,
                  deviceLine = map_option (\<lambda>_. dl + i) d, serverText = s, deviceText = d, serverTokens = fst w, deviceTokens = snd w\<rparr>)
       [0..<max (length serverLines) (length deviceLines)]"

definition context_rows :: "string list \<Rightarrow> nat \<Rightarrow> nat \<Rightarrow> nat \<Rightarrow> diff_row list" where
  "context_rows ls sl dl cx = map (\<lambda>i. Context (''context-'' @ decimal_string (cx + i)) (sl + i) (dl + i) (ls ! i)) [0..<length ls]"

definition is_changed :: "diff_part \<Rightarrow> bool" where
  "is_changed p \<longleftrightarrow> added p \<or> removed p"

function build_rows :: "(string \<Rightarrow> string \<Rightarrow> diff_part list) \<Rightarrow> diff_part list \<Rightarrow> nat \<Rightarrow> nat \<Rightarrow> nat \<Rightarrow> nat \<Rightarrow> diff_row list" where
  "build_rows diff_words [] sl dl cx ch = []"
| "build_rows diff_words (p # ps) sl dl cx ch =
     (if \<not> is_changed p then
        let ls = splitLines (part_value p); n = length ls
        in context_rows ls sl dl cx @ build_rows diff_words ps (sl + n) (dl + n) (cx + n) ch
      else
        let run = takeWhile is_changed (p # ps); rest = dropWhile is_changed (p # ps);
            serverLines = concat (map (\<lambda>q. splitLines (part_value q)) (filter removed run));
            deviceLines = concat (map (\<lambda>q. splitLines (part_value q)) (filter added run));
            n = length serverLines; m = length deviceLines
        in change_rows diff_words serverLines deviceLines sl dl ch @
           build_rows diff_words rest (sl + n) (dl + m) cx (ch + max n m))"
  by pat_completeness auto
termination
  by (relation "measure (\<lambda>(w, ps, sl, dl, cx, ch). length ps)") (auto simp: le_imp_less_Suc length_dropWhile_le)

definition buildConflictDiff ::
  "(string \<Rightarrow> string \<Rightarrow> diff_part list) \<Rightarrow> (string \<Rightarrow> string \<Rightarrow> diff_part list) \<Rightarrow> review_file \<Rightarrow> diff_row list" where
  "buildConflictDiff diff_lines diff_words f =
     (if content_kind f \<noteq> Text then []
      else build_rows diff_words (diff_lines (or_empty (server_content f)) (or_empty (device_content f))) 1 1 0 0)"

fun changedRows :: "diff_row list \<Rightarrow> change_row list" where
  "changedRows [] = []"
| "changedRows (Change c # rows) = c # changedRows rows"
| "changedRows (Context i s d t # rows) = changedRows rows"

section \<open>Resolving\<close>

datatype resolve_error = Binary_file | Whole_file_choice string | Unresolved_line string

text \<open>The loop of \<open>resolveConflictFile\<close>: the output and whether content that exists was selected.\<close>

definition choose_row :: "review_file \<Rightarrow> (string \<Rightarrow> line_resolution option) \<Rightarrow> diff_row \<Rightarrow> string \<times> bool \<Rightarrow> string \<times> bool" where
  "choose_row f choices row acc =
     (case row of
        Context i s d t \<Rightarrow> (fst acc @ t, True)
      | Change c \<Rightarrow>
          let choice = choices (change_id c);
              acc1 = (if choice = Some Server \<or> choice = Some Both
                      then (fst acc @ or_empty (serverText c), snd acc \<or> server_content f \<noteq> None) else acc)
          in if choice = Some Device \<or> choice = Some Both
             then (fst acc1 @ or_empty (deviceText c), snd acc1 \<or> device_content f \<noteq> None) else acc1)"

definition resolveConflictFile ::
  "review_file \<Rightarrow> diff_row list \<Rightarrow> (string \<Rightarrow> line_resolution option) \<Rightarrow> resolve_error + string option" where
  "resolveConflictFile f rows choices =
     (if content_kind f \<noteq> Text then Inl Binary_file
      else let changes = changedRows rows
           in if changes = [] then
                (if server_content f = device_content f then Inr (server_content f) else Inl (Whole_file_choice (file_path f)))
              else if list_ex (\<lambda>c. choices (change_id c) = None) changes then Inl (Unresolved_line (file_path f))
              else let acc = fold (choose_row f choices) rows ([], False)
                   in Inr (if snd acc then Some (fst acc) else None))"

definition unresolvedLineCount :: "(string \<times> diff_row list) list \<Rightarrow> (string \<Rightarrow> string \<Rightarrow> line_resolution option) \<Rightarrow> nat" where
  "unresolvedLineCount file_diffs choices =
     sum_list (map (\<lambda>(path, rows). length (filter (\<lambda>c. choices path (change_id c) = None) (changedRows rows))) file_diffs)"

definition choicesForAllRows :: "(string \<times> diff_row list) list \<Rightarrow> line_resolution \<Rightarrow> string \<Rightarrow> string \<Rightarrow> line_resolution option" where
  "choicesForAllRows file_diffs choice path =
     (case map_of (rev file_diffs) path of
        None \<Rightarrow> (\<lambda>_. None)
      | Some rows \<Rightarrow> map_of (map (\<lambda>c. (change_id c, choice)) (changedRows rows)))"

section \<open>The collapsed display\<close>

record line_range =
  range_start :: nat
  range_count :: nat

record diff_gap =
  gap_id :: string
  hidden_rows :: nat
  gap_server :: line_range
  gap_device :: line_range

datatype display_item = Row diff_row | Hunk string "diff_gap option" "(line_range \<times> line_range) option"

definition row_id :: "diff_row \<Rightarrow> string" where
  "row_id r = (case r of Context i s d t \<Rightarrow> i | Change c \<Rightarrow> change_id c)"

definition server_line :: "diff_row \<Rightarrow> nat option" where
  "server_line r = (case r of Context i s d t \<Rightarrow> Some s | Change c \<Rightarrow> serverLine c)"

definition device_line :: "diff_row \<Rightarrow> nat option" where
  "device_line r = (case r of Context i s d t \<Rightarrow> Some d | Change c \<Rightarrow> deviceLine c)"

definition lineRange :: "(diff_row \<Rightarrow> nat option) \<Rightarrow> diff_row list \<Rightarrow> line_range" where
  "lineRange side rows = (let ls = List.map_filter side rows in \<lparr>range_start = (if ls = [] then 0 else hd ls), range_count = length ls\<rparr>)"

definition MIN_COLLAPSED_LINES :: nat where "MIN_COLLAPSED_LINES = 4"
definition DIFF_CONTEXT_LINES :: nat where "DIFF_CONTEXT_LINES = 3"

definition is_change :: "diff_row \<Rightarrow> bool" where
  "is_change r \<longleftrightarrow> (case r of Change c \<Rightarrow> True | _ \<Rightarrow> False)"

text \<open>The array \<open>visible\<close>: row \<open>i\<close> is within \<open>context\<close> of a changed row.\<close>

definition visible_rows :: "nat \<Rightarrow> diff_row list \<Rightarrow> bool list" where
  "visible_rows context rows =
     map (\<lambda>i. list_ex (\<lambda>j. is_change (rows ! j) \<and> j - context \<le> i \<and> i \<le> j + context) [0..<length rows]) [0..<length rows]"

definition make_gap :: "diff_row list \<Rightarrow> diff_gap" where
  "make_gap hid = \<lparr>gap_id = ''gap-'' @ row_id (hd hid), hidden_rows = length hid, gap_server = lineRange server_line hid, gap_device = lineRange device_line hid\<rparr>"

definition keeps_hidden :: "(string \<Rightarrow> bool) \<Rightarrow> diff_row list \<Rightarrow> bool" where
  "keeps_hidden expanded hid \<longleftrightarrow> \<not> (length hid < MIN_COLLAPSED_LINES \<or> expanded (''gap-'' @ row_id (hd hid)))"

function find_gaps :: "(string \<Rightarrow> bool) \<Rightarrow> nat \<Rightarrow> (diff_row \<times> bool) list \<Rightarrow> (nat \<times> diff_gap) list" where
  "find_gaps expanded k [] = []"
| "find_gaps expanded k ((r, v) # xs) =
     (if v then find_gaps expanded (k + 1) xs
      else let hid = r # map fst (takeWhile (\<lambda>x. \<not> snd x) xs); rest = dropWhile (\<lambda>x. \<not> snd x) xs
           in (if keeps_hidden expanded hid then [(k, make_gap hid)] else []) @ find_gaps expanded (k + length hid) rest)"
  by pat_completeness auto
termination
  by (relation "measure (\<lambda>(e, k, xs). length xs)") (auto simp: le_imp_less_Suc length_dropWhile_le)

text \<open>The number of rows from index \<open>k\<close> up to the next gap.\<close>

fun hunk_length :: "(nat \<times> diff_gap) list \<Rightarrow> nat \<Rightarrow> diff_row list \<Rightarrow> nat" where
  "hunk_length gaps k [] = 0"
| "hunk_length gaps k (r # rows) = (if map_of gaps k = None then Suc (hunk_length gaps (k + 1) rows) else 0)"

text \<open>The second loop. A gap that hides no row, for which the loop would not advance, does not arise.\<close>

function display_rows :: "(nat \<times> diff_gap) list \<Rightarrow> nat \<Rightarrow> diff_gap option \<Rightarrow> diff_row list \<Rightarrow> display_item list" where
  "display_rows gaps k pendingGap [] =
     (case pendingGap of None \<Rightarrow> [] | Some g \<Rightarrow> [Hunk (''trailing-'' @ gap_id g) (Some g) None])"
| "display_rows gaps k pendingGap (r # rows) =
     (case map_of gaps k of
        Some gap \<Rightarrow>
          if hidden_rows gap = 0 then []
          else display_rows gaps (k + hidden_rows gap) (Some gap) (drop (hidden_rows gap) (r # rows))
      | None \<Rightarrow>
          let n = Suc (hunk_length gaps (k + 1) rows); hunkRows = take n (r # rows)
          in Hunk (''hunk-'' @ row_id (hd hunkRows)) pendingGap (Some (lineRange server_line hunkRows, lineRange device_line hunkRows)) #
             map Row hunkRows @ display_rows gaps (k + n) None (drop n (r # rows)))"
  by pat_completeness auto
termination
  by (relation "measure (\<lambda>(g, k, p, rows). length rows)") auto

definition collapseConflictDiff :: "(string \<Rightarrow> bool) \<Rightarrow> nat \<Rightarrow> diff_row list \<Rightarrow> display_item list" where
  "collapseConflictDiff expanded context rows =
     display_rows (find_gaps expanded 0 (zip rows (visible_rows context rows))) 0 None rows"


section \<open>Choosing one side gives that side\<close>

declare splitLines.simps [simp del]

lemma concat_splitLines [simp]: "concat (splitLines s) = s"
proof (induction s rule: splitLines.induct)
  case (1 s)
  show ?case
  proof (cases "dropWhile (\<lambda>c. \<not> is_eol c) s")
    case Nil
    then have "takeWhile (\<lambda>c. \<not> is_eol c) s = s" by (metis append_Nil2 takeWhile_dropWhile_id)
    then show ?thesis by (subst splitLines.simps, unfold Nil Let_def) simp
  next
    case (Cons a rest)
    then have s: "takeWhile (\<lambda>c. \<not> is_eol c) s @ a # rest = s" by (metis takeWhile_dropWhile_id)
    then have "s \<noteq> []" by auto
    show ?thesis
    proof (cases "a = CHR 0x0D \<and> rest \<noteq> [] \<and> hd rest = CHR 0x0A")
      case True
      then have "concat (splitLines (tl rest)) = tl rest" using 1(1) [OF \<open>s \<noteq> []\<close> refl Cons] by blast
      with True s show ?thesis by (subst splitLines.simps) (simp add: \<open>s \<noteq> []\<close> Cons, metis hd_Cons_tl)
    next
      case False
      then have "concat (splitLines rest) = rest" using 1(2) [OF \<open>s \<noteq> []\<close> refl Cons] by blast
      with False s show ?thesis by (subst splitLines.simps) (auto simp add: \<open>s \<noteq> []\<close> Cons)
    qed
  qed
qed

text \<open>What a row shows on each side.\<close>

definition row_server :: "diff_row \<Rightarrow> string" where
  "row_server r = (case r of Context i s d t \<Rightarrow> t | Change c \<Rightarrow> or_empty (serverText c))"

definition row_device :: "diff_row \<Rightarrow> string" where
  "row_device r = (case r of Context i s d t \<Rightarrow> t | Change c \<Rightarrow> or_empty (deviceText c))"

lemma concat_nth_or_null: "length xs \<le> n \<Longrightarrow> concat (map (\<lambda>i. or_empty (nth_or_null xs i)) [0..<n]) = concat xs"
proof (induction n arbitrary: xs)
  case (Suc n)
  show ?case
  proof (cases xs)
    case Nil
    then show ?thesis by (auto simp: nth_or_null_def or_empty_def)
  next
    case (Cons x ys)
    have "map (\<lambda>i. or_empty (nth_or_null xs i)) [0..<Suc n] = x # map (\<lambda>i. or_empty (nth_or_null ys i)) [0..<n]"
      unfolding upt_conv_Cons [OF zero_less_Suc] map_Suc_upt [symmetric] by (simp add: Cons nth_or_null_def or_empty_def o_def)
    with Suc.IH [of ys] Suc.prems Cons show ?thesis by (simp del: upt_Suc)
  qed
qed simp

lemma change_rows_sides:
  "concat (map row_server (change_rows w ss ds sl dl ch)) = concat ss"
  "concat (map row_device (change_rows w ss ds sl dl ch)) = concat ds"
  using concat_nth_or_null [of ss "max (length ss) (length ds)"] concat_nth_or_null [of ds "max (length ss) (length ds)"]
  by (simp_all add: change_rows_def row_server_def row_device_def o_def Let_def)

lemma context_rows_sides:
  "concat (map row_server (context_rows ls sl dl cx)) = concat ls" "concat (map row_device (context_rows ls sl dl cx)) = concat ls"
  by (simp_all add: context_rows_def row_server_def row_device_def o_def map_nth)

definition one_sided :: "diff_part list \<Rightarrow> bool" where
  "one_sided ps \<longleftrightarrow> (\<forall>p\<in>set ps. \<not> (added p \<and> removed p))"

lemma filter_changed:
  assumes "one_sided ps"
  shows "filter removed (takeWhile is_changed ps) = filter (\<lambda>p. \<not> added p) (takeWhile is_changed ps)"
    and "filter added (takeWhile is_changed ps) = filter (\<lambda>p. \<not> removed p) (takeWhile is_changed ps)"
  using assms by (auto intro!: filter_cong dest!: set_takeWhileD simp: one_sided_def is_changed_def)

lemma concat_split_parts: "concat (concat (map (\<lambda>q. splitLines (part_value q)) ps)) = concat (map part_value ps)"
  by (induction ps) auto

lemma build_rows_sides:
  assumes "one_sided ps"
  shows "concat (map row_server (build_rows w ps sl dl cx ch)) = concat (map part_value (filter (\<lambda>p. \<not> added p) ps)) \<and>
    concat (map row_device (build_rows w ps sl dl cx ch)) = concat (map part_value (filter (\<lambda>p. \<not> removed p) ps))"
  using assms
proof (induction w ps sl dl cx ch rule: build_rows.induct)
  case (2 w p ps sl dl cx ch)
  show ?case
  proof (cases "is_changed p")
    case False
    have "one_sided ps" using 2(3) by (simp add: one_sided_def)
    note ih = 2(1) [OF False refl refl this]
    show ?thesis using False ih by (simp add: context_rows_sides Let_def is_changed_def)
  next
    case True
    define run rest where "run = takeWhile is_changed (p # ps)" and "rest = dropWhile is_changed (p # ps)"
    have "one_sided rest" using 2(3) by (auto simp: one_sided_def rest_def dest: set_dropWhileD)
    from 2(2) [OF _ run_def rest_def refl refl refl refl this] True
    have ih: "concat (map row_server (build_rows w rest sl' dl' cx ch')) = concat (map part_value (filter (\<lambda>p. \<not> added p) rest)) \<and>
        concat (map row_device (build_rows w rest sl' dl' cx ch')) = concat (map part_value (filter (\<lambda>p. \<not> removed p) rest))"
      if "sl' = sl + length (concat (map (\<lambda>q. splitLines (part_value q)) (filter removed run)))"
        "dl' = dl + length (concat (map (\<lambda>q. splitLines (part_value q)) (filter added run)))"
        "ch' = ch + max (length (concat (map (\<lambda>q. splitLines (part_value q)) (filter removed run))))
          (length (concat (map (\<lambda>q. splitLines (part_value q)) (filter added run))))" for sl' dl' ch'
      using that by blast
    have split: "p # ps = run @ rest" by (simp add: run_def rest_def del: takeWhile.simps dropWhile.simps)
    note fc = filter_changed [OF 2(3), folded run_def]
    show ?thesis
      unfolding build_rows.simps run_def [symmetric] rest_def [symmetric] Let_def
      using True ih by (simp only: if_False map_append concat_append change_rows_sides concat_split_parts split filter_append fc simp_thms)
  qed
qed simp

text \<open>What the package \<open>diff\<close> promises: the parts that are not added make up the old text, those that are not removed
  the new text, and no part is both.\<close>

definition diff_law :: "(string \<Rightarrow> string \<Rightarrow> diff_part list) \<Rightarrow> bool" where
  "diff_law diff \<longleftrightarrow> (\<forall>a b. one_sided (diff a b) \<and> concat (map part_value (filter (\<lambda>p. \<not> added p) (diff a b))) = a \<and>
     concat (map part_value (filter (\<lambda>p. \<not> removed p) (diff a b))) = b)"

lemma buildConflictDiff_sides:
  assumes "diff_law diff_lines" and "content_kind f = Text"
  shows "concat (map row_server (buildConflictDiff diff_lines w f)) = or_empty (server_content f)"
    and "concat (map row_device (buildConflictDiff diff_lines w f)) = or_empty (device_content f)"
  using assms build_rows_sides [of "diff_lines (or_empty (server_content f)) (or_empty (device_content f))" w 1 1 0 0]
  by (simp_all add: buildConflictDiff_def diff_law_def)

lemma changedRows_set: "c \<in> set (changedRows rows) \<longleftrightarrow> Change c \<in> set rows"
  by (induction rows rule: changedRows.induct) auto

lemma choices_all:
  assumes "c \<in> set (changedRows rows)"
  shows "choicesForAllRows [(p, rows)] choice p (change_id c) = Some choice"
proof -
  have "map_of (map (\<lambda>c. (change_id c, choice)) cs) (change_id c) = Some choice" if "c \<in> set cs" for cs
    using that by (induction cs) auto
  with assms show ?thesis by (simp add: choicesForAllRows_def)
qed

lemma fold_choose:
  assumes "\<And>c. Change c \<in> set rows \<Longrightarrow> choices (change_id c) = Some Server"
  shows "fold (choose_row f choices) rows acc =
    (fst acc @ concat (map row_server rows), snd acc \<or> (\<exists>r\<in>set rows. is_change r \<longrightarrow> server_content f \<noteq> None))"
  using assms
proof (induction rows arbitrary: acc)
  case (Cons r rows)
  have "choose_row f choices r acc = (fst acc @ row_server r, snd acc \<or> (is_change r \<longrightarrow> server_content f \<noteq> None))"
    using Cons.prems by (cases r) (auto simp: choose_row_def row_server_def is_change_def)
  with Cons show ?case by (simp add: disj_assoc)
qed simp

lemma fold_choose_device:
  assumes "\<And>c. Change c \<in> set rows \<Longrightarrow> choices (change_id c) = Some Device"
  shows "fold (choose_row f choices) rows acc =
    (fst acc @ concat (map row_device rows), snd acc \<or> (\<exists>r\<in>set rows. is_change r \<longrightarrow> device_content f \<noteq> None))"
  using assms
proof (induction rows arbitrary: acc)
  case (Cons r rows)
  have "choose_row f choices r acc = (fst acc @ row_device r, snd acc \<or> (is_change r \<longrightarrow> device_content f \<noteq> None))"
    using Cons.prems by (cases r) (auto simp: choose_row_def row_device_def is_change_def)
  with Cons show ?case by (simp add: disj_assoc)
qed simp


lemma splitLines_nonempty: "[] \<notin> set (splitLines s)"
proof (induction s rule: splitLines.induct)
  case (1 s)
  show ?case
  proof (cases "s = []")
    case False
    show ?thesis
    proof (cases "dropWhile (\<lambda>c. \<not> is_eol c) s")
      case Nil
      then have "takeWhile (\<lambda>c. \<not> is_eol c) s = s" by (metis append_Nil2 takeWhile_dropWhile_id)
      with False show ?thesis by (subst splitLines.simps, unfold Nil Let_def) (simp only: list.case if_False list.set insert_iff empty_iff simp_thms)
    next
      case (Cons a rest)
      then show ?thesis using 1 [OF False refl Cons] False by (subst splitLines.simps) (auto simp: Let_def)
    qed
  qed (simp add: splitLines.simps)
qed

lemma context_text_nonempty: "Context i s d t \<in> set (build_rows w ps sl dl cx ch) \<Longrightarrow> t \<noteq> []"
proof (induction w ps sl dl cx ch rule: build_rows.induct)
  case (2 w p ps sl dl cx ch)
  have "t \<noteq> []" if "Context i s d t \<in> set (context_rows (splitLines (part_value p)) sl dl cx)"
    using that splitLines_nonempty [of "part_value p"] nth_mem by (fastforce simp: context_rows_def)
  moreover have "Context i s d t \<notin> set (change_rows w ss ds sl dl ch)" for ss ds by (auto simp: change_rows_def Let_def)
  ultimately show ?case using 2 by (auto simp: Let_def simp del: takeWhile.simps dropWhile.simps split: if_splits)
qed simp

lemma selected_present:
  assumes "concat (map side rows) = or_empty content" and "rows \<noteq> []"
    and "\<And>i s d t. Context i s d t \<in> set rows \<Longrightarrow> t \<noteq> [] \<and> side (Context i s d t) = t"
  shows "(if \<exists>r\<in>set rows. is_change r \<longrightarrow> content \<noteq> None then Some (concat (map side rows)) else None) = content"
proof (cases content)
  case None
  then have "\<forall>r\<in>set rows. side r = []" using assms(1) by (simp add: or_empty_def)
  then have "\<forall>r\<in>set rows. is_change r" using assms(3) by (force simp: is_change_def split: diff_row.splits)
  with None show ?thesis by simp
next
  case (Some c)
  then show ?thesis using assms(1,2) by (cases rows) (auto simp: or_empty_def)
qed

lemma resolve_equal:
  assumes "content_kind f = Text" and "changedRows rows = []" and "server_content f = device_content f"
  shows "resolveConflictFile f rows choices = Inr (server_content f)"
  using assms by (simp add: resolveConflictFile_def)

lemma resolve_fold:
  assumes "content_kind f = Text" and "changedRows rows \<noteq> []" and "\<not> list_ex (\<lambda>c. choices (change_id c) = None) (changedRows rows)"
    and "fold (choose_row f choices) rows ([], False) = (fst ([], False) @ out, snd ([], False) \<or> present)"
  shows "resolveConflictFile f rows choices = Inr (if present then Some out else None)"
  using assms by (simp add: resolveConflictFile_def Let_def)

text \<open>C33. Choosing the server side for every changed line of a text file gives back the server's version, and choosing
  the device side gives the device's version, byte for byte and with absence preserved: \<open>null\<close> comes back as \<open>null\<close> and an
  empty file as an empty file. A choice is refused only when there is no changed line to choose although the two differ.\<close>

theorem resolve_sides:
  assumes "diff_law diff_lines" and "content_kind f = Text" and "rows = buildConflictDiff diff_lines diff_words f"
    and "changedRows rows \<noteq> [] \<or> server_content f = device_content f"
  shows "resolveConflictFile f rows (choicesForAllRows [(file_path f, rows)] Server (file_path f)) = Inr (server_content f) \<and>
    resolveConflictFile f rows (choicesForAllRows [(file_path f, rows)] Device (file_path f)) = Inr (device_content f)"
proof (cases "changedRows rows = []")
  case True
  with assms show ?thesis using resolve_equal by auto
next
  case False
  then have ne: "rows \<noteq> []" by auto
  have all: "Change c \<in> set rows \<Longrightarrow> choicesForAllRows [(file_path f, rows)] x (file_path f) (change_id c) = Some x" for c x
    using choices_all changedRows_set by blast
  have ctx: "Context i s d t \<in> set rows \<Longrightarrow> t \<noteq> []" for i s d t
    using assms(2,3) context_text_nonempty by (auto simp: buildConflictDiff_def)
  have complete: "\<not> list_ex (\<lambda>c. choicesForAllRows [(file_path f, rows)] x (file_path f) (change_id c) = None) (changedRows rows)" for x
    using all changedRows_set by (auto simp: list_ex_iff)
  note sides = buildConflictDiff_sides [OF assms(1,2), of diff_words, folded assms(3)]
  have "(if \<exists>r\<in>set rows. is_change r \<longrightarrow> server_content f \<noteq> None then Some (concat (map row_server rows)) else None) = server_content f"
    by (rule selected_present [OF sides(1) ne]) (simp add: ctx row_server_def)
  moreover have "(if \<exists>r\<in>set rows. is_change r \<longrightarrow> device_content f \<noteq> None then Some (concat (map row_device rows)) else None) = device_content f"
    by (rule selected_present [OF sides(2) ne]) (simp add: ctx row_device_def)
  moreover note
    resolve_fold [OF assms(2) False complete fold_choose [of rows "choicesForAllRows [(file_path f, rows)] Server (file_path f)", OF all]]
    resolve_fold [OF assms(2) False complete fold_choose_device [of rows "choicesForAllRows [(file_path f, rows)] Device (file_path f)", OF all]]
  ultimately show ?thesis by (simp only: simp_thms)
qed

definition demo_diff :: "string \<Rightarrow> string \<Rightarrow> diff_part list" where
  "demo_diff a b = (if a = b then [\<lparr>part_value = a, added = False, removed = False\<rparr>]
     else [\<lparr>part_value = a, added = False, removed = True\<rparr>, \<lparr>part_value = b, added = True, removed = False\<rparr>])"

definition demo_review :: review_file where
  "demo_review = \<lparr>file_path = ''n.md'', content_kind = Text, server_content = Some ''s'', device_content = None, server_bytes = Some 1, device_bytes = None\<rparr>"

lemma demo_diff_law: "diff_law demo_diff"
  by (simp add: diff_law_def demo_diff_def one_sided_def)

lemma demo_review_rows: "changedRows (buildConflictDiff demo_diff demo_diff demo_review) \<noteq> []"
  by code_simp

theorem resolve_sides_witness:
  "resolveConflictFile demo_review (buildConflictDiff demo_diff demo_diff demo_review)
     (choicesForAllRows [(''n.md'', buildConflictDiff demo_diff demo_diff demo_review)] Device ''n.md'') = Inr None"
  using resolve_sides [OF demo_diff_law _ refl disjI1 [OF demo_review_rows]] by (simp add: demo_review_def)


section \<open>Collapsing hides no change\<close>

text \<open>The blocks of the first loop: visible rows one by one and maximal runs of other rows, with whether a run is hidden.\<close>

function blocks :: "(string \<Rightarrow> bool) \<Rightarrow> (diff_row \<times> bool) list \<Rightarrow> (diff_row list \<times> bool) list" where
  "blocks expanded [] = []"
| "blocks expanded ((r, v) # xs) =
     (if v then ([r], False) # blocks expanded xs
      else let hid = r # map fst (takeWhile (\<lambda>x. \<not> snd x) xs)
           in (hid, keeps_hidden expanded hid) # blocks expanded (dropWhile (\<lambda>x. \<not> snd x) xs))"
  by pat_completeness auto
termination
  by (relation "measure (\<lambda>(e, xs). length xs)") (auto simp: le_imp_less_Suc length_dropWhile_le)

fun gaps_of :: "nat \<Rightarrow> (diff_row list \<times> bool) list \<Rightarrow> (nat \<times> diff_gap) list" where
  "gaps_of k [] = []"
| "gaps_of k ((rs, c) # bs) = (if c then [(k, make_gap rs)] else []) @ gaps_of (k + length rs) bs"

fun alternating :: "bool \<Rightarrow> (diff_row list \<times> bool) list \<Rightarrow> bool" where
  "alternating prev [] \<longleftrightarrow> True"
| "alternating prev ((rs, c) # bs) \<longleftrightarrow> rs \<noteq> [] \<and> \<not> (prev \<and> c) \<and> alternating c bs"

lemma find_gaps_blocks: "find_gaps expanded k xs = gaps_of k (blocks expanded xs)"
  by (induction expanded k xs rule: find_gaps.induct) (auto simp: Let_def)

lemma blocks_rows: "concat (map fst (blocks expanded xs)) = map fst xs"
proof (induction expanded xs rule: blocks.induct)
  case (2 expanded r v xs)
  then show ?case by (auto simp: Let_def) (metis map_append takeWhile_dropWhile_id)
qed simp

lemma blocks_alternating: "alternating False (blocks expanded xs) \<and> (xs = [] \<or> snd (hd xs) \<longrightarrow> alternating True (blocks expanded xs))"
proof (induction expanded xs rule: blocks.induct)
  case (2 expanded r v xs)
  show ?case
  proof (cases v)
    case True
    with 2(1) show ?thesis by simp
  next
    case False
    let ?rest = "dropWhile (\<lambda>x. \<not> snd x) xs"
    have "?rest = [] \<or> snd (hd ?rest)" using hd_dropWhile [of "\<lambda>x. \<not> snd x" xs] by blast
    with 2(2) [OF False refl] have "alternating b (blocks expanded ?rest)" for b by (metis (full_types))
    with False show ?thesis by (simp add: Let_def)
  qed
qed simp

lemma blocks_hidden:
  assumes "(rs, True) \<in> set (blocks expanded xs)"
  shows "MIN_COLLAPSED_LINES \<le> length rs \<and> \<not> expanded (''gap-'' @ row_id (hd rs)) \<and> (\<forall>r\<in>set rs. (r, False) \<in> set xs)"
  using assms
proof (induction expanded xs rule: blocks.induct)
  case (2 expanded r v xs)
  show ?case
  proof (cases "v \<or> (rs, True) \<in> set (blocks expanded (dropWhile (\<lambda>x. \<not> snd x) xs))")
    case True
    then consider "v" "(rs, True) \<in> set (blocks expanded xs)" | "\<not> v" "(rs, True) \<in> set (blocks expanded (dropWhile (\<lambda>x. \<not> snd x) xs))"
      using 2(3) by (auto split: if_splits)
    then show ?thesis
    proof cases
      case 1
      with 2(1) show ?thesis by simp
    next
      case rest: 2
      from 2(2) [OF rest(1) refl rest(2)] show ?thesis by (auto dest: set_dropWhileD)
    qed
  next
    case False
    with 2(3) have rs: "rs = r # map fst (takeWhile (\<lambda>x. \<not> snd x) xs)" "keeps_hidden expanded rs" by (auto simp: Let_def)
    moreover have "(q, False) \<in> set xs" if "q \<in> fst ` set (takeWhile (\<lambda>x. \<not> snd x) xs)" for q
      using that by (force dest: set_takeWhileD)
    ultimately show ?thesis using False by (auto simp: keeps_hidden_def)
  qed
qed simp

lemma gaps_of_below: "i < k \<Longrightarrow> map_of (gaps_of k bs) i = None"
proof (induction k bs rule: gaps_of.induct)
  case (2 k rs c bs)
  then show ?case by auto
qed simp

lemma hunk_length_append:
  assumes "\<And>i. k \<le> i \<Longrightarrow> i < k + length A \<Longrightarrow> map_of G i = None" and "B = [] \<or> map_of G (k + length A) \<noteq> None"
  shows "hunk_length G k (A @ B) = length A"
  using assms
proof (induction A arbitrary: k)
  case Nil
  then show ?case by (cases B) auto
next
  case (Cons a A)
  have "map_of G k = None" using Cons.prems(1) [of k] by simp
  moreover have "hunk_length G (k + 1) (A @ B) = length A" by (rule Cons.IH) (use Cons.prems in auto)
  ultimately show ?case by simp
qed

fun shown :: "display_item list \<Rightarrow> diff_row list" where
  "shown [] = []"
| "shown (Row r # xs) = r # shown xs"
| "shown (Hunk i g l # xs) = shown xs"

fun hidden_total :: "display_item list \<Rightarrow> nat" where
  "hidden_total [] = 0"
| "hidden_total (Hunk i (Some g) l # xs) = hidden_rows g + hidden_total xs"
| "hidden_total (_ # xs) = hidden_total xs"

lemma shown_append [simp]: "shown (map Row rs @ xs) = rs @ shown xs" "hidden_total (map Row rs @ xs) = hidden_total xs"
  by (induction rs) auto

definition gap_hidden :: "diff_gap option \<Rightarrow> nat" where
  "gap_hidden g = (case g of None \<Rightarrow> 0 | Some g \<Rightarrow> hidden_rows g)"

lemma hidden_total_hunk [simp]: "hidden_total (Hunk i g l # xs) = gap_hidden g + hidden_total xs"
  by (cases g) (auto simp: gap_hidden_def)

lemma gaps_of_shown: "gaps_of k (us @ vs) = gaps_of (k + length (concat (map fst us))) vs" if "\<forall>u\<in>set us. \<not> snd u"
  using that by (induction us arbitrary: k) (auto simp: add.assoc split: prod.splits)

lemma alternating_append: "alternating b (us @ vs) \<Longrightarrow> alternating (if us = [] then b else snd (last us)) vs"
proof (induction us arbitrary: b)
  case (Cons u us)
  then show ?case by (cases u) auto
qed simp

lemma alternating_mono: "alternating b bs \<Longrightarrow> alternating False bs"
  by (cases bs) auto

lemma display_blocks:
  assumes "\<And>i. k \<le> i \<Longrightarrow> map_of G i = map_of (gaps_of k bs) i" and "alternating (p \<noteq> None) bs"
  shows "shown (display_rows G k p (concat (map fst bs))) = concat (map fst (filter (\<lambda>b. \<not> snd b) bs)) \<and>
    hidden_total (display_rows G k p (concat (map fst bs))) = gap_hidden p + length (concat (map fst (filter snd bs)))"
  using assms
proof (induction "length bs" arbitrary: k p bs rule: less_induct)
  case less
  show ?case
  proof (cases bs)
    case Nil
    then show ?thesis by (cases p) (auto simp: gap_hidden_def)
  next
    case (Cons b bs')
    obtain rs c where b: "b = (rs, c)" by (cases b)
    have ne: "rs \<noteq> []" using less.prems(2) Cons b by simp
    show ?thesis
    proof (cases c)
      case True
      have p: "p = None" using less.prems(2) Cons b True by auto
      have g: "map_of G k = Some (make_gap rs)" using less.prems(1) [of k] Cons b True by simp
      have "\<And>i. k + length rs \<le> i \<Longrightarrow> map_of G i = map_of (gaps_of (k + length rs) bs') i"
        using less.prems(1) Cons b True ne by (auto simp: Suc_le_eq)
      moreover have "alternating (Some (make_gap rs) \<noteq> None) bs'" using less.prems(2) Cons b True by auto
      ultimately have ih: "shown (display_rows G (k + length rs) (Some (make_gap rs)) (concat (map fst bs'))) = concat (map fst (filter (\<lambda>b. \<not> snd b) bs')) \<and>
          hidden_total (display_rows G (k + length rs) (Some (make_gap rs)) (concat (map fst bs'))) =
            gap_hidden (Some (make_gap rs)) + length (concat (map fst (filter snd bs')))"
        using Cons by (intro less.hyps) auto
      obtain r rs' where r: "rs = r # rs'" using ne by (cases rs) auto
      have "display_rows G k p (concat (map fst bs)) = display_rows G (k + length rs) (Some (make_gap rs)) (concat (map fst bs'))"
        using g Cons b r by (simp add: make_gap_def)
      with ih show ?thesis using Cons b True p by (simp add: gap_hidden_def make_gap_def)
    next
      case False
      define us vs where "us = takeWhile (\<lambda>b. \<not> snd b) bs" and "vs = dropWhile (\<lambda>b. \<not> snd b) bs"
      have split: "bs = us @ vs" and us: "\<forall>u\<in>set us. \<not> snd u" "us \<noteq> []"
        using Cons b False by (auto simp: us_def vs_def dest: set_takeWhileD)
      have vs: "vs = [] \<or> snd (hd vs)" using hd_dropWhile [of "\<lambda>b. \<not> snd b" bs] by (auto simp: vs_def)
      define A where "A = concat (map fst us)"
      have G: "\<And>i. k \<le> i \<Longrightarrow> map_of G i = map_of (gaps_of (k + length A) vs) i"
        using less.prems(1) unfolding split gaps_of_shown [OF us(1)] A_def by blast
      have alt: "alternating False vs" using alternating_append [of _ us vs] less.prems(2) split alternating_mono by metis
      have "concat (map fst vs) = [] \<or> map_of G (k + length A) \<noteq> None"
        using vs G [of "k + length A"] by (cases vs) auto
      moreover have "map_of G i = None" if "k \<le> i" "i < k + length A" for i
        using G [OF that(1)] gaps_of_below [OF that(2)] by simp
      ultimately have n: "hunk_length G k (A @ concat (map fst vs)) = length A" by (intro hunk_length_append) auto
      obtain r A' where A: "A = r # A'" using us(2) split ne Cons b by (cases us) (auto simp: A_def neq_Nil_conv)
      then have gk: "map_of G k = None" using G [of k] gaps_of_below [of k "k + length A" vs] by simp
      have "display_rows G k p (A @ concat (map fst vs)) =
          Hunk (''hunk-'' @ row_id (hd A)) p (Some (lineRange server_line A, lineRange device_line A)) #
          map Row A @ display_rows G (k + length A) None (concat (map fst vs))"
        using n gk A by (simp add: Let_def)
      moreover have "shown (display_rows G (k + length A) None (concat (map fst vs))) = concat (map fst (filter (\<lambda>b. \<not> snd b) vs)) \<and>
          hidden_total (display_rows G (k + length A) None (concat (map fst vs))) = gap_hidden None + length (concat (map fst (filter snd vs)))"
        using split us(2) G alt by (intro less.hyps) auto
      ultimately show ?thesis using us(1) unfolding split by (simp add: A_def [symmetric] gap_hidden_def)
    qed
  qed
qed


lemma changedRows_append: "changedRows (xs @ ys) = changedRows xs @ changedRows ys"
  by (induction xs rule: changedRows.induct) auto

lemma changedRows_none: "(\<forall>r\<in>set rows. \<not> is_change r) \<Longrightarrow> changedRows rows = []"
  by (induction rows rule: changedRows.induct) (auto simp: is_change_def)

lemma changedRows_blocks:
  "(\<forall>(rs, c)\<in>set bs. c \<longrightarrow> changedRows rs = []) \<Longrightarrow> changedRows (concat (map fst (filter (\<lambda>b. \<not> snd b) bs))) = changedRows (concat (map fst bs))"
  by (induction bs) (auto simp: changedRows_append)

lemma change_visible:
  assumes "(r, False) \<in> set (zip rows (visible_rows context rows))"
  shows "\<not> is_change r"
proof
  assume "is_change r"
  obtain i where i: "i < length rows" "rows ! i = r" "visible_rows context rows ! i = False"
    using assms by (auto simp: in_set_zip)
  then have "\<forall>j\<in>{0..<length rows}. \<not> (is_change (rows ! j) \<and> j - context \<le> i \<and> i \<le> j + context)"
    by (simp add: visible_rows_def list_ex_iff)
  from bspec [OF this, of i] i \<open>is_change r\<close> show False by simp
qed

lemma length_blocks: "length (concat (map fst (filter (\<lambda>b. \<not> snd b) bs))) + length (concat (map fst (filter snd bs))) = length (concat (map fst bs))"
  by (induction bs) auto

lemma concat_filter_subseq: "subseq (concat (map fst (filter P bs))) (concat (map fst bs))"
  by (induction bs) (auto intro: list_emb_append_mono list_emb_append2 subseq_append_iff [THEN iffD2])

text \<open>Collapsing a diff hides no changed row and accounts for every row: the rows shown are, in order, rows of the
  diff, they include every changed row, and together with the numbers announced for the gaps they make up the whole diff.
  When every gap is expanded everything is shown.\<close>

theorem collapse_complete:
  "subseq (shown (collapseConflictDiff expanded context rows)) rows \<and>
   changedRows (shown (collapseConflictDiff expanded context rows)) = changedRows rows \<and>
   length (shown (collapseConflictDiff expanded context rows)) + hidden_total (collapseConflictDiff expanded context rows) = length rows \<and>
   shown (collapseConflictDiff (\<lambda>_. True) context rows) = rows"
proof -
  let ?bs = "\<lambda>e. blocks e (zip rows (visible_rows context rows))"
  have rows: "concat (map fst (?bs e)) = rows" for e by (simp add: blocks_rows visible_rows_def)
  have d: "shown (collapseConflictDiff e context rows) = concat (map fst (filter (\<lambda>b. \<not> snd b) (?bs e))) \<and>
      hidden_total (collapseConflictDiff e context rows) = length (concat (map fst (filter snd (?bs e))))" for e
    using display_blocks [of 0 "gaps_of 0 (?bs e)" "?bs e" None] blocks_alternating
    by (simp add: collapseConflictDiff_def find_gaps_blocks rows gap_hidden_def)
  have "\<forall>(rs, c)\<in>set (?bs expanded). c \<longrightarrow> changedRows rs = []"
  proof (intro ballI, unfold case_prod_beta, intro impI changedRows_none)
    fix b assume "b \<in> set (?bs expanded)" "snd b"
    then have "(fst b, True) \<in> set (?bs expanded)" by (metis (full_types) prod.collapse)
    then show "\<forall>r\<in>set (fst b). \<not> is_change r" using blocks_hidden change_visible by blast
  qed
  from changedRows_blocks [OF this] have "changedRows (shown (collapseConflictDiff expanded context rows)) = changedRows rows"
    by (simp add: d rows)
  moreover have "subseq (shown (collapseConflictDiff expanded context rows)) rows"
    using concat_filter_subseq [of "\<lambda>b. \<not> snd b" "?bs expanded"] by (simp add: d rows)
  moreover have "filter (\<lambda>b. \<not> snd b) (?bs (\<lambda>_. True)) = ?bs (\<lambda>_. True)"
    using blocks_hidden by (fastforce simp: filter_id_conv)
  ultimately show ?thesis using length_blocks [of "?bs expanded"] by (simp add: d rows)
qed

end
