(* ===== verification/DecisionUnits.thy ===== *)
theory DecisionUnits
  imports ConflictDiff
begin

text \<open>
  \<^verbatim>\<open>frontend/dashboard/src/conflictDecisions.ts\<close>: the partition of the affected paths of a conflict into the units that
  are decided together, the choices a unit offers, and what is submitted. The map \<open>parent\<close> of the union-find is an
  association list in insertion order. The loop of \<open>find\<close> is bounded by the number of keys, which is enough: a run out of
  fuel would be a loop that does not end, and it is shown not to happen. \<open>localeCompare\<close> is the argument \<open>collate\<close>.
\<close>

type_synonym forest = "(string \<times> string) list"

fun find_root :: "nat \<Rightarrow> forest \<Rightarrow> string \<Rightarrow> string option" where
  "find_root fuel parent rt =
     (case map_of parent rt of
        None \<Rightarrow> None
      | Some q \<Rightarrow> if q = rt then Some rt else (case fuel of 0 \<Rightarrow> None | Suc n \<Rightarrow> find_root n parent q))"

declare find_root.simps [simp del]

definition uf_find :: "string \<Rightarrow> forest \<Rightarrow> (string \<times> forest) option" where
  "uf_find path parent = map_option (\<lambda>rt. (rt, AList.update path rt parent)) (find_root (length parent) parent path)"

definition uf_add :: "string \<Rightarrow> forest \<Rightarrow> forest" where
  "uf_add path parent = (if map_of parent path = None then AList.update path path parent else parent)"

definition uf_union :: "string \<Rightarrow> string \<Rightarrow> forest \<Rightarrow> forest option" where
  "uf_union left right parent =
     Option.bind (uf_find left parent) (\<lambda>(leftRoot, parent1).
       Option.bind (uf_find right parent1) (\<lambda>(rightRoot, parent2).
         Some (if leftRoot \<noteq> rightRoot then AList.update rightRoot leftRoot parent2 else parent2)))"

fun uf_unions :: "(string \<times> string) list \<Rightarrow> forest \<Rightarrow> forest option" where
  "uf_unions [] parent = Some parent"
| "uf_unions ((l, r) # ls) parent = Option.bind (uf_union l r parent) (uf_unions ls)"

fun link_groups :: "review_path list \<Rightarrow> forest \<Rightarrow> forest option" where
  "link_groups [] parent = Some parent"
| "link_groups (g # gs) parent =
     Option.bind (uf_unions (map (\<lambda>p. (hd (affected_paths g), p)) (tl (affected_paths g))) (fold uf_add (affected_paths g) parent))
       (link_groups gs)"

definition overlaps :: "string list \<Rightarrow> (string \<times> string) list" where
  "overlaps paths = concat (map (\<lambda>p. map (\<lambda>q. (p, q)) (filter (\<lambda>q. q \<noteq> p \<and> js_startsWith q (p @ ''/'')) paths)) paths)"

fun collect_members :: "string list \<Rightarrow> forest \<Rightarrow> (string \<times> string list) list \<Rightarrow> (string \<times> string list) list option" where
  "collect_members [] parent members = Some members"
| "collect_members (p # ps) parent members =
     Option.bind (uf_find p parent) (\<lambda>(rt, parent').
       collect_members ps parent' (AList.update rt ((case map_of members rt of None \<Rightarrow> [] | Some xs \<Rightarrow> xs) @ [p]) members))"

record decision_unit =
  unit_id :: string
  unit_paths :: "string list"
  unit_files :: "review_file list"
  titleGroup :: "review_path option"

definition file_position :: "review_file list \<Rightarrow> string \<Rightarrow> int" where
  "file_position files path =
     (case map_of (rev (zip (map file_path files) [0..<length files])) path of None \<Rightarrow> 9007199254740991 | Some i \<Rightarrow> int i)"

definition compare_paths :: "(string \<Rightarrow> string \<Rightarrow> int) \<Rightarrow> review_file list \<Rightarrow> string \<Rightarrow> string \<Rightarrow> int" where
  "compare_paths collate files left right =
     (let d = file_position files left - file_position files right in if d \<noteq> 0 then d else collate left right)"

definition make_unit :: "(string \<Rightarrow> string \<Rightarrow> int) \<Rightarrow> review_file list \<Rightarrow> review_path list \<Rightarrow> string list \<Rightarrow> decision_unit" where
  "make_unit collate files groups paths =
     (let ordered = js_sort (compare_paths collate files) paths
      in \<lparr>unit_id = hd ordered, unit_paths = ordered,
          unit_files = concat (map (\<lambda>p. filter (\<lambda>f. file_path f = p) files) ordered),
          titleGroup = find hasDivergentFinalPaths (filter (\<lambda>g. list_ex (\<lambda>p. p \<in> set paths) (affected_paths g)) groups)\<rparr>)"

definition buildDecisionUnits ::
  "(string \<Rightarrow> string \<Rightarrow> int) \<Rightarrow> review_file list \<Rightarrow> review_path list \<Rightarrow> string list \<Rightarrow> decision_unit list option" where
  "buildDecisionUnits collate files groups affected =
     Option.bind (link_groups groups (fold uf_add (map file_path files) (fold uf_add affected []))) (\<lambda>parent.
       let paths = map fst parent
       in Option.bind (uf_unions (overlaps paths) parent) (\<lambda>parent'.
            map_option (\<lambda>members. js_sort (\<lambda>l r. compare_paths collate files (unit_id l) (unit_id r))
                (map (make_unit collate files groups) (map snd members)))
              (collect_members paths parent' [])))"

section \<open>Choices\<close>

datatype file_choice = Keep_server | Use_device | Lines | Keep_both_files | Insert_both_blocks | Manual

datatype no_lines_reason = Binary_content | Large_content | Divergent_renames | Empty_add_or_delete | Identical | No_reason

record decision_capabilities =
  can_lines :: bool
  can_insertBoth :: bool
  can_edit :: bool
  reason :: no_lines_reason

definition decisionCapabilities :: "decision_unit \<Rightarrow> (string \<Rightarrow> diff_row list) \<Rightarrow> decision_capabilities" where
  "decisionCapabilities u rows_of =
     (let binary = list_ex (\<lambda>f. content_kind f = Binary) (unit_files u);
          large = list_ex (\<lambda>f. content_kind f = Large_text) (unit_files u);
          unlineable = list_ex (\<lambda>f. content_kind f = Text \<and> changedRows (rows_of (file_path f)) = [] \<and> server_content f \<noteq> device_content f) (unit_files u);
          hasChanges = list_ex (\<lambda>f. changedRows (rows_of (file_path f)) \<noteq> []) (unit_files u)
      in \<lparr>can_lines = (\<not> binary \<and> \<not> large \<and> titleGroup u = None \<and> \<not> unlineable \<and> hasChanges),
          can_insertBoth = (\<not> binary), can_edit = (\<not> binary \<and> \<not> large),
          reason = (if binary then Binary_content else if large then Large_content else if titleGroup u \<noteq> None then Divergent_renames
            else if unlineable then Empty_add_or_delete else if \<not> hasChanges then Identical else No_reason)\<rparr>)"

record unit_status =
  status_choice :: "file_choice option"
  decided :: bool
  remainingLines :: nat

definition unitStatus ::
  "decision_unit \<Rightarrow> file_choice option \<Rightarrow> (string \<Rightarrow> diff_row list) \<Rightarrow> (string \<Rightarrow> string \<Rightarrow> line_resolution option) \<Rightarrow> unit_status" where
  "unitStatus u choice rows_of lineChoices =
     (case choice of
        None \<Rightarrow> \<lparr>status_choice = None, decided = False, remainingLines = 0\<rparr>
      | Some c \<Rightarrow>
          if c \<noteq> Lines then \<lparr>status_choice = Some c, decided = True, remainingLines = 0\<rparr>
          else let remaining = sum_list (map (\<lambda>f. length (filter (\<lambda>r. lineChoices (file_path f) (change_id r) = None)
                      (changedRows (rows_of (file_path f))))) (unit_files u))
               in \<lparr>status_choice = Some c, decided = (remaining = 0), remainingLines = remaining\<rparr>)"

record resolution_entry =
  entry_paths :: "string list"
  entry_choice :: file_choice

datatype submission = Whole_package file_choice | Per_file "resolution_entry list"

definition perFileSubmission :: "resolution_entry list \<Rightarrow> string list \<Rightarrow> submission option" where
  "perFileSubmission es contentlessPaths =
     (case es of
        [] \<Rightarrow> None
      | e # _ \<Rightarrow>
          if entry_choice e \<noteq> Manual \<and> list_all (\<lambda>x. entry_choice x = entry_choice e) es then Some (Whole_package (entry_choice e))
          else Some (Per_file (es @ (if contentlessPaths \<noteq> [] then [\<lparr>entry_paths = contentlessPaths, entry_choice = Keep_server\<rparr>] else []))))"

section \<open>The union-find\<close>

text \<open>\<open>parent\<close> represents the equivalence generated by the links \<open>L\<close>: \<open>\<rho>\<close> gives the root of every key, following
  \<open>parent\<close> decreases \<open>d\<close>, and \<open>d\<close> is below the size of the class.\<close>

definition class_size :: "forest \<Rightarrow> (string \<Rightarrow> string) \<Rightarrow> string \<Rightarrow> nat" where
  "class_size parent \<rho> x = card {y \<in> dom (map_of parent). \<rho> y = \<rho> x}"

definition uf_rep :: "forest \<Rightarrow> (string \<times> string) set \<Rightarrow> (string \<Rightarrow> string) \<Rightarrow> (string \<Rightarrow> nat) \<Rightarrow> bool" where
  "uf_rep parent L \<rho> d \<longleftrightarrow> distinct (map fst parent) \<and>
     (\<forall>x q. map_of parent x = Some q \<longrightarrow> q \<in> dom (map_of parent) \<and> \<rho> q = \<rho> x \<and> (q \<noteq> x \<longrightarrow> d q < d x) \<and> (q = x \<longrightarrow> \<rho> x = x)) \<and>
     (\<forall>x\<in>dom (map_of parent). map_of parent (\<rho> x) = Some (\<rho> x) \<and> \<rho> (\<rho> x) = \<rho> x \<and> d (\<rho> x) = 0 \<and> d x < class_size parent \<rho> x \<and>
        equivclp (\<lambda>a b. (a, b) \<in> L) x (\<rho> x)) \<and>
     (\<forall>(a, b)\<in>L. a \<in> dom (map_of parent) \<and> b \<in> dom (map_of parent) \<and> \<rho> a = \<rho> b)"

lemma uf_rep_D:
  assumes "uf_rep parent L \<rho> d"
  shows "distinct (map fst parent)"
    and "map_of parent x = Some q \<Longrightarrow> q \<in> dom (map_of parent) \<and> \<rho> q = \<rho> x \<and> (q \<noteq> x \<longrightarrow> d q < d x) \<and> (q = x \<longrightarrow> \<rho> x = x)"
    and "x \<in> dom (map_of parent) \<Longrightarrow> map_of parent (\<rho> x) = Some (\<rho> x) \<and> \<rho> (\<rho> x) = \<rho> x \<and> d (\<rho> x) = 0 \<and> d x < class_size parent \<rho> x \<and>
      equivclp (\<lambda>a b. (a, b) \<in> L) x (\<rho> x)"
    and "(a, b) \<in> L \<Longrightarrow> a \<in> dom (map_of parent) \<and> b \<in> dom (map_of parent) \<and> \<rho> a = \<rho> b"
  using assms unfolding uf_rep_def by (blast, blast, blast, blast)

lemma uf_rep_I:
  assumes "distinct (map fst parent)"
    and "\<And>x q. map_of parent x = Some q \<Longrightarrow> q \<in> dom (map_of parent) \<and> \<rho> q = \<rho> x \<and> (q \<noteq> x \<longrightarrow> d q < d x) \<and> (q = x \<longrightarrow> \<rho> x = x)"
    and "\<And>x. x \<in> dom (map_of parent) \<Longrightarrow> map_of parent (\<rho> x) = Some (\<rho> x) \<and> \<rho> (\<rho> x) = \<rho> x \<and> d (\<rho> x) = 0 \<and> d x < class_size parent \<rho> x \<and>
      equivclp (\<lambda>a b. (a, b) \<in> L) x (\<rho> x)"
    and "\<And>a b. (a, b) \<in> L \<Longrightarrow> a \<in> dom (map_of parent) \<and> b \<in> dom (map_of parent) \<and> \<rho> a = \<rho> b"
  shows "uf_rep parent L \<rho> d"
  using assms unfolding uf_rep_def by blast

lemma find_root_rep:
  assumes "uf_rep parent L \<rho> d" and "x \<in> dom (map_of parent)" and "d x \<le> fuel"
  shows "find_root fuel parent x = Some (\<rho> x)"
  using assms(2,3)
proof (induction fuel arbitrary: x)
  case 0
  then obtain q where "map_of parent x = Some q" by blast
  with uf_rep_D(2) [OF assms(1) this] 0 show ?case by (auto simp: find_root.simps)
next
  case (Suc n)
  then obtain q where q: "map_of parent x = Some q" by blast
  with uf_rep_D(2) [OF assms(1) q] Suc.IH [of q] Suc.prems show ?case by (auto simp: find_root.simps)
qed

lemma class_size_le: "class_size parent \<rho> x \<le> length parent"
proof -
  have "class_size parent \<rho> x \<le> card (dom (map_of parent))"
    unfolding class_size_def by (intro card_mono) (auto simp: finite_dom_map_of)
  also have "\<dots> \<le> length parent" unfolding dom_map_of_conv_image_fst by (metis card_length length_map set_map)
  finally show ?thesis .
qed

lemma uf_find_rep:
  assumes "uf_rep parent L \<rho> d" and "x \<in> dom (map_of parent)"
  shows "\<exists>parent'. uf_find x parent = Some (\<rho> x, parent') \<and> map fst parent' = map fst parent \<and> uf_rep parent' L \<rho> d"
proof -
  note D = uf_rep_D [OF assms(1)]
  note Dx = D(3) [OF assms(2)]
  have "d x \<le> length parent" using Dx class_size_le [of parent \<rho> x] by linarith
  then have f: "find_root (length parent) parent x = Some (\<rho> x)" by (rule find_root_rep [OF assms])
  let ?p = "AList.update x (\<rho> x) parent"
  have m: "map_of ?p y = (if y = x then Some (\<rho> x) else map_of parent y)" for y by (auto simp: update_conv')
  have keys: "map fst ?p = map fst parent" using assms(2) by (induction parent) (auto split: if_splits)
  have dom: "dom (map_of ?p) = dom (map_of parent)" using assms(2) by (auto simp: m split: if_splits)
  have dr: "d (\<rho> x) < d x" if "\<rho> x \<noteq> x"
  proof -
    obtain q where q: "map_of parent x = Some q" using assms(2) by blast
    with D(2) [OF q] that have "d q < d x" by auto
    then show ?thesis using Dx by simp
  qed
  have size: "class_size ?p \<rho> y = class_size parent \<rho> y" for y by (simp add: class_size_def dom)
  have "distinct (map fst ?p)" using D(1) by (simp only: keys)
  moreover have "\<rho> x \<in> dom (map_of parent)" using Dx by blast
  ultimately have "uf_rep ?p L \<rho> d"
  proof (intro uf_rep_I, unfold dom size)
    fix y q assume y: "map_of ?p y = Some q"
    show "q \<in> dom (map_of parent) \<and> \<rho> q = \<rho> y \<and> (q \<noteq> y \<longrightarrow> d q < d y) \<and> (q = y \<longrightarrow> \<rho> y = y)"
    proof (cases "y = x")
      case True
      with y have "q = \<rho> x" by (simp add: m)
      with True Dx dr \<open>\<rho> x \<in> dom (map_of parent)\<close> show ?thesis by metis
    next
      case False
      with y D(2) [of y q] show ?thesis by (simp add: m)
    qed
  next
    fix y assume "y \<in> dom (map_of parent)"
    note Dy = D(3) [OF this]
    moreover have "map_of ?p (\<rho> y) = Some (\<rho> y)"
    proof (cases "\<rho> y = x")
      case True
      then have "\<rho> x = x" using Dy by metis
      with True show ?thesis using m [of x] by simp
    qed (use Dy in \<open>simp add: m\<close>)
    ultimately show "map_of ?p (\<rho> y) = Some (\<rho> y) \<and> \<rho> (\<rho> y) = \<rho> y \<and> d (\<rho> y) = 0 \<and> d y < class_size parent \<rho> y \<and>
        equivclp (\<lambda>a b. (a, b) \<in> L) y (\<rho> y)" by blast
  qed (assumption, rule D(4))
  with f keys show ?thesis by (simp add: uf_find_def)
qed

lemma uf_add_rep:
  assumes "uf_rep parent L \<rho> d"
  shows "\<exists>\<rho> d. uf_rep (uf_add x parent) L \<rho> d"
proof (cases "map_of parent x")
  case (Some q)
  then show ?thesis using assms by (auto simp: uf_add_def)
next
  case None
  note D = uf_rep_D [OF assms]
  let ?p = "AList.update x x parent" and ?\<rho> = "\<rho>(x := x)" and ?d = "d(x := 0)"
  have m: "map_of ?p y = (if y = x then Some x else map_of parent y)" for y by (auto simp: update_conv')
  have dom: "dom (map_of ?p) = insert x (dom (map_of parent))" by (auto simp: m split: if_splits)
  have fresh: "\<rho> y \<noteq> x" "y \<noteq> x" if "y \<in> dom (map_of parent)" for y using D(3) [OF that] None that by auto
  have "{y \<in> insert x (dom (map_of parent)). ?\<rho> y = ?\<rho> z} = {y \<in> dom (map_of parent). \<rho> y = \<rho> z}" if "z \<in> dom (map_of parent)" for z
    using fresh [OF that] fresh by auto
  then have size: "class_size ?p ?\<rho> z = class_size parent \<rho> z" if "z \<in> dom (map_of parent)" for z using that by (simp add: class_size_def dom)
  have size_x: "class_size ?p ?\<rho> x = 1"
  proof -
    have "{y \<in> insert x (dom (map_of parent)). ?\<rho> y = ?\<rho> x} = {x}" using fresh by auto
    then show ?thesis by (simp add: class_size_def dom)
  qed
  have "uf_rep ?p L ?\<rho> ?d"
  proof (intro uf_rep_I, unfold dom)
    show "distinct (map fst ?p)" using D(1) by (rule distinct_update)
  next
    fix y q assume y: "map_of ?p y = Some q"
    show "q \<in> insert x (dom (map_of parent)) \<and> ?\<rho> q = ?\<rho> y \<and> (q \<noteq> y \<longrightarrow> ?d q < ?d y) \<and> (q = y \<longrightarrow> ?\<rho> y = y)"
    proof (cases "y = x")
      case False
      with y have "map_of parent y = Some q" by (simp add: m)
      from D(2) [OF this] fresh [of q] False show ?thesis by simp
    qed (use y in \<open>simp add: m\<close>)
  next
    fix y assume y: "y \<in> insert x (dom (map_of parent))"
    show "map_of ?p (?\<rho> y) = Some (?\<rho> y) \<and> ?\<rho> (?\<rho> y) = ?\<rho> y \<and> ?d (?\<rho> y) = 0 \<and> ?d y < class_size ?p ?\<rho> y \<and> equivclp (\<lambda>a b. (a, b) \<in> L) y (?\<rho> y)"
    proof (cases "y = x")
      case False
      with y have "y \<in> dom (map_of parent)" by simp
      from D(3) [OF this] fresh [OF this] size [OF this] show ?thesis by (simp add: m)
    qed (use size_x in \<open>simp add: m\<close>)
  next
    fix a b assume "(a, b) \<in> L"
    from D(4) [OF this] fresh [of a] fresh [of b]
    show "a \<in> insert x (dom (map_of parent)) \<and> b \<in> insert x (dom (map_of parent)) \<and> ?\<rho> a = ?\<rho> b" by simp
  qed
  then show ?thesis using None by (auto simp: uf_add_def)
qed

lemma equivclp_mono: "equivclp (\<lambda>a b. (a, b) \<in> L) x y \<Longrightarrow> L \<subseteq> M \<Longrightarrow> equivclp (\<lambda>a b. (a, b) \<in> M) x y"
  by (induction rule: equivclp_induct) (auto intro: equivclp_into_equivclp)

lemma equivclp_link: "(a, b) \<in> L \<Longrightarrow> equivclp (\<lambda>a b. (a, b) \<in> L) a b"
  by (rule r_into_equivclp)

text \<open>Hanging the root of \<open>r\<close> below the root of \<open>l\<close>.\<close>

lemma uf_link_rep:
  assumes "uf_rep parent L \<rho> d" and l: "l \<in> dom (map_of parent)" and r: "r \<in> dom (map_of parent)" and ne: "\<rho> l \<noteq> \<rho> r"
  shows "\<exists>\<rho>' d'. uf_rep (AList.update (\<rho> r) (\<rho> l) parent) (insert (l, r) L) \<rho>' d'"
proof -
  note D = uf_rep_D [OF assms(1)]
  note Dl = D(3) [OF l] and Dr = D(3) [OF r]
  let ?p = "AList.update (\<rho> r) (\<rho> l) parent"
  let ?\<rho> = "\<lambda>x. if \<rho> x = \<rho> r then \<rho> l else \<rho> x" and ?d = "\<lambda>x. if \<rho> x = \<rho> r then Suc (d x) else d x"
  let ?E = "equivclp (\<lambda>a b. (a, b) \<in> insert (l, r) L)"
  have m: "map_of ?p y = (if y = \<rho> r then Some (\<rho> l) else map_of parent y)" for y by (auto simp: update_conv')
  have "\<rho> r \<in> dom (map_of parent)" using Dr by blast
  then have dom: "dom (map_of ?p) = dom (map_of parent)" by (simp add: update_conv' insert_absorb)
  have rl: "?\<rho> (\<rho> r) = \<rho> l" "?\<rho> (\<rho> l) = \<rho> l" using Dl Dr ne by auto
  have E: "?E x (\<rho> x)" if "x \<in> dom (map_of parent)" for x
    using equivclp_mono [of L x "\<rho> x"] D(3) [OF that] by blast
  have "?E (\<rho> r) (\<rho> l)"
    by (rule equivclp_trans [OF equivclp_sym [OF E [OF r]] equivclp_trans [OF equivclp_sym [OF equivclp_link] E [OF l]]]) simp
  then have E': "?E x (?\<rho> x)" if "x \<in> dom (map_of parent)" for x
    using E [OF that] by (auto intro: equivclp_trans)
  have size: "?d x < class_size ?p ?\<rho> x" if x: "x \<in> dom (map_of parent)" for x
  proof -
    let ?C = "\<lambda>z. {y \<in> dom (map_of parent). \<rho> y = z}"
    have fin: "finite (?C z)" for z by (simp add: finite_dom_map_of)
    have "\<rho> l \<in> ?C (\<rho> l)" using Dl by auto
    then have "1 \<le> card (?C (\<rho> l))" using fin [of "\<rho> l"] by (metis card_0_eq empty_iff less_one not_le)
    moreover have "card (?C (\<rho> l) \<union> ?C (\<rho> r)) = card (?C (\<rho> l)) + card (?C (\<rho> r))"
      using fin ne by (intro card_Un_disjoint) auto
    moreover have "{y \<in> dom (map_of parent). ?\<rho> y = \<rho> l} = ?C (\<rho> l) \<union> ?C (\<rho> r)" by auto
    moreover have "{y \<in> dom (map_of parent). ?\<rho> y = ?\<rho> x} = ?C (\<rho> x)" if "\<rho> x \<noteq> \<rho> r" "\<rho> x \<noteq> \<rho> l" using that by auto
    moreover have "d x < card (?C (\<rho> x))" using D(3) [OF x] by (simp add: class_size_def)
    ultimately show ?thesis unfolding class_size_def dom by (cases "\<rho> x = \<rho> r"; cases "\<rho> x = \<rho> l") auto
  qed
  have "uf_rep ?p (insert (l, r) L) ?\<rho> ?d"
  proof (intro uf_rep_I, unfold dom)
    show "distinct (map fst ?p)" using D(1) by (rule distinct_update)
  next
    fix y q assume y: "map_of ?p y = Some q"
    show "q \<in> dom (map_of parent) \<and> ?\<rho> q = ?\<rho> y \<and> (q \<noteq> y \<longrightarrow> ?d q < ?d y) \<and> (q = y \<longrightarrow> ?\<rho> y = y)"
    proof (cases "y = \<rho> r")
      case True
      with y have "q = \<rho> l" by (simp add: m)
      then show ?thesis unfolding True using rl Dl Dr ne by auto
    next
      case False
      with y have "map_of parent y = Some q" by (simp add: m)
      from D(2) [OF this] False show ?thesis by auto
    qed
  next
    fix y assume y: "y \<in> dom (map_of parent)"
    note Dy = D(3) [OF y]
    show "map_of ?p (?\<rho> y) = Some (?\<rho> y) \<and> ?\<rho> (?\<rho> y) = ?\<rho> y \<and> ?d (?\<rho> y) = 0 \<and> ?d y < class_size ?p ?\<rho> y \<and> ?E y (?\<rho> y)"
      using size [OF y] E' [OF y] Dy Dl ne by (simp add: m)
  next
    fix a b assume "(a, b) \<in> insert (l, r) L"
    then show "a \<in> dom (map_of parent) \<and> b \<in> dom (map_of parent) \<and> ?\<rho> a = ?\<rho> b"
      using D(4) [of a b] l r by auto
  qed
  then show ?thesis by blast
qed

lemma uf_insert_same:
  assumes "uf_rep parent L \<rho> d" and "l \<in> dom (map_of parent)" and "r \<in> dom (map_of parent)" and "\<rho> l = \<rho> r"
  shows "uf_rep parent (insert (l, r) L) \<rho> d"
  using assms(2-4) uf_rep_D [OF assms(1)] equivclp_mono [of L _ _ "insert (l, r) L"]
  by (intro uf_rep_I) blast+

definition represents :: "forest \<Rightarrow> (string \<times> string) set \<Rightarrow> bool" where
  "represents parent L \<longleftrightarrow> (\<exists>\<rho> d. uf_rep parent L \<rho> d)"

lemma keys_dom: "x \<in> dom (map_of parent) \<longleftrightarrow> x \<in> set (map fst parent)"
  by (simp add: dom_map_of_conv_image_fst)

lemma uf_union_represents:
  assumes "represents parent L" and "l \<in> set (map fst parent)" and "r \<in> set (map fst parent)"
  shows "\<exists>parent'. uf_union l r parent = Some parent' \<and> map fst parent' = map fst parent \<and> represents parent' (insert (l, r) L)"
proof -
  obtain \<rho> d where "uf_rep parent L \<rho> d" using assms(1) by (auto simp: represents_def)
  from uf_find_rep [OF this] assms(2) obtain p1 where p1: "uf_find l parent = Some (\<rho> l, p1)" "map fst p1 = map fst parent" "uf_rep p1 L \<rho> d"
    unfolding keys_dom by blast
  from uf_find_rep [OF p1(3)] assms(3) obtain p2 where p2: "uf_find r p1 = Some (\<rho> r, p2)" "map fst p2 = map fst parent" "uf_rep p2 L \<rho> d"
    unfolding keys_dom p1(2) by metis
  have lr: "l \<in> dom (map_of p2)" "r \<in> dom (map_of p2)" using assms(2,3) unfolding keys_dom p2(2) by auto
  show ?thesis
  proof (cases "\<rho> l = \<rho> r")
    case True
    with uf_insert_same [OF p2(3) lr] p1(1) p2(1,2) show ?thesis by (auto simp: uf_union_def represents_def)
  next
    case False
    have "map_of p2 (\<rho> r) = Some (\<rho> r)" using uf_rep_D(3) [OF p2(3) lr(2)] by (elim conjE)
    then have "\<rho> r \<in> set (map fst p2)" unfolding keys_dom [symmetric] by (rule domI)
    then have "map fst (AList.update (\<rho> r) (\<rho> l) p2) = map fst p2" by (simp only: update_keys if_True)
    note keys = trans [OF this p2(2)]
    have "uf_union l r parent = Some (AList.update (\<rho> r) (\<rho> l) p2)" using p1(1) p2(1) False by (simp add: uf_union_def)
    moreover have "represents (AList.update (\<rho> r) (\<rho> l) p2) (insert (l, r) L)"
      unfolding represents_def by (rule uf_link_rep [OF p2(3) lr False])
    ultimately show ?thesis using keys by blast
  qed
qed

lemma uf_unions_represents:
  assumes "represents parent L" and "\<forall>(l, r)\<in>set ls. l \<in> set (map fst parent) \<and> r \<in> set (map fst parent)"
  shows "\<exists>parent'. uf_unions ls parent = Some parent' \<and> map fst parent' = map fst parent \<and> represents parent' (set ls \<union> L)"
  using assms
proof (induction ls arbitrary: parent L)
  case (Cons lr ls)
  obtain l r where lr: "lr = (l, r)" by (cases lr)
  with Cons.prems uf_union_represents [OF Cons.prems(1), of l r] obtain p1
    where p1: "uf_union l r parent = Some p1" "map fst p1 = map fst parent" "represents p1 (insert (l, r) L)" by auto
  from Cons.IH [OF p1(3)] Cons.prems(2) p1(2) obtain p2
    where "uf_unions ls p1 = Some p2" "map fst p2 = map fst parent" "represents p2 (set ls \<union> insert (l, r) L)" by auto
  with p1 lr show ?case by auto
qed simp

lemma uf_adds_represents:
  assumes "represents parent L"
  shows "represents (fold uf_add xs parent) L \<and> set (map fst (fold uf_add xs parent)) = set (map fst parent) \<union> set xs"
  using assms
proof (induction xs arbitrary: parent)
  case (Cons x xs)
  have "represents (uf_add x parent) L" using Cons.prems uf_add_rep unfolding represents_def by blast
  moreover have "set (map fst (uf_add x parent)) = insert x (set (map fst parent))"
    using map_of_SomeD [of parent x] by (force simp: uf_add_def dom_update)
  ultimately show ?case using Cons.IH [of "uf_add x parent"] by simp
qed simp

definition group_links :: "review_path list \<Rightarrow> (string \<times> string) set" where
  "group_links gs = (\<Union>g\<in>set gs. (\<lambda>p. (hd (affected_paths g), p)) ` set (tl (affected_paths g)))"

lemma link_groups_represents:
  assumes "represents parent L"
  shows "\<exists>parent'. link_groups gs parent = Some parent' \<and> represents parent' (group_links gs \<union> L) \<and>
    set (map fst parent') = set (map fst parent) \<union> (\<Union>g\<in>set gs. set (affected_paths g))"
  using assms
proof (induction gs arbitrary: parent L)
  case (Cons g gs)
  let ?ls = "map (\<lambda>p. (hd (affected_paths g), p)) (tl (affected_paths g))"
  note added = uf_adds_represents [OF Cons.prems, of "affected_paths g"]
  have "\<forall>(l, r)\<in>set ?ls. l \<in> set (map fst (fold uf_add (affected_paths g) parent)) \<and> r \<in> set (map fst (fold uf_add (affected_paths g) parent))"
    using added by (cases "affected_paths g") auto
  with uf_unions_represents [OF conjunct1 [OF added]] obtain p1
    where p1: "uf_unions ?ls (fold uf_add (affected_paths g) parent) = Some p1"
      "map fst p1 = map fst (fold uf_add (affected_paths g) parent)" "represents p1 (set ?ls \<union> L)" by blast
  from Cons.IH [OF p1(3)] obtain p2 where p2: "link_groups gs p1 = Some p2" "represents p2 (group_links gs \<union> (set ?ls \<union> L))"
      "set (map fst p2) = set (map fst p1) \<union> (\<Union>g\<in>set gs. set (affected_paths g))" by blast
  have "set (map fst p1) = set (map fst parent) \<union> set (affected_paths g)" unfolding p1(2) using added by blast
  moreover have "group_links gs \<union> (set ?ls \<union> L) = group_links (g # gs) \<union> L" by (auto simp: group_links_def)
  ultimately show ?case using p1(1) p2 by (auto simp del: set_map)
qed (simp add: group_links_def)

lemma overlaps_iff: "(p, q) \<in> set (overlaps paths) \<longleftrightarrow> p \<in> set paths \<and> q \<in> set paths \<and> q \<noteq> p \<and> js_startsWith q (p @ ''/'')"
  by (auto simp: overlaps_def)

lemma collect_members_rep:
  assumes "uf_rep parent L \<rho> d" and "set ps \<subseteq> set (map fst parent)" and "distinct (map fst members)"
    and "\<And>z. map_of members z = (if \<exists>x\<in>set done_ps. \<rho> x = z then Some (filter (\<lambda>x. \<rho> x = z) done_ps) else None)"
  shows "\<exists>m. collect_members ps parent members = Some m \<and> distinct (map fst m) \<and>
    (\<forall>z. map_of m z = (if \<exists>x\<in>set (done_ps @ ps). \<rho> x = z then Some (filter (\<lambda>x. \<rho> x = z) (done_ps @ ps)) else None))"
  using assms
proof (induction ps arbitrary: parent members done_ps)
  case (Cons p ps)
  have "p \<in> dom (map_of parent)" using Cons.prems(2) unfolding keys_dom by simp
  from uf_find_rep [OF Cons.prems(1) this] obtain p1
    where p1: "uf_find p parent = Some (\<rho> p, p1)" "map fst p1 = map fst parent" "uf_rep p1 L \<rho> d" by blast
  let ?m = "AList.update (\<rho> p) ((case map_of members (\<rho> p) of None \<Rightarrow> [] | Some xs \<Rightarrow> xs) @ [p]) members"
  have "(case map_of members (\<rho> p) of None \<Rightarrow> [] | Some xs \<Rightarrow> xs) = filter (\<lambda>x. \<rho> x = \<rho> p) done_ps"
    unfolding Cons.prems(4) by (auto simp: filter_empty_conv)
  then have m: "map_of ?m z = (if \<exists>x\<in>set (done_ps @ [p]). \<rho> x = z then Some (filter (\<lambda>x. \<rho> x = z) (done_ps @ [p])) else None)" for z
    using Cons.prems(4) [of z] by (auto simp: update_conv')
  have "set ps \<subseteq> set (map fst p1)" using Cons.prems(2) unfolding p1(2) by simp
  note ih = Cons.IH [OF p1(3) this distinct_update [OF Cons.prems(3)] m]
  have "collect_members (p # ps) parent members = collect_members ps p1 ?m" using p1(1) by simp
  with ih show ?case by (simp only: append_assoc append_Cons append_Nil)
qed simp


lemma rep_equiv:
  assumes "uf_rep parent L \<rho> d" and "p \<in> set (map fst parent)" and "q \<in> set (map fst parent)"
  shows "\<rho> p = \<rho> q \<longleftrightarrow> equivclp (\<lambda>a b. (a, b) \<in> L) p q"
proof
  note D = uf_rep_D [OF assms(1)]
  assume eq: "\<rho> p = \<rho> q"
  have "equivclp (\<lambda>a b. (a, b) \<in> L) p (\<rho> p)" "equivclp (\<lambda>a b. (a, b) \<in> L) q (\<rho> q)"
    using D(3) [of p] D(3) [of q] assms(2,3) unfolding keys_dom by blast+
  then show "equivclp (\<lambda>a b. (a, b) \<in> L) p q" unfolding eq by (rule equivclp_trans [OF _ equivclp_sym])
next
  assume "equivclp (\<lambda>a b. (a, b) \<in> L) p q"
  then show "\<rho> p = \<rho> q" by (induction rule: equivclp_induct) (auto dest: uf_rep_D(4) [OF assms(1)])
qed

text \<open>Two paths must be decided together: a review group has both, or one is a directory above the other.\<close>

definition linked :: "review_path list \<Rightarrow> string set \<Rightarrow> string \<Rightarrow> string \<Rightarrow> bool" where
  "linked groups paths p q \<longleftrightarrow> (\<exists>g\<in>set groups. p \<in> set (affected_paths g) \<and> q \<in> set (affected_paths g)) \<or>
     p \<in> paths \<and> q \<in> paths \<and> js_startsWith q (p @ ''/'')"

lemma equivclp_lift:
  assumes "equivclp R x y" and "\<And>a b. R a b \<Longrightarrow> equivclp S a b"
  shows "equivclp S x y"
  using assms(1)
proof (induction rule: equivclp_induct)
  case (step y z)
  then show ?case using assms(2) by (blast intro: equivclp_trans equivclp_sym)
qed simp

lemma linked_equiv:
  assumes "set paths = P"
  shows "equivclp (\<lambda>a b. (a, b) \<in> set (overlaps paths) \<union> group_links groups) x y \<longleftrightarrow> equivclp (linked groups P) x y"
proof
  let ?L = "\<lambda>a b. (a, b) \<in> set (overlaps paths) \<union> group_links groups"
  assume "equivclp ?L x y"
  then show "equivclp (linked groups P) x y"
  proof (rule equivclp_lift)
    fix a b assume "(a, b) \<in> set (overlaps paths) \<union> group_links groups"
    then consider "(a, b) \<in> set (overlaps paths)" | g where "g \<in> set groups" "a = hd (affected_paths g)" "b \<in> set (tl (affected_paths g))"
      by (auto simp: group_links_def)
    then have "linked groups P a b"
    proof cases
      case 1
      then show ?thesis using assms by (auto simp: overlaps_iff linked_def)
    next
      case 2
      then have "a \<in> set (affected_paths g)" "b \<in> set (affected_paths g)" by (cases "affected_paths g"; simp)+
      with 2(1) show ?thesis by (auto simp: linked_def)
    qed
    then show "equivclp (linked groups P) a b" by (rule r_into_equivclp)
  qed
next
  let ?L = "\<lambda>a b. (a, b) \<in> set (overlaps paths) \<union> group_links groups"
  assume "equivclp (linked groups P) x y"
  then show "equivclp ?L x y"
  proof (rule equivclp_lift)
    fix a b assume "linked groups P a b"
    then consider g where "g \<in> set groups" "a \<in> set (affected_paths g)" "b \<in> set (affected_paths g)"
      | "a \<in> P" "b \<in> P" "js_startsWith b (a @ ''/'')" by (auto simp: linked_def)
    then show "equivclp ?L a b"
    proof cases
      case 1
      have "equivclp ?L (hd (affected_paths g)) z" if "z \<in> set (affected_paths g)" for z
      proof (cases "z \<in> set (tl (affected_paths g))")
        case True
        then show ?thesis using 1(1) by (intro r_into_equivclp) (auto simp: group_links_def)
      next
        case False
        with that have "z = hd (affected_paths g)" by (cases "affected_paths g") auto
        then show ?thesis by simp
      qed
      with 1(2,3) show ?thesis by (blast intro: equivclp_trans equivclp_sym)
    next
      case 2
      then have "b \<noteq> a" by (auto simp: js_startsWith_iff)
      with 2 assms show ?thesis by (intro r_into_equivclp) (auto simp: overlaps_iff)
    qed
  qed
qed


lemma make_unit_paths [simp]: "set (unit_paths (make_unit collate files groups ps)) = set ps"
    "distinct (unit_paths (make_unit collate files groups ps)) = distinct ps"
  by (simp_all add: make_unit_def Let_def)

text \<open>The lists collected for the roots are exactly the classes.\<close>

lemma members_classes:
  assumes "distinct (map fst m)"
    and "\<And>z. map_of m z = (if \<exists>x\<in>set ps. \<rho> x = z then Some (filter (\<lambda>x. \<rho> x = z) ps) else None)"
  shows "set (map snd m) = (\<lambda>p. filter (\<lambda>x. \<rho> x = \<rho> p) ps) ` set ps" and "distinct (map snd m)"
proof -
  have mem: "(z, xs) \<in> set m \<longleftrightarrow> (\<exists>p\<in>set ps. \<rho> p = z) \<and> xs = filter (\<lambda>x. \<rho> x = z) ps" for z xs
    using map_of_eq_Some_iff [OF assms(1), of z xs] assms(2) [of z] by (auto split: if_splits)
  show "set (map snd m) = (\<lambda>p. filter (\<lambda>x. \<rho> x = \<rho> p) ps) ` set ps"
  proof (intro set_eqI iffI)
    fix xs assume "xs \<in> set (map snd m)"
    then obtain z where "(z, xs) \<in> set m" by auto
    then show "xs \<in> (\<lambda>p. filter (\<lambda>x. \<rho> x = \<rho> p) ps) ` set ps" unfolding mem by blast
  next
    fix xs assume "xs \<in> (\<lambda>p. filter (\<lambda>x. \<rho> x = \<rho> p) ps) ` set ps"
    then obtain p where "p \<in> set ps" "xs = filter (\<lambda>x. \<rho> x = \<rho> p) ps" by blast
    then have "(\<rho> p, xs) \<in> set m" unfolding mem by blast
    then show "xs \<in> set (map snd m)" by force
  qed
  have "inj_on snd (set m)"
  proof (rule inj_onI)
    fix a b assume ab: "a \<in> set m" "b \<in> set m" "snd a = snd b"
    have "(fst a, snd a) \<in> set m" "(fst b, snd b) \<in> set m" using ab(1,2) by simp_all
    then obtain p where "p \<in> set ps" "\<rho> p = fst a" "snd a = filter (\<lambda>x. \<rho> x = fst a) ps"
      and b: "snd b = filter (\<lambda>x. \<rho> x = fst b) ps" unfolding mem by blast
    then have "p \<in> set (snd b)" using ab(3) by auto
    moreover note b
    ultimately show "a = b" using \<open>\<rho> p = fst a\<close> ab(3) by (auto simp: prod_eq_iff)
  qed
  then show "distinct (map snd m)" using assms(1) by (simp add: distinct_map)
qed

text \<open>The work on the union-find: the paths \<open>paths\<close> and their classes \<open>cs\<close>, by representative \<open>\<rho>\<close>.\<close>

lemma decision_members:
  assumes P: "P = set affected \<union> file_path ` set files \<union> (\<Union>g\<in>set groups. set (affected_paths g))"
  obtains cs paths and \<rho> :: "string \<Rightarrow> string" where
    "buildDecisionUnits collate files groups affected =
       Some (js_sort (\<lambda>l r. compare_paths collate files (unit_id l) (unit_id r)) (map (make_unit collate files groups) cs))"
    "set paths = P" "distinct paths" "set cs = (\<lambda>p. filter (\<lambda>x. \<rho> x = \<rho> p) paths) ` set paths" "distinct cs"
    "\<forall>p\<in>P. \<forall>q\<in>P. \<rho> p = \<rho> q \<longleftrightarrow> equivclp (linked groups P) p q"
proof -
  let ?p0 = "fold uf_add (map file_path files) (fold uf_add affected [])"
  have "represents [] {}" unfolding represents_def uf_rep_def by auto
  from uf_adds_represents [OF conjunct1 [OF uf_adds_represents [OF this, of affected]], of "map file_path files"]
    uf_adds_represents [OF this, of affected]
  have p0: "represents ?p0 {}" "set (map fst ?p0) = set affected \<union> file_path ` set files" by auto
  from link_groups_represents [OF p0(1), of groups] obtain p1 where p1: "link_groups groups ?p0 = Some p1"
      "represents p1 (group_links groups)" "set (map fst p1) = P" unfolding p0(2) P by auto
  let ?paths = "map fst p1"
  have "\<forall>(l, r)\<in>set (overlaps ?paths). l \<in> set ?paths \<and> r \<in> set ?paths" by (auto simp: overlaps_iff simp del: set_map)
  from uf_unions_represents [OF p1(2) this] obtain p2 \<rho> d where p2: "uf_unions (overlaps ?paths) p1 = Some p2"
      "map fst p2 = ?paths" "uf_rep p2 (set (overlaps ?paths) \<union> group_links groups) \<rho> d" unfolding represents_def by blast
  have "set ?paths \<subseteq> set (map fst p2)" by (simp only: p2(2) order_refl)
  from collect_members_rep [OF p2(3) this, of "[]" "[]"] obtain m where m: "collect_members ?paths p2 [] = Some m" "distinct (map fst m)"
      "\<And>z. map_of m z = (if \<exists>x\<in>set ?paths. \<rho> x = z then Some (filter (\<lambda>x. \<rho> x = z) ?paths) else None)" by auto
  have "distinct ?paths" using uf_rep_D(1) [OF p2(3)] by (simp only: p2(2))
  moreover have "\<rho> p = \<rho> q \<longleftrightarrow> equivclp (linked groups P) p q" if "p \<in> P" "q \<in> P" for p q
    using rep_equiv [OF p2(3), of p q] that unfolding p2(2) p1(3) linked_equiv [OF p1(3)] by blast
  moreover have "buildDecisionUnits collate files groups affected =
      Some (js_sort (\<lambda>l r. compare_paths collate files (unit_id l) (unit_id r)) (map (make_unit collate files groups) (map snd m)))"
    unfolding buildDecisionUnits_def using p1(1) p2(1) m(1) by simp
  ultimately show ?thesis using that [of "map snd m" ?paths \<rho>] p1(3) members_classes [OF m(2,3)] by blast
qed

text \<open>One unit per class.\<close>

lemma class_units:
  assumes dist: "distinct paths" and cs: "set cs = (\<lambda>p. filter (\<lambda>x. \<rho> x = \<rho> p) paths) ` set paths" "distinct cs"
    and units_def: "units = map (make_unit collate files groups) cs"
  shows "distinct units" and "(\<Union>u\<in>set units. set (unit_paths u)) = set paths"
    and "u \<in> set units \<Longrightarrow> unit_paths u \<noteq> [] \<and> distinct (unit_paths u)"
    and "u \<in> set units \<Longrightarrow> p \<in> set (unit_paths u) \<Longrightarrow> set (unit_paths u) = {q \<in> set paths. \<rho> q = \<rho> p} \<and> p \<in> set paths"
proof -
  have unit: "\<exists>p\<in>set paths. u = make_unit collate files groups (filter (\<lambda>x. \<rho> x = \<rho> p) paths)" if "u \<in> set units" for u
    using that unfolding units_def set_map cs(1) by blast
  have "inj_on (make_unit collate files groups) (set cs)"
  proof (rule inj_onI, unfold cs(1))
    fix xs ys assume "xs \<in> (\<lambda>p. filter (\<lambda>x. \<rho> x = \<rho> p) paths) ` set paths" "ys \<in> (\<lambda>p. filter (\<lambda>x. \<rho> x = \<rho> p) paths) ` set paths"
      and eq: "make_unit collate files groups xs = make_unit collate files groups ys"
    then obtain p q where p: "p \<in> set paths" "xs = filter (\<lambda>x. \<rho> x = \<rho> p) paths" "ys = filter (\<lambda>x. \<rho> x = \<rho> q) paths" by blast
    then have "p \<in> set xs" by simp
    also have "set xs = set ys" using make_unit_paths(1) [of collate files groups] eq by metis
    finally show "xs = ys" using p by simp
  qed
  then show "distinct units" using cs(2) by (simp only: units_def distinct_map)
  show "(\<Union>u\<in>set units. set (unit_paths u)) = set paths"
    unfolding units_def image_image set_map cs(1) by auto
  show "unit_paths u \<noteq> [] \<and> distinct (unit_paths u)" if u: "u \<in> set units"
  proof -
    obtain p where p: "p \<in> set paths" "u = make_unit collate files groups (filter (\<lambda>x. \<rho> x = \<rho> p) paths)" using unit [OF u] by blast
    then have "p \<in> set (unit_paths u)" "distinct (unit_paths u)" using dist by simp_all
    then show ?thesis by auto
  qed
  show "set (unit_paths u) = {q \<in> set paths. \<rho> q = \<rho> p} \<and> p \<in> set paths" if "u \<in> set units" "p \<in> set (unit_paths u)"
    using unit [OF that(1)] that(2) by auto
qed

text \<open>C32. The affected paths are partitioned into the units that have to be decided together. The loops of the
  union-find end; every path of the affected paths, the files and the groups is in a unit, no unit is empty or repeated,
  and the unit of a path has exactly the paths that are connected to it by chains of shared groups and of
  file-and-directory overlaps.\<close>

theorem decision_units_partition:
  assumes "P = set affected \<union> file_path ` set files \<union> (\<Union>g\<in>set groups. set (affected_paths g))"
  shows "\<exists>us. buildDecisionUnits collate files groups affected = Some us \<and> distinct us \<and> (\<Union>u\<in>set us. set (unit_paths u)) = P \<and>
    (\<forall>u\<in>set us. unit_paths u \<noteq> [] \<and> distinct (unit_paths u) \<and>
       (\<forall>p\<in>set (unit_paths u). set (unit_paths u) = {q \<in> P. equivclp (linked groups P) p q}))"
proof -
  obtain cs paths and \<rho> :: "string \<Rightarrow> string" where
    b: "buildDecisionUnits collate files groups affected =
       Some (js_sort (\<lambda>l r. compare_paths collate files (unit_id l) (unit_id r)) (map (make_unit collate files groups) cs))" and
    cs: "set paths = P" "distinct paths" "set cs = (\<lambda>p. filter (\<lambda>x. \<rho> x = \<rho> p) paths) ` set paths" "distinct cs" and
    same: "\<forall>p\<in>P. \<forall>q\<in>P. \<rho> p = \<rho> q \<longleftrightarrow> equivclp (linked groups P) p q"
    by (rule decision_members [where collate = collate, OF assms])
  let ?units = "map (make_unit collate files groups) cs"
  note units = class_units [where collate = collate and files = files and groups = groups, OF cs(2,3,4) refl]
  have "set (unit_paths u) = {q \<in> P. equivclp (linked groups P) p q}" if "u \<in> set ?units" "p \<in> set (unit_paths u)" for u p
  proof -
    have p: "set (unit_paths u) = {q \<in> P. \<rho> q = \<rho> p}" "p \<in> P" using units(4) [OF that] cs(1) by auto
    have "\<rho> q = \<rho> p \<longleftrightarrow> equivclp (linked groups P) p q" if "q \<in> P" for q using same p(2) that by metis
    with p(1) show ?thesis by blast
  qed
  moreover define us where "us = js_sort (\<lambda>l r. compare_paths collate files (unit_id l) (unit_id r)) ?units"
  moreover from this have "distinct us" "set us = set ?units" using units(1) by (simp_all only: set_js_sort distinct_js_sort)
  ultimately show ?thesis
    unfolding b using units(2,3) cs(1) by (intro exI [of _ us] conjI ballI) (simp_all only: simp_thms)
qed

definition demo_groups :: "review_path list" where
  "demo_groups = [\<lparr>server_path = Some ''x'', device_path = Some ''y'', affected_paths = [''x'', ''y'']\<rparr>]"

theorem decision_units_partition_witness:
  "\<exists>us u. buildDecisionUnits (\<lambda>_ _. 0) [] demo_groups [''y/n.md'', ''z''] = Some us \<and> u \<in> set us \<and> ''x'' \<in> set (unit_paths u) \<and> ''y/n.md'' \<in> set (unit_paths u)"
proof -
  define P where "P = {''y/n.md'', ''z'', ''x'', ''y''}"
  have P: "P = set [''y/n.md'', ''z''] \<union> file_path ` set ([] :: review_file list) \<union> (\<Union>g\<in>set demo_groups. set (affected_paths g))"
    by (auto simp: demo_groups_def P_def)
  from decision_units_partition [OF P, of "\<lambda>_ _. 0"] obtain us
    where us: "buildDecisionUnits (\<lambda>_ _. 0) [] demo_groups [''y/n.md'', ''z''] = Some us" "(\<Union>u\<in>set us. set (unit_paths u)) = P"
      "\<forall>u\<in>set us. \<forall>p\<in>set (unit_paths u). set (unit_paths u) = {q \<in> P. equivclp (linked demo_groups P) p q}"
    by blast
  have "''x'' \<in> P" by (simp add: P_def)
  then obtain u where u: "u \<in> set us" "''x'' \<in> set (unit_paths u)" unfolding us(2) [symmetric] by blast
  have "linked demo_groups P ''x'' ''y''" "linked demo_groups P ''y'' ''y/n.md''"
    by (simp_all add: linked_def demo_groups_def js_startsWith_def P_def)
  then have "equivclp (linked demo_groups P) ''x'' ''y''" "equivclp (linked demo_groups P) ''y'' ''y/n.md''"
    by (simp_all add: r_into_equivclp)
  then have "equivclp (linked demo_groups P) ''x'' ''y/n.md''" by (rule equivclp_trans)
  then have "''y/n.md'' \<in> {q \<in> P. equivclp (linked demo_groups P) ''x'' q}" by (simp add: P_def)
  moreover have "set (unit_paths u) = {q \<in> P. equivclp (linked demo_groups P) ''x'' q}" using us(3) u by blast
  ultimately have "''y/n.md'' \<in> set (unit_paths u)" by (simp only:)
  with us(1) u show ?thesis by blast
qed

text \<open>A unit that offers line choices and counts as decided with them can be submitted: every one of its files
  resolves to a definite content or to a deletion.\<close>

theorem decided_lines_resolve:
  assumes "can_lines (decisionCapabilities u rows_of)" and "decided (unitStatus u (Some Lines) rows_of choices)" and "f \<in> set (unit_files u)"
  shows "\<exists>c. resolveConflictFile f (rows_of (file_path f)) (choices (file_path f)) = Inr c"
proof -
  have kind: "content_kind f = Text" and same: "changedRows (rows_of (file_path f)) = [] \<Longrightarrow> server_content f = device_content f"
    using assms(1,3) by (cases "content_kind f"; auto simp: decisionCapabilities_def Let_def list_ex_iff)+
  have "filter (\<lambda>r. choices (file_path f) (change_id r) = None) (changedRows (rows_of (file_path f))) = []"
    using assms(2,3) by (auto simp: unitStatus_def Let_def)
  then show ?thesis using kind same by (auto simp: resolveConflictFile_def Let_def list_ex_iff filter_empty_conv)
qed

theorem decided_lines_resolve_witness:
  "\<exists>c. resolveConflictFile demo_review (buildConflictDiff demo_diff demo_diff demo_review) (\<lambda>_. Some Both) = Inr c"
proof -
  let ?u = "\<lparr>unit_id = ''n.md'', unit_paths = [''n.md''], unit_files = [demo_review], titleGroup = None\<rparr>"
  let ?rows = "\<lambda>_::string. buildConflictDiff demo_diff demo_diff demo_review"
  have "can_lines (decisionCapabilities ?u ?rows)" "decided (unitStatus ?u (Some Lines) ?rows (\<lambda>_ _. Some Both))"
    using demo_review_rows by (simp_all add: decisionCapabilities_def unitStatus_def demo_review_def Let_def)
  from decided_lines_resolve [OF this, of demo_review] show ?thesis by simp
qed

end
