(* ===== verification/PathLocks.thy ===== *)
theory PathLocks
  imports Prelude
begin

text \<open>
  \<open>withAdapterPathLocks\<close> of \<^verbatim>\<open>obsidian-plugin/src/data-adapter-fs.cjs\<close>: the operations on one adapter wait for each
  other on every path they share. An operation is numbered by its arrival; \<open>queues\<close> maps a path to the operation whose
  tail promise is stored there. The tail of an operation for a path resolves when the promise that was stored before it has
  resolved and the operation has released; the operation itself starts when every promise it found has resolved. Arriving,
  starting and releasing are the three turns of the event loop.
\<close>

datatype lock_phase = Waiting | Running | Released

record lock_op =
  lock_keys :: "string list"
  priors :: "(string \<times> nat) list"
  phase :: lock_phase

record path_locks =
  queues :: "string \<rightharpoonup> nat"
  ops :: "lock_op list"

definition no_locks :: path_locks where
  "no_locks = \<lparr>queues = Map.empty, ops = []\<rparr>"

text \<open>\<open>[...new Set(paths.map(adapterPath))].sort()\<close>, and the promises found under the keys.\<close>

definition lock_paths :: "string list \<Rightarrow> string list" where
  "lock_paths paths = sort (uniq paths)"

definition arrive :: "string list \<Rightarrow> path_locks \<Rightarrow> path_locks" where
  "arrive paths s =
     (let ks = lock_paths paths; n = length (ops s);
          found = List.map_filter (\<lambda>k. map_option (Pair k) (queues s k)) ks
      in \<lparr>queues = (\<lambda>k. if k \<in> set ks then Some n else queues s k),
          ops = ops s @ [\<lparr>lock_keys = ks, priors = found, phase = Waiting\<rparr>]\<rparr>)"

text \<open>The tail of operation \<open>n\<close> for a path has resolved. The promises it waits for are older.\<close>

function tail_resolved :: "path_locks \<Rightarrow> string \<Rightarrow> nat \<Rightarrow> bool" where
  "tail_resolved s k n \<longleftrightarrow> n < length (ops s) \<and> phase (ops s ! n) = Released \<and>
     (case map_of (priors (ops s ! n)) k of None \<Rightarrow> True | Some p \<Rightarrow> if p < n then tail_resolved s k p else False)"
  by pat_completeness auto
termination by (relation "measure (\<lambda>(s, k, n). n)") auto

declare tail_resolved.simps [simp del]

definition ready_to_start :: "path_locks \<Rightarrow> nat \<Rightarrow> bool" where
  "ready_to_start s n \<longleftrightarrow> n < length (ops s) \<and> phase (ops s ! n) = Waiting \<and>
     list_all (\<lambda>(k, p). tail_resolved s k p) (priors (ops s ! n))"

definition start_op :: "nat \<Rightarrow> path_locks \<Rightarrow> path_locks" where
  "start_op n s = s\<lparr>ops := (ops s)[n := (ops s ! n)\<lparr>phase := Running\<rparr>]\<rparr>"

text \<open>The \<open>finally\<close> block: release, and forget the tails that are still its own.\<close>

definition release_op :: "nat \<Rightarrow> path_locks \<Rightarrow> path_locks" where
  "release_op n s = s\<lparr>ops := (ops s)[n := (ops s ! n)\<lparr>phase := Released\<rparr>],
     queues := (\<lambda>k. if k \<in> set (lock_keys (ops s ! n)) \<and> queues s k = Some n then None else queues s k)\<rparr>"

inductive lock_step :: "path_locks \<Rightarrow> path_locks \<Rightarrow> bool" where
  step_arrive: "lock_step s (arrive paths s)"
| step_start: "ready_to_start s n \<Longrightarrow> lock_step s (start_op n s)"
| step_release: "n < length (ops s) \<Longrightarrow> phase (ops s ! n) = Running \<Longrightarrow> lock_step s (release_op n s)"

section \<open>Exclusion and progress\<close>

text \<open>\<open>holds_key s k n\<close>: operation \<open>n\<close> asked for the path \<open>k\<close>. A stored tail covers every unreleased operation on its path;
  a promise found on arrival covers every older one; what has started has only released operations before it.\<close>

definition holds_key :: "path_locks \<Rightarrow> string \<Rightarrow> nat \<Rightarrow> bool" where
  "holds_key s k n \<longleftrightarrow> n < length (ops s) \<and> k \<in> set (lock_keys (ops s ! n))"

definition released :: "path_locks \<Rightarrow> nat \<Rightarrow> bool" where
  "released s n \<longleftrightarrow> phase (ops s ! n) = Released"

definition locks_ok :: "path_locks \<Rightarrow> bool" where
  "locks_ok s \<longleftrightarrow>
     (\<forall>k n. holds_key s k n \<longrightarrow> \<not> released s n \<longrightarrow> (\<exists>p. queues s k = Some p \<and> n \<le> p)) \<and>
     (\<forall>k p. queues s k = Some p \<longrightarrow> holds_key s k p) \<and>
     (\<forall>n k p. n < length (ops s) \<longrightarrow> (k, p) \<in> set (priors (ops s ! n)) \<longrightarrow> p < n \<and> holds_key s k n \<and> holds_key s k p) \<and>
     (\<forall>n. n < length (ops s) \<longrightarrow> distinct (map fst (priors (ops s ! n)))) \<and>
     (\<forall>n k m. holds_key s k n \<longrightarrow> holds_key s k m \<longrightarrow> m < n \<longrightarrow> \<not> released s m \<longrightarrow> (\<exists>p. (k, p) \<in> set (priors (ops s ! n)) \<and> m \<le> p)) \<and>
     (\<forall>n k m. holds_key s k n \<longrightarrow> holds_key s k m \<longrightarrow> m < n \<longrightarrow> phase (ops s ! n) \<noteq> Waiting \<longrightarrow> released s m)"

lemma locks_ok_D:
  assumes "locks_ok s"
  shows "holds_key s k n \<Longrightarrow> holds_key s k m \<Longrightarrow> m < n \<Longrightarrow> \<not> released s m \<Longrightarrow> \<exists>p. (k, p) \<in> set (priors (ops s ! n)) \<and> m \<le> p"
    and "n < length (ops s) \<Longrightarrow> (k, p) \<in> set (priors (ops s ! n)) \<Longrightarrow> p < n \<and> holds_key s k n \<and> holds_key s k p"
  using assms unfolding locks_ok_def by (blast, blast)

lemma tail_resolved_released:
  assumes "locks_ok s" and "tail_resolved s k n" and "holds_key s k n" and "holds_key s k m" and "m \<le> n"
  shows "released s m"
proof -
  have "phase (ops s ! n) = Released" using assms(2) by (subst (asm) tail_resolved.simps) auto
  moreover have "m < n \<Longrightarrow> phase (ops s ! n) \<noteq> Waiting \<Longrightarrow> released s m" using assms(1,3,4) unfolding locks_ok_def by blast
  ultimately show ?thesis using assms(5) by (cases "m = n") (auto simp: released_def)
qed

lemma arrive_ok:
  assumes "locks_ok s"
  shows "locks_ok (arrive paths s)"
proof -
  define ks n found where "ks = lock_paths paths" and "n = length (ops s)" and "found = List.map_filter (\<lambda>k. map_option (Pair k) (queues s k)) ks"
  have s': "arrive paths s = \<lparr>queues = (\<lambda>k. if k \<in> set ks then Some n else queues s k), ops = ops s @ [\<lparr>lock_keys = ks, priors = found, phase = Waiting\<rparr>]\<rparr>"
    unfolding arrive_def Let_def ks_def [symmetric] n_def [symmetric] found_def [symmetric] ..
  have found: "(k, p) \<in> set found \<longleftrightarrow> k \<in> set ks \<and> queues s k = Some p" for k p
    by (auto simp: found_def List.map_filter_def image_iff)
  have "distinct ks" by (simp add: ks_def lock_paths_def)
  then have df: "distinct (map fst found)" unfolding found_def by (induction ks) (auto simp: List.map_filter_simps split: option.splits, auto simp: List.map_filter_def)
  have h: "holds_key (arrive paths s) k m \<longleftrightarrow> holds_key s k m \<or> m = n \<and> k \<in> set ks" for k m
    by (auto simp: holds_key_def s' n_def nth_append)
  have op: "ops (arrive paths s) ! m = (if m < n then ops s ! m else \<lparr>lock_keys = ks, priors = found, phase = Waiting\<rparr>)" if "m \<le> n" for m
    using that by (auto simp: s' n_def nth_append)
  have len: "length (ops (arrive paths s)) = Suc n" by (simp add: s' n_def)
  have hn: "holds_key s k m \<Longrightarrow> m < n" for k m by (simp add: holds_key_def n_def)
  have q: "queues (arrive paths s) k = (if k \<in> set ks then Some n else queues s k)" for k by (simp add: s')
  show ?thesis
    unfolding locks_ok_def h q len released_def
  proof (intro conjI allI impI)
    fix k m assume "holds_key s k m \<or> m = n \<and> k \<in> set ks" "phase (ops (arrive paths s) ! m) \<noteq> Released"
    then show "\<exists>p. (if k \<in> set ks then Some n else queues s k) = Some p \<and> m \<le> p"
      using assms hn [of k m] op [of m] by (auto simp: locks_ok_def released_def)
  next
    fix k p assume "(if k \<in> set ks then Some n else queues s k) = Some p"
    then show "holds_key s k p \<or> p = n \<and> k \<in> set ks" using assms by (auto simp: locks_ok_def split: if_splits)
  next
    fix m k p assume m: "m < Suc n" "(k, p) \<in> set (priors (ops (arrive paths s) ! m))"
    show "p < m" "holds_key s k m \<or> m = n \<and> k \<in> set ks" "holds_key s k p \<or> p = n \<and> k \<in> set ks"
      using assms m op [of m] hn [of k p] found [of k p] by (auto simp: locks_ok_def n_def split: if_splits)
  next
    fix m assume "m < Suc n"
    then show "distinct (map fst (priors (ops (arrive paths s) ! m)))" using assms op [of m] df by (auto simp: locks_ok_def n_def)
  next
    fix a k m assume a: "holds_key s k a \<or> a = n \<and> k \<in> set ks" "holds_key s k m \<or> m = n \<and> k \<in> set ks" "m < a"
      "phase (ops (arrive paths s) ! m) \<noteq> Released"
    then have m: "holds_key s k m" "m < n" "phase (ops s ! m) \<noteq> Released" using hn [of k a] hn [of k m] op [of m] by auto
    show "\<exists>p. (k, p) \<in> set (priors (ops (arrive paths s) ! a)) \<and> m \<le> p"
    proof (cases "a = n")
      case True
      with a(1) have "k \<in> set ks" using hn [of k a] by auto
      then show ?thesis using assms m True op [of n] found by (auto simp: locks_ok_def released_def)
    next
      case False
      with a(1) have "holds_key s k a" "a < n" using hn [of k a] by auto
      then show ?thesis using assms m a(3) op [of a] by (auto simp: locks_ok_def released_def)
    qed
  next
    fix a k m assume a: "holds_key s k a \<or> a = n \<and> k \<in> set ks" "holds_key s k m \<or> m = n \<and> k \<in> set ks" "m < a"
      "phase (ops (arrive paths s) ! a) \<noteq> Waiting"
    then have "a \<noteq> n" using op [of n] by auto
    with a(1) have "holds_key s k a" "a < n" using hn [of k a] by auto
    with a have "holds_key s k m" "phase (ops s ! a) \<noteq> Waiting" "m < n" using op [of a] by auto
    then show "phase (ops (arrive paths s) ! m) = Released" using assms a(3) \<open>holds_key s k a\<close> op [of m] by (auto simp: locks_ok_def released_def)
  qed
qed

lemma start_ok:
  assumes "locks_ok s" and "ready_to_start s n"
  shows "locks_ok (start_op n s)"
proof -
  have n: "n < length (ops s)" "phase (ops s ! n) = Waiting" "\<forall>(k, p)\<in>set (priors (ops s ! n)). tail_resolved s k p"
    using assms(2) by (auto simp: ready_to_start_def list_all_iff)
  have op: "ops (start_op n s) ! m = (if m = n then (ops s ! n)\<lparr>phase := Running\<rparr> else ops s ! m)" for m
    using n(1) by (cases "m = n") (simp_all add: start_op_def)
  have same: "holds_key (start_op n s) = holds_key s" "queues (start_op n s) = queues s" "length (ops (start_op n s)) = length (ops s)"
    "\<And>m. priors (ops (start_op n s) ! m) = priors (ops s ! m)"
    by (auto simp: holds_key_def fun_eq_iff op) (auto simp: start_op_def)
  have rel: "released (start_op n s) = released s" using n(2) by (auto simp: released_def op fun_eq_iff)
  have "released s m" if m: "holds_key s k n" "holds_key s k m" "m < n" for k m
  proof (rule ccontr)
    assume "\<not> released s m"
    then obtain p where p: "(k, p) \<in> set (priors (ops s ! n))" "m \<le> p" using locks_ok_D(1) [OF assms(1) m] by blast
    then have "tail_resolved s k p" "holds_key s k p" using n locks_ok_D(2) [OF assms(1) n(1) p(1)] by blast+
    from tail_resolved_released [OF assms(1) this m(2) p(2)] \<open>\<not> released s m\<close> show False by blast
  qed
  then have "\<forall>a k m. holds_key s k a \<longrightarrow> holds_key s k m \<longrightarrow> m < a \<longrightarrow> phase (ops (start_op n s) ! a) \<noteq> Waiting \<longrightarrow> released s m"
    using assms(1) by (auto simp: op locks_ok_def)
  then show ?thesis using assms(1) unfolding locks_ok_def same rel by blast
qed

lemma release_ok:
  assumes "locks_ok s" and n: "n < length (ops s)" "phase (ops s ! n) = Running"
  shows "locks_ok (release_op n s)"
proof -
  have op: "ops (release_op n s) ! m = (if m = n then (ops s ! n)\<lparr>phase := Released\<rparr> else ops s ! m)" for m
    using n(1) by (cases "m = n") (simp_all add: release_op_def)
  have same: "holds_key (release_op n s) = holds_key s" "length (ops (release_op n s)) = length (ops s)"
    "\<And>m. priors (ops (release_op n s) ! m) = priors (ops s ! m)"
    by (auto simp: holds_key_def fun_eq_iff op) (auto simp: release_op_def)
  have rel: "released (release_op n s) m \<longleftrightarrow> m = n \<or> released s m" for m by (auto simp: released_def op)
  have q: "queues (release_op n s) k = (if queues s k = Some n then None else queues s k)" for k
    using assms(1) by (auto simp: release_op_def locks_ok_def holds_key_def)
  have before: "released s m" if "holds_key s k n" "holds_key s k m" "m < n" for k m
    using assms(1) n that unfolding locks_ok_def by (metis lock_phase.distinct(1))
  show ?thesis unfolding locks_ok_def same rel
  proof (intro conjI allI impI)
    fix k m assume m: "holds_key s k m" "\<not> (m = n \<or> released s m)"
    then obtain p where p: "queues s k = Some p" "m \<le> p" using assms(1) unfolding locks_ok_def by blast
    have "p \<noteq> n"
    proof
      assume "p = n"
      then have "holds_key s k n" using p(1) assms(1) unfolding locks_ok_def by blast
      with before [OF this m(1)] m(2) p(2) \<open>p = n\<close> show False by auto
    qed
    with p show "\<exists>p. queues (release_op n s) k = Some p \<and> m \<le> p" by (simp add: q)
  next
    fix k p assume "queues (release_op n s) k = Some p"
    then show "holds_key s k p" using assms(1) by (auto simp: q locks_ok_def split: if_splits)
  next
    fix a k m assume "holds_key s k a" "holds_key s k m" "m < a" "phase (ops (release_op n s) ! a) \<noteq> Waiting"
    then show "m = n \<or> released s m"
      using assms(1) n before by (cases "a = n") (auto simp: op locks_ok_def)
  next
    fix a k m assume "holds_key s k a" "holds_key s k m" "m < a" "\<not> (m = n \<or> released s m)"
    then show "\<exists>p. (k, p) \<in> set (priors (ops s ! a)) \<and> m \<le> p" using assms(1) unfolding locks_ok_def by blast
  qed (use assms(1) in \<open>unfold locks_ok_def, blast+\<close>)
qed

interpretation locks: invariant_system "\<lambda>s. s = no_locks" lock_step locks_ok
proof
  show "locks_ok s" if "s = no_locks" for s using that by (simp add: locks_ok_def no_locks_def holds_key_def)
  show "locks_ok t" if "lock_step s t" "locks_ok s" for s t
    using that by (cases rule: lock_step.cases) (auto intro: arrive_ok start_ok release_ok)
qed

lemmas lock_reachable_ok = locks.reachable [OF refl]

lemma oldest_ready:
  assumes "locks_ok s" and "n < length (ops s)" and "phase (ops s ! n) = Waiting" and "\<And>m. m < n \<Longrightarrow> phase (ops s ! m) = Released"
  shows "ready_to_start s n"
proof -
  have "tail_resolved s k p" if "p < n" "holds_key s k p" for k p
    using that
  proof (induction p rule: less_induct)
    case (less p)
    have "p < length (ops s)" "phase (ops s ! p) = Released" using less.prems assms(2,4) by auto
    moreover have "q < p \<and> tail_resolved s k q" if "map_of (priors (ops s ! p)) k = Some q" for q
    proof -
      have "q < p \<and> holds_key s k q" using map_of_SomeD [OF that] assms(1) \<open>p < length (ops s)\<close> unfolding locks_ok_def by blast
      with less show ?thesis by auto
    qed
    ultimately show ?case by (subst tail_resolved.simps) (auto split: option.splits)
  qed
  moreover have "p < n \<and> holds_key s k p" if "(k, p) \<in> set (priors (ops s ! n))" for k p
    using that assms(1,2) unfolding locks_ok_def by blast
  ultimately show ?thesis using assms(2,3) by (auto simp: ready_to_start_def list_all_iff)
qed

text \<open>C28. Adapter operations that share a path run one at a time and in the order they arrived: when one has started,
  every older one that shares a path with it has released. The locks do not deadlock although an operation takes several:
  while some operation has not released, one is running or can start.\<close>

theorem adapter_locks:
  assumes "lock_step\<^sup>*\<^sup>* no_locks s" and "n < length (ops s)"
  shows "(\<forall>m k. m < n \<longrightarrow> k \<in> set (lock_keys (ops s ! m)) \<inter> set (lock_keys (ops s ! n)) \<longrightarrow> phase (ops s ! n) \<noteq> Waiting \<longrightarrow>
      phase (ops s ! m) = Released) \<and>
    (phase (ops s ! n) \<noteq> Released \<longrightarrow> (\<exists>m\<le>n. phase (ops s ! m) = Running \<or> ready_to_start s m))"
proof (intro conjI allI impI)
  note ok = lock_reachable_ok [OF assms(1)]
  fix m k assume "m < n" "k \<in> set (lock_keys (ops s ! m)) \<inter> set (lock_keys (ops s ! n))" "phase (ops s ! n) \<noteq> Waiting"
  then show "phase (ops s ! m) = Released"
    using ok assms(2) unfolding locks_ok_def holds_key_def released_def by (meson IntD1 IntD2 less_trans)
next
  note ok = lock_reachable_ok [OF assms(1)]
  assume "phase (ops s ! n) \<noteq> Released"
  define m where "m = (LEAST m. phase (ops s ! m) \<noteq> Released)"
  have m: "phase (ops s ! m) \<noteq> Released" "m \<le> n" "\<And>i. i < m \<Longrightarrow> phase (ops s ! i) = Released"
    unfolding m_def using LeastI [of "\<lambda>m. phase (ops s ! m) \<noteq> Released" n] Least_le [of "\<lambda>m. phase (ops s ! m) \<noteq> Released" n]
      not_less_Least [of _ "\<lambda>m. phase (ops s ! m) \<noteq> Released"] \<open>phase (ops s ! n) \<noteq> Released\<close> by blast+
  then show "\<exists>m\<le>n. phase (ops s ! m) = Running \<or> ready_to_start s m"
    using oldest_ready [OF ok, of m] assms(2) by (cases "phase (ops s ! m)") auto
qed

theorem adapter_locks_witness:
  "phase (ops (release_op 0 (start_op 0 (arrive [''b''] (arrive [''b'', ''a''] no_locks)))) ! 0) = Released \<and>
   (\<exists>m\<le>1. phase (ops (release_op 0 (start_op 0 (arrive [''b''] (arrive [''b'', ''a''] no_locks)))) ! m) = Running \<or>
      ready_to_start (release_op 0 (start_op 0 (arrive [''b''] (arrive [''b'', ''a''] no_locks)))) m)"
proof -
  let ?s = "arrive [''b''] (arrive [''b'', ''a''] no_locks)"
  have o: "ops ?s = [\<lparr>lock_keys = [''a'', ''b''], priors = [], phase = Waiting\<rparr>, \<lparr>lock_keys = [''b''], priors = [(''b'', 0)], phase = Waiting\<rparr>]"
    by (simp add: arrive_def no_locks_def lock_paths_def List.map_filter_simps Let_def)
  then have "ready_to_start ?s 0" by (simp add: ready_to_start_def)
  moreover have "phase (ops (start_op 0 ?s) ! 0) = Running" "0 < length (ops (start_op 0 ?s))" using o by (simp_all add: start_op_def)
  ultimately have "lock_step\<^sup>*\<^sup>* no_locks (release_op 0 (start_op 0 ?s))"
    by (meson rtranclp.rtrancl_refl rtranclp.rtrancl_into_rtrancl step_arrive step_start step_release)
  from adapter_locks [OF this, of 1] show ?thesis using o by (simp add: release_op_def start_op_def)
qed

end
