(* ===== verification/NodeAdapter.thy ===== *)
theory NodeAdapter
  imports VaultPaths CrashLogic
begin

text \<open>
  The \<open>DataAdapter\<close> of the headless client, \<^verbatim>\<open>src/client/nodeDataAdapter.ts\<close>, over the calls of \<open>node:fs\<close>. The directory
  tree below the vault root maps relative paths to regular files, directories, or anything else (links, sockets), through
  which nothing is read or written. Each call takes the next fault of the environment, past whose end every call works; a
  write may be torn. The history has every tree a call produced, so a crash leaves the tree in one of them. A recursive
  \<open>mkdir\<close> is one call. File times are not modelled.
\<close>

datatype fs_error = Code string | Uncoded

datatype pnode = PFile buffer | PDir | POther

type_synonym dir_tree = "(string \<times> pnode) list"

datatype call_fault = Works | Breaks fs_error | Tears nat fs_error

record fs_world =
  dir_tree :: dir_tree
  call_faults :: "call_fault list"
  history :: "dir_tree list"

type_synonym 'a fsio = "fs_world \<Rightarrow> (fs_error + 'a) \<times> fs_world"

definition fs_return :: "'a \<Rightarrow> 'a fsio" where "fs_return x w = (Inr x, w)"
definition fs_throw :: "fs_error \<Rightarrow> 'a fsio" where "fs_throw e w = (Inl e, w)"

abbreviation fs_bind :: "'a fsio \<Rightarrow> ('a \<Rightarrow> 'b fsio) \<Rightarrow> 'b fsio" where "fs_bind \<equiv> wbind"
abbreviation fs_catch :: "'a fsio \<Rightarrow> (fs_error \<Rightarrow> 'a fsio) \<Rightarrow> 'a fsio" where "fs_catch \<equiv> wcatch"

definition fs_lift :: "fs_error + 'a \<Rightarrow> 'a fsio" where "fs_lift r w = (r, w)"

fun fs_each :: "('a \<Rightarrow> unit fsio) \<Rightarrow> 'a list \<Rightarrow> unit fsio" where
  "fs_each f [] = fs_return ()"
| "fs_each f (x # xs) = fs_bind (f x) (\<lambda>_. fs_each f xs)"

section \<open>The file system\<close>

definition node_at :: "dir_tree \<Rightarrow> string \<Rightarrow> pnode option" where
  "node_at t p = (if p = [] then Some PDir else map_of t p)"

definition parent_path :: "string \<Rightarrow> string" where
  "parent_path p = (if CHR ''/'' \<in> set p then before_last CHR ''/'' p else [])"

definition path_ancestors :: "string \<Rightarrow> string list" where
  "path_ancestors p = (let ss = js_split CHR ''/'' p in map (\<lambda>i. js_join ''/'' (take i ss)) [1..<length ss])"

definition missing_code :: "dir_tree \<Rightarrow> string \<Rightarrow> fs_error" where
  "missing_code t p = (if list_ex (\<lambda>a. case node_at t a of Some PDir \<Rightarrow> False | Some _ \<Rightarrow> True | None \<Rightarrow> False) (path_ancestors p)
     then Code ''ENOTDIR'' else Code ''ENOENT'')"

definition is_below :: "string \<Rightarrow> string \<Rightarrow> bool" where
  "is_below p q \<longleftrightarrow> q \<noteq> [] \<and> (p = [] \<or> js_startsWith q (p @ ''/''))"

definition next_call :: "fs_world \<Rightarrow> call_fault \<times> fs_world" where
  "next_call w = (case call_faults w of [] \<Rightarrow> (Works, w) | f # fs \<Rightarrow> (f, w\<lparr>call_faults := fs\<rparr>))"

definition sys_read :: "(dir_tree \<Rightarrow> fs_error + 'a) \<Rightarrow> 'a fsio" where
  "sys_read f w = (case next_call w of (fl, w') \<Rightarrow>
     (case fl of Works \<Rightarrow> (f (dir_tree w'), w') | Breaks e \<Rightarrow> (Inl e, w') | Tears n e \<Rightarrow> (Inl e, w')))"

definition put_tree :: "dir_tree \<Rightarrow> fs_world \<Rightarrow> fs_world" where
  "put_tree t w = w\<lparr>dir_tree := t, history := t # history w\<rparr>"

text \<open>A call that changes the tree: \<open>torn n\<close> is what it leaves when it is torn.\<close>

definition sys_change :: "(dir_tree \<Rightarrow> fs_error + dir_tree) \<Rightarrow> (nat \<Rightarrow> dir_tree \<Rightarrow> dir_tree) \<Rightarrow> unit fsio" where
  "sys_change f torn w = (case next_call w of (fl, w') \<Rightarrow>
     (case fl of
        Works \<Rightarrow> (case f (dir_tree w') of Inl e \<Rightarrow> (Inl e, w') | Inr t \<Rightarrow> (Inr (), put_tree t w'))
      | Breaks e \<Rightarrow> (Inl e, w')
      | Tears n e \<Rightarrow> (Inl e, put_tree (torn n (dir_tree w')) w')))"

definition sys_lstat :: "string \<Rightarrow> pnode fsio" where
  "sys_lstat p = sys_read (\<lambda>t. case node_at t p of None \<Rightarrow> Inl (missing_code t p) | Some n \<Rightarrow> Inr n)"

definition sys_readFile :: "string \<Rightarrow> buffer fsio" where
  "sys_readFile p = sys_read (\<lambda>t. case node_at t p of
     None \<Rightarrow> Inl (missing_code t p) | Some (PFile b) \<Rightarrow> Inr b | Some PDir \<Rightarrow> Inl (Code ''EISDIR'') | Some POther \<Rightarrow> Inl (Code ''EIO''))"

definition sys_readdir :: "string \<Rightarrow> (string \<times> pnode) list fsio" where
  "sys_readdir p = sys_read (\<lambda>t. case node_at t p of
     None \<Rightarrow> Inl (missing_code t p)
   | Some PDir \<Rightarrow> Inr (map (\<lambda>(q, n). (after_last CHR ''/'' q, n)) (filter (\<lambda>(q, n). q \<noteq> [] \<and> parent_path q = p) t))
   | Some _ \<Rightarrow> Inl (Code ''ENOTDIR''))"

definition write_tree :: "bool \<Rightarrow> string \<Rightarrow> buffer \<Rightarrow> dir_tree \<Rightarrow> fs_error + dir_tree" where
  "write_tree excl p b t =
     (case node_at t p of
        Some PDir \<Rightarrow> Inl (if excl then Code ''EEXIST'' else Code ''EISDIR'')
      | Some POther \<Rightarrow> Inl (if excl then Code ''EEXIST'' else Code ''EIO'')
      | Some (PFile c) \<Rightarrow> if excl then Inl (Code ''EEXIST'') else Inr (AList.update p (PFile b) t)
      | None \<Rightarrow> if node_at t (parent_path p) = Some PDir then Inr (AList.update p (PFile b) t) else Inl (missing_code t p))"

text \<open>A torn write leaves the first bytes, if the file could be opened at all.\<close>

definition sys_writeFile :: "bool \<Rightarrow> string \<Rightarrow> buffer \<Rightarrow> unit fsio" where
  "sys_writeFile excl p b = sys_change (write_tree excl p b)
     (\<lambda>n t. case write_tree excl p (take n b) t of Inl e \<Rightarrow> t | Inr t' \<Rightarrow> t')"

definition sys_mkdir :: "string \<Rightarrow> unit fsio" where
  "sys_mkdir p = sys_change (\<lambda>t. case node_at t p of
     Some n \<Rightarrow> Inl (Code ''EEXIST'')
   | None \<Rightarrow> if node_at t (parent_path p) = Some PDir then Inr (t @ [(p, PDir)]) else Inl (missing_code t p)) (\<lambda>n t. t)"

fun mkdir_all :: "string list \<Rightarrow> dir_tree \<Rightarrow> fs_error + dir_tree" where
  "mkdir_all [] t = Inr t"
| "mkdir_all (p # ps) t =
     (case node_at t p of
        Some PDir \<Rightarrow> mkdir_all ps t
      | Some _ \<Rightarrow> Inl (if ps = [] then Code ''EEXIST'' else Code ''ENOTDIR'')
      | None \<Rightarrow> mkdir_all ps (t @ [(p, PDir)]))"

definition sys_mkdir_recursive :: "string \<Rightarrow> unit fsio" where
  "sys_mkdir_recursive p = sys_change (mkdir_all (path_ancestors p @ [p])) (\<lambda>n t. t)"

definition sys_unlink :: "string \<Rightarrow> unit fsio" where
  "sys_unlink p = sys_change (\<lambda>t. case node_at t p of
     None \<Rightarrow> Inl (missing_code t p) | Some PDir \<Rightarrow> Inl (Code ''EISDIR'') | Some _ \<Rightarrow> Inr (AList.delete p t)) (\<lambda>n t. t)"

definition has_children :: "dir_tree \<Rightarrow> string \<Rightarrow> bool" where
  "has_children t p \<longleftrightarrow> list_ex (\<lambda>(q, n). is_below p q) t"

definition sys_rmdir :: "string \<Rightarrow> unit fsio" where
  "sys_rmdir p = sys_change (\<lambda>t. case node_at t p of
     None \<Rightarrow> Inl (missing_code t p)
   | Some PDir \<Rightarrow> if has_children t p then Inl (Code ''ENOTEMPTY'') else Inr (AList.delete p t)
   | Some _ \<Rightarrow> Inl (Code ''ENOTDIR'')) (\<lambda>n t. t)"

text \<open>\<open>rm(target, {recursive: true, force: false})\<close>.\<close>

definition sys_rm_tree :: "string \<Rightarrow> unit fsio" where
  "sys_rm_tree p = sys_change (\<lambda>t. case node_at t p of
     None \<Rightarrow> Inl (missing_code t p) | Some _ \<Rightarrow> Inr (filter (\<lambda>(q, n). q \<noteq> p \<and> \<not> is_below p q) t)) (\<lambda>n t. t)"

definition rename_tree :: "string \<Rightarrow> string \<Rightarrow> dir_tree \<Rightarrow> fs_error + dir_tree" where
  "rename_tree p q t =
     (case node_at t p of
        None \<Rightarrow> Inl (missing_code t p)
      | Some n \<Rightarrow>
          if p = q then Inr t
          else if node_at t (parent_path q) \<noteq> Some PDir then Inl (missing_code t q)
          else if n = PDir then
            (if is_below p q then Inl (Code ''EINVAL'')
             else if node_at t q \<noteq> None \<and> node_at t q \<noteq> Some PDir then Inl (Code ''ENOTDIR'')
             else if has_children t q then Inl (Code ''ENOTEMPTY'')
             else Inr (map (\<lambda>(r, m). (if r = p then q else if is_below p r then q @ drop (length p) r else r, m))
                (filter (\<lambda>(r, m). r \<noteq> q) t)))
          else if node_at t q = Some PDir then Inl (Code ''EISDIR'')
          else Inr (AList.update q n (AList.delete p t)))"

definition sys_rename :: "string \<Rightarrow> string \<Rightarrow> unit fsio" where
  "sys_rename p q = sys_change (rename_tree p q) (\<lambda>n t. t)"

definition sys_fsync :: "string \<Rightarrow> unit fsio" where
  "sys_fsync p = sys_read (\<lambda>t. if node_at t p = None then Inl (missing_code t p) else Inr ())"

section \<open>The adapter\<close>

definition normalizeAdapterPath :: "string \<Rightarrow> fs_error + string" where
  "normalizeAdapterPath value =
     (if CHR 0x00 \<in> set value then Inl (Code ''EINVAL'') else Inr (dropWhile (\<lambda>c. c = CHR ''/'') (js_replaceChar CHR 0x5C CHR ''/'' value)))"

definition resolve_segment :: "string list \<Rightarrow> string \<Rightarrow> string list" where
  "resolve_segment segs s = (if s = [] \<or> s = ''.'' then segs else if s = ''..'' then butlast segs else segs @ [s])"

text \<open>\<open>resolvePath\<close>: \<open>root\<close> is the list of segments of the absolute vault directory. The result is relative to it.\<close>

definition resolvePath :: "string list \<Rightarrow> string \<Rightarrow> fs_error + string" where
  "resolvePath rt p =
     rbind (normalizeAdapterPath p) (\<lambda>normalized.
       let target = foldl resolve_segment rt (js_split CHR ''/'' normalized)
       in if take (length rt) target = rt then Inr (js_join ''/'' (drop (length rt) target)) else Inl (Code ''EINVAL''))"

definition at_path :: "string list \<Rightarrow> string \<Rightarrow> (string \<Rightarrow> 'a fsio) \<Rightarrow> 'a fsio" where
  "at_path rt p f = fs_bind (fs_lift (resolvePath rt p)) f"

datatype stat_type = Stat_file nat | Stat_folder

definition adapter_readBinary :: "string list \<Rightarrow> string \<Rightarrow> buffer fsio" where
  "adapter_readBinary rt p = at_path rt p sys_readFile"

definition adapter_writeBinary :: "string list \<Rightarrow> string \<Rightarrow> buffer \<Rightarrow> unit fsio" where
  "adapter_writeBinary rt p b = at_path rt p (\<lambda>target.
     fs_bind (sys_mkdir_recursive (parent_path target)) (\<lambda>_. sys_writeFile False target b))"

definition adapter_writeBinaryExclusive :: "string list \<Rightarrow> string \<Rightarrow> buffer \<Rightarrow> unit fsio" where
  "adapter_writeBinaryExclusive rt p b = at_path rt p (\<lambda>target.
     fs_bind (sys_mkdir_recursive (parent_path target)) (\<lambda>_. sys_writeFile True target b))"

definition adapter_stat :: "string list \<Rightarrow> string \<Rightarrow> stat_type option fsio" where
  "adapter_stat rt p = fs_catch
     (at_path rt p (\<lambda>target. fs_bind (sys_lstat target) (\<lambda>n.
        fs_return (case n of PFile b \<Rightarrow> Some (Stat_file (length b)) | PDir \<Rightarrow> Some Stat_folder | POther \<Rightarrow> None))))
     (\<lambda>e. if e = Code ''ENOENT'' then fs_return None else fs_throw e)"

record listing =
  list_files :: "string list"
  list_folders :: "string list"

definition adapter_list :: "string list \<Rightarrow> string \<Rightarrow> listing fsio" where
  "adapter_list rt p = at_path rt p (\<lambda>directory. fs_bind (sys_readdir directory) (\<lambda>es.
     fs_bind (fs_lift (normalizeAdapterPath p)) (\<lambda>pre.
       let child = (\<lambda>name. if pre \<noteq> [] then pre @ ''/'' @ name else name)
       in fs_return \<lparr>list_files = sort (map (child \<circ> fst) (filter (\<lambda>(name, n). case n of PFile b \<Rightarrow> True | _ \<Rightarrow> False) es)),
            list_folders = sort (map (child \<circ> fst) (filter (\<lambda>(name, n). n = PDir) es))\<rparr>)))"

definition adapter_mkdir :: "string list \<Rightarrow> string \<Rightarrow> unit fsio" where
  "adapter_mkdir rt p = at_path rt p sys_mkdir"

definition adapter_remove :: "string list \<Rightarrow> string \<Rightarrow> unit fsio" where
  "adapter_remove rt p = at_path rt p sys_unlink"

definition adapter_rmdir :: "string list \<Rightarrow> string \<Rightarrow> bool \<Rightarrow> unit fsio" where
  "adapter_rmdir rt p recursive = at_path rt p (if recursive then sys_rm_tree else sys_rmdir)"

definition adapter_rename :: "string list \<Rightarrow> string \<Rightarrow> string \<Rightarrow> unit fsio" where
  "adapter_rename rt p q = at_path rt q (\<lambda>destination.
     fs_bind (sys_mkdir_recursive (parent_path destination)) (\<lambda>_. at_path rt p (\<lambda>source. sys_rename source destination)))"

definition adapter_syncFile :: "string list \<Rightarrow> string \<Rightarrow> unit fsio" where
  "adapter_syncFile rt p = at_path rt p sys_fsync"

definition adapter_syncDirectory :: "string list \<Rightarrow> string \<Rightarrow> unit fsio" where
  "adapter_syncDirectory rt p = at_path rt p sys_fsync"

definition adapter_exists :: "string list \<Rightarrow> string \<Rightarrow> bool fsio" where
  "adapter_exists rt p = fs_bind (adapter_stat rt p) (\<lambda>s. fs_return (s \<noteq> None))"

section \<open>Proper paths resolve to themselves\<close>

definition proper_path :: "string \<Rightarrow> bool" where
  "proper_path p \<longleftrightarrow> CHR 0x5C \<notin> set p \<and> CHR 0x00 \<notin> set p \<and> (\<forall>s\<in>set (js_split CHR ''/'' p). s \<noteq> [] \<and> s \<noteq> ''.'' \<and> s \<noteq> ''..'')"

lemma canonical_proper: "canonical_path nfc p \<Longrightarrow> proper_path p"
  using canonical_segments [of nfc p] unfolding proper_path_def canonical_path_def list_ex_iff is_control_def by fastforce

lemma proper_not_Nil: "proper_path p \<Longrightarrow> p \<noteq> []"
  unfolding proper_path_def by fastforce

lemma proper_no_slash:
  assumes "proper_path p"
  shows "dropWhile (\<lambda>c. c = CHR ''/'') p = p"
proof (cases p)
  case (Cons c t)
  have "[] \<notin> set (js_split CHR ''/'' p)" using assms unfolding proper_path_def by blast
  then have "c \<noteq> CHR ''/''" using Cons by auto
  then show ?thesis by (simp add: Cons)
qed simp

lemma replaceChar_free: "a \<notin> set s \<Longrightarrow> js_replaceChar a b s = s"
  unfolding js_replaceChar_def by (intro map_idI) (metis (full_types))

lemma resolve_proper:
  assumes "\<forall>s\<in>set ss. s \<noteq> [] \<and> s \<noteq> ''.'' \<and> s \<noteq> ''..''"
  shows "foldl resolve_segment rt ss = rt @ ss"
  using assms by (induction ss arbitrary: rt) (auto simp: resolve_segment_def)

lemma normalizeAdapterPath_proper: "proper_path p \<Longrightarrow> normalizeAdapterPath p = Inr p"
  using proper_no_slash by (simp add: normalizeAdapterPath_def replaceChar_free proper_path_def)

lemma resolvePath_proper:
  assumes "proper_path p"
  shows "resolvePath rt p = Inr p"
proof -
  have "foldl resolve_segment rt (js_split CHR ''/'' p) = rt @ js_split CHR ''/'' p"
    by (rule resolve_proper) (use assms in \<open>simp add: proper_path_def\<close>)
  then show ?thesis by (simp add: resolvePath_def normalizeAdapterPath_proper [OF assms] Let_def)
qed

lemma at_path_proper: "proper_path p \<Longrightarrow> at_path rt p f = f p"
  by (simp add: at_path_def wbind_def fs_lift_def resolvePath_proper fun_eq_iff)

end
