(* ===== verification/AdapterFs.thy ===== *)
theory AdapterFs
  imports NodeAdapter
begin

text \<open>
  \<^verbatim>\<open>obsidian-plugin/src/data-adapter-fs.cjs\<close>: the promise file system the plugin core runs on, over a \<open>DataAdapter\<close>; here
  the adapter of the headless client. The locks around an operation are the theory PathLocks. \<open>sfx\<close> is the random suffix,
  \<open>collate\<close> is \<open>localeCompare\<close>, \<open>json_ok\<close> whether \<open>JSON.parse\<close> accepts the bytes. The cancellation signal is checked before
  every step; it is an argument that does not change during a run.
\<close>

section \<open>Paths\<close>

text \<open>\<open>path.posix.normalize\<close>: segments from left to right; \<open>..\<close> drops a segment, or stays at the front of a relative path.\<close>

definition normalize_segment :: "bool \<Rightarrow> string list \<Rightarrow> string \<Rightarrow> string list" where
  "normalize_segment absolute segs s =
     (if s = [] \<or> s = ''.'' then segs
      else if s = ''..'' then
        (if segs \<noteq> [] \<and> last segs \<noteq> ''..'' then butlast segs else if absolute then segs else segs @ [s])
      else segs @ [s])"

definition posix_normalize :: "string \<Rightarrow> string" where
  "posix_normalize p =
     (if p = [] then ''.''
      else let absolute = js_startsWith p ''/'';
               body = js_join ''/'' (foldl (normalize_segment absolute) [] (js_split CHR ''/'' p));
               filled = (if body = [] \<and> \<not> absolute then ''.'' else body);
               closed = (if filled \<noteq> [] \<and> js_endsWith p ''/'' then filled @ ''/'' else filled)
           in if absolute then ''/'' @ closed else closed)"

definition adapterPath :: "string \<Rightarrow> fs_error + string" where
  "adapterPath filePath =
     (let unix = js_replaceChar CHR 0x5C CHR ''/'' filePath;
          normalized = dropWhile (\<lambda>c. c = CHR ''/'') (posix_normalize unix)
      in if normalized = ''.'' \<or> normalized = [] then Inr []
         else if normalized = ''..'' \<or> js_startsWith normalized ''../'' \<or> CHR 0x00 \<in> set unix then Inl (Code ''EINVAL'')
         else Inr normalized)"

definition with_path :: "string \<Rightarrow> (string \<Rightarrow> 'a fsio) \<Rightarrow> 'a fsio" where
  "with_path p f = fs_bind (fs_lift (adapterPath p)) f"

section \<open>Helpers\<close>

definition adapterStat :: "string list \<Rightarrow> string \<Rightarrow> stat_type option fsio" where
  "adapterStat rt p = (if p = [] then fs_return (Some Stat_folder) else adapter_stat rt p)"

definition requiredStat :: "string list \<Rightarrow> string \<Rightarrow> stat_type fsio" where
  "requiredStat rt p = fs_bind (adapterStat rt p) (\<lambda>s. case s of None \<Rightarrow> fs_throw (Code ''ENOENT'') | Some x \<Rightarrow> fs_return x)"

text \<open>\<open>ensureDirectories\<close>: the prefixes of the path from the top.\<close>

fun ensure_prefixes :: "string list \<Rightarrow> string list \<Rightarrow> unit fsio" where
  "ensure_prefixes rt [] = fs_return ()"
| "ensure_prefixes rt (current # rest) =
     fs_bind (adapterStat rt current) (\<lambda>s.
       fs_bind (case s of
           None \<Rightarrow> adapter_mkdir rt current
         | Some Stat_folder \<Rightarrow> fs_return ()
         | Some (Stat_file n) \<Rightarrow> fs_throw (Code ''ENOTDIR'')) (\<lambda>_. ensure_prefixes rt rest))"

definition ensureDirectories :: "string list \<Rightarrow> string \<Rightarrow> unit fsio" where
  "ensureDirectories rt p =
     (let ss = filter (\<lambda>s. s \<noteq> []) (js_split CHR ''/'' p)
      in ensure_prefixes rt (map (\<lambda>i. js_join ''/'' (take i ss)) [1..<length ss + 1]))"

text \<open>\<open>path.posix.dirname\<close> of a normalized relative path, which has at most one slash at its end; \<open>.\<close> is the empty path.\<close>

definition posix_dirname :: "string \<Rightarrow> string" where
  "posix_dirname p = parent_path (if js_endsWith p ''/'' then butlast p else p)"

definition ensureParentDirectories :: "string list \<Rightarrow> string \<Rightarrow> unit fsio" where
  "ensureParentDirectories rt p = (if posix_dirname p \<noteq> [] then ensureDirectories rt (posix_dirname p) else fs_return ())"

definition translateError :: "string list \<Rightarrow> string \<Rightarrow> string \<Rightarrow> fs_error \<Rightarrow> 'a fsio" where
  "translateError rt p fallbackCode e =
     (case e of
        Code c \<Rightarrow> fs_throw e
      | Uncoded \<Rightarrow> fs_bind (fs_catch (adapterStat rt p) (\<lambda>_. fs_throw (Code fallbackCode)))
          (\<lambda>s. case s of None \<Rightarrow> fs_throw (Code ''ENOENT'') | Some _ \<Rightarrow> fs_throw (Code fallbackCode)))"

section \<open>Operations\<close>

definition fs_readFile :: "string list \<Rightarrow> string \<Rightarrow> buffer fsio" where
  "fs_readFile rt p = with_path p (\<lambda>n. fs_catch (adapter_readBinary rt n) (translateError rt n ''ENOENT''))"

definition fs_readFileBounded :: "string list \<Rightarrow> string \<Rightarrow> int \<Rightarrow> buffer fsio" where
  "fs_readFileBounded rt p maxBytes = with_path p (\<lambda>n. fs_bind (adapterStat rt n) (\<lambda>s.
     case s of
       None \<Rightarrow> fs_throw (Code ''ENOENT'')
     | Some Stat_folder \<Rightarrow> fs_throw (Code ''EISDIR'')
     | Some (Stat_file sz) \<Rightarrow>
         if maxBytes < 0 \<or> maxBytes > 9007199254740991 \<or> int sz > maxBytes then fs_throw (Code ''EFBIG'')
         else fs_catch
           (fs_bind (adapter_readBinary rt n) (\<lambda>b. if int (length b) > maxBytes then fs_throw (Code ''EFBIG'') else fs_return b))
           (\<lambda>e. if e = Code ''EFBIG'' then fs_throw e else translateError rt n ''ENOENT'' e)))"

definition fs_writeFile :: "string list \<Rightarrow> string \<Rightarrow> buffer \<Rightarrow> bool \<Rightarrow> unit fsio" where
  "fs_writeFile rt p b wx = with_path p (\<lambda>n.
     fs_bind (if wx then fs_bind (adapterStat rt n) (\<lambda>s. if s \<noteq> None then fs_throw (Code ''EEXIST'') else fs_return ()) else fs_return ())
       (\<lambda>_. fs_bind (ensureParentDirectories rt n) (\<lambda>_.
         fs_catch (if wx then adapter_writeBinaryExclusive rt n b else adapter_writeBinary rt n b) (translateError rt n ''EIO''))))"

definition fs_syncFile :: "string list \<Rightarrow> string \<Rightarrow> unit fsio" where
  "fs_syncFile rt p = with_path p (adapter_syncFile rt)"

definition fs_syncDirectory :: "string list \<Rightarrow> string \<Rightarrow> unit fsio" where
  "fs_syncDirectory rt p = with_path p (adapter_syncDirectory rt)"

definition fs_mkdir :: "string list \<Rightarrow> string \<Rightarrow> bool \<Rightarrow> unit fsio" where
  "fs_mkdir rt p recursive = with_path p (\<lambda>n.
     if n = [] then fs_return ()
     else fs_bind (adapterStat rt n) (\<lambda>existing.
       case existing of
         Some (Stat_file sz) \<Rightarrow> fs_throw (Code ''ENOTDIR'')
       | Some Stat_folder \<Rightarrow> if recursive then fs_return () else fs_throw (Code ''EEXIST'')
       | None \<Rightarrow> fs_catch (if recursive then ensureDirectories rt n else adapter_mkdir rt n) (translateError rt n ''EIO'')))"

definition fs_unlink :: "string list \<Rightarrow> string \<Rightarrow> unit fsio" where
  "fs_unlink rt p = with_path p (\<lambda>n. fs_bind (adapterStat rt n) (\<lambda>s.
     case s of None \<Rightarrow> fs_throw (Code ''ENOENT'') | Some Stat_folder \<Rightarrow> fs_throw (Code ''EISDIR'') | Some (Stat_file sz) \<Rightarrow> adapter_remove rt n))"

definition require_empty :: "string list \<Rightarrow> string \<Rightarrow> unit fsio" where
  "require_empty rt n = fs_bind (adapter_list rt n) (\<lambda>l.
     if list_files l \<noteq> [] \<or> list_folders l \<noteq> [] then fs_throw (Code ''ENOTEMPTY'') else fs_return ())"

definition fs_rm :: "string list \<Rightarrow> string \<Rightarrow> bool \<Rightarrow> bool \<Rightarrow> unit fsio" where
  "fs_rm rt p force_rm recursive = with_path p (\<lambda>n. fs_bind (adapterStat rt n) (\<lambda>s.
     case s of
       None \<Rightarrow> if force_rm then fs_return () else fs_throw (Code ''ENOENT'')
     | Some Stat_folder \<Rightarrow>
         fs_bind (if \<not> recursive then require_empty rt n else fs_return ()) (\<lambda>_. adapter_rmdir rt n recursive)
     | Some (Stat_file sz) \<Rightarrow> adapter_remove rt n))"

definition fs_rmdir :: "string list \<Rightarrow> string \<Rightarrow> bool \<Rightarrow> unit fsio" where
  "fs_rmdir rt p recursive = with_path p (\<lambda>n. fs_bind (adapterStat rt n) (\<lambda>s.
     case s of
       None \<Rightarrow> fs_throw (Code ''ENOENT'')
     | Some (Stat_file sz) \<Rightarrow> fs_throw (Code ''ENOTDIR'')
     | Some Stat_folder \<Rightarrow> fs_bind (adapter_list rt n) (\<lambda>l.
         if \<not> recursive \<and> (list_files l \<noteq> [] \<or> list_folders l \<noteq> []) then fs_throw (Code ''ENOTEMPTY'')
         else adapter_rmdir rt n recursive)))"

definition fs_readdir :: "(string \<Rightarrow> string \<Rightarrow> int) \<Rightarrow> string list \<Rightarrow> string \<Rightarrow> (string \<times> bool) list fsio" where
  "fs_readdir collate rt p = with_path p (\<lambda>n. fs_catch
     (fs_bind (adapter_list rt n) (\<lambda>l. fs_return (js_sort (\<lambda>x y. collate (fst x) (fst y))
        (map (\<lambda>e. (after_last CHR ''/'' e, True)) (list_folders l) @ map (\<lambda>e. (after_last CHR ''/'' e, False)) (list_files l)))))
     (translateError rt n ''ENOENT''))"

definition fs_stat :: "string list \<Rightarrow> string \<Rightarrow> stat_type fsio" where
  "fs_stat rt p = with_path p (requiredStat rt)"

definition fs_readlink :: "string \<Rightarrow> unit fsio" where
  "fs_readlink p = with_path p (\<lambda>_. fs_throw (Code ''ENOSYS''))"

definition REPLACEMENT_BACKUP_SUFFIX :: string where
  "REPLACEMENT_BACKUP_SUFFIX = ''.obts-replace-backup''"

definition backup_path :: "string \<Rightarrow> string \<Rightarrow> string" where
  "backup_path destination sfx = destination @ REPLACEMENT_BACKUP_SUFFIX @ ''-'' @ sfx"

text \<open>The replacement of a file by a rename: the old file is set aside, put back on failure, removed on success.\<close>

definition replace_file :: "string list \<Rightarrow> string \<Rightarrow> string \<Rightarrow> string \<Rightarrow> unit fsio" where
  "replace_file rt source destination backup =
     fs_bind (adapter_rename rt destination backup) (\<lambda>_.
       fs_bind (fs_catch (adapter_rename rt source destination) (\<lambda>e.
           fs_bind (adapterStat rt destination) (\<lambda>d.
             fs_bind (if d = None then adapterStat rt backup else fs_return None) (\<lambda>b.
               fs_bind (if d = None \<and> b \<noteq> None then adapter_rename rt backup destination else fs_return ()) (\<lambda>_. fs_throw e)))))
         (\<lambda>_. fs_catch (adapter_remove rt backup) (\<lambda>_. fs_return ())))"

definition fs_rename :: "string list \<Rightarrow> string \<Rightarrow> string \<Rightarrow> string \<Rightarrow> unit fsio" where
  "fs_rename rt sfx oldPath newPath = with_path oldPath (\<lambda>source. with_path newPath (\<lambda>destination.
     fs_bind (adapterStat rt source) (\<lambda>sourceStat.
       case sourceStat of
         None \<Rightarrow> fs_throw (Code ''ENOENT'')
       | Some ss \<Rightarrow> fs_bind (ensureParentDirectories rt destination) (\<lambda>_.
           fs_bind (adapterStat rt destination) (\<lambda>destinationStat.
             case destinationStat of
               None \<Rightarrow> adapter_rename rt source destination
             | Some ds \<Rightarrow>
                 if ss = Stat_folder \<or> ds = Stat_folder then fs_throw (Code (if ss = Stat_folder then ''EEXIST'' else ''EISDIR''))
                 else replace_file rt source destination (backup_path destination sfx))))))"

definition fs_copyFile :: "string list \<Rightarrow> string \<Rightarrow> string \<Rightarrow> unit fsio" where
  "fs_copyFile rt p q = fs_bind (fs_readFile rt p) (\<lambda>b. fs_writeFile rt q b False)"

section \<open>Recovery\<close>

definition lower_digit_dash :: "char \<Rightarrow> bool" where
  "lower_digit_dash c \<longleftrightarrow> (let n = of_char c :: nat in 97 \<le> n \<and> n \<le> 122 \<or> 48 \<le> n \<and> n \<le> 57) \<or> c = CHR ''-''"

text \<open>\<open>s.lastIndexOf(x)\<close>.\<close>

definition last_index :: "string \<Rightarrow> string \<Rightarrow> nat option" where
  "last_index s x = find (\<lambda>i. js_startsWith (drop i s) x) (rev [0..<length s + 1])"

datatype recovery_kind = Restore string | Foreign_backup | Temporary | Ordinary

definition is_temporary :: "string \<Rightarrow> bool" where
  "is_temporary f =
     (let base = after_last CHR ''/'' f
      in CHR ''/'' \<in> set f \<and> (case last_index base ''.json.tmp-'' of
           None \<Rightarrow> False
         | Some i \<Rightarrow> i > 0 \<and> list_all lower_digit_dash (take i base) \<and> drop (i + 10) base \<noteq> [] \<and> list_all lower_digit_dash (drop (i + 10) base)))"

definition recovery_of :: "string \<Rightarrow> recovery_kind" where
  "recovery_of f =
     (case last_index f REPLACEMENT_BACKUP_SUFFIX of
        Some marker \<Rightarrow>
          (let rest = drop (marker + length REPLACEMENT_BACKUP_SUFFIX) f
           in if rest = [] \<or> (hd rest = CHR ''-'' \<and> tl rest \<noteq> [] \<and> list_all lower_digit_dash (tl rest)) then Restore (take marker f)
              else Foreign_backup)
      | None \<Rightarrow> if is_temporary f then Temporary else Ordinary)"

definition recover_file :: "(buffer \<Rightarrow> bool) \<Rightarrow> string list \<Rightarrow> string \<Rightarrow> unit fsio" where
  "recover_file json_ok rt f =
     (case recovery_of f of
        Restore destination \<Rightarrow> fs_bind (adapterStat rt destination) (\<lambda>s.
          if s \<noteq> None then adapter_remove rt f else adapter_rename rt f destination)
      | Foreign_backup \<Rightarrow> fs_return ()
      | Temporary \<Rightarrow> fs_catch (fs_bind (adapter_readBinary rt f) (\<lambda>b. if json_ok b then adapter_remove rt f else fs_return ())) (\<lambda>_. fs_return ())
      | Ordinary \<Rightarrow> fs_return ())"

definition throwIfAborted :: "bool \<Rightarrow> unit fsio" where
  "throwIfAborted aborted = (if aborted then fs_throw (Code ''ABORT_ERR'') else fs_return ())"

text \<open>\<open>fuel\<close> bounds the depth: the depth limit of the caller, or the number of nodes when there is none.\<close>

primrec recoverReplacementTree :: "nat \<Rightarrow> (buffer \<Rightarrow> bool) \<Rightarrow> string list \<Rightarrow> bool \<Rightarrow> string \<Rightarrow> unit fsio" where
  "recoverReplacementTree 0 json_ok rt aborted d =
     fs_bind (throwIfAborted aborted) (\<lambda>_. fs_bind (adapter_list rt d) (\<lambda>l.
       fs_bind (throwIfAborted aborted) (\<lambda>_.
         fs_each (\<lambda>f. fs_bind (throwIfAborted aborted) (\<lambda>_. recover_file json_ok rt f)) (list_files l))))"
| "recoverReplacementTree (Suc fuel) json_ok rt aborted d =
     fs_bind (throwIfAborted aborted) (\<lambda>_. fs_bind (adapter_list rt d) (\<lambda>l.
       fs_bind (throwIfAborted aborted) (\<lambda>_.
         fs_bind (fs_each (recoverReplacementTree fuel json_ok rt aborted) (list_folders l)) (\<lambda>_.
           fs_each (\<lambda>f. fs_bind (throwIfAborted aborted) (\<lambda>_. recover_file json_ok rt f)) (list_files l)))))"

definition fs_recoverReplacements :: "(buffer \<Rightarrow> bool) \<Rightarrow> string list \<Rightarrow> bool \<Rightarrow> string \<Rightarrow> nat option \<Rightarrow> unit fsio" where
  "fs_recoverReplacements json_ok rt aborted rootPath maxDepth = with_path rootPath (\<lambda>d.
     fs_bind (adapterStat rt d) (\<lambda>s.
       if s = None then fs_return ()
       else (\<lambda>w. recoverReplacementTree (case maxDepth of Some n \<Rightarrow> n | None \<Rightarrow> length (dir_tree w)) json_ok rt aborted d w)))"

end
