(* ===== verification/AdapterSafety.thy ===== *)
theory AdapterSafety
  imports AdapterFs
begin

text \<open>
  What the replacing rename of \<^verbatim>\<open>data-adapter-fs.cjs\<close> guarantees when any of its calls fails or the process dies between two
  of them. \<open>calls quiet I m Q C\<close> is the triple of CrashLogic for the node adapter: when \<open>quiet\<close> holds, no call fails.
\<close>

definition tree_state :: "fs_world \<Rightarrow> dir_tree \<times> bool" where
  "tree_state w = (dir_tree w, call_faults w = [])"

definition calls :: "bool \<Rightarrow> (dir_tree \<Rightarrow> bool) \<Rightarrow> 'a fsio \<Rightarrow> (fs_error + 'a \<Rightarrow> dir_tree \<Rightarrow> bool) \<Rightarrow> (dir_tree \<Rightarrow> bool) \<Rightarrow> bool" where
  "calls quiet I m Q C \<longleftrightarrow>
     ctriple tree_state history (\<lambda>d. I (fst d) \<and> (quiet \<longrightarrow> snd d)) m (\<lambda>r d. Q r (fst d) \<and> (quiet \<longrightarrow> snd d)) C"

lemma calls_seq:
  assumes "calls quiet I m R C" and "\<And>x. calls quiet (R (Inr x)) (f x) Q C" and "\<And>e t. R (Inl e) t \<Longrightarrow> Q (Inl e) t"
  shows "calls quiet I (fs_bind m f) Q C"
  unfolding calls_def by (rule ctriple_bind [OF assms(1,2) [unfolded calls_def]]) (use assms(3) in auto)

lemma calls_catch:
  assumes "calls quiet I m R C" and "\<And>e. calls quiet (R (Inl e)) (h e) Q C" and "\<And>x t. R (Inr x) t \<Longrightarrow> Q (Inr x) t"
  shows "calls quiet I (fs_catch m h) Q C"
  unfolding calls_def by (rule ctriple_catch [OF assms(1,2) [unfolded calls_def]]) (use assms(3) in auto)

lemma calls_return: "(\<And>t. I t \<Longrightarrow> Q (Inr x) t) \<Longrightarrow> calls quiet I (fs_return x) Q C"
  by (simp add: calls_def ctriple_def fs_return_def)

lemma calls_throw: "(\<And>t. I t \<Longrightarrow> Q (Inl e) t) \<Longrightarrow> calls quiet I (fs_throw e) Q C"
  by (simp add: calls_def ctriple_def fs_throw_def)

lemma calls_weaken:
  assumes "calls quiet I m Q C" and "\<And>t. I' t \<Longrightarrow> I t" and "\<And>r t. Q r t \<Longrightarrow> Q' r t"
  shows "calls quiet I' m Q' C"
  using assms(1) unfolding calls_def by (rule ctriple_weaken) (use assms(2,3) in auto)

lemma calls_vacuous: "(\<And>t. \<not> I t) \<Longrightarrow> calls quiet I m Q C"
  by (simp add: calls_def ctriple_def)

lemma next_call_state: "next_call w = (fl, w') \<Longrightarrow> dir_tree w' = dir_tree w \<and> history w' = history w \<and>
    (call_faults w = [] \<longrightarrow> fl = Works \<and> call_faults w' = [])"
  by (auto simp: next_call_def split: list.splits)

lemma calls_read:
  assumes "\<And>t x. I t \<Longrightarrow> f t = Inr x \<Longrightarrow> Q (Inr x) t" and "\<And>t e. I t \<Longrightarrow> \<not> quiet \<or> f t = Inl e \<Longrightarrow> Q (Inl e) t"
  shows "calls quiet I (sys_read f) Q C"
  unfolding calls_def ctriple_def
proof (intro allI impI)
  fix w assume pre: "I (fst (tree_state w)) \<and> (quiet \<longrightarrow> snd (tree_state w))"
  obtain fl w' where nc: "next_call w = (fl, w')" by force
  note st = next_call_state [OF nc]
  show "(Q (fst (sys_read f w)) (fst (tree_state (snd (sys_read f w)))) \<and> (quiet \<longrightarrow> snd (tree_state (snd (sys_read f w))))) \<and>
      (\<exists>new. history (snd (sys_read f w)) = new @ history w \<and> (\<forall>d\<in>set new. C d))"
    using pre st assms by (cases fl; cases "f (dir_tree w)") (auto simp: sys_read_def nc tree_state_def)
qed

lemma calls_change:
  assumes "\<And>t t'. I t \<Longrightarrow> f t = Inr t' \<Longrightarrow> Q (Inr ()) t' \<and> C t'"
    and "\<And>t e. I t \<Longrightarrow> \<not> quiet \<or> f t = Inl e \<Longrightarrow> Q (Inl e) t" and "\<And>t. I t \<Longrightarrow> C t"
  shows "calls quiet I (sys_change f (\<lambda>n t. t)) Q C"
  unfolding calls_def ctriple_def
proof (intro allI impI)
  fix w assume pre: "I (fst (tree_state w)) \<and> (quiet \<longrightarrow> snd (tree_state w))"
  obtain fl w' where nc: "next_call w = (fl, w')" by force
  note st = next_call_state [OF nc]
  show "(Q (fst (sys_change f (\<lambda>n t. t) w)) (fst (tree_state (snd (sys_change f (\<lambda>n t. t) w)))) \<and>
        (quiet \<longrightarrow> snd (tree_state (snd (sys_change f (\<lambda>n t. t) w))))) \<and>
      (\<exists>new. history (snd (sys_change f (\<lambda>n t. t) w)) = new @ history w \<and> (\<forall>d\<in>set new. C d))"
    using pre st assms by (cases fl; cases "f (dir_tree w)") (auto simp: sys_change_def nc tree_state_def put_tree_def)
qed

section \<open>Paths\<close>

lemma parent_cases:
  obtains (top) "CHR ''/'' \<notin> set p" "parent_path p = []"
  | (deep) s where "p = parent_path p @ CHR ''/'' # s" "CHR ''/'' \<notin> set s"
proof (cases "CHR ''/'' \<in> set p")
  case True
  then obtain a s where "p = a @ CHR ''/'' # s" "CHR ''/'' \<notin> set s" by (metis split_list_last)
  then show ?thesis using deep by (simp add: parent_path_def before_last_at)
next
  case False
  then show ?thesis using top by (simp add: parent_path_def)
qed

lemma parent_at: "CHR ''/'' \<notin> set s \<Longrightarrow> parent_path (a @ CHR ''/'' # s) = a"
  by (simp add: parent_path_def before_last_at)

lemma parent_extend: "CHR ''/'' \<notin> set s \<Longrightarrow> parent_path (p @ s) = parent_path p"
proof (cases p rule: parent_cases)
  case top
  moreover assume "CHR ''/'' \<notin> set s"
  ultimately show ?thesis by (simp add: parent_path_def)
next
  case (deep u)
  moreover assume "CHR ''/'' \<notin> set s"
  ultimately show ?thesis by (metis parent_at append_assoc append_Cons Un_iff set_append)
qed

text \<open>The directories above a path.\<close>

definition parents_exist :: "dir_tree \<Rightarrow> string \<Rightarrow> bool" where
  "parents_exist t p \<longleftrightarrow> list_all (\<lambda>a. node_at t a = Some PDir) (path_ancestors p)"

lemma path_ancestors_deep:
  assumes "CHR ''/'' \<notin> set s"
  shows "path_ancestors (a @ CHR ''/'' # s) = path_ancestors a @ [a]"
proof -
  define ss where "ss = js_split CHR ''/'' a"
  have ss: "js_split CHR ''/'' (a @ CHR ''/'' # s) = ss @ [s]" "ss \<noteq> []" "js_join ''/'' ss = a"
    by (simp_all add: js_split_at js_split_free assms ss_def)
  have "[1..<length (ss @ [s])] = [1..<length ss] @ [length ss]" using ss(2) by (cases ss) auto
  then show ?thesis unfolding path_ancestors_def Let_def ss(1) using ss by (simp add: path_ancestors_def Let_def flip: ss_def)
qed

lemma path_ancestors_top: "CHR ''/'' \<notin> set p \<Longrightarrow> path_ancestors p = []"
  by (simp add: path_ancestors_def js_split_free)

lemma path_ancestors_parent: "set (path_ancestors (parent_path p) @ [parent_path p]) \<subseteq> insert [] (set (path_ancestors p))"
  by (cases p rule: parent_cases) (auto simp: path_ancestors_top path_ancestors_deep dest: path_ancestors_deep [of _ "parent_path p"])

section \<open>Calls of the adapter\<close>

lemma mkdir_all_exist: "list_all (\<lambda>a. node_at t a = Some PDir) ps \<Longrightarrow> mkdir_all ps t = Inr t"
  by (induction ps) auto

lemma parents_mkdir:
  assumes "parents_exist t p"
  shows "mkdir_all (path_ancestors (parent_path p) @ [parent_path p]) t = Inr t" "node_at t (parent_path p) = Some PDir"
proof -
  have "a = [] \<or> a \<in> set (path_ancestors p)" if "a \<in> set (path_ancestors (parent_path p) @ [parent_path p])" for a
    using path_ancestors_parent [of p] that by auto
  then have all: "list_all (\<lambda>a. node_at t a = Some PDir) (path_ancestors (parent_path p) @ [parent_path p])"
    using assms unfolding parents_exist_def list_all_iff by (metis node_at_def)
  then show "mkdir_all (path_ancestors (parent_path p) @ [parent_path p]) t = Inr t" by (rule mkdir_all_exist)
  show "node_at t (parent_path p) = Some PDir" using all by simp
qed

lemma parents_missing: "parents_exist t p \<Longrightarrow> missing_code t p = Code ''ENOENT''"
  unfolding missing_code_def parents_exist_def by (auto simp: list_ex_iff list_all_iff)

lemma calls_rename:
  assumes "proper_path p" and "proper_path q" and "\<And>t. I t \<Longrightarrow> parents_exist t q \<and> C t"
    and "\<And>t t'. I t \<Longrightarrow> rename_tree p q t = Inr t' \<Longrightarrow> Q (Inr ()) t' \<and> C t'"
    and "\<And>t e. I t \<Longrightarrow> \<not> quiet \<or> rename_tree p q t = Inl e \<Longrightarrow> Q (Inl e) t"
  shows "calls quiet I (adapter_rename rt p q) Q C"
proof -
  have "calls quiet I (fs_bind (sys_mkdir_recursive (parent_path q)) (\<lambda>_. sys_rename p q)) Q C"
  proof (rule calls_seq)
    show "calls quiet I (sys_mkdir_recursive (parent_path q)) (\<lambda>r t. I t \<and> (r = Inr () \<or> \<not> quiet)) C"
      unfolding sys_mkdir_recursive_def by (rule calls_change) (use assms(3) parents_mkdir(1) in fastforce)+
    show "calls quiet (\<lambda>t. I t \<and> (Inr x = Inr () \<or> \<not> quiet)) (sys_rename p q) Q C" for x
      unfolding sys_rename_def by (rule calls_change) (use assms(3-5) in blast)+
  qed (use assms(5) in auto)
  then show ?thesis by (simp add: adapter_rename_def at_path_proper assms(1,2))
qed

definition stat_of :: "pnode option \<Rightarrow> stat_type option" where
  "stat_of n = (case n of Some (PFile b) \<Rightarrow> Some (Stat_file (length b)) | Some PDir \<Rightarrow> Some Stat_folder | _ \<Rightarrow> None)"

text \<open>A failing \<open>lstat\<close> may look like a missing file; one that is found is there.\<close>

lemma calls_stat:
  assumes "proper_path p" and "\<And>t. I t \<Longrightarrow> parents_exist t p \<or> node_at t p \<noteq> None"
  shows "calls quiet I (adapterStat rt p)
    (\<lambda>r t. I t \<and> (\<forall>x. r = Inr (Some x) \<longrightarrow> stat_of (node_at t p) = Some x) \<and> (quiet \<longrightarrow> r = Inr (stat_of (node_at t p)))) C"
proof -
  have "calls quiet I (adapter_stat rt p)
      (\<lambda>r t. I t \<and> (\<forall>x. r = Inr (Some x) \<longrightarrow> stat_of (node_at t p) = Some x) \<and> (quiet \<longrightarrow> r = Inr (stat_of (node_at t p)))) C"
    unfolding adapter_stat_def at_path_proper [OF assms(1)]
  proof (rule calls_catch)
    let ?R = "\<lambda>r t. I t \<and> (\<forall>x. r = Inr x \<longrightarrow> x = stat_of (node_at t p)) \<and> (\<forall>e. quiet \<longrightarrow> r = Inl e \<longrightarrow> e = Code ''ENOENT'' \<and> node_at t p = None)"
    show "calls quiet I (fs_bind (sys_lstat p) (\<lambda>n. fs_return
        (case n of PFile b \<Rightarrow> Some (Stat_file (length b)) | PDir \<Rightarrow> Some Stat_folder | POther \<Rightarrow> None))) ?R C"
    proof (rule calls_seq)
      show "calls quiet I (sys_lstat p)
          (\<lambda>r t. I t \<and> (\<forall>n. r = Inr n \<longrightarrow> node_at t p = Some n) \<and> (\<forall>e. quiet \<longrightarrow> r = Inl e \<longrightarrow> e = Code ''ENOENT'' \<and> node_at t p = None)) C"
        unfolding sys_lstat_def by (rule calls_read) (auto dest!: assms(2) simp: parents_missing split: option.splits)
    qed (auto intro!: calls_return simp: stat_of_def split: pnode.splits)
    show "calls quiet (?R (Inl e)) (if e = Code ''ENOENT'' then fs_return None else fs_throw e)
        (\<lambda>r t. I t \<and> (\<forall>x. r = Inr (Some x) \<longrightarrow> stat_of (node_at t p) = Some x) \<and> (quiet \<longrightarrow> r = Inr (stat_of (node_at t p)))) C" for e
      by (auto intro!: calls_return calls_throw simp: stat_of_def)
  qed auto
  then show ?thesis using proper_not_Nil [OF assms(1)] by (simp add: adapterStat_def)
qed

lemma calls_remove:
  assumes "proper_path p" and "\<And>t. I t \<Longrightarrow> C t \<and> (\<exists>b. node_at t p = Some (PFile b))"
    and "\<And>t. I t \<Longrightarrow> Q (Inr ()) (AList.delete p t) \<and> C (AList.delete p t)" and "\<And>t e. I t \<Longrightarrow> \<not> quiet \<Longrightarrow> Q (Inl e) t"
  shows "calls quiet I (adapter_remove rt p) Q C"
  unfolding adapter_remove_def at_path_proper [OF assms(1)] sys_unlink_def
  by (rule calls_change) (use assms(2-4) in fastforce)+

lemma node_at_delete: "p \<noteq> [] \<Longrightarrow> node_at (AList.delete p t) x = (if x = p then None else node_at t x)"
  by (simp add: node_at_def AList.delete_conv')

lemma node_at_update: "p \<noteq> [] \<Longrightarrow> node_at (AList.update p n t) x = (if x = p then Some n else node_at t x)"
  by (simp add: node_at_def AList.update_conv')

lemma rename_file:
  assumes "node_at t p = Some (PFile c)" and "p \<noteq> q" and "p \<noteq> []" and "q \<noteq> []" and "node_at t q \<noteq> Some PDir" and "parents_exist t q"
  shows "\<exists>t'. rename_tree p q t = Inr t' \<and> (\<forall>x. node_at t' x = (if x = q then Some (PFile c) else if x = p then None else node_at t x))"
  using assms parents_mkdir(2) [OF assms(6)] by (simp add: rename_tree_def node_at_update node_at_delete)

section \<open>The stages of a replacement\<close>

text \<open>What is at the source, the destination and the backup; nothing else has changed since \<open>t0\<close>.\<close>

fun stage :: "dir_tree \<Rightarrow> string \<times> string \<times> string \<Rightarrow> pnode option \<times> pnode option \<times> pnode option \<Rightarrow> dir_tree \<Rightarrow> bool" where
  "stage t0 (s, d, b) (x, y, z) t \<longleftrightarrow> node_at t s = x \<and> node_at t d = y \<and> node_at t b = z \<and> (\<forall>p. p \<notin> {s, d, b} \<longrightarrow> node_at t p = node_at t0 p)"

definition replacing :: "dir_tree \<Rightarrow> string \<times> string \<times> string \<Rightarrow> buffer \<Rightarrow> buffer \<Rightarrow> bool" where
  "replacing t0 ps old new \<longleftrightarrow> (case ps of (s, d, b) \<Rightarrow>
     proper_path s \<and> proper_path d \<and> proper_path b \<and> s \<noteq> d \<and> path_ancestors b = path_ancestors d \<and> parents_exist t0 d \<and>
     stage t0 ps (Some (PFile new), Some (PFile old), None) t0)"

text \<open>At every moment the old or the new contents are at the destination, or both are still on disk, the old ones at the backup.\<close>

definition recoverable :: "dir_tree \<Rightarrow> string \<times> string \<times> string \<Rightarrow> buffer \<Rightarrow> buffer \<Rightarrow> dir_tree \<Rightarrow> bool" where
  "recoverable t0 ps old new t \<longleftrightarrow>
     stage t0 ps (Some (PFile new), Some (PFile old), None) t \<or> stage t0 ps (Some (PFile new), None, Some (PFile old)) t \<or>
     stage t0 ps (None, Some (PFile new), Some (PFile old)) t \<or> stage t0 ps (None, Some (PFile new), None) t"

definition replaced_or_kept :: "bool \<Rightarrow> dir_tree \<Rightarrow> string \<times> string \<times> string \<Rightarrow> buffer \<Rightarrow> buffer \<Rightarrow> fs_error + unit \<Rightarrow> dir_tree \<Rightarrow> bool" where
  "replaced_or_kept quiet t0 ps old new r t \<longleftrightarrow> (case r of
     Inr _ \<Rightarrow> stage t0 ps (None, Some (PFile new), None) t \<or> (\<not> quiet \<and> stage t0 ps (None, Some (PFile new), Some (PFile old)) t)
   | Inl e \<Rightarrow> \<not> quiet \<and> (stage t0 ps (Some (PFile new), Some (PFile old), None) t \<or> stage t0 ps (Some (PFile new), None, Some (PFile old)) t))"

lemma replacing_facts:
  assumes "replacing t0 (s, d, b) old new"
  shows "proper_path s" "proper_path d" "proper_path b" "s \<noteq> []" "d \<noteq> []" "b \<noteq> []" "s \<noteq> d" "s \<noteq> b" "d \<noteq> b"
  using assms proper_not_Nil by (auto simp: replacing_def)

lemma stage_parents:
  assumes "replacing t0 (s, d, b) old new" and "stage t0 (s, d, b) v t"
  shows "parents_exist t d" "parents_exist t b"
proof -
  have "node_at t a = Some PDir" if "a \<in> set (path_ancestors d)" for a
  proof -
    have "node_at t0 a = Some PDir" using assms(1) that by (simp add: replacing_def parents_exist_def list_all_iff)
    moreover from this have "a \<notin> {s, d, b}" using assms(1) by (auto simp: replacing_def)
    ultimately show ?thesis using assms(2) by (cases v) auto
  qed
  then show "parents_exist t d" by (simp add: parents_exist_def list_all_iff)
  then show "parents_exist t b" using assms(1) by (simp add: parents_exist_def replacing_def)
qed

lemma stage_rename:
  assumes "replacing t0 (s, d, b) old new" and "stage t0 (s, d, b) v t" and "p \<in> {s, d, b}" and "q \<in> {d, b}" and "p \<noteq> q"
    and "node_at t p = Some (PFile c)" and "node_at t q \<noteq> Some PDir"
  shows "\<exists>t'. rename_tree p q t = Inr t' \<and> (\<forall>x. node_at t' x = (if x = q then Some (PFile c) else if x = p then None else node_at t x))"
  using assms replacing_facts [OF assms(1)] stage_parents [OF assms(1,2)] by (intro rename_file) auto

lemma stage_set_aside:
  assumes "replacing t0 (s, d, b) old new" and "stage t0 (s, d, b) (Some (PFile new), Some (PFile old), None) t"
  shows "\<exists>t'. rename_tree d b t = Inr t' \<and> stage t0 (s, d, b) (Some (PFile new), None, Some (PFile old)) t'"
  using stage_rename [OF assms, of d b old] replacing_facts [OF assms(1)] assms(2) by auto

lemma stage_put_back:
  assumes "replacing t0 (s, d, b) old new" and "stage t0 (s, d, b) (Some (PFile new), None, Some (PFile old)) t"
  shows "\<exists>t'. rename_tree b d t = Inr t' \<and> stage t0 (s, d, b) (Some (PFile new), Some (PFile old), None) t'"
  using stage_rename [OF assms, of b d old] replacing_facts [OF assms(1)] assms(2) by auto

lemma stage_place:
  assumes "replacing t0 (s, d, b) old new" and "stage t0 (s, d, b) (Some (PFile new), y, z) t" and "y \<noteq> Some PDir"
  shows "\<exists>t'. rename_tree s d t = Inr t' \<and> stage t0 (s, d, b) (None, Some (PFile new), z) t'"
  using stage_rename [OF assms(1,2), of s d new] replacing_facts [OF assms(1)] assms(2,3) by auto

lemma stage_drop_backup:
  assumes "replacing t0 (s, d, b) old new" and "stage t0 (s, d, b) (x, y, z) t"
  shows "stage t0 (s, d, b) (x, y, None) (AList.delete b t)"
  using assms(2) replacing_facts [OF assms(1)] by (auto simp: node_at_delete)

declare stage.simps [simp del]

section \<open>The replacement\<close>

lemma calls_step:
  assumes r: "replacing t0 (s, d, b) old new" and "proper_path p" and "q \<in> {d, b}"
    and "\<And>t. stage t0 (s, d, b) v t \<Longrightarrow> \<exists>t'. rename_tree p q t = Inr t' \<and> stage t0 (s, d, b) v' t'"
    and "\<And>t. stage t0 (s, d, b) v t \<or> stage t0 (s, d, b) v' t \<Longrightarrow> recoverable t0 (s, d, b) old new t"
  shows "calls quiet (stage t0 (s, d, b) v) (adapter_rename rt p q)
    (\<lambda>r t. (\<exists>x. r = Inr x) \<and> stage t0 (s, d, b) v' t \<or> \<not> quiet \<and> (\<exists>e. r = Inl e) \<and> stage t0 (s, d, b) v t) (recoverable t0 (s, d, b) old new)"
proof (rule calls_rename)
  show "proper_path q" using replacing_facts [OF r] assms(3) by auto
  show "parents_exist t q \<and> recoverable t0 (s, d, b) old new t" if "stage t0 (s, d, b) v t" for t
    using that stage_parents [OF r that] assms(3,5) by blast
qed (use assms(2,4,5) in fastforce)+

lemma calls_stat_stage:
  assumes r: "replacing t0 (s, d, b) old new" and "x \<in> {d, b}"
  shows "calls quiet (stage t0 (s, d, b) v) (adapterStat rt x) (\<lambda>r. stage t0 (s, d, b) v) C"
  by (rule calls_weaken [OF calls_stat [where I = "stage t0 (s, d, b) v"]]) (use assms(2) replacing_facts [OF r] stage_parents [OF r] in blast)+

lemma calls_put_back:
  assumes r: "replacing t0 (s, d, b) old new" and "\<not> quiet"
  shows "calls quiet (stage t0 (s, d, b) (Some (PFile new), None, Some (PFile old)))
    (fs_bind (adapterStat rt d) (\<lambda>x.
       fs_bind (if x = None then adapterStat rt b else fs_return None) (\<lambda>y.
         fs_bind (if x = None \<and> y \<noteq> None then adapter_rename rt b d else fs_return ()) (\<lambda>_. fs_throw e))))
    (\<lambda>r t. (\<exists>e. r = Inl e) \<and> replaced_or_kept quiet t0 (s, d, b) old new r t) (recoverable t0 (s, d, b) old new)"
    (is "calls quiet ?B ?m ?Q ?C")
proof -
  note p = replacing_facts [OF r]
  let ?A = "stage t0 (s, d, b) (Some (PFile new), Some (PFile old), None)"
  have put: "calls quiet ?B (if z then adapter_rename rt b d else fs_return ()) (\<lambda>r t. ?A t \<or> ?B t) ?C" for z
    by (cases z) (auto intro!: calls_return calls_weaken [OF calls_step [OF r p(3) _ stage_put_back [OF r]]] simp: recoverable_def)
  have stat: "calls quiet ?B (if z then adapterStat rt x else fs_return None) (\<lambda>r t. ?B t) ?C" if "x \<in> {d, b}" for x z
    using calls_stat_stage [OF r that] by (cases z) (auto intro!: calls_return)
  have err: "?Q (Inl e) t" if "?A t \<or> ?B t" for e t
    using that assms(2) by (auto simp: replaced_or_kept_def)
  show ?thesis
    by (rule calls_seq [OF stat [of d True, simplified]], rule calls_seq [OF stat [of b]], simp,
        rule calls_seq [OF put], rule calls_throw) (use err in blast)+
qed

lemma calls_replace_file:
  assumes r: "replacing t0 (s, d, b) old new"
  shows "calls quiet (stage t0 (s, d, b) (Some (PFile new), Some (PFile old), None)) (replace_file rt s d b)
    (replaced_or_kept quiet t0 (s, d, b) old new) (recoverable t0 (s, d, b) old new)"
    (is "calls quiet ?A ?m ?Q ?C")
proof -
  note p = replacing_facts [OF r]
  let ?B = "stage t0 (s, d, b) (Some (PFile new), None, Some (PFile old))"
  let ?P = "stage t0 (s, d, b) (None, Some (PFile new), Some (PFile old))"
  let ?R = "\<lambda>r t. (\<exists>x. r = Inr x) \<and> ?P t \<or> (\<exists>e. r = Inl e) \<and> ?Q r t"
  have drop: "calls quiet ?P (fs_catch (adapter_remove rt b) (\<lambda>_. fs_return ())) ?Q ?C"
    by (rule calls_catch [where R = "\<lambda>r t. r = Inr () \<and> stage t0 (s, d, b) (None, Some (PFile new), None) t \<or> \<not> quiet \<and> (\<exists>e. r = Inl e) \<and> ?P t"],
        rule calls_remove)
      (use stage_drop_backup [OF r] p in \<open>auto intro!: calls_return simp: recoverable_def replaced_or_kept_def; simp add: stage.simps\<close>)+
  show ?thesis unfolding replace_file_def
  proof (rule calls_seq)
    show "calls quiet ?A (adapter_rename rt d b) (\<lambda>r t. (\<exists>x. r = Inr x) \<and> ?B t \<or> \<not> quiet \<and> (\<exists>e. r = Inl e) \<and> ?A t) ?C"
      by (rule calls_step [OF r p(2) _ stage_set_aside [OF r]]) (auto simp: recoverable_def)
    show "calls quiet (\<lambda>t. (\<exists>y. Inr x = Inr y) \<and> ?B t \<or> \<not> quiet \<and> (\<exists>e. Inr x = Inl e) \<and> ?A t)
       (fs_bind (fs_catch (adapter_rename rt s d) (\<lambda>e. fs_bind (adapterStat rt d) (\<lambda>d'.
             fs_bind (if d' = None then adapterStat rt b else fs_return None) (\<lambda>b'.
               fs_bind (if d' = None \<and> b' \<noteq> None then adapter_rename rt b d else fs_return ()) (\<lambda>_. fs_throw e)))))
         (\<lambda>_. fs_catch (adapter_remove rt b) (\<lambda>_. fs_return ()))) ?Q ?C" for x :: unit
    proof (rule calls_seq [where R = ?R], rule calls_catch)
      show "calls quiet (\<lambda>t. (\<exists>y. Inr x = Inr y) \<and> ?B t \<or> \<not> quiet \<and> (\<exists>e. Inr x = Inl e) \<and> ?A t) (adapter_rename rt s d)
          (\<lambda>r t. (\<exists>x. r = Inr x) \<and> ?P t \<or> \<not> quiet \<and> (\<exists>e. r = Inl e) \<and> ?B t) ?C"
        by (rule calls_weaken [OF calls_step [OF r p(1) _ stage_place [OF r]]]) (auto simp: recoverable_def)
      show "calls quiet (\<lambda>t. (\<exists>x. Inl e = Inr x) \<and> ?P t \<or> \<not> quiet \<and> (\<exists>e'. Inl e = Inl e') \<and> ?B t)
          (fs_bind (adapterStat rt d) (\<lambda>d'. fs_bind (if d' = None then adapterStat rt b else fs_return None) (\<lambda>b'.
               fs_bind (if d' = None \<and> b' \<noteq> None then adapter_rename rt b d else fs_return ()) (\<lambda>_. fs_throw e)))) ?R ?C" for e
      proof (cases quiet)
        case False
        show ?thesis by (rule calls_weaken [OF calls_put_back [OF r False]]) auto
      qed (rule calls_vacuous, simp)
    qed (use drop in \<open>auto intro: calls_weaken [OF drop]\<close>)
  qed (auto simp: replaced_or_kept_def)
qed

section \<open>The rename operation\<close>

lemma proper_startsWith:
  assumes "proper_path p"
  shows "\<not> js_startsWith p ''/''" "\<not> js_endsWith p ''/''" "\<not> js_startsWith p ''../''"
proof -
  have seg: "[] \<notin> set (js_split CHR ''/'' p)" "''..'' \<notin> set (js_split CHR ''/'' p)" using assms unfolding proper_path_def by blast+
  show "\<not> js_startsWith p ''/''" using hd_split_Nil seg(1) by blast
  show "\<not> js_endsWith p ''/''"
  proof
    assume "js_endsWith p ''/''"
    then obtain q where "p = q @ [CHR ''/'']" unfolding js_endsWith_def by (metis append_take_drop_id)
    then show False using seg(1) by (simp add: js_split_snoc)
  qed
  show "\<not> js_startsWith p ''../''"
  proof
    assume "js_startsWith p ''../''"
    then obtain q where "p = ''..'' @ CHR ''/'' # q" by (auto simp: js_startsWith_iff)
    then show False using seg(2) js_split_append [of "CHR ''/''" "''..''" q] by simp
  qed
qed

lemma normalize_proper:
  assumes "\<forall>s\<in>set ss. s \<noteq> [] \<and> s \<noteq> ''.'' \<and> s \<noteq> ''..''"
  shows "foldl (normalize_segment a) segs ss = segs @ ss"
  using assms by (induction ss arbitrary: segs) (auto simp: normalize_segment_def)

lemma adapterPath_proper:
  assumes "proper_path p"
  shows "adapterPath p = Inr p"
proof -
  have segs: "\<forall>s\<in>set (js_split CHR ''/'' p). s \<noteq> [] \<and> s \<noteq> ''.'' \<and> s \<noteq> ''..''" and chars: "CHR 0x5C \<notin> set p" "CHR 0x00 \<notin> set p"
    using assms unfolding proper_path_def by blast+
  have "posix_normalize p = p" unfolding posix_normalize_def Let_def normalize_proper [OF segs]
    using proper_startsWith [OF assms] proper_not_Nil [OF assms] by simp
  moreover have "''.'' \<notin> set (js_split CHR ''/'' p)" "''..'' \<notin> set (js_split CHR ''/'' p)" using segs by blast+
  then have "p \<noteq> ''.''" "p \<noteq> ''..''" by auto
  ultimately show ?thesis unfolding adapterPath_def Let_def
    using proper_startsWith [OF assms] proper_not_Nil [OF assms] proper_no_slash [OF assms] chars by (simp add: replaceChar_free)
qed

lemma with_path_proper: "proper_path p \<Longrightarrow> with_path p f = f p"
  by (simp add: with_path_def wbind_def fs_lift_def adapterPath_proper fun_eq_iff)

lemma calls_ensure_prefixes:
  assumes "\<And>a. a \<in> set ps \<Longrightarrow> proper_path a" and "\<And>a t. a \<in> set ps \<Longrightarrow> I t \<Longrightarrow> node_at t a = Some PDir" and "\<And>t. I t \<Longrightarrow> C t"
  shows "calls quiet I (ensure_prefixes rt ps) (\<lambda>r t. I t \<and> (quiet \<longrightarrow> r = Inr ())) C"
  using assms(1,2)
proof (induction ps)
  case (Cons a ps)
  have a: "proper_path a" "\<And>t. I t \<Longrightarrow> node_at t a = Some PDir" using Cons.prems by auto
  show ?case unfolding ensure_prefixes.simps
  proof (rule calls_seq [OF calls_stat [OF a(1)]], simp add: a(2), rule calls_seq)
    fix x
    show "calls quiet (\<lambda>t. I t \<and> (\<forall>y. Inr x = Inr (Some y) \<longrightarrow> stat_of (node_at t a) = Some y) \<and> (quiet \<longrightarrow> Inr x = Inr (stat_of (node_at t a))))
        (case x of None \<Rightarrow> adapter_mkdir rt a | Some (Stat_file n) \<Rightarrow> fs_throw (Code ''ENOTDIR'') | Some Stat_folder \<Rightarrow> fs_return ())
        (\<lambda>r t. I t \<and> (quiet \<longrightarrow> r = Inr ())) C"
    proof (cases x)
      case None
      then show ?thesis by (simp add: adapter_mkdir_def at_path_proper [OF a(1)] sys_mkdir_def) (rule calls_change; auto simp: a(2) assms(3) stat_of_def)
    next
      case (Some y)
      then show ?thesis by (cases y) (auto intro!: calls_return calls_throw simp: a(2) stat_of_def)
    qed
    show "calls quiet (\<lambda>t. I t \<and> (quiet \<longrightarrow> Inr y = Inr ())) (ensure_prefixes rt ps) (\<lambda>r t. I t \<and> (quiet \<longrightarrow> r = Inr ())) C" for y :: unit
      by (rule calls_weaken [OF Cons.IH]) (use Cons.prems in auto)
  qed auto
qed (auto intro: calls_return)

lemma proper_ancestors:
  assumes "proper_path p" and "a \<in> set (path_ancestors p)"
  shows "proper_path a"
proof -
  define ss where "ss = js_split CHR ''/'' p"
  from assms(2) obtain i where i: "a = js_join ''/'' (take i ss)" "1 \<le> i" "i < length ss" by (auto simp: path_ancestors_def Let_def ss_def)
  have "js_split CHR ''/'' a = take i ss" unfolding i(1)
    by (rule js_split_join) (use i in \<open>auto simp: ss_def dest!: in_set_takeD js_split_segment\<close>)
  then have split: "set (js_split CHR ''/'' a) \<subseteq> set (js_split CHR ''/'' p)" by (simp add: ss_def set_take_subset)
  have "p = js_join ''/'' (take i ss @ drop i ss)" by (simp add: ss_def)
  also have "\<dots> = a @ ''/'' @ js_join ''/'' (drop i ss)" unfolding i(1) by (rule js_join_at) (use i in auto)
  finally have "set a \<subseteq> set p" by (metis set_append Un_upper1)
  with split show ?thesis using assms(1) unfolding proper_path_def by blast
qed

lemma ensure_parents_prefixes:
  assumes "proper_path p"
  shows "ensureParentDirectories rt p = ensure_prefixes rt (path_ancestors p)"
proof (cases p rule: parent_cases)
  case top
  then show ?thesis using proper_startsWith(2) [OF assms] by (simp add: ensureParentDirectories_def posix_dirname_def path_ancestors_top)
next
  case (deep s)
  define ss where "ss = js_split CHR ''/'' (parent_path p)"
  have p: "js_split CHR ''/'' p = ss @ [s]" by (subst deep(1)) (simp add: js_split_at js_split_free deep(2) ss_def)
  then have "\<forall>x\<in>set ss. x \<noteq> []" using assms unfolding proper_path_def by simp
  then have "filter (\<lambda>x. x \<noteq> []) ss = ss" and "[] \<notin> set ss" by (blast intro: filter_True)+
  moreover from this(2) have "parent_path p \<noteq> []" unfolding ss_def by (metis js_split.simps(1) list.set_intros(1))
  moreover have "map (\<lambda>i. js_join ''/'' (take i ss)) [1..<length ss + 1] = path_ancestors p"
    by (auto simp: path_ancestors_def Let_def p)
  ultimately show ?thesis using proper_startsWith(2) [OF assms]
    by (simp add: ensureParentDirectories_def posix_dirname_def ensureDirectories_def flip: ss_def)
qed

lemma split_extend: "c \<notin> set u \<Longrightarrow> js_split c (p @ u) = butlast (js_split c p) @ [last (js_split c p) @ u]"
proof (induction p)
  case (Cons x p)
  obtain y ys where "js_split c p = y # ys" by (meson js_split_not_Nil neq_Nil_conv)
  then show ?case using Cons by auto
qed (simp add: js_split_free)

lemma backup_proper:
  assumes "proper_path p" and "list_all lower_digit_dash sfx"
  shows "proper_path (backup_path p sfx)" "path_ancestors (backup_path p sfx) = path_ancestors p"
proof -
  define u where "u = REPLACEMENT_BACKUP_SUFFIX @ ''-'' @ sfx"
  have "\<not> lower_digit_dash (CHR ''/'')" "\<not> lower_digit_dash (CHR 0x5C)" "\<not> lower_digit_dash (CHR 0x00)" by (simp_all add: lower_digit_dash_def)
  then have u: "CHR ''/'' \<notin> set u" "CHR 0x5C \<notin> set u" "CHR 0x00 \<notin> set u" "length u > 2"
    using assms(2) by (auto simp: u_def REPLACEMENT_BACKUP_SUFFIX_def list_all_iff)
  note b = split_extend [OF u(1), of p]
  have "x \<noteq> [] \<and> x \<noteq> ''.'' \<and> x \<noteq> ''..''" if "x \<in> set (js_split CHR ''/'' (p @ u))" for x
  proof (cases "x \<in> set (butlast (js_split CHR ''/'' p))")
    case True
    then show ?thesis using assms(1) in_set_butlastD unfolding proper_path_def by fast
  next
    case False
    then have "length x > 2" using that u(4) by (auto simp: b)
    then show ?thesis by auto
  qed
  then show "proper_path (backup_path p sfx)" using assms(1) u unfolding proper_path_def backup_path_def u_def [symmetric] by simp
  show "path_ancestors (backup_path p sfx) = path_ancestors p"
    unfolding path_ancestors_def backup_path_def u_def [symmetric] b Let_def
    by (cases "js_split CHR ''/'' p" rule: rev_cases) auto
qed

lemma calls_fs_rename:
  assumes r: "replacing t0 (s, d, backup_path d sfx) old new"
  shows "calls quiet (stage t0 (s, d, backup_path d sfx) (Some (PFile new), Some (PFile old), None)) (fs_rename rt sfx s d)
    (replaced_or_kept quiet t0 (s, d, backup_path d sfx) old new) (recoverable t0 (s, d, backup_path d sfx) old new)"
    (is "calls quiet ?A ?m ?Q ?C")
proof -
  note p = replacing_facts [OF r]
  have nodes: "node_at t s = Some (PFile new)" "node_at t d = Some (PFile old)" if "?A t" for t using that by (auto simp: stage.simps)
  have err: "?Q (Inl e) t" if "?A t" "\<not> quiet" for e t using that by (auto simp: replaced_or_kept_def)
  have ren: "calls quiet ?A (adapter_rename rt s d) ?Q ?C"
    by (rule calls_weaken [OF calls_step [OF r p(1) _ stage_place [OF r]]]) (auto simp: recoverable_def replaced_or_kept_def)
  have sub: "calls quiet ?A (case x of None \<Rightarrow> adapter_rename rt s d | Some y \<Rightarrow>
      if z = Stat_folder \<or> y = Stat_folder then fs_throw e else replace_file rt s d (backup_path d sfx)) ?Q ?C"
    if "z \<noteq> Stat_folder" "x \<noteq> Some Stat_folder" for x z e
    using that ren calls_replace_file [OF r] by (auto split: option.splits)
  have ens: "calls quiet ?A (ensureParentDirectories rt d) (\<lambda>r t. ?A t \<and> (quiet \<longrightarrow> r = Inr ())) ?C"
    unfolding ensure_parents_prefixes [OF p(2)]
    by (rule calls_ensure_prefixes)
      (use proper_ancestors [OF p(2)] stage_parents(1) [OF r] in \<open>auto simp: parents_exist_def list_all_iff recoverable_def\<close>)
  have stat: "calls quiet ?A (adapterStat rt x) (\<lambda>r t. ?A t \<and> r \<noteq> Inr (Some Stat_folder) \<and> (quiet \<longrightarrow> (\<exists>y. r = Inr (Some y)))) ?C" if "x \<in> {s, d}" for x
  proof (rule calls_weaken [OF calls_stat [where I = ?A]])
    have n: "node_at t x \<noteq> None \<and> (\<exists>n. stat_of (node_at t x) = Some (Stat_file n))" if "?A t" for t
      using nodes [OF that] \<open>x \<in> {s, d}\<close> by (auto simp: stat_of_def)
    show "proper_path x" using p(1,2) that by blast
    show "parents_exist t x \<or> node_at t x \<noteq> None" if "?A t" for t using n [OF that] by blast
    show "?A t \<and> r \<noteq> Inr (Some Stat_folder) \<and> (quiet \<longrightarrow> (\<exists>y. r = Inr (Some y)))"
      if "?A t \<and> (\<forall>y. r = Inr (Some y) \<longrightarrow> stat_of (node_at t x) = Some y) \<and> (quiet \<longrightarrow> r = Inr (stat_of (node_at t x)))" for r t
      using that n [of t] by fastforce
  qed
  have "calls quiet (\<lambda>t. ?A t \<and> (quiet \<longrightarrow> Inr u = Inr ())) (fs_bind (adapterStat rt d) (\<lambda>x. case x of None \<Rightarrow> adapter_rename rt s d
      | Some y \<Rightarrow> if z = Stat_folder \<or> y = Stat_folder then fs_throw e else replace_file rt s d (backup_path d sfx))) ?Q ?C"
    if "z \<noteq> Stat_folder" for z e and u :: unit
  proof (rule calls_weaken [OF calls_seq [OF stat [of d]]])
    show "calls quiet (\<lambda>t. ?A t \<and> Inr x \<noteq> Inr (Some Stat_folder) \<and> (quiet \<longrightarrow> (\<exists>y. Inr x = Inr (Some y))))
       (case x of None \<Rightarrow> adapter_rename rt s d
         | Some y \<Rightarrow> if z = Stat_folder \<or> y = Stat_folder then fs_throw e else replace_file rt s d (backup_path d sfx)) ?Q ?C" for x
      by (cases "x = Some Stat_folder") (auto intro: calls_vacuous calls_weaken [OF sub [OF that]])
  qed (use err in auto)
  then have tail: "calls quiet ?A (fs_bind (ensureParentDirectories rt d) (\<lambda>_. fs_bind (adapterStat rt d) (\<lambda>x. case x of None \<Rightarrow> adapter_rename rt s d
      | Some y \<Rightarrow> if z = Stat_folder \<or> y = Stat_folder then fs_throw e else replace_file rt s d (backup_path d sfx)))) ?Q ?C"
    if "z \<noteq> Stat_folder" for z e by (intro calls_seq [OF ens]) (use that err in auto)
  show ?thesis unfolding fs_rename_def with_path_proper [OF p(1)] with_path_proper [OF p(2)]
  proof (rule calls_seq [OF stat [of s]])
    fix x
    let ?g = "\<lambda>ss. fs_bind (ensureParentDirectories rt d) (\<lambda>_. fs_bind (adapterStat rt d) (\<lambda>y. case y of None \<Rightarrow> adapter_rename rt s d
      | Some ds \<Rightarrow> if ss = Stat_folder \<or> ds = Stat_folder then fs_throw (Code (if ss = Stat_folder then ''EEXIST'' else ''EISDIR''))
          else replace_file rt s d (backup_path d sfx)))"
    show "calls quiet (\<lambda>t. ?A t \<and> Inr x \<noteq> Inr (Some Stat_folder) \<and> (quiet \<longrightarrow> (\<exists>y. Inr x = Inr (Some y))))
        (case x of None \<Rightarrow> fs_throw (Code ''ENOENT'') | Some ss \<Rightarrow> ?g ss) ?Q ?C"
    proof (cases x)
      case None
      then show ?thesis using err by (auto intro: calls_throw)
    next
      case (Some y)
      then show ?thesis using tail [of y "Code ''EISDIR''"] by (cases "y = Stat_folder") (auto intro: calls_vacuous)
    qed
  qed (use err in auto)
qed

section \<open>Recovery\<close>

lemma find_rev_upt: "k \<le> n \<Longrightarrow> P k \<Longrightarrow> (\<And>i. k < i \<Longrightarrow> i \<le> n \<Longrightarrow> \<not> P i) \<Longrightarrow> find P (rev [0..<n + 1]) = Some k"
  by (induction n) (auto simp: le_Suc_eq)

lemma backup_marker:
  assumes "list_all lower_digit_dash sfx"
  shows "last_index (backup_path p sfx) REPLACEMENT_BACKUP_SUFFIX = Some (length p)"
  unfolding last_index_def
proof (rule find_rev_upt)
  have dot: "\<not> lower_digit_dash (CHR ''.'')" by (simp add: lower_digit_dash_def)
  then have free: "CHR ''.'' \<notin> set (''obts-replace-backup-'' @ sfx)" using assms by (auto simp: list_all_iff)
  show "\<not> js_startsWith (drop i (backup_path p sfx)) REPLACEMENT_BACKUP_SUFFIX" if lt: "length p < i" for i
  proof
    obtain k where k: "i = length p + Suc k" using lt less_iff_Suc_add [of "length p" i] by auto
    have "drop i (backup_path p sfx) = drop k (''obts-replace-backup-'' @ sfx)"
      by (simp add: k backup_path_def REPLACEMENT_BACKUP_SUFFIX_def)
    moreover assume "js_startsWith (drop i (backup_path p sfx)) REPLACEMENT_BACKUP_SUFFIX"
    then have "set REPLACEMENT_BACKUP_SUFFIX \<subseteq> set (drop i (backup_path p sfx))" unfolding js_startsWith_iff by (metis set_append Un_upper1)
    moreover have "CHR ''.'' \<in> set REPLACEMENT_BACKUP_SUFFIX" by (simp add: REPLACEMENT_BACKUP_SUFFIX_def)
    ultimately have "CHR ''.'' \<in> set (drop k (''obts-replace-backup-'' @ sfx))" by (metis subsetD)
    with free show False by (meson in_set_dropD)
  qed
qed (simp_all add: backup_path_def)

lemma recovery_backup:
  assumes "list_all lower_digit_dash sfx" and "sfx \<noteq> []"
  shows "recovery_of (backup_path p sfx) = Restore p"
  unfolding recovery_of_def backup_marker [OF assms(1)] using assms by (simp add: backup_path_def)

lemma calls_recover_file:
  assumes r: "replacing t0 (s, d, backup_path d sfx) old new" and "list_all lower_digit_dash sfx" and "sfx \<noteq> []"
    and y: "y = None \<and> x = Some (PFile new) \<or> y = Some (PFile new) \<and> x = None"
  shows "calls True (stage t0 (s, d, backup_path d sfx) (x, y, Some (PFile old))) (recover_file json_ok rt (backup_path d sfx))
    (\<lambda>r. stage t0 (s, d, backup_path d sfx) (if y = None then (x, Some (PFile old), None) else (x, y, None))) (\<lambda>t. True)"
    (is "calls True ?I ?m ?Q _")
proof -
  note p = replacing_facts [OF r]
  have m: "recover_file json_ok rt (backup_path d sfx) = fs_bind (adapterStat rt d) (\<lambda>s.
      if s \<noteq> None then adapter_remove rt (backup_path d sfx) else adapter_rename rt (backup_path d sfx) d)"
    by (simp add: recover_file_def recovery_backup assms(2,3))
  have n: "stat_of (node_at t d) = stat_of y" if "?I t" for t using that by (simp add: stage.simps)
  have rm: "calls True ?I (adapter_remove rt (backup_path d sfx)) ?Q (\<lambda>t. True)" if "y \<noteq> None"
    by (rule calls_remove [OF p(3)]) (use stage_drop_backup [OF r] that in \<open>auto simp: stage.simps\<close>)
  have ren: "calls True ?I (adapter_rename rt (backup_path d sfx) d) ?Q (\<lambda>t. True)" if "y = None"
    by (rule calls_rename [OF p(3,2)])
      (use stage_put_back [OF r] stage_parents(1) [OF r] y that in \<open>fastforce simp del: stage.simps\<close>)+
  show ?thesis unfolding m
  proof (rule calls_seq [OF calls_stat [OF p(2)]])
    show "calls True (\<lambda>t. ?I t \<and> (\<forall>z. Inr v = Inr (Some z) \<longrightarrow> stat_of (node_at t d) = Some z) \<and> (True \<longrightarrow> Inr v = Inr (stat_of (node_at t d))))
       (if v \<noteq> None then adapter_remove rt (backup_path d sfx) else adapter_rename rt (backup_path d sfx) d) ?Q (\<lambda>t. True)" for v
    proof (cases "v = stat_of y")
      case True
      then have vy: "(v \<noteq> None) = (y \<noteq> None)" using y by (auto simp: stat_of_def)
      have "calls True ?I (if v \<noteq> None then adapter_remove rt (backup_path d sfx) else adapter_rename rt (backup_path d sfx) d) ?Q (\<lambda>t. True)"
        unfolding vy by (split if_split, intro conjI impI) (erule rm, rule ren, blast)
      then show ?thesis by (rule calls_weaken) auto
    qed (rule calls_vacuous, use n in auto)
  qed (use stage_parents(1) [OF r] in auto)
qed

text \<open>C2. A rename onto an existing file replaces it safely, whatever call fails: the whole tree, at every moment and so after
  a crash, has the old file at the destination with the new one at the source, or the old one at the backup and the new one
  at the source, or the new one at the destination; no other path changes. A rename that returns has put the new file in
  place, one that throws has lost neither; with no fault it returns and leaves no backup.\<close>

theorem rename_replacement_safe:
  assumes "proper_path s" and "proper_path d" and "s \<noteq> d" and "list_all lower_digit_dash sfx"
    and "node_at (dir_tree w) s = Some (PFile new)" and "node_at (dir_tree w) d = Some (PFile old)"
    and "node_at (dir_tree w) (backup_path d sfx) = None" and "parents_exist (dir_tree w) d"
    and "fs_rename rt sfx s d w = (r, w')"
  shows "replaced_or_kept (call_faults w = []) (dir_tree w) (s, d, backup_path d sfx) old new r (dir_tree w') \<and>
    (\<exists>states. history w' = states @ history w \<and> (\<forall>t\<in>set states. recoverable (dir_tree w) (s, d, backup_path d sfx) old new t))"
proof -
  have A: "stage (dir_tree w) (s, d, backup_path d sfx) (Some (PFile new), Some (PFile old), None) (dir_tree w)"
    using assms(5-7) by (simp add: stage.simps)
  then have "replacing (dir_tree w) (s, d, backup_path d sfx) old new"
    using assms(1-4,8) backup_proper [OF assms(2,4)] by (simp add: replacing_def)
  from calls_fs_rename [OF this, of "call_faults w = []" rt] A assms(9) show ?thesis
    unfolding calls_def ctriple_def by (simp add: tree_state_def) (metis fst_conv snd_conv)
qed

theorem rename_replacement_safe_witness:
  "let w = \<lparr>dir_tree = [(''a'', PDir), (''a/n'', PFile [1]), (''a/t'', PFile [2])], call_faults = [], history = []\<rparr>;
       w' = snd (fs_rename [''v''] ''x1'' ''a/t'' ''a/n'' w)
   in node_at (dir_tree w') ''a/n'' = Some (PFile [2]) \<and>
      replaced_or_kept True (dir_tree w) (''a/t'', ''a/n'', backup_path ''a/n'' ''x1'') [1] [2] (fst (fs_rename [''v''] ''x1'' ''a/t'' ''a/n'' w)) (dir_tree w')"
proof -
  define w where "w = \<lparr>dir_tree = [(''a'', PDir), (''a/n'', PFile [1]), (''a/t'', PFile [2])], call_faults = [], history = []\<rparr>"
  obtain r w' where run: "fs_rename [''v''] ''x1'' ''a/t'' ''a/n'' w = (r, w')" by force
  have "replaced_or_kept (call_faults w = []) (dir_tree w) (''a/t'', ''a/n'', backup_path ''a/n'' ''x1'') [1] [2] r (dir_tree w')"
    by (rule rename_replacement_safe [THEN conjunct1, OF _ _ _ _ _ _ _ _ run])
      (simp_all add: w_def proper_path_def lower_digit_dash_def node_at_def backup_path_def REPLACEMENT_BACKUP_SUFFIX_def parents_exist_def path_ancestors_def)
  then show ?thesis using run unfolding w_def [symmetric] Let_def
    by (auto simp: replaced_or_kept_def stage.simps w_def split: sum.splits)
qed

text \<open>C8. Recovery after a crash: a tree a replacing rename went through that has its backup is completed by the recovery of
  that backup. The old file is put back when nothing is at the destination and the backup is dropped when the new file is
  there; the tree is that before the rename, or that after it.\<close>

theorem crash_recovered:
  assumes "proper_path s" and "proper_path d" and "s \<noteq> d" and "list_all lower_digit_dash sfx" and "sfx \<noteq> []"
    and "node_at (dir_tree w) s = Some (PFile new)" and "node_at (dir_tree w) d = Some (PFile old)"
    and "node_at (dir_tree w) (backup_path d sfx) = None" and "parents_exist (dir_tree w) d"
    and "recoverable (dir_tree w) (s, d, backup_path d sfx) old new (dir_tree v)" and "node_at (dir_tree v) (backup_path d sfx) \<noteq> None"
    and "call_faults v = []" and "recover_file json_ok rt (backup_path d sfx) v = (r, v')"
  shows "stage (dir_tree w) (s, d, backup_path d sfx)
    (if node_at (dir_tree v) d = None then (Some (PFile new), Some (PFile old), None) else (None, Some (PFile new), None)) (dir_tree v')"
proof -
  let ?ps = "(s, d, backup_path d sfx)"
  have "stage (dir_tree w) ?ps (Some (PFile new), Some (PFile old), None) (dir_tree w)" using assms(6-8) by (simp add: stage.simps)
  then have rp: "replacing (dir_tree w) ?ps old new"
    using assms(1-4,9) backup_proper [OF assms(2,4)] by (simp add: replacing_def)
  obtain x y where st: "stage (dir_tree w) ?ps (x, y, Some (PFile old)) (dir_tree v)"
    and xy: "y = None \<and> x = Some (PFile new) \<or> y = Some (PFile new) \<and> x = None"
    using assms(10,11) unfolding recoverable_def stage.simps by metis
  have "node_at (dir_tree v) d = y" using st by (simp add: stage.simps)
  moreover have "stage (dir_tree w) ?ps (if y = None then (x, Some (PFile old), None) else (x, y, None)) (dir_tree v')"
    using calls_recover_file [OF rp assms(4,5) xy, of json_ok rt, unfolded calls_def ctriple_def, THEN spec [of _ v]] st assms(12,13)
    by (simp add: tree_state_def)
  ultimately show ?thesis using xy by auto
qed

theorem crash_recovered_witness:
  "let t = [(''n.obts-replace-backup-x1'', PFile [1]), (''t'', PFile [2])];
       v' = snd (recover_file (\<lambda>b. True) [''v''] (backup_path ''n'' ''x1'') \<lparr>dir_tree = t, call_faults = [], history = []\<rparr>)
   in stage [(''n'', PFile [1]), (''t'', PFile [2])] (''t'', ''n'', backup_path ''n'' ''x1'') (Some (PFile [2]), Some (PFile [1]), None) (dir_tree v')"
proof -
  define t where "t = [(''n.obts-replace-backup-x1'', PFile [1]), (''t'', PFile [2])]"
  define v where "v = \<lparr>dir_tree = t, call_faults = [], history = []\<rparr>"
  define w where "w = \<lparr>dir_tree = [(''n'', PFile [1]), (''t'', PFile [2])], call_faults = [], history = []\<rparr>"
  obtain r v' where run: "recover_file (\<lambda>b. True) [''v''] (backup_path ''n'' ''x1'') v = (r, v')" by force
  have b: "backup_path ''n'' ''x1'' = ''n.obts-replace-backup-x1''" by (simp add: backup_path_def REPLACEMENT_BACKUP_SUFFIX_def)
  have "stage (dir_tree w) (''t'', ''n'', backup_path ''n'' ''x1'') (if node_at (dir_tree v) ''n'' = None
      then (Some (PFile [2]), Some (PFile [1]), None) else (None, Some (PFile [2]), None)) (dir_tree v')"
    by (rule crash_recovered [OF _ _ _ _ _ _ _ _ _ _ _ _ run])
      (simp_all add: v_def w_def t_def b proper_path_def lower_digit_dash_def node_at_def parents_exist_def path_ancestors_def recoverable_def stage.simps)
  then show ?thesis using run unfolding t_def [symmetric] v_def [symmetric] Let_def by (simp add: v_def w_def t_def node_at_def)
qed

end
