(* ===== verification/ReadOverlay.thy ===== *)
theory ReadOverlay
  imports AdapterSafety
begin

text \<open>
  \<open>createReadOverlayFs\<close> of \<^verbatim>\<open>obsidian-plugin/src/data-adapter-fs.cjs\<close>: files kept in memory in front of a file system, with a
  bound on their bytes. The \<open>Map\<close> is the list of its entries in insertion order; the first is evicted first, and a read moves
  its entry to the end. \<open>maxBytes\<close> is \<open>None\<close> for infinity. The eviction loop runs on fuel, the number of entries; \<open>None\<close> would
  be a loop that does not end.
\<close>

record overlay =
  overrides :: "(string \<times> buffer) list"
  overrideBytes :: int

record overlay_options =
  maxBytes :: "nat option"
  cacheRead :: "string \<Rightarrow> bool"
  readAttempts :: nat

definition over_limit :: "overlay_options \<Rightarrow> int \<Rightarrow> bool" where
  "over_limit opts n = (case maxBytes opts of None \<Rightarrow> False | Some m \<Rightarrow> n > int m)"

definition deleteReadOverlay :: "string \<Rightarrow> overlay \<Rightarrow> fs_error + overlay" where
  "deleteReadOverlay filePath st = rbind (adapterPath filePath) (\<lambda>key.
     case map_of (overrides st) key of
       None \<Rightarrow> Inr st
     | Some existing \<Rightarrow> Inr (st\<lparr>overrides := AList.delete key (overrides st), overrideBytes := overrideBytes st - int (length existing)\<rparr>))"

fun evict_overlay :: "nat \<Rightarrow> overlay_options \<Rightarrow> nat \<Rightarrow> overlay \<Rightarrow> (fs_error + overlay) option" where
  "evict_overlay fuel opts n st =
     (if over_limit opts (overrideBytes st + int n) \<and> overrides st \<noteq> []
      then (case fuel of
          0 \<Rightarrow> None
        | Suc fuel' \<Rightarrow> (case deleteReadOverlay (fst (hd (overrides st))) st of Inl e \<Rightarrow> Some (Inl e) | Inr st' \<Rightarrow> evict_overlay fuel' opts n st'))
      else Some (Inr st))"

declare evict_overlay.simps [simp del]

definition setReadOverlay :: "overlay_options \<Rightarrow> string \<Rightarrow> buffer \<Rightarrow> overlay \<Rightarrow> (fs_error + overlay) option" where
  "setReadOverlay opts filePath data st =
     (case rbind (adapterPath filePath) (\<lambda>key. rbind (deleteReadOverlay key st) (\<lambda>st'. Inr (key, st'))) of
        Inl e \<Rightarrow> Some (Inl e)
      | Inr (key, st') \<Rightarrow>
          if maxBytes opts = Some 0 \<or> over_limit opts (int (length data)) then Some (Inr st')
          else (case evict_overlay (length (overrides st')) opts (length data) st' of
              None \<Rightarrow> None
            | Some (Inl e) \<Rightarrow> Some (Inl e)
            | Some (Inr ev) \<Rightarrow> Some (Inr (ev\<lparr>overrides := overrides ev @ [(key, data)], overrideBytes := overrideBytes ev + int (length data)\<rparr>))))"

fun set_all :: "overlay_options \<Rightarrow> (string \<times> buffer) list \<Rightarrow> overlay \<Rightarrow> (fs_error + overlay) option" where
  "set_all opts [] st = Some (Inr st)"
| "set_all opts ((f, d) # fs) st = (case setReadOverlay opts f d st of Some (Inr st') \<Rightarrow> set_all opts fs st' | r \<Rightarrow> r)"

definition createReadOverlayFs :: "overlay_options \<Rightarrow> (string \<times> buffer) list \<Rightarrow> (fs_error + overlay) option" where
  "createReadOverlayFs opts files = set_all opts files \<lparr>overrides = [], overrideBytes = 0\<rparr>"

text \<open>The attempts of a read: \<open>reads\<close> has the results of the underlying file system in turn.\<close>

fun attempt_read :: "nat \<Rightarrow> (fs_error + buffer) list \<Rightarrow> fs_error + buffer" where
  "attempt_read n [] = Inl Uncoded"
| "attempt_read n (r # rs) = (case r of Inr b \<Rightarrow> Inr b | Inl e \<Rightarrow> if n \<le> 1 then Inl e else attempt_read (n - 1) rs)"

definition overlay_readFile :: "overlay_options \<Rightarrow> (fs_error + buffer) list \<Rightarrow> string \<Rightarrow> bool \<Rightarrow> overlay \<Rightarrow> ((fs_error + buffer) \<times> overlay) option" where
  "overlay_readFile opts reads filePath encoding st =
     (case adapterPath filePath of
        Inl e \<Rightarrow> Some (Inl e, st)
      | Inr key \<Rightarrow>
          (case map_of (overrides st) key of
             Some b \<Rightarrow> Some (Inr b, st\<lparr>overrides := AList.delete key (overrides st) @ [(key, b)]\<rparr>)
           | None \<Rightarrow>
               (case attempt_read (if cacheRead opts key then max 1 (readAttempts opts) else 1) reads of
                  Inl e \<Rightarrow> Some (Inl e, st)
                | Inr b \<Rightarrow>
                    if cacheRead opts key \<and> \<not> encoding
                    then (case setReadOverlay opts key b st of
                        None \<Rightarrow> None | Some (Inl e) \<Rightarrow> Some (Inl e, st) | Some (Inr st') \<Rightarrow> Some (Inr b, st'))
                    else Some (Inr b, st))))"

section \<open>Normalized keys\<close>

definition adapter_key :: "string \<Rightarrow> bool" where
  "adapter_key k \<longleftrightarrow> adapterPath k = Inr k"

definition proper_seg :: "string \<Rightarrow> bool" where
  "proper_seg s \<longleftrightarrow> s \<noteq> [] \<and> s \<noteq> ''.'' \<and> s \<noteq> ''..'' \<and> CHR ''/'' \<notin> set s"

text \<open>A normalized list of segments: parents only at the front, and none when absolute.\<close>

definition normal_segs :: "bool \<Rightarrow> string list \<Rightarrow> bool" where
  "normal_segs absolute ss \<longleftrightarrow> (\<exists>k ps. ss = replicate k ''..'' @ ps \<and> (\<forall>s\<in>set ps. proper_seg s) \<and> (absolute \<longrightarrow> k = 0))"

lemma normal_segment:
  assumes "normal_segs a ss" and "CHR ''/'' \<notin> set s"
  shows "normal_segs a (normalize_segment a ss s)"
proof -
  from assms(1) obtain k ps where ss: "ss = replicate k ''..'' @ ps" "\<forall>s\<in>set ps. proper_seg s" "a \<longrightarrow> k = 0" unfolding normal_segs_def by blast
  consider "s = [] \<or> s = ''.''" | "s = ''..''" "ps = []" | ps' p where "s = ''..''" "ps = ps' @ [p]" | "proper_seg s"
    using assms(2) by (metis proper_seg_def rev_exhaust)
  then show ?thesis
  proof cases
    case 2
    have "last (replicate k ''..'') = ''..''" if "k > 0" using that by simp
    then have "normalize_segment a ss s = (if a then ss else replicate (Suc k) ''..'')"
      using 2 ss by (cases k) (auto simp: normalize_segment_def replicate_append_same)
    then show ?thesis using assms(1) unfolding normal_segs_def by (cases a) (auto intro: exI [of _ "Suc k"])
  next
    case 3
    then have "normalize_segment a ss s = replicate k ''..'' @ ps'"
      using ss by (simp add: normalize_segment_def butlast_append proper_seg_def)
    then show ?thesis using ss 3 unfolding normal_segs_def by auto
  next
    case 4
    then have "normalize_segment a ss s = replicate k ''..'' @ (ps @ [s])" using ss by (simp add: normalize_segment_def proper_seg_def)
    then show ?thesis using ss 4 unfolding normal_segs_def by (metis Un_iff empty_iff insert_iff list.set(1,2) set_append)
  qed (use assms in \<open>auto simp: normalize_segment_def\<close>)
qed

lemma normal_fold: "normal_segs a ss \<Longrightarrow> (\<And>s. s \<in> set xs \<Longrightarrow> CHR ''/'' \<notin> set s) \<Longrightarrow> normal_segs a (foldl (normalize_segment a) ss xs)"
  by (induction xs arbitrary: ss) (auto simp: normal_segment)

lemma normalize_segment_subset: "set (normalize_segment a ss s) \<subseteq> insert s (set ss)"
  by (auto simp: normalize_segment_def dest: in_set_butlastD)

lemma normalize_fold_subset: "set (foldl (normalize_segment a) ss xs) \<subseteq> set ss \<union> set xs"
proof (induction xs arbitrary: ss)
  case (Cons x xs)
  show ?case using Cons [of "normalize_segment a ss x"] normalize_segment_subset [of a ss x] by auto
qed simp

lemma join_chars: "set (js_join sep ss) \<subseteq> set sep \<union> \<Union> (set ` set ss)"
  by (induction ss) (auto simp: js_join_Cons)

lemma key_slash:
  assumes "proper_path q"
  shows "adapter_key (q @ ''/'')"
proof -
  have segs: "\<forall>s\<in>set (js_split CHR ''/'' q). s \<noteq> [] \<and> s \<noteq> ''.'' \<and> s \<noteq> ''..''" and chars: "CHR 0x5C \<notin> set q" "CHR 0x00 \<notin> set q"
    using assms unfolding proper_path_def by blast+
  note q = proper_startsWith [OF assms] proper_not_Nil [OF assms] proper_no_slash [OF assms]
  obtain c r where cr: "q = c # r" using q(4) by (cases q) auto
  have c: "c \<noteq> CHR ''/''" using q(1) cr by (auto simp: js_startsWith_def)
  have no2: "\<not> js_startsWith (q @ ''/'') ''../''"
  proof
    assume "js_startsWith (q @ ''/'') ''../''"
    then have "js_startsWith q ''../'' \<or> q = ''..''"
      by (auto simp: js_startsWith_iff append_eq_append_conv2 append_eq_Cons_conv Cons_eq_append_conv)
    then show False using q(3) segs by auto
  qed
  have "foldl (normalize_segment False) [] (js_split CHR ''/'' (q @ ''/'')) = js_split CHR ''/'' q"
    by (simp add: js_split_snoc normalize_proper [OF segs]) (simp add: normalize_segment_def)
  moreover have "\<not> js_startsWith (q @ ''/'') ''/''" "js_endsWith (q @ ''/'') ''/''" using c cr by (simp_all add: js_startsWith_def js_endsWith_def)
  ultimately have "posix_normalize (q @ ''/'') = q @ ''/''"
    using q(4) unfolding posix_normalize_def Let_def by simp
  then show ?thesis using chars no2 c cr
    by (simp add: adapter_key_def adapterPath_def Let_def replaceChar_free)
qed

lemma proper_segs_path:
  assumes "ss \<noteq> []" and "\<forall>s\<in>set ss. proper_seg s" and "\<forall>s\<in>set ss. CHR 0x5C \<notin> set s \<and> CHR 0x00 \<notin> set s"
  shows "proper_path (js_join ''/'' ss)"
proof -
  have "js_split CHR ''/'' (js_join ''/'' ss) = ss" by (rule js_split_join) (use assms in \<open>auto simp: proper_seg_def\<close>)
  moreover have "CHR 0x5C \<notin> set (js_join ''/'' ss)" "CHR 0x00 \<notin> set (js_join ''/'' ss)"
    using join_chars [of "''/''" ss] assms(3) by fastforce+
  ultimately show ?thesis using assms(2) unfolding proper_path_def proper_seg_def by simp
qed

text \<open>A path that is not refused is normalized to nothing, to \<open>./\<close>, or to proper segments.\<close>

lemma normalized_shape:
  assumes "normal_segs a ss" and "\<forall>s\<in>set ss. CHR 0x5C \<notin> set s \<and> CHR 0x00 \<notin> set s"
    and "body = js_join ''/'' ss" and "filled = (if body = [] \<and> \<not> a then ''.'' else body)"
    and "full = (if filled \<noteq> [] \<and> e then filled @ ''/'' else filled)"
    and "n = dropWhile (\<lambda>c. c = CHR ''/'') (if a then ''/'' @ full else full)" and "n \<noteq> []" "n \<noteq> ''.''" "n \<noteq> ''..''" "\<not> js_startsWith n ''../''"
  shows "adapter_key n"
proof -
  from assms(1) obtain k ps where ss: "ss = replicate k ''..'' @ ps" "\<forall>s\<in>set ps. proper_seg s" "a \<longrightarrow> k = 0" unfolding normal_segs_def by blast
  show ?thesis
  proof (cases "ss = []")
    case True
    then have "body = []" by (simp add: assms(3))
    then have "n = ''./''" using assms(4-8) by (cases a; cases e) auto
    then show ?thesis by (simp add: adapter_key_def adapterPath_def posix_normalize_def js_replaceChar_def js_startsWith_def js_endsWith_def normalize_segment_def)
  next
    case False
    have "k = 0"
    proof (rule ccontr)
      assume "k \<noteq> 0"
      then obtain ss' where "ss = ''..'' # ss'" "\<not> a" using ss by (cases k) auto
      then have "body = ''..'' \<or> (\<exists>t. body = ''../'' @ t)" and "body \<noteq> []" by (auto simp: assms(3) js_join_Cons)
      then have "full = ''..'' \<or> (\<exists>t. full = ''../'' @ t)" unfolding assms(4,5) by auto
      then show False using assms(6,9,10) \<open>\<not> a\<close> by (auto simp: js_startsWith_def)
    qed
    with ss False assms(2) have p: "proper_path body" unfolding assms(3) by (intro proper_segs_path) auto
    then have "n = (if e then body @ ''/'' else body)"
      using proper_not_Nil [OF p] proper_startsWith(1) [OF p] unfolding assms(4-6) by (cases body) (auto simp: js_startsWith_def)
    then show ?thesis using key_slash [OF p] adapterPath_proper [OF p] by (simp add: adapter_key_def)
  qed
qed

text \<open>Normalizing is idempotent, so an entry is found and evicted by its own key.\<close>

lemma adapterPath_key:
  assumes "adapterPath p = Inr n"
  shows "adapter_key n"
proof (cases "n = []")
  case True
  then show ?thesis by (simp add: adapter_key_def adapterPath_def posix_normalize_def js_replaceChar_def)
next
  case False
  define u where "u = js_replaceChar CHR 0x5C CHR ''/'' p"
  define a where "a = js_startsWith u ''/''"
  define ss where "ss = foldl (normalize_segment a) [] (js_split CHR ''/'' u)"
  note n = assms [unfolded adapterPath_def Let_def, folded u_def]
  have "u \<noteq> []" using n False by (auto simp: posix_normalize_def)
  have u: "CHR 0x5C \<notin> set u" by (auto simp: u_def js_replaceChar_def)
  have nul: "CHR 0x00 \<notin> set u" and nn: "n = dropWhile (\<lambda>c. c = CHR ''/'') (posix_normalize u)" "n \<noteq> ''.''" "n \<noteq> ''..''" "\<not> js_startsWith n ''../''"
    using n False by (auto split: if_splits)
  have normal: "normal_segs a ss" unfolding ss_def
    by (rule normal_fold) (auto simp: normal_segs_def dest: js_split_segment)
  have chars: "\<forall>s\<in>set ss. CHR 0x5C \<notin> set s \<and> CHR 0x00 \<notin> set s"
    using nul u normalize_fold_subset [of a "[]" "js_split CHR ''/'' u"] js_split_segment_chars [of _ "CHR ''/''" u] unfolding ss_def by fastforce
  show ?thesis
    by (rule normalized_shape [OF normal chars refl refl refl _ False nn(2-4), of "js_endsWith u ''/''"])
      (use \<open>u \<noteq> []\<close> nn(1) in \<open>simp only: posix_normalize_def Let_def a_def ss_def if_False\<close>)
qed

section \<open>The overlay\<close>

definition overlay_ok :: "overlay_options \<Rightarrow> overlay \<Rightarrow> bool" where
  "overlay_ok opts st \<longleftrightarrow> distinct (map fst (overrides st)) \<and> list_all (\<lambda>(k, b). adapter_key k) (overrides st) \<and>
     overrideBytes st = sum_list (map (\<lambda>(k, b). int (length b)) (overrides st)) \<and> \<not> over_limit opts (overrideBytes st)"

abbreviation total_bytes :: "(string \<times> buffer) list \<Rightarrow> int" where
  "total_bytes es \<equiv> sum_list (map (\<lambda>(k, b). int (length b)) es)"

lemma total_bytes_delete:
  "distinct (map fst es) \<Longrightarrow> map_of es k = Some b \<Longrightarrow> total_bytes (AList.delete k es) = total_bytes es - int (length b)"
proof (induction es)
  case (Cons e es)
  obtain k' b' where e: "e = (k', b')" by force
  show ?case
  proof (cases "k' = k")
    case True
    then have "AList.delete k es = es" using Cons.prems(1) by (intro AList.delete_id) (auto simp: e)
    then show ?thesis using Cons.prems True by (simp add: e)
  next
    case False
    then show ?thesis using Cons by (simp add: e)
  qed
qed simp

lemma total_bytes_nonneg: "0 \<le> total_bytes es"
  by (induction es) auto

lemma over_limit_mono: "over_limit opts m \<Longrightarrow> m \<le> n \<Longrightarrow> over_limit opts n"
  by (auto simp: over_limit_def split: option.splits)

lemma delete_ok:
  assumes "overlay_ok opts st" and "adapterPath f = Inr key"
  shows "\<exists>st'. deleteReadOverlay f st = Inr st' \<and> overlay_ok opts st' \<and> overrides st' = AList.delete key (overrides st)"
proof (cases "map_of (overrides st) key")
  case None
  then have "AList.delete key (overrides st) = overrides st" by (intro AList.delete_id) (simp add: map_of_eq_None_iff)
  with None show ?thesis using assms by (simp add: deleteReadOverlay_def)
next
  case (Some b)
  let ?es = "AList.delete key (overrides st)"
  have "total_bytes ?es = overrideBytes st - int (length b)" using total_bytes_delete [OF _ Some] assms(1) by (simp add: overlay_ok_def)
  moreover have "\<not> over_limit opts (overrideBytes st - int (length b))"
    using assms(1) over_limit_mono [of opts "overrideBytes st - int (length b)" "overrideBytes st"] by (auto simp: overlay_ok_def)
  ultimately show ?thesis using assms Some AList.delete_conv [of key "overrides st"]
    by (auto simp: deleteReadOverlay_def overlay_ok_def list_all_iff AList.delete_eq intro: distinct_map_filter)
qed

lemma evict_overlay_ok:
  assumes "overlay_ok opts st" and "\<not> over_limit opts (int n)" and "length (overrides st) \<le> fuel"
  shows "\<exists>st' k. evict_overlay fuel opts n st = Some (Inr st') \<and> overlay_ok opts st' \<and> overrides st' = drop k (overrides st) \<and>
    \<not> over_limit opts (overrideBytes st' + int n)"
  using assms(1,3)
proof (induction fuel arbitrary: st)
  case 0
  then have "overrideBytes st = 0" "overrides st = []" by (auto simp: overlay_ok_def)
  moreover from this have "evict_overlay 0 opts n st = Some (Inr st)" by (subst evict_overlay.simps) simp
  ultimately show ?case using 0 assms(2) by (intro exI [of _ st] exI [of _ 0]) simp
next
  case (Suc fuel)
  show ?case
  proof (cases "over_limit opts (overrideBytes st + int n) \<and> overrides st \<noteq> []")
    case False
    have zero: "overrideBytes st = 0" if "overrides st = []" using that Suc.prems(1) by (simp add: overlay_ok_def)
    have "\<not> over_limit opts (overrideBytes st + int n)"
    proof (cases "overrides st = []")
      case True
      then show ?thesis using zero assms(2) by simp
    qed (use False in blast)
    moreover have "evict_overlay (Suc fuel) opts n st = Some (Inr st)" using False by (subst evict_overlay.simps) (simp only: if_False)
    ultimately show ?thesis using Suc.prems(1) by (intro exI [of _ st] exI [of _ 0]) simp
  next
    case True
    then obtain k b es where st: "overrides st = (k, b) # es" by (metis list.exhaust surj_pair)
    have "adapterPath k = Inr k" using Suc.prems(1) st by (simp add: overlay_ok_def adapter_key_def)
    from delete_ok [OF Suc.prems(1) this] obtain st1 where st1: "deleteReadOverlay k st = Inr st1" "overlay_ok opts st1"
      "overrides st1 = AList.delete k (overrides st)" by blast
    have "k \<notin> fst ` set es" using Suc.prems(1) st by (auto simp: overlay_ok_def)
    then have es: "overrides st1 = es" using st st1(3) by (simp add: AList.delete_id)
    from Suc.IH [OF st1(2)] obtain st' j where "evict_overlay fuel opts n st1 = Some (Inr st')" "overlay_ok opts st'" "overrides st' = drop j es"
      "\<not> over_limit opts (overrideBytes st' + int n)" using Suc.prems(2) st es by auto
    moreover have "evict_overlay (Suc fuel) opts n st = evict_overlay fuel opts n st1" using True st st1(1) by (subst evict_overlay.simps) simp
    ultimately show ?thesis using st by (intro exI [of _ st'] exI [of _ "Suc j"]) simp
  qed
qed

lemma map_of_drop: "distinct (map fst es) \<Longrightarrow> map_of (drop k es) x = None \<or> map_of (drop k es) x = map_of es x"
  by (induction es arbitrary: k) (auto simp: drop_Cons' map_of_eq_None_iff dest: in_set_dropD)

text \<open>C29. Keeping a file in the overlay ends and keeps the overlay well formed: one entry per normalized path, the byte count
  is the sum of the entries and within the limit. The file is there unless it alone exceeds the limit, and every other entry is
  unchanged or evicted.\<close>

theorem overlay_bounded:
  assumes "overlay_ok opts st" and "adapterPath f = Inr key"
  shows "\<exists>st'. setReadOverlay opts f data st = Some (Inr st') \<and> overlay_ok opts st' \<and>
    map_of (overrides st') key = (if maxBytes opts = Some 0 \<or> over_limit opts (int (length data)) then None else Some data) \<and>
    (\<forall>k. k \<noteq> key \<longrightarrow> map_of (overrides st') k = None \<or> map_of (overrides st') k = map_of (overrides st) k)"
proof -
  have key: "adapterPath key = Inr key" using adapterPath_key [OF assms(2)] by (simp add: adapter_key_def)
  from delete_ok [OF assms(1) this] obtain st1 where st1: "deleteReadOverlay key st = Inr st1" "overlay_ok opts st1"
    "overrides st1 = AList.delete key (overrides st)" by blast
  show ?thesis
  proof (cases "maxBytes opts = Some 0 \<or> over_limit opts (int (length data))")
    case True
    then show ?thesis using assms(2) st1 by (intro exI [of _ st1]) (auto simp: setReadOverlay_def AList.delete_conv')
  next
    case False
    then obtain ev j where ev: "evict_overlay (length (overrides st1)) opts (length data) st1 = Some (Inr ev)" "overlay_ok opts ev"
      "overrides ev = drop j (overrides st1)" "\<not> over_limit opts (overrideBytes ev + int (length data))"
      using evict_overlay_ok [OF st1(2), of "length data" "length (overrides st1)"] by auto
    let ?st = "ev\<lparr>overrides := overrides ev @ [(key, data)], overrideBytes := overrideBytes ev + int (length data)\<rparr>"
    have d: "distinct (map fst (overrides st1))" using st1(2) by (simp add: overlay_ok_def)
    note m = map_of_drop [OF d, of j]
    have none: "map_of (overrides ev) key = None" using m [of key] st1(3) by (auto simp: ev(3) AList.delete_conv')
    have "overlay_ok opts ?st" using ev(2,4) none key by (auto simp: overlay_ok_def adapter_key_def map_of_eq_None_iff)
    moreover have "setReadOverlay opts f data st = Some (Inr ?st)" using assms(2) st1(1) False ev(1) by (simp add: setReadOverlay_def)
    moreover have "map_of (overrides ?st) k = None \<or> map_of (overrides ?st) k = map_of (overrides st) k" if "k \<noteq> key" for k
      using that m [of k] st1(3) by (auto simp: ev(3) AList.delete_conv' map_add_def split: option.splits)
    ultimately show ?thesis using False none by (intro exI [of _ ?st]) (auto simp: map_add_def)
  qed
qed

theorem overlay_bounded_witness:
  "\<exists>st'. setReadOverlay \<lparr>maxBytes = Some 3, cacheRead = \<lambda>_. True, readAttempts = 1\<rparr> ''./a//b'' [7, 8]
       \<lparr>overrides = [(''x'', [1, 2])], overrideBytes = 2\<rparr> = Some (Inr st') \<and> map_of (overrides st') ''a/b'' = Some [7, 8]"
proof -
  let ?o = "\<lparr>maxBytes = Some 3, cacheRead = \<lambda>_. True, readAttempts = 1\<rparr>"
  have "overlay_ok ?o \<lparr>overrides = [(''x'', [1, 2])], overrideBytes = 2\<rparr>"
    using adapterPath_proper [of "''x''"] by (simp add: overlay_ok_def over_limit_def adapter_key_def proper_path_def)
  moreover have "adapterPath ''./a//b'' = Inr ''a/b''"
    by (simp add: adapterPath_def posix_normalize_def js_replaceChar_def js_startsWith_def js_endsWith_def normalize_segment_def)
  ultimately show ?thesis using overlay_bounded [of ?o _ "''./a//b''" "''a/b''" "[7, 8]"] by (fastforce simp: over_limit_def)
qed

end
