(* ===== verification/DashboardImpact.thy ===== *)
theory DashboardImpact
  imports Json
begin

text \<open>
  \<open>computeDashboardImpact\<close> of \<^verbatim>\<open>src/server/dashboardEvents.ts\<close>: which accounts and vaults a commit of the metadata store has changed
  for their owners' dashboards. The rows of the store are JSON objects with their keys in order, so that two rows have the same
  \<open>JSON.stringify\<close> exactly when they are equal; a \<open>Map\<close> is the list of its entries in insertion order. A field of a row that the
  schema makes a string reads as one.
\<close>

section \<open>Rows\<close>

definition field :: "json \<Rightarrow> string \<Rightarrow> string" where
  "field row k = (case jprop row k of Some (JStr s) \<Rightarrow> s | _ \<Rightarrow> [])"

record metadata =
  users :: "json list"
  sessions :: "json list"
  vaults :: "json list"
  devices :: "json list"
  conflicts_rows :: "json list"
  diagnostic_events :: "json list"
  event_seq_by_vault :: "(string \<times> json) list"
  directory_state_by_vault :: "(string \<times> json) list"
  deletion_jobs :: "json list"
  deletion_receipts :: "json list"
  device_removal_jobs :: "json list"

text \<open>\<open>new Map(rows.map((row) => [key(row), row]))\<close>.\<close>

definition map_rows :: "('a \<Rightarrow> string) \<Rightarrow> 'a list \<Rightarrow> (string \<times> 'a) list" where
  "map_rows key rows = fold (\<lambda>row m. AList.update (key row) row m) rows []"

definition DEVICE_VISIBLE_FIELDS :: "string list" where
  "DEVICE_VISIBLE_FIELDS = [''device_name'', ''status'', ''revoked_at'', ''device_ref_head'', ''last_applied_main'', ''local_status_label'',
     ''local_error_code'', ''local_queue_status'', ''local_main'', ''local_head'', ''plugin_version'', ''onboarding_status'']"

text \<open>A list of fields as \<open>JSON.stringify\<close> prints it: an undefined element is \<open>null\<close>.\<close>

definition fields_signature :: "string list \<Rightarrow> json \<Rightarrow> json list" where
  "fields_signature ks row = map (\<lambda>k. case jprop row k of None \<Rightarrow> JNull | Some v \<Rightarrow> v) ks"

definition deviceSignature :: "json \<Rightarrow> json list" where
  "deviceSignature device = fields_signature DEVICE_VISIBLE_FIELDS device"

definition vaultAccountSignature :: "json \<Rightarrow> json list" where
  "vaultAccountSignature vault = fields_signature [''owner_user_id'', ''display_name'', ''status''] vault"

text \<open>The replacer drops \<open>updated_at\<close> at every depth.\<close>

fun without_updated_at :: "json \<Rightarrow> json" where
  "without_updated_at (JArr xs) = JArr (map without_updated_at xs)"
| "without_updated_at (JObj kvs) = JObj (map (\<lambda>(k, v). (k, without_updated_at v)) (filter (\<lambda>(k, v). k \<noteq> ''updated_at'') kvs))"
| "without_updated_at j = j"

definition vaultSignature :: "json \<Rightarrow> json" where
  "vaultSignature vault = without_updated_at vault"

definition removalSignature :: "json \<Rightarrow> json list" where
  "removalSignature job = fields_signature [''vault_id'', ''state'', ''retryable''] job"

definition userSignature :: "json \<Rightarrow> json list" where
  "userSignature user = fields_signature [''username'', ''display_name'', ''is_admin'', ''disabled''] user"

section \<open>Impact\<close>

record owner_impact =
  oi_account :: bool
  oi_vaults :: "string list"

record impact =
  im_owners :: "(string \<times> owner_impact) list"
  im_sessions :: "string list"
  im_users :: "string list"

definition set_add :: "'a \<Rightarrow> 'a list \<Rightarrow> 'a list" where
  "set_add x xs = (if x \<in> set xs then xs else xs @ [x])"

definition owner_entry :: "string \<Rightarrow> impact \<Rightarrow> owner_impact" where
  "owner_entry userId im = (case map_of (im_owners im) userId of Some e \<Rightarrow> e | None \<Rightarrow> \<lparr>oi_account = False, oi_vaults = []\<rparr>)"

definition markVault :: "string \<Rightarrow> string \<Rightarrow> bool \<Rightarrow> impact \<Rightarrow> impact" where
  "markVault userId vaultId account im =
     (let entry = owner_entry userId im
      in im\<lparr>im_owners := AList.update userId (entry\<lparr>oi_vaults := set_add vaultId (oi_vaults entry), oi_account := oi_account entry \<or> account\<rparr>) (im_owners im)\<rparr>)"

definition markAccount :: "string \<Rightarrow> impact \<Rightarrow> impact" where
  "markAccount userId im = im\<lparr>im_owners := AList.update userId ((owner_entry userId im)\<lparr>oi_account := True\<rparr>) (im_owners im)\<rparr>"

definition ownerOf :: "(string \<times> json) list \<Rightarrow> (string \<times> json) list \<Rightarrow> string \<Rightarrow> string option" where
  "ownerOf currentVaults previousVaults vaultId =
     (case map_of currentVaults vaultId of
        Some v \<Rightarrow> Some (field v ''owner_user_id'')
      | None \<Rightarrow> map_option (\<lambda>v. field v ''owner_user_id'') (map_of previousVaults vaultId))"

definition markOwned :: "(string \<times> json) list \<Rightarrow> (string \<times> json) list \<Rightarrow> string \<Rightarrow> impact \<Rightarrow> impact" where
  "markOwned currentVaults previousVaults vaultId im =
     (case ownerOf currentVaults previousVaults vaultId of None \<Rightarrow> im | Some u \<Rightarrow> markVault u vaultId False im)"

definition compare_vault :: "(string \<times> json) list \<Rightarrow> string \<times> json \<Rightarrow> impact \<Rightarrow> impact" where
  "compare_vault previousVaults entry im =
     (case entry of (vaultId, vault) \<Rightarrow>
       (case map_of previousVaults vaultId of
          None \<Rightarrow> markVault (field vault ''owner_user_id'') vaultId True im
        | Some before \<Rightarrow>
            if vaultSignature before = vaultSignature vault then im
            else
              let im1 = markVault (field vault ''owner_user_id'') vaultId (vaultAccountSignature before \<noteq> vaultAccountSignature vault) im
              in if field before ''owner_user_id'' \<noteq> field vault ''owner_user_id''
                 then markVault (field before ''owner_user_id'') vaultId True im1 else im1))"

definition compareVaults :: "(string \<times> json) list \<Rightarrow> (string \<times> json) list \<Rightarrow> impact \<Rightarrow> impact" where
  "compareVaults previousVaults currentVaults im =
     fold (\<lambda>(vaultId, vault) im. if map_of currentVaults vaultId = None then markVault (field vault ''owner_user_id'') vaultId True im else im)
       previousVaults (fold (compare_vault previousVaults) currentVaults im)"

text \<open>The pattern of devices, removal jobs and conflicts: a row that is new, changed or gone marks its vault.\<close>

definition compareRows :: "(json \<Rightarrow> 's) \<Rightarrow> (string \<Rightarrow> impact \<Rightarrow> impact) \<Rightarrow> (string \<times> json) list \<Rightarrow> (string \<times> json) list \<Rightarrow> impact \<Rightarrow> impact" where
  "compareRows sig markOwned' previousRows currentRows im =
     fold (\<lambda>(k, row) im. if map_of currentRows k = None then markOwned' (field row ''vault_id'') im else im) previousRows
       (fold (\<lambda>(k, row) im.
          (case map_of previousRows k of
             None \<Rightarrow> markOwned' (field row ''vault_id'') im
           | Some before \<Rightarrow> if sig before \<noteq> sig row then markOwned' (field row ''vault_id'') im else im)) currentRows im)"

definition compareByVault :: "(string \<Rightarrow> impact \<Rightarrow> impact) \<Rightarrow> (string \<times> json) list \<Rightarrow> (string \<times> json) list \<Rightarrow> impact \<Rightarrow> impact" where
  "compareByVault markOwned' previous current im =
     fold (\<lambda>v im. if map_of previous v \<noteq> map_of current v then markOwned' v im else im) (uniq (map fst previous @ map fst current)) im"

definition deletion_records :: "metadata \<Rightarrow> (string \<times> json) list" where
  "deletion_records db =
     fold (\<lambda>r m. AList.update (''receipt:'' @ field r ''vault_id'') r m) (deletion_receipts db)
       (fold (\<lambda>j m. AList.update (''job:'' @ field j ''vault_id'') j m) (deletion_jobs db) [])"

definition compareDeletions :: "metadata \<Rightarrow> metadata \<Rightarrow> impact \<Rightarrow> impact" where
  "compareDeletions previous current im =
     (let before = deletion_records previous; after = deletion_records current;
          mark = (\<lambda>r. markVault (field r ''owner_user_id'') (field r ''vault_id'') True)
      in fold (\<lambda>(k, r) im. if map_of after k = None then mark r im else im) before
           (fold (\<lambda>(k, r) im. if map_of before k \<noteq> Some r then mark r im else im) after im))"

text \<open>The diagnostics of an owner and a vault, under the two ids separated by a NUL: how many there are and the last one.\<close>

definition diagnostic_key :: "json \<Rightarrow> string" where
  "diagnostic_key e = field e ''owner_user_id'' @ [CHR 0x00] @ field e ''vault_id''"

definition summarize :: "metadata \<Rightarrow> (string \<times> (nat \<times> string)) list" where
  "summarize db =
     fold (\<lambda>e g.
        let key = diagnostic_key e;
            entry = (case map_of g key of Some x \<Rightarrow> x | None \<Rightarrow> (0, []))
        in AList.update key (fst entry + 1, field e ''event_id'') g) (diagnostic_events db) []"

definition compareDiagnostics :: "metadata \<Rightarrow> metadata \<Rightarrow> impact \<Rightarrow> impact" where
  "compareDiagnostics previous current im =
     (let before = summarize previous; after = summarize current
      in fold (\<lambda>key im.
           if map_of before key = map_of after key then im
           else
             let parts = js_split CHR 0x00 key; userId = hd parts; vaultId = (if length parts > 1 then parts ! 1 else []);
                 im1 = markAccount userId im
             in if vaultId \<noteq> [] then markVault userId vaultId True im1 else im1)
         (uniq (map fst before @ map fst after)) im)"

definition compareUsers :: "(string \<times> json) list \<Rightarrow> (string \<times> json) list \<Rightarrow> impact \<Rightarrow> impact" where
  "compareUsers previousUsers currentUsers im =
     fold (\<lambda>(u, _) im. if map_of currentUsers u = None then im\<lparr>im_users := set_add u (im_users im)\<rparr> else im) previousUsers
       (fold (\<lambda>(u, user) im.
          (case map_of previousUsers u of
             Some before \<Rightarrow>
               if userSignature before \<noteq> userSignature user
               then let im1 = markAccount u im
                    in if jprop before ''disabled'' \<noteq> jprop user ''disabled'' then im1\<lparr>im_users := set_add u (im_users im1)\<rparr> else im1
               else im
           | None \<Rightarrow> im)) currentUsers im)"

definition sessionState :: "string list \<Rightarrow> metadata \<Rightarrow> (string \<times> string) list" where
  "sessionState watched db =
     fold (\<lambda>s m. if field s ''session_id'' \<in> set watched
       then AList.update (field s ''session_id'') (field s ''user_id'' @ ''|'' @ field s ''revoked_at'' @ ''|'' @ field s ''expires_at'') m else m) (sessions db) []"

definition compareSessions :: "string list \<Rightarrow> metadata \<Rightarrow> metadata \<Rightarrow> impact \<Rightarrow> impact" where
  "compareSessions watched previous current im =
     (let before = sessionState watched previous; after = sessionState watched current
      in fold (\<lambda>s im. if map_of before s \<noteq> map_of after s then im\<lparr>im_sessions := set_add s (im_sessions im)\<rparr> else im) watched im)"

definition computeDashboardImpact :: "metadata \<Rightarrow> metadata \<Rightarrow> string list \<Rightarrow> impact" where
  "computeDashboardImpact previous current watched =
     (let byId = (\<lambda>k. map_rows (\<lambda>r. field r k));
          pv = byId ''vault_id'' (vaults previous); cv = byId ''vault_id'' (vaults current);
          owned = markOwned cv pv;
          im0 = \<lparr>im_owners = [], im_sessions = [], im_users = []\<rparr>;
          im1 = compareVaults pv cv im0;
          im2 = compareRows deviceSignature owned (byId ''device_id'' (devices previous)) (byId ''device_id'' (devices current)) im1;
          im3 = compareRows removalSignature owned (byId ''device_id'' (device_removal_jobs previous)) (byId ''device_id'' (device_removal_jobs current)) im2;
          im4 = compareRows id owned (byId ''conflict_id'' (conflicts_rows previous)) (byId ''conflict_id'' (conflicts_rows current)) im3;
          im5 = compareByVault owned (event_seq_by_vault previous) (event_seq_by_vault current) im4;
          im6 = compareByVault owned (directory_state_by_vault previous) (directory_state_by_vault current) im5;
          im7 = compareDeletions previous current im6;
          im8 = compareDiagnostics previous current im7;
          im9 = compareUsers (byId ''user_id'' (users previous)) (byId ''user_id'' (users current)) im8
      in compareSessions watched previous current im9)"

section \<open>What is marked\<close>

definition marked_vaults :: "impact \<Rightarrow> (string \<times> string) set" where
  "marked_vaults im = {(u, v). \<exists>e. map_of (im_owners im) u = Some e \<and> v \<in> set (oi_vaults e)}"

lemma set_set_add [simp]: "set (set_add x xs) = insert x (set xs)"
  by (auto simp: set_add_def)

lemma marked_markVault [simp]: "marked_vaults (markVault u v a im) = insert (u, v) (marked_vaults im)"
  by (auto simp: marked_vaults_def markVault_def owner_entry_def AList.update_conv' Let_def split: if_splits option.splits)

lemma marked_markAccount [simp]: "marked_vaults (markAccount u im) = marked_vaults im"
  by (auto simp: marked_vaults_def markAccount_def owner_entry_def AList.update_conv' split: if_splits option.splits)

lemma marked_fold:
  assumes "\<And>x im. x \<in> set xs \<Longrightarrow> marked_vaults (f x im) = marked_vaults im \<union> g x"
  shows "marked_vaults (fold f xs im) = marked_vaults im \<union> (\<Union>x\<in>set xs. g x)"
  using assms by (induction xs arbitrary: im) (auto simp: Un_assoc)

lemma marked_id_fold: "(\<And>x im. x \<in> set xs \<Longrightarrow> marked_vaults (f x im) = marked_vaults im) \<Longrightarrow> marked_vaults (fold f xs im) = marked_vaults im"
  using marked_fold [of xs f "\<lambda>_. {}" im] by simp

section \<open>Maps of rows\<close>

lemma distinct_fold_update: "distinct (map fst m) \<Longrightarrow> distinct (map fst (fold (\<lambda>r. AList.update (k r) (f r)) rows m))"
  by (induction rows arbitrary: m) (auto simp: AList.distinct_update)

lemma distinct_map_rows: "distinct (map fst (map_rows key rows))"
  using distinct_fold_update [of "[]" key "\<lambda>r. r" rows] by (simp add: map_rows_def)

text \<open>The keys whose rows differ between two maps, and the row that tells the vault: the present one, or the one that is gone.\<close>

definition changed :: "('r \<Rightarrow> 's) \<Rightarrow> (string \<times> 'r) list \<Rightarrow> (string \<times> 'r) list \<Rightarrow> string set" where
  "changed sig m m' = {k. map_option sig (map_of m k) \<noteq> map_option sig (map_of m' k)}"

definition latest :: "(string \<times> 'r) list \<Rightarrow> (string \<times> 'r) list \<Rightarrow> string \<Rightarrow> 'r option" where
  "latest m m' k = (case map_of m' k of Some r \<Rightarrow> Some r | None \<Rightarrow> map_of m k)"

lemma changed_in: "k \<in> changed sig m m' \<Longrightarrow> map_of m k \<noteq> None \<or> map_of m' k \<noteq> None"
  by (auto simp: changed_def)

text \<open>The scans of the source, over the present rows and then over those that are gone, see every changed key once.\<close>

lemma scan_changed:
  assumes "distinct (map fst p)" and "distinct (map fst c)"
  shows "(\<Union>(k, r)\<in>set c. if map_option sig (map_of p k) \<noteq> Some (sig r) then H r else {}) \<union> (\<Union>(k, r)\<in>set p. if map_of c k = None then H r else {}) =
    (\<Union>k\<in>changed sig p c. H (the (latest p c k)))" (is "?L = ?R")
proof (intro set_eqI iffI)
  fix y assume "y \<in> ?R"
  then obtain k where k: "k \<in> changed sig p c" "y \<in> H (the (latest p c k))" by blast
  show "y \<in> ?L"
  proof (cases "map_of c k")
    case (Some r)
    then show ?thesis using k map_of_SomeD [OF Some] by (auto simp: changed_def latest_def intro!: bexI [of _ "(k, r)"])
  next
    case None
    then obtain r where r: "map_of p k = Some r" using changed_in [OF k(1)] by blast
    then show ?thesis using k None map_of_SomeD [OF r] by (auto simp: latest_def intro!: bexI [of _ "(k, r)"])
  qed
next
  fix y assume "y \<in> ?L"
  then consider k r where "map_of c k = Some r" "map_option sig (map_of p k) \<noteq> Some (sig r)" "y \<in> H r"
    | k r where "map_of p k = Some r" "map_of c k = None" "y \<in> H r"
    using assms by (auto split: if_splits)
  then show "y \<in> ?R"
  proof cases
    case (1 k r)
    then show ?thesis by (intro UN_I [of k]) (auto simp: changed_def latest_def)
  next
    case (2 k r)
    then show ?thesis by (intro UN_I [of k]) (auto simp: changed_def latest_def)
  qed
qed

lemma marked_compareRows:
  assumes "distinct (map fst p)" and "distinct (map fst c)" and "\<And>v im. marked_vaults (mk v im) = marked_vaults im \<union> h v"
  shows "marked_vaults (compareRows sig mk p c im) = marked_vaults im \<union> (\<Union>k\<in>changed sig p c. h (field (the (latest p c k)) ''vault_id''))"
proof -
  let ?H = "\<lambda>r. h (field r ''vault_id'')"
  have "marked_vaults (fold (\<lambda>(k, row) im. case map_of p k of None \<Rightarrow> mk (field row ''vault_id'') im
      | Some before \<Rightarrow> if sig before \<noteq> sig row then mk (field row ''vault_id'') im else im) c im) =
      marked_vaults im \<union> (\<Union>(k, r)\<in>set c. if map_option sig (map_of p k) \<noteq> Some (sig r) then ?H r else {})" for im
    by (rule marked_fold) (auto simp: assms(3) split: option.splits if_splits)
  moreover have "marked_vaults (fold (\<lambda>(k, row) im. if map_of c k = None then mk (field row ''vault_id'') im else im) p im) =
      marked_vaults im \<union> (\<Union>(k, r)\<in>set p. if map_of c k = None then ?H r else {})" for im
    by (rule marked_fold) (auto simp: assms(3) split: if_splits)
  ultimately show ?thesis using scan_changed [OF assms(1,2), of sig ?H] by (simp only: compareRows_def Un_assoc)
qed

lemma marked_markOwned: "marked_vaults (markOwned cv pv v im) = marked_vaults im \<union> {(u, v) | u. ownerOf cv pv v = Some u}"
  by (auto simp: markOwned_def split: option.splits)

lemma marked_compareByVault:
  assumes "\<And>v im. marked_vaults (mk v im) = marked_vaults im \<union> h v"
  shows "marked_vaults (compareByVault mk p c im) = marked_vaults im \<union> (\<Union>k\<in>changed id p c. h k)"
proof -
  have "marked_vaults (compareByVault mk p c im) =
      marked_vaults im \<union> (\<Union>k\<in>set (uniq (map fst p @ map fst c)). if map_of p k \<noteq> map_of c k then h k else {})"
    unfolding compareByVault_def by (rule marked_fold) (simp add: assms)
  moreover have "k \<in> fst ` set p \<union> fst ` set c" if "map_of p k \<noteq> map_of c k" for k
    using that by (metis UnCI map_of_eq_None_iff)
  ultimately show ?thesis by (auto simp: changed_def option.map_id split: if_splits)
qed

lemma marked_compareVaults:
  assumes "distinct (map fst p)" and "distinct (map fst c)"
  shows "marked_vaults (compareVaults p c im) = marked_vaults im \<union>
    {(u, v). v \<in> changed vaultSignature p c \<and> (\<exists>row. (map_of p v = Some row \<or> map_of c v = Some row) \<and> u = field row ''owner_user_id'')}"
    (is "_ = _ \<union> ?S")
proof -
  let ?o = "\<lambda>row. field row ''owner_user_id''"
  let ?f = "\<lambda>(v, row). case map_of p v of None \<Rightarrow> {(?o row, v)} | Some b \<Rightarrow> if vaultSignature b = vaultSignature row then {} else {(?o row, v), (?o b, v)}"
  let ?g = "\<lambda>(v, row). if map_of c v = None then {(?o row, v)} else {}"
  have "marked_vaults (fold (compare_vault p) c im) = marked_vaults im \<union> (\<Union>x\<in>set c. ?f x)"
    by (rule marked_fold) (auto simp: compare_vault_def Let_def split: option.splits if_splits)
  moreover have "marked_vaults (fold (\<lambda>(v, row) im. if map_of c v = None then markVault (?o row) v True im else im) p im) =
      marked_vaults im \<union> (\<Union>x\<in>set p. ?g x)" for im
    by (rule marked_fold) (auto split: if_splits)
  ultimately have "marked_vaults (compareVaults p c im) = marked_vaults im \<union> ((\<Union>x\<in>set c. ?f x) \<union> (\<Union>x\<in>set p. ?g x))"
    by (simp add: compareVaults_def Un_assoc)
  also have "(\<Union>x\<in>set c. ?f x) \<union> (\<Union>x\<in>set p. ?g x) = ?S"
  proof (intro set_eqI iffI)
    fix y assume "y \<in> ?S"
    then obtain v row where y: "y = (?o row, v)" "v \<in> changed vaultSignature p c" "map_of p v = Some row \<or> map_of c v = Some row" by blast
    show "y \<in> (\<Union>x\<in>set c. ?f x) \<union> (\<Union>x\<in>set p. ?g x)"
    proof (cases "map_of c v")
      case (Some r)
      then have "y \<in> ?f (v, r)" using y by (auto simp: changed_def split: option.splits)
      then show ?thesis using map_of_SomeD [OF Some] by blast
    next
      case None
      then have "y \<in> ?g (v, row)" "map_of p v = Some row" using y by auto
      then show ?thesis by (blast dest: map_of_SomeD)
    qed
  next
    fix y assume "y \<in> (\<Union>x\<in>set c. ?f x) \<union> (\<Union>x\<in>set p. ?g x)"
    then consider v r where "(v, r) \<in> set c" "y \<in> ?f (v, r)" | v r where "(v, r) \<in> set p" "y \<in> ?g (v, r)" by fast
    then show "y \<in> ?S"
    proof cases
      case 1
      then have "map_of c v = Some r" using assms(2) by simp
      then show ?thesis using 1(2) by (auto simp: changed_def split: option.splits if_splits)
    next
      case 2
      then have "map_of p v = Some r" using assms(1) by simp
      then show ?thesis using 2(2) by (auto simp: changed_def split: if_splits)
    qed
  qed
  finally show ?thesis .
qed

lemma distinct_deletion_records: "distinct (map fst (deletion_records db))"
  unfolding deletion_records_def by (intro distinct_fold_update) simp

lemma marked_compareDeletions:
  "marked_vaults (compareDeletions p c im) = marked_vaults im \<union>
    (\<Union>k\<in>changed id (deletion_records p) (deletion_records c). let r = the (latest (deletion_records p) (deletion_records c) k)
      in {(field r ''owner_user_id'', field r ''vault_id'')})"
proof -
  define b where "b = deletion_records p"
  define a where "a = deletion_records c"
  let ?o = "\<lambda>r. {(field r ''owner_user_id'', field r ''vault_id'')}"
  let ?mk = "\<lambda>r. markVault (field r ''owner_user_id'') (field r ''vault_id'') True"
  have "marked_vaults (fold (\<lambda>(k, r) im. if map_of b k \<noteq> Some r then ?mk r im else im) a im) =
      marked_vaults im \<union> (\<Union>(k, r)\<in>set a. if map_option id (map_of b k) \<noteq> Some (id r) then ?o r else {})" for im
    by (rule marked_fold) (auto simp: option.map_id split: if_splits)
  moreover have "marked_vaults (fold (\<lambda>(k, r) im. if map_of a k = None then ?mk r im else im) b im) =
      marked_vaults im \<union> (\<Union>(k, r)\<in>set b. if map_of a k = None then ?o r else {})" for im
    by (rule marked_fold) (auto split: if_splits)
  ultimately show ?thesis using scan_changed [of b a id ?o]
    by (simp only: compareDeletions_def Let_def Un_assoc a_def b_def distinct_deletion_records)
qed

lemma marked_compareDiagnostics:
  "marked_vaults (compareDiagnostics p c im) = marked_vaults im \<union>
    (\<Union>k\<in>changed id (summarize p) (summarize c). {(u, v). \<exists>rest. js_split CHR 0x00 k = u # v # rest \<and> v \<noteq> []})"
proof -
  define b where "b = summarize p"
  define a where "a = summarize c"
  let ?s = "\<lambda>k. {(u, v). \<exists>rest. js_split CHR 0x00 k = u # v # rest \<and> v \<noteq> []}"
  have parts: "?s k = (if length (js_split CHR 0x00 k) > 1 \<and> js_split CHR 0x00 k ! 1 \<noteq> [] then {(hd (js_split CHR 0x00 k), js_split CHR 0x00 k ! 1)} else {})" for k
    by (cases "js_split CHR 0x00 k"; cases "tl (js_split CHR 0x00 k)") auto
  have "marked_vaults (compareDiagnostics p c im) = marked_vaults im \<union> (\<Union>k\<in>set (uniq (map fst b @ map fst a)). if map_of b k \<noteq> map_of a k then ?s k else {})"
    unfolding compareDiagnostics_def Let_def a_def [symmetric] b_def [symmetric] parts by (rule marked_fold) auto
  also have "(\<Union>k\<in>set (uniq (map fst b @ map fst a)). if map_of b k \<noteq> map_of a k then ?s k else {}) = (\<Union>k\<in>changed id b a. ?s k)"
  proof -
    have "{k \<in> set (uniq (map fst b @ map fst a)). map_of b k \<noteq> map_of a k} = changed id b a"
      using changed_in [of _ id b a] by (auto simp: map_of_eq_None_iff changed_def option.map_id)
    then have "(\<Union>k\<in>changed id b a. ?s k) = (\<Union>k\<in>{k \<in> set (uniq (map fst b @ map fst a)). map_of b k \<noteq> map_of a k}. ?s k)" by simp
    also have "\<dots> = (\<Union>k\<in>set (uniq (map fst b @ map fst a)). if map_of b k \<noteq> map_of a k then ?s k else {})" by force
    finally show ?thesis by simp
  qed
  finally show ?thesis by (simp only: a_def b_def)
qed

lemma marked_more [simp]: "marked_vaults (im\<lparr>im_users := xs\<rparr>) = marked_vaults im" "marked_vaults (im\<lparr>im_sessions := xs\<rparr>) = marked_vaults im"
  by (simp_all add: marked_vaults_def)

lemma marked_compareUsers: "marked_vaults (compareUsers p c im) = marked_vaults im"
  unfolding compareUsers_def by (subst marked_id_fold, (auto split: prod.splits; fail), rule marked_id_fold) (auto simp: Let_def split: option.splits if_splits)

lemma marked_compareSessions: "marked_vaults (compareSessions w p c im) = marked_vaults im"
  unfolding compareSessions_def Let_def by (rule marked_id_fold) auto

section \<open>Owner-visible changes\<close>

abbreviation by_id :: "string \<Rightarrow> json list \<Rightarrow> (string \<times> json) list" where
  "by_id k \<equiv> map_rows (\<lambda>r. field r k)"

text \<open>The vaults something in which has changed: a device, a device removal, a conflict, the event sequence, the directories.\<close>

definition touched_by_rows :: "metadata \<Rightarrow> metadata \<Rightarrow> string set" where
  "touched_by_rows p c =
     (\<lambda>k. field (the (latest (by_id ''device_id'' (devices p)) (by_id ''device_id'' (devices c)) k)) ''vault_id'') `
       changed deviceSignature (by_id ''device_id'' (devices p)) (by_id ''device_id'' (devices c)) \<union>
     (\<lambda>k. field (the (latest (by_id ''device_id'' (device_removal_jobs p)) (by_id ''device_id'' (device_removal_jobs c)) k)) ''vault_id'') `
       changed removalSignature (by_id ''device_id'' (device_removal_jobs p)) (by_id ''device_id'' (device_removal_jobs c)) \<union>
     (\<lambda>k. field (the (latest (by_id ''conflict_id'' (conflicts_rows p)) (by_id ''conflict_id'' (conflicts_rows c)) k)) ''vault_id'') `
       changed id (by_id ''conflict_id'' (conflicts_rows p)) (by_id ''conflict_id'' (conflicts_rows c)) \<union>
     changed id (event_seq_by_vault p) (event_seq_by_vault c) \<union>
     changed id (directory_state_by_vault p) (directory_state_by_vault c)"

text \<open>Whose dashboard a change of a vault concerns.\<close>

definition concerns :: "metadata \<Rightarrow> metadata \<Rightarrow> string \<Rightarrow> string \<Rightarrow> bool" where
  "concerns p c u v \<longleftrightarrow>
     (v \<in> changed vaultSignature (by_id ''vault_id'' (vaults p)) (by_id ''vault_id'' (vaults c)) \<and>
       (\<exists>row. (map_of (by_id ''vault_id'' (vaults p)) v = Some row \<or> map_of (by_id ''vault_id'' (vaults c)) v = Some row) \<and> u = field row ''owner_user_id'')) \<or>
     (v \<in> touched_by_rows p c \<and> ownerOf (by_id ''vault_id'' (vaults c)) (by_id ''vault_id'' (vaults p)) v = Some u) \<or>
     (\<exists>k\<in>changed id (deletion_records p) (deletion_records c). let r = the (latest (deletion_records p) (deletion_records c) k)
       in u = field r ''owner_user_id'' \<and> v = field r ''vault_id'') \<or>
     (\<exists>k\<in>changed id (summarize p) (summarize c). \<exists>rest. js_split CHR 0x00 k = u # v # rest \<and> v \<noteq> [])"

lemma impact_marked:
  "(u, v) \<in> marked_vaults (computeDashboardImpact p c watched) \<longleftrightarrow> concerns p c u v"
proof -
  have own: "(u, v) \<in> (\<Union>k\<in>S. {(w, g k) | w. own (g k) = Some w}) \<longleftrightarrow> v \<in> g ` S \<and> own v = Some u" for S and g :: "string \<Rightarrow> string" and own by auto
  have own_id: "(u, v) \<in> (\<Union>k\<in>S. {(w, k) | w. own k = Some w}) \<longleftrightarrow> v \<in> S \<and> own v = Some u" for S and own :: "string \<Rightarrow> string option" by auto
  have e: "marked_vaults \<lparr>im_owners = [], im_sessions = [], im_users = []\<rparr> = {}" by (simp add: marked_vaults_def)
  note m = marked_compareRows [OF distinct_map_rows distinct_map_rows marked_markOwned] marked_compareByVault [OF marked_markOwned]
    marked_compareVaults [OF distinct_map_rows distinct_map_rows] marked_compareDeletions marked_compareDiagnostics marked_compareUsers marked_compareSessions
  show ?thesis unfolding computeDashboardImpact_def Let_def m e concerns_def touched_by_rows_def Un_iff own own_id by auto
qed

text \<open>C11. The vaults a commit marks for an account are exactly those whose change concerns it: vaults it owns, or owned before,
  that changed or in which something visible changed, its deletions and its diagnostics. No change is missed and no account is
  told about a vault of another.\<close>

theorem impact_vaults:
  "(u, v) \<in> marked_vaults (computeDashboardImpact p c watched) \<longleftrightarrow> concerns p c u v"
  by (rule impact_marked)

text \<open>Nothing an owner's dashboard or an open stream depends on differs. Everything else may: the time a session or a device was
  last seen, the time a vault was updated, sync operations, tokens, the audit log.\<close>

definition same_visible :: "string list \<Rightarrow> metadata \<Rightarrow> metadata \<Rightarrow> bool" where
  "same_visible watched p c \<longleftrightarrow>
     changed vaultSignature (by_id ''vault_id'' (vaults p)) (by_id ''vault_id'' (vaults c)) = {} \<and>
     changed deviceSignature (by_id ''device_id'' (devices p)) (by_id ''device_id'' (devices c)) = {} \<and>
     changed removalSignature (by_id ''device_id'' (device_removal_jobs p)) (by_id ''device_id'' (device_removal_jobs c)) = {} \<and>
     changed id (by_id ''conflict_id'' (conflicts_rows p)) (by_id ''conflict_id'' (conflicts_rows c)) = {} \<and>
     changed id (event_seq_by_vault p) (event_seq_by_vault c) = {} \<and>
     changed id (directory_state_by_vault p) (directory_state_by_vault c) = {} \<and>
     changed id (deletion_records p) (deletion_records c) = {} \<and>
     changed id (summarize p) (summarize c) = {} \<and>
     changed userSignature (by_id ''user_id'' (users p)) (by_id ''user_id'' (users c)) = {} \<and>
     changed id (sessionState watched p) (sessionState watched c) = {}"

lemma fold_unchanged: "(\<And>x im. x \<in> set xs \<Longrightarrow> f x im = im) \<Longrightarrow> fold f xs im = im"
  by (induction xs arbitrary: im) auto

lemma unchanged_current:
  assumes "changed sig p c = {}" and "map_of c k = Some r"
  shows "\<exists>b. map_of p k = Some b \<and> sig b = sig r"
proof -
  have "map_option sig (map_of p k) = map_option sig (map_of c k)" using assms(1) unfolding changed_def by blast
  then show ?thesis using assms(2) by (cases "map_of p k") auto
qed

lemma unchanged_present: "changed sig p c = {} \<Longrightarrow> map_of p k = Some b \<Longrightarrow> map_of c k \<noteq> None"
proof -
  assume "changed sig p c = {}" and "map_of p k = Some b"
  then have "map_option sig (map_of p k) = map_option sig (map_of c k)" unfolding changed_def by blast
  then show ?thesis using \<open>map_of p k = Some b\<close> by (cases "map_of c k") auto
qed

lemma unchanged_id: "changed id p c = {} \<Longrightarrow> map_of p k = map_of c k"
  by (auto simp: changed_def option.map_id)

lemma compareRows_quiet:
  assumes "distinct (map fst p)" and "distinct (map fst c)" and "changed sig p c = {}"
  shows "compareRows sig mk p c im = im"
proof -
  have "fold (\<lambda>(k, row) im. case map_of p k of None \<Rightarrow> mk (field row ''vault_id'') im
      | Some before \<Rightarrow> if sig before \<noteq> sig row then mk (field row ''vault_id'') im else im) c im = im"
    by (rule fold_unchanged) (use assms(2) unchanged_current [OF assms(3)] in \<open>fastforce simp: map_of_is_SomeI\<close>)
  moreover have "fold (\<lambda>(k, row) im. if map_of c k = None then mk (field row ''vault_id'') im else im) p im = im"
    by (rule fold_unchanged) (use assms(1) unchanged_present [OF assms(3)] in \<open>fastforce simp: map_of_is_SomeI\<close>)
  ultimately show ?thesis by (simp only: compareRows_def)
qed

lemma compareVaults_quiet:
  assumes "distinct (map fst p)" and "distinct (map fst c)" and "changed vaultSignature p c = {}"
  shows "compareVaults p c im = im"
proof -
  have "fold (compare_vault p) c im = im"
    by (rule fold_unchanged) (use assms(2) unchanged_current [OF assms(3)] in \<open>fastforce simp: map_of_is_SomeI compare_vault_def\<close>)
  moreover have "fold (\<lambda>(k, row) im. if map_of c k = None then markVault (field row ''owner_user_id'') k True im else im) p im = im"
    by (rule fold_unchanged) (use assms(1) unchanged_present [OF assms(3)] in \<open>fastforce simp: map_of_is_SomeI\<close>)
  ultimately show ?thesis by (simp only: compareVaults_def)
qed

lemma compareDeletions_quiet:
  assumes "changed id (deletion_records p) (deletion_records c) = {}"
  shows "compareDeletions p c im = im"
proof -
  note d = distinct_deletion_records and s = unchanged_id [OF assms]
  have "fold (\<lambda>(k, r) im. if map_of (deletion_records p) k \<noteq> Some r then g r im else im) (deletion_records c) im = im" for g
    by (rule fold_unchanged) (use s d in \<open>auto simp: map_of_is_SomeI\<close>)
  moreover have "fold (\<lambda>(k, r) im. if map_of (deletion_records c) k = None then g r im else im) (deletion_records p) im = im" for g
    by (rule fold_unchanged) (use s [symmetric] d in \<open>auto simp: map_of_is_SomeI\<close>)
  ultimately show ?thesis by (simp only: compareDeletions_def Let_def)
qed

lemma compareUsers_quiet:
  assumes "distinct (map fst p)" and "distinct (map fst c)" and "changed userSignature p c = {}"
  shows "compareUsers p c im = im"
proof -
  have "fold (\<lambda>(u, user) im. case map_of p u of Some before \<Rightarrow>
      if userSignature before \<noteq> userSignature user
      then let im1 = markAccount u im in if jprop before ''disabled'' \<noteq> jprop user ''disabled'' then im1\<lparr>im_users := set_add u (im_users im1)\<rparr> else im1
      else im | None \<Rightarrow> im) c im = im"
    by (rule fold_unchanged) (use assms(2) unchanged_current [OF assms(3)] in \<open>fastforce simp: map_of_is_SomeI\<close>)
  moreover have "fold (\<lambda>(u, _) im. if map_of c u = None then im\<lparr>im_users := set_add u (im_users im)\<rparr> else im) p im = im"
    by (rule fold_unchanged) (use assms(1) unchanged_present [OF assms(3)] in \<open>fastforce simp: map_of_is_SomeI\<close>)
  ultimately show ?thesis by (simp only: compareUsers_def option.case_distrib)
qed

text \<open>A commit that changes nothing visible has no impact. In particular a request that only touches the time its session
  was last seen sends nothing to the dashboard that made it, so that fetching and invalidating cannot feed each other.\<close>

theorem impact_quiet:
  assumes "same_visible watched p c"
  shows "computeDashboardImpact p c watched = \<lparr>im_owners = [], im_sessions = [], im_users = []\<rparr>"
proof -
  note v = assms [unfolded same_visible_def]
  note d = distinct_map_rows
  have by_vault: "compareByVault mk m m' im = im" if "changed id m m' = {}" for mk m m' im
    unfolding compareByVault_def by (rule fold_unchanged) (simp add: unchanged_id [OF that])
  have diag: "compareDiagnostics p c im = im" for im
    unfolding compareDiagnostics_def Let_def by (rule fold_unchanged) (use v in \<open>simp add: unchanged_id\<close>)
  have sess: "compareSessions watched p c im = im" for im
    unfolding compareSessions_def Let_def by (rule fold_unchanged) (use v in \<open>simp add: unchanged_id\<close>)
  show ?thesis unfolding computeDashboardImpact_def Let_def
    using v by (simp add: compareRows_quiet [OF d d] compareVaults_quiet [OF d d] by_vault compareDeletions_quiet diag compareUsers_quiet [OF d d] sess)
qed

theorem impact_quiet_witness:
  "let s = (\<lambda>t. JObj [(''session_id'', JStr ''s1''), (''user_id'', JStr ''u1''), (''last_seen_at'', JStr t), (''expires_at'', JStr ''9''), (''revoked_at'', JNull)]);
       v = (\<lambda>t. JObj [(''vault_id'', JStr ''v1''), (''owner_user_id'', JStr ''u1''), (''updated_at'', JStr t)]);
       db = (\<lambda>t. \<lparr>users = [], sessions = [s t], vaults = [v t], devices = [], conflicts_rows = [], diagnostic_events = [], event_seq_by_vault = [],
          directory_state_by_vault = [], deletion_jobs = [], deletion_receipts = [], device_removal_jobs = []\<rparr>)
   in computeDashboardImpact (db ''1'') (db ''2'') [''s1''] = \<lparr>im_owners = [], im_sessions = [], im_users = []\<rparr>"
  unfolding Let_def
  by (rule impact_quiet) (simp add: same_visible_def changed_def map_rows_def field_def vaultSignature_def deletion_records_def summarize_def sessionState_def)

end
