(* ===== verification/DashboardEvents.thy ===== *)
theory DashboardEvents
  imports DashboardImpact
begin

text \<open>
  The \<open>DashboardEventHub\<close> of \<^verbatim>\<open>src/server/dashboardEvents.ts\<close>: the event streams of the dashboards. A stream is named by its
  position among all that were ever attached; \<open>members\<close> is the \<open>Set\<close> of the open ones. An \<open>await\<close> of the authenticator leaves an
  entry in \<open>waiting\<close>; its answer is a step of its own, in any order, and so is the firing of a timer that is set. \<open>took\<close> says
  whether the sink took a frame, that is, \<open>write\<close> returned true and left at most \<open>maxWritableBytes\<close>. What was written to the
  sink is kept. The host of an origin, \<open>new URL(origin).host\<close>, is a parameter, \<open>None\<close> when the constructor throws.
\<close>

datatype frame = Refresh | Invalidate bool "string list" | Keep_alive

record hub_options =
  maxStreams :: nat
  maxStreamsPerAccount :: nat
  maxStreamsPerSession :: nat
  maxVaultIdsPerMessage :: nat

record estream =
  es_user :: string
  es_session :: string
  es_closed :: bool
  es_blocked :: bool
  es_flushing :: bool
  es_busy :: bool
  es_account :: bool
  es_vaults :: "string list"
  es_flushTimer :: bool
  es_heartbeatTimer :: bool
  es_stallTimer :: bool
  es_gone :: bool
  es_frames :: "frame list"

datatype auth_use = For_flush | For_heartbeat | For_commit

record hub =
  streams :: "estream list"
  members :: "nat list"
  subscribed :: bool
  hub_closed :: bool
  waiting :: "(auth_use \<times> nat) list"

datatype hub_error = Cross_origin_forbidden | Stream_unavailable | Stream_limit

definition DEFAULTS :: hub_options where
  "DEFAULTS = \<lparr>maxStreams = 128, maxStreamsPerAccount = 8, maxStreamsPerSession = 4, maxVaultIdsPerMessage = 32\<rparr>"

definition create_hub :: hub where
  "create_hub = \<lparr>streams = [], members = [], subscribed = False, hub_closed = False, waiting = []\<rparr>"

definition pending :: "estream \<Rightarrow> bool" where
  "pending s \<longleftrightarrow> es_account s \<or> es_vaults s \<noteq> []"

definition upd :: "nat \<Rightarrow> (estream \<Rightarrow> estream) \<Rightarrow> hub \<Rightarrow> hub" where
  "upd i f h = h\<lparr>streams := (streams h)[i := f (streams h ! i)]\<rparr>"

section \<open>Operations\<close>

definition assertSameOrigin :: "(string \<Rightarrow> string option) \<Rightarrow> string option \<Rightarrow> string option \<Rightarrow> string option \<Rightarrow> hub_error + unit" where
  "assertSameOrigin url_host fetchSite origin host =
     (if fetchSite \<noteq> None \<and> fetchSite \<noteq> Some ''same-origin'' \<and> fetchSite \<noteq> Some ''none'' then Inl Cross_origin_forbidden
      else case origin of
          None \<Rightarrow> Inr ()
        | Some o' \<Rightarrow> if url_host o' = None \<or> url_host o' \<noteq> host then Inl Cross_origin_forbidden else Inr ())"

definition assertCapacity :: "hub_options \<Rightarrow> string \<Rightarrow> string \<Rightarrow> hub \<Rightarrow> hub_error + unit" where
  "assertCapacity opts user session h =
     (let account = length (filter (\<lambda>i. es_user (streams h ! i) = user) (members h));
          sess = length (filter (\<lambda>i. es_session (streams h ! i) = session) (members h))
      in if length (members h) \<ge> maxStreams opts \<or> account \<ge> maxStreamsPerAccount opts \<or> sess \<ge> maxStreamsPerSession opts
         then Inl Stream_limit else Inr ())"

definition schedule :: "estream \<Rightarrow> estream" where
  "schedule s = (if es_closed s \<or> es_blocked s \<or> es_flushTimer s then s else s\<lparr>es_flushTimer := True\<rparr>)"

fun add_vaults :: "hub_options \<Rightarrow> string list \<Rightarrow> estream \<Rightarrow> estream" where
  "add_vaults opts [] s = s"
| "add_vaults opts (v # vs) s =
     (let s' = s\<lparr>es_vaults := set_add v (es_vaults s)\<rparr>
      in if length (es_vaults s') > maxVaultIdsPerMessage opts then s'\<lparr>es_account := True\<rparr> else add_vaults opts vs s')"

definition mark :: "hub_options \<Rightarrow> bool \<Rightarrow> string list \<Rightarrow> estream \<Rightarrow> estream" where
  "mark opts account vs s =
     (if es_closed s then s
      else
        let s1 = (if account then s\<lparr>es_account := True\<rparr> else s);
            s2 = (if \<not> es_account s1 then add_vaults opts vs s1 else s1);
            s3 = (if es_account s2 then s2\<lparr>es_vaults := []\<rparr> else s2)
        in if pending s3 then schedule s3 else s3)"

definition shut :: "estream \<Rightarrow> estream" where
  "shut s = s\<lparr>es_closed := True, es_flushTimer := False, es_heartbeatTimer := False, es_stallTimer := False, es_account := False,
     es_vaults := [], es_gone := True\<rparr>"

definition closeStream :: "nat \<Rightarrow> hub \<Rightarrow> hub" where
  "closeStream i h =
     (if es_closed (streams h ! i) then h
      else let h' = (upd i shut h)\<lparr>members := filter (\<lambda>j. j \<noteq> i) (members h)\<rparr>
           in if members h' = [] then h'\<lparr>subscribed := False\<rparr> else h')"

definition put_frame :: "bool \<Rightarrow> frame \<Rightarrow> estream \<Rightarrow> estream" where
  "put_frame took f s =
     (let s' = s\<lparr>es_frames := es_frames s @ [f]\<rparr>
      in if took then s' else s'\<lparr>es_blocked := True, es_flushTimer := False, es_stallTimer := True\<rparr>)"

definition write_stream :: "bool \<Rightarrow> frame \<Rightarrow> nat \<Rightarrow> hub \<Rightarrow> hub" where
  "write_stream took f i h =
     (if es_closed (streams h ! i) then h
      else if es_gone (streams h ! i) then closeStream i h
      else upd i (put_frame took f) h)"

definition attach :: "hub_options \<Rightarrow> string \<Rightarrow> string \<Rightarrow> bool \<Rightarrow> hub \<Rightarrow> (hub_error + unit) \<times> hub" where
  "attach opts user session took h =
     (case assertCapacity opts user session h of
        Inl e \<Rightarrow> (Inl e, h)
      | Inr _ \<Rightarrow>
          (let i = length (streams h);
               stream = \<lparr>es_user = user, es_session = session, es_closed = False, es_blocked = False, es_flushing = False, es_busy = False,
                 es_account = False, es_vaults = [], es_flushTimer = False, es_heartbeatTimer = True, es_stallTimer = False, es_gone = False, es_frames = []\<rparr>
           in (Inr (), write_stream took Refresh i (h\<lparr>streams := streams h @ [stream], members := members h @ [i], subscribed := True\<rparr>))))"

definition admit :: "hub_options \<Rightarrow> (string \<Rightarrow> string option) \<Rightarrow> string option \<Rightarrow> string option \<Rightarrow> string option \<Rightarrow> string \<Rightarrow> string \<Rightarrow> bool \<Rightarrow>
    hub \<Rightarrow> (hub_error + unit) \<times> hub" where
  "admit opts url_host fetchSite origin host user session took h =
     (case assertSameOrigin url_host fetchSite origin host of
        Inl e \<Rightarrow> (Inl e, h)
      | Inr _ \<Rightarrow>
          if hub_closed h then (Inl Stream_unavailable, h)
          else (case assertCapacity opts user session h of Inl e \<Rightarrow> (Inl e, h) | Inr _ \<Rightarrow> attach opts user session took h))"

definition await_auth :: "auth_use \<Rightarrow> nat \<Rightarrow> hub \<Rightarrow> hub" where
  "await_auth use i h = h\<lparr>waiting := waiting h @ [(use, i)]\<rparr>"

definition broadcastAccountInvalidation :: "hub_options \<Rightarrow> hub \<Rightarrow> hub" where
  "broadcastAccountInvalidation opts h = (if hub_closed h then h else fold (\<lambda>i. upd i (mark opts True [])) (members h) h)"

definition closeAll :: "hub \<Rightarrow> hub" where
  "closeAll h = fold closeStream (members h) h"

definition close :: "hub \<Rightarrow> hub" where
  "close h = closeAll (h\<lparr>hub_closed := True\<rparr>)"

definition watchedSessions :: "hub \<Rightarrow> string list" where
  "watchedSessions h = uniq (map (\<lambda>i. es_session (streams h ! i)) (members h))"

definition notify_stream :: "hub_options \<Rightarrow> impact \<Rightarrow> nat \<Rightarrow> hub \<Rightarrow> hub" where
  "notify_stream opts im i h =
     (let h1 = (case map_of (im_owners im) (es_user (streams h ! i)) of
            Some owner \<Rightarrow> upd i (mark opts (oi_account owner) (oi_vaults owner)) h | None \<Rightarrow> h)
      in if es_session (streams h ! i) \<in> set (im_sessions im) \<or> es_user (streams h ! i) \<in> set (im_users im) then await_auth For_commit i h1 else h1)"

text \<open>\<open>compared\<close> is \<open>None\<close> when the comparison of the two states throws.\<close>

definition onCommit :: "hub_options \<Rightarrow> (string list \<Rightarrow> impact option) \<Rightarrow> hub \<Rightarrow> hub" where
  "onCommit opts compared h =
     (if \<not> subscribed h \<or> members h = [] then h
      else case compared (watchedSessions h) of
          None \<Rightarrow> fold (\<lambda>i h. await_auth For_commit i (upd i (mark opts True []) h)) (members h) h
        | Some im \<Rightarrow> fold (notify_stream opts im) (members h) h)"

definition flush_start :: "nat \<Rightarrow> hub \<Rightarrow> hub" where
  "flush_start i h =
     (let s = streams h ! i
      in if es_closed s \<or> es_blocked s \<or> es_flushing s \<or> \<not> pending s then h
         else await_auth For_flush i (upd i (\<lambda>s. s\<lparr>es_flushing := True\<rparr>) h))"

definition flush_timer :: "nat \<Rightarrow> hub \<Rightarrow> hub" where
  "flush_timer i h = (if es_flushTimer (streams h ! i) then flush_start i (upd i (\<lambda>s. s\<lparr>es_flushTimer := False\<rparr>) h) else h)"

definition heartbeat_timer :: "nat \<Rightarrow> hub \<Rightarrow> hub" where
  "heartbeat_timer i h =
     (if \<not> es_heartbeatTimer (streams h ! i) \<or> es_closed (streams h ! i) \<or> es_busy (streams h ! i) then h
      else await_auth For_heartbeat i (upd i (\<lambda>s. s\<lparr>es_busy := True\<rparr>) h))"

definition stall_timer :: "nat \<Rightarrow> hub \<Rightarrow> hub" where
  "stall_timer i h = (if es_stallTimer (streams h ! i) then closeStream i h else h)"

definition drain_stream :: "estream \<Rightarrow> estream" where
  "drain_stream s =
     (if es_closed s then s
      else let s' = s\<lparr>es_stallTimer := False, es_blocked := False\<rparr> in if pending s' then schedule s' else s')"

text \<open>The sink emits \<open>drain\<close> to the listener that was registered with the stall timer.\<close>

definition drained :: "nat \<Rightarrow> hub \<Rightarrow> hub" where
  "drained i h = (if es_stallTimer (streams h ! i) then upd i drain_stream h else h)"

text \<open>The end of \<open>authorize\<close>: the authenticator gave the session's user, or failed (\<open>None\<close>).\<close>

definition authorized :: "string option \<Rightarrow> nat \<Rightarrow> hub \<Rightarrow> bool \<times> hub" where
  "authorized result i h =
     (if result = Some (es_user (streams h ! i)) then (\<not> es_closed (streams h ! i), h) else (False, closeStream i h))"

definition flush_finish :: "bool \<Rightarrow> string option \<Rightarrow> nat \<Rightarrow> hub \<Rightarrow> hub" where
  "flush_finish took result i h =
     (case authorized result i h of (ok, h1) \<Rightarrow>
        let s = streams h1 ! i; idle = upd i (\<lambda>s. s\<lparr>es_flushing := False\<rparr>) in
        if \<not> ok \<or> es_closed s \<or> es_blocked s then idle h1
        else
          let account = es_account s; vaultIds = (if account then [] else sort (es_vaults s));
              h2 = upd i (\<lambda>s. s\<lparr>es_account := False, es_vaults := []\<rparr>) h1
          in if \<not> account \<and> vaultIds = [] then idle h2
             else
               let h3 = idle (write_stream took (Invalidate account vaultIds) i h2); s3 = streams h3 ! i
               in if \<not> es_closed s3 \<and> pending s3 then upd i schedule h3 else h3)"

definition heartbeat_finish :: "bool \<Rightarrow> string option \<Rightarrow> nat \<Rightarrow> hub \<Rightarrow> hub" where
  "heartbeat_finish took result i h =
     (case authorized result i h of (ok, h1) \<Rightarrow>
        let h2 = (if \<not> ok \<or> es_closed (streams h1 ! i) \<or> es_blocked (streams h1 ! i) then h1 else write_stream took Keep_alive i h1)
        in upd i (\<lambda>s. s\<lparr>es_busy := False\<rparr>) h2)"

definition answered :: "bool \<Rightarrow> string option \<Rightarrow> nat \<Rightarrow> hub \<Rightarrow> hub" where
  "answered took result k h =
     (if k < length (waiting h) then
        (case waiting h ! k of (use, i) \<Rightarrow>
          let h' = h\<lparr>waiting := take k (waiting h) @ drop (Suc k) (waiting h)\<rparr>
          in case use of
               For_flush \<Rightarrow> flush_finish took result i h'
             | For_heartbeat \<Rightarrow> heartbeat_finish took result i h'
             | For_commit \<Rightarrow> snd (authorized result i h'))
      else h)"

section \<open>Steps\<close>

datatype hub_event =
    Admit "string option" "string option" "string option" string string bool
  | Commit "string list \<Rightarrow> impact option"
  | Broadcast
  | Flush_timer nat
  | Heartbeat_timer nat
  | Stall_timer nat
  | Drain nat
  | Sink_closed nat
  | Sink_gone nat
  | Answer nat "string option" bool
  | Close

fun hub_step :: "hub_options \<Rightarrow> (string \<Rightarrow> string option) \<Rightarrow> hub_event \<Rightarrow> hub \<Rightarrow> hub" where
  "hub_step opts url_host (Admit fs og hst user session took) h = snd (admit opts url_host fs og hst user session took h)"
| "hub_step opts url_host (Commit compared) h = onCommit opts compared h"
| "hub_step opts url_host Broadcast h = broadcastAccountInvalidation opts h"
| "hub_step opts url_host (Flush_timer i) h = (if i < length (streams h) then flush_timer i h else h)"
| "hub_step opts url_host (Heartbeat_timer i) h = (if i < length (streams h) then heartbeat_timer i h else h)"
| "hub_step opts url_host (Stall_timer i) h = (if i < length (streams h) then stall_timer i h else h)"
| "hub_step opts url_host (Drain i) h = (if i < length (streams h) then drained i h else h)"
| "hub_step opts url_host (Sink_closed i) h = (if i < length (streams h) then closeStream i h else h)"
| "hub_step opts url_host (Sink_gone i) h = (if i < length (streams h) then upd i (\<lambda>s. s\<lparr>es_gone := True\<rparr>) h else h)"
| "hub_step opts url_host (Answer k result took) h = answered took result k h"
| "hub_step opts url_host Close h = close h"

text \<open>The states a hub gets to by events with \<open>A\<close>.\<close>

inductive hub_reachable :: "hub_options \<Rightarrow> (string \<Rightarrow> string option) \<Rightarrow> (hub_event \<Rightarrow> bool) \<Rightarrow> hub \<Rightarrow> bool" for opts url_host A where
  hub_start: "hub_reachable opts url_host A create_hub"
| hub_next: "hub_reachable opts url_host A h \<Longrightarrow> A ev \<Longrightarrow> hub_reachable opts url_host A (hub_step opts url_host ev h)"

section \<open>Streams\<close>

text \<open>What holds of a stream at all times. Invalidations that are pending wait for the flush timer, for the reader, or for a flush
  under way.\<close>

definition stream_ok :: "hub_options \<Rightarrow> estream \<Rightarrow> bool" where
  "stream_ok opts s \<longleftrightarrow>
     (es_closed s \<longrightarrow> \<not> pending s \<and> \<not> es_flushTimer s \<and> \<not> es_heartbeatTimer s \<and> \<not> es_stallTimer s) \<and>
     (\<not> es_closed s \<longrightarrow> es_heartbeatTimer s \<and> (es_stallTimer s \<longleftrightarrow> es_blocked s)) \<and>
     (es_blocked s \<longrightarrow> \<not> es_flushTimer s) \<and> (es_account s \<longrightarrow> es_vaults s = []) \<and>
     length (es_vaults s) \<le> maxVaultIdsPerMessage opts \<and> (pending s \<longrightarrow> es_flushTimer s \<or> es_blocked s \<or> es_flushing s)"

definition same_identity :: "estream \<Rightarrow> estream \<Rightarrow> bool" where
  "same_identity s s' \<longleftrightarrow> es_user s' = es_user s \<and> es_session s' = es_session s \<and> es_closed s' = es_closed s \<and> es_flushing s' = es_flushing s"

lemma same_identity_refl [simp]: "same_identity s s"
  by (simp add: same_identity_def)

lemma add_vaults_ok:
  assumes "\<not> es_account s" and "length (es_vaults s) \<le> maxVaultIdsPerMessage opts"
  shows "\<exists>acc vs'. add_vaults opts vs s = s\<lparr>es_account := acc, es_vaults := vs'\<rparr> \<and> (\<not> acc \<longrightarrow> length vs' \<le> maxVaultIdsPerMessage opts) \<and>
    set vs' \<subseteq> set (es_vaults s) \<union> set vs \<and> (\<not> acc \<longrightarrow> set vs' = set (es_vaults s) \<union> set vs)"
  using assms
proof (induction vs arbitrary: s)
  case Nil
  then show ?case by (intro exI [of _ False] exI [of _ "es_vaults s"]) simp
next
  case (Cons v vs)
  let ?s = "s\<lparr>es_vaults := set_add v (es_vaults s)\<rparr>"
  show ?case
  proof (cases "length (es_vaults ?s) > maxVaultIdsPerMessage opts")
    case True
    then show ?thesis by (intro exI [of _ True] exI [of _ "es_vaults ?s"]) (auto simp: Let_def)
  next
    case False
    from Cons.IH [of ?s] Cons.prems False obtain acc vs' where "add_vaults opts vs ?s = ?s\<lparr>es_account := acc, es_vaults := vs'\<rparr>"
      "\<not> acc \<longrightarrow> length vs' \<le> maxVaultIdsPerMessage opts" "set vs' \<subseteq> set (es_vaults ?s) \<union> set vs"
      "\<not> acc \<longrightarrow> set vs' = set (es_vaults ?s) \<union> set vs" by auto
    then show ?thesis using False by (intro exI [of _ acc] exI [of _ vs']) (auto simp: Let_def)
  qed
qed

text \<open>Marking: the account is pending, or the ids are added to those that were; a bounded set that overflows becomes the account.\<close>

lemma mark_shape:
  assumes "stream_ok opts s"
  shows "\<exists>acc vs' ft. mark opts account vs s = s\<lparr>es_account := acc, es_vaults := vs', es_flushTimer := ft\<rparr> \<and> stream_ok opts (mark opts account vs s) \<and>
    set vs' \<subseteq> set (es_vaults s) \<union> set vs \<and>
    (\<not> es_closed s \<longrightarrow> (es_account s \<or> account \<longrightarrow> acc) \<and> (\<not> acc \<longrightarrow> set vs' = set (es_vaults s) \<union> set vs))"
proof (cases "es_closed s")
  case True
  then show ?thesis using assms by (intro exI [of _ "es_account s"] exI [of _ "es_vaults s"] exI [of _ "es_flushTimer s"]) (simp add: mark_def)
next
  case False
  define s1 where "s1 = (if account then s\<lparr>es_account := True\<rparr> else s)"
  define s2 where "s2 = (if \<not> es_account s1 then add_vaults opts vs s1 else s1)"
  define s3 where "s3 = (if es_account s2 then s2\<lparr>es_vaults := []\<rparr> else s2)"
  have mk: "mark opts account vs s = (if pending s3 then schedule s3 else s3)"
    unfolding mark_def Let_def s1_def [symmetric] s2_def [symmetric] s3_def [symmetric] using False by simp
  have lim: "length (es_vaults s) \<le> maxVaultIdsPerMessage opts" using assms by (simp add: stream_ok_def)
  obtain acc vs' where s3: "s3 = s\<lparr>es_account := acc, es_vaults := vs'\<rparr>" "length vs' \<le> maxVaultIdsPerMessage opts" "acc \<longrightarrow> vs' = []"
      "set vs' \<subseteq> set (es_vaults s) \<union> set vs" "es_account s \<or> account \<longrightarrow> acc" "\<not> acc \<longrightarrow> set vs' = set (es_vaults s) \<union> set vs"
  proof (cases "es_account s1")
    case True
    then have "s3 = s\<lparr>es_account := True, es_vaults := []\<rparr>" by (simp add: s3_def s2_def s1_def split: if_splits)
    then show ?thesis using that [of "[]" True] by simp
  next
    case f: False
    then have "s1 = s" "\<not> account" by (auto simp: s1_def split: if_splits)
    moreover from add_vaults_ok [of s opts vs] f lim this obtain a us where us: "add_vaults opts vs s = s\<lparr>es_account := a, es_vaults := us\<rparr>"
      "\<not> a \<longrightarrow> length us \<le> maxVaultIdsPerMessage opts" "set us \<subseteq> set (es_vaults s) \<union> set vs" "\<not> a \<longrightarrow> set us = set (es_vaults s) \<union> set vs" by auto
    ultimately have "s3 = s\<lparr>es_account := a, es_vaults := if a then [] else us\<rparr>" using f by (auto simp: s3_def s2_def)
    then show ?thesis using that [of "if a then [] else us" a] us f \<open>\<not> account\<close> \<open>s1 = s\<close> by (auto split: if_splits)
  qed
  define ft where "ft = (es_flushTimer s \<or> pending s3 \<and> \<not> es_blocked s)"
  have shape: "mark opts account vs s = s\<lparr>es_account := acc, es_vaults := vs', es_flushTimer := ft\<rparr>"
    using False unfolding mk ft_def s3(1) by (auto simp: schedule_def)
  moreover have "stream_ok opts (mark opts account vs s)"
    unfolding shape using assms False s3(2,3) unfolding stream_ok_def ft_def s3(1) by (auto simp: pending_def)
  ultimately show ?thesis using s3(4-6) by blast
qed

section \<open>The hub\<close>

text \<open>\<open>F\<close> has the streams whose flush is running on, its answer taken off the waiting list.\<close>

definition hub_inv :: "hub_options \<Rightarrow> nat set \<Rightarrow> hub \<Rightarrow> bool" where
  "hub_inv opts F h \<longleftrightarrow>
     members h = filter (\<lambda>i. \<not> es_closed (streams h ! i)) [0..<length (streams h)] \<and>
     (\<forall>i<length (streams h). stream_ok opts (streams h ! i)) \<and>
     (\<forall>i<length (streams h). count_list (waiting h) (For_flush, i) = (if es_flushing (streams h ! i) \<and> i \<notin> F then 1 else 0)) \<and>
     (\<forall>(use, i)\<in>set (waiting h). i < length (streams h)) \<and>
     length (members h) \<le> maxStreams opts \<and>
     (\<forall>u. length (filter (\<lambda>i. es_user (streams h ! i) = u) (members h)) \<le> maxStreamsPerAccount opts) \<and>
     (\<forall>s. length (filter (\<lambda>i. es_session (streams h ! i) = s) (members h)) \<le> maxStreamsPerSession opts) \<and>
     (subscribed h \<longleftrightarrow> members h \<noteq> [])"

lemma hub_invI:
  assumes "members h = filter (\<lambda>i. \<not> es_closed (streams h ! i)) [0..<length (streams h)]"
    and "\<And>i. i < length (streams h) \<Longrightarrow> stream_ok opts (streams h ! i)"
    and "\<And>i. i < length (streams h) \<Longrightarrow> count_list (waiting h) (For_flush, i) = (if es_flushing (streams h ! i) \<and> i \<notin> F then 1 else 0)"
    and "\<And>use i. (use, i) \<in> set (waiting h) \<Longrightarrow> i < length (streams h)"
    and "length (members h) \<le> maxStreams opts"
    and "\<And>u. length (filter (\<lambda>i. es_user (streams h ! i) = u) (members h)) \<le> maxStreamsPerAccount opts"
    and "\<And>s. length (filter (\<lambda>i. es_session (streams h ! i) = s) (members h)) \<le> maxStreamsPerSession opts"
    and "subscribed h \<longleftrightarrow> members h \<noteq> []"
  shows "hub_inv opts F h"
  using assms unfolding hub_inv_def by blast

lemma hub_invD:
  assumes "hub_inv opts F h"
  shows "members h = filter (\<lambda>i. \<not> es_closed (streams h ! i)) [0..<length (streams h)]"
    "\<And>i. i < length (streams h) \<Longrightarrow> stream_ok opts (streams h ! i)"
    "\<And>i. i < length (streams h) \<Longrightarrow> count_list (waiting h) (For_flush, i) = (if es_flushing (streams h ! i) \<and> i \<notin> F then 1 else 0)"
    "\<And>use i. (use, i) \<in> set (waiting h) \<Longrightarrow> i < length (streams h)"
    "length (members h) \<le> maxStreams opts"
    "\<And>u. length (filter (\<lambda>i. es_user (streams h ! i) = u) (members h)) \<le> maxStreamsPerAccount opts"
    "\<And>s. length (filter (\<lambda>i. es_session (streams h ! i) = s) (members h)) \<le> maxStreamsPerSession opts"
    "subscribed h \<longleftrightarrow> members h \<noteq> []"
  using assms unfolding hub_inv_def by blast+

lemma hub_inv_stream: "hub_inv opts F h \<Longrightarrow> i < length (streams h) \<Longrightarrow> stream_ok opts (streams h ! i)"
  by (simp add: hub_inv_def)

lemma upd_simps [simp]: "length (streams (upd i f h)) = length (streams h)" "members (upd i f h) = members h" "waiting (upd i f h) = waiting h"
    "subscribed (upd i f h) = subscribed h" "hub_closed (upd i f h) = hub_closed h"
  by (simp_all add: upd_def)

lemma upd_nth: "j < length (streams h) \<Longrightarrow> streams (upd i f h) ! j = (if j = i then f (streams h ! i) else streams h ! j)"
  by (auto simp: upd_def)

text \<open>One stream changes, and maybe what is waited for.\<close>

lemma hub_inv_update:
  assumes "hub_inv opts F h" and "i < length (streams h)" and "stream_ok opts (f (streams h ! i))"
    and "es_user (f (streams h ! i)) = es_user (streams h ! i)" "es_session (f (streams h ! i)) = es_session (streams h ! i)"
      "es_closed (f (streams h ! i)) = es_closed (streams h ! i)"
    and "\<And>j. j < length (streams h) \<Longrightarrow> count_list W (For_flush, j) = (if es_flushing (streams (upd i f h) ! j) \<and> j \<notin> F' then 1 else 0)"
    and "\<And>use j. (use, j) \<in> set W \<Longrightarrow> j < length (streams h)"
  shows "hub_inv opts F' ((upd i f h)\<lparr>waiting := W\<rparr>)"
proof -
  note inv = hub_invD [OF assms(1)]
  have same: "es_user (streams (upd i f h) ! j) = es_user (streams h ! j)" "es_session (streams (upd i f h) ! j) = es_session (streams h ! j)"
    "es_closed (streams (upd i f h) ! j) = es_closed (streams h ! j)"
    if "j < length (streams h)" for j using assms(4-6) that by (auto simp: upd_nth)
  have mem: "j < length (streams h)" if "j \<in> set (members h)" for j using that by (auto simp: inv(1))
  show ?thesis
  proof (rule hub_invI)
    show "members ((upd i f h)\<lparr>waiting := W\<rparr>) =
        filter (\<lambda>j. \<not> es_closed (streams ((upd i f h)\<lparr>waiting := W\<rparr>) ! j)) [0..<length (streams ((upd i f h)\<lparr>waiting := W\<rparr>))]"
      by (simp add: inv(1)) (rule filter_cong, auto simp: same)
    show "stream_ok opts (streams ((upd i f h)\<lparr>waiting := W\<rparr>) ! j)" if "j < length (streams ((upd i f h)\<lparr>waiting := W\<rparr>))" for j
      using that assms(3) inv(2) by (simp add: upd_nth)
    show "length (filter (\<lambda>j. es_user (streams ((upd i f h)\<lparr>waiting := W\<rparr>) ! j) = u) (members ((upd i f h)\<lparr>waiting := W\<rparr>))) \<le> maxStreamsPerAccount opts" for u
      using inv(6) [of u] same(1) mem by (simp cong: filter_cong)
    show "length (filter (\<lambda>j. es_session (streams ((upd i f h)\<lparr>waiting := W\<rparr>) ! j) = u) (members ((upd i f h)\<lparr>waiting := W\<rparr>))) \<le> maxStreamsPerSession opts" for u
      using inv(7) [of u] same(2) mem by (simp cong: filter_cong)
  qed (use inv(5,8) assms(7,8) in auto)
qed

lemma hub_inv_upd:
  assumes "hub_inv opts F h" and "i < length (streams h)" and "stream_ok opts (f (streams h ! i))" and "same_identity (streams h ! i) (f (streams h ! i))"
  shows "hub_inv opts F (upd i f h)"
proof -
  have "hub_inv opts F ((upd i f h)\<lparr>waiting := waiting h\<rparr>)"
    by (rule hub_inv_update [OF assms(1,2)]) (use assms(3,4) hub_invD(3,4) [OF assms(1)] in \<open>auto simp: upd_nth same_identity_def\<close>)
  then show ?thesis by (simp add: upd_def)
qed

lemma length_filter_conj_le: "(\<And>x. x \<in> set xs \<Longrightarrow> P x \<Longrightarrow> Q x) \<Longrightarrow> length (filter P xs) \<le> length (filter Q xs)"
  by (induction xs) auto

lemma hub_inv_closeStream:
  assumes "hub_inv opts F h" and "i < length (streams h)"
  shows "hub_inv opts F (closeStream i h)"
proof (cases "es_closed (streams h ! i)")
  case True
  then show ?thesis using assms by (simp add: closeStream_def)
next
  case False
  note inv = hub_invD [OF assms(1)]
  define h1 where "h1 = (upd i shut h)\<lparr>members := filter (\<lambda>j. j \<noteq> i) (members h), subscribed := filter (\<lambda>j. j \<noteq> i) (members h) \<noteq> []\<rparr>"
  have h1: "length (streams h1) = length (streams h)" "members h1 = filter (\<lambda>j. j \<noteq> i) (members h)" "waiting h1 = waiting h"
    "subscribed h1 \<longleftrightarrow> members h1 \<noteq> []" by (simp_all add: h1_def)
  have nth: "streams h1 ! j = (if j = i then shut (streams h ! i) else streams h ! j)" if "j < length (streams h)" for j
    using that by (simp add: h1_def upd_nth)
  have mem: "j < length (streams h)" if "j \<in> set (members h)" for j using that by (auto simp: inv(1))
  have sub: "length (filter P (members h1)) \<le> length (filter Q (members h))" if "\<And>j. j \<in> set (members h) \<Longrightarrow> P j \<Longrightarrow> j \<noteq> i \<Longrightarrow> Q j" for P Q
    unfolding h1(2) filter_filter by (rule length_filter_conj_le) (use that in auto)
  have "hub_inv opts F h1"
  proof (rule hub_invI, unfold h1(1,3,4))
    show "members h1 = filter (\<lambda>j. \<not> es_closed (streams h1 ! j)) [0..<length (streams h)]"
      unfolding h1(2) inv(1) filter_filter by (rule filter_cong) (auto simp: nth shut_def)
    show "stream_ok opts (streams h1 ! j)" if "j < length (streams h)" for j
      using inv(2) [OF that] that by (auto simp: nth stream_ok_def shut_def pending_def)
    show "count_list (waiting h) (For_flush, j) = (if es_flushing (streams h1 ! j) \<and> j \<notin> F then 1 else 0)" if "j < length (streams h)" for j
      using inv(3) [OF that] that by (simp add: nth shut_def)
    show "length (members h1) \<le> maxStreams opts" using inv(5) sub [of "\<lambda>_. True" "\<lambda>_. True"] by simp
    show "length (filter (\<lambda>j. es_user (streams h1 ! j) = u) (members h1)) \<le> maxStreamsPerAccount opts" for u
      by (rule order_trans [OF sub inv(6) [of u]]) (auto simp: nth mem)
    show "length (filter (\<lambda>j. es_session (streams h1 ! j) = u) (members h1)) \<le> maxStreamsPerSession opts" for u
      by (rule order_trans [OF sub inv(7) [of u]]) (auto simp: nth mem)
  qed (use inv(4) in auto)
  moreover have "closeStream i h = h1"
  proof -
    have "i \<in> set (members h)" using assms(2) False by (simp add: inv(1))
    then have "subscribed h" using inv(8) by auto
    then show ?thesis using False by (simp add: closeStream_def Let_def upd_def h1_def)
  qed
  ultimately show ?thesis by simp
qed

lemma closeStream_simps [simp]: "length (streams (closeStream i h)) = length (streams h)" "waiting (closeStream i h) = waiting h"
  by (simp_all add: closeStream_def Let_def)

lemma write_simps [simp]: "length (streams (write_stream took f i h)) = length (streams h)" "waiting (write_stream took f i h) = waiting h"
  by (simp_all add: write_stream_def)

lemma put_frame_ok: "stream_ok opts s \<Longrightarrow> \<not> es_closed s \<Longrightarrow> stream_ok opts (put_frame took f s) \<and> same_identity s (put_frame took f s)"
  by (auto simp: put_frame_def stream_ok_def same_identity_def pending_def Let_def)

lemma hub_inv_write:
  assumes "hub_inv opts F h" and "i < length (streams h)"
  shows "hub_inv opts F (write_stream took f i h)"
  using assms hub_inv_closeStream [OF assms] hub_inv_upd [OF assms, of "put_frame took f"] put_frame_ok [OF hub_inv_stream [OF assms], of took f]
  by (auto simp: write_stream_def)

lemma hub_inv_mark:
  assumes "hub_inv opts F h" and "i < length (streams h)"
  shows "hub_inv opts F (upd i (mark opts account vs) h)"
proof (rule hub_inv_upd [OF assms])
  from mark_shape [OF hub_inv_stream [OF assms], of account vs] obtain acc vs' ft where
    m: "mark opts account vs (streams h ! i) = (streams h ! i)\<lparr>es_account := acc, es_vaults := vs', es_flushTimer := ft\<rparr>"
      "stream_ok opts (mark opts account vs (streams h ! i))" by blast
  show "stream_ok opts (mark opts account vs (streams h ! i))" by (rule m(2))
  show "same_identity (streams h ! i) (mark opts account vs (streams h ! i))" by (simp add: m(1) same_identity_def)
qed

lemma hub_inv_await:
  assumes "hub_inv opts F h" and "i < length (streams h)" and "use \<noteq> For_flush"
  shows "hub_inv opts F (await_auth use i h)"
  by (rule hub_invI) (use hub_invD [OF assms(1)] assms(2,3) in \<open>auto simp: await_auth_def\<close>)

lemma hub_inv_fold:
  assumes "hub_inv opts F h" and "\<And>i h. hub_inv opts F h \<Longrightarrow> i < length (streams h) \<Longrightarrow> hub_inv opts F (f i h) \<and> length (streams (f i h)) = length (streams h)"
    and "\<forall>i\<in>set is. i < length (streams h)"
  shows "hub_inv opts F (fold f is h)"
  using assms(1,3)
proof (induction "is" arbitrary: h)
  case (Cons i "is")
  from assms(2) [of h i] Cons.prems have "hub_inv opts F (f i h)" "length (streams (f i h)) = length (streams h)" by auto
  then show ?case using Cons.IH [of "f i h"] Cons.prems by simp
qed simp

lemma hub_inv_members: "hub_inv opts F h \<Longrightarrow> \<forall>i\<in>set (members h). i < length (streams h)"
  using hub_invD(1) [of opts F h] by auto

lemma hub_inv_flush_start:
  assumes "hub_inv opts {} h" and "i < length (streams h)"
  shows "hub_inv opts {} (flush_timer i h)"
proof (cases "es_flushTimer (streams h ! i)")
  case True
  let ?s = "streams h ! i"
  let ?h = "upd i (\<lambda>s. s\<lparr>es_flushTimer := False\<rparr>) h"
  note inv = hub_invD [OF assms(1)] and ok = hub_inv_stream [OF assms]
  have s: "\<not> es_closed ?s" "\<not> es_blocked ?s" using ok True by (auto simp: stream_ok_def)
  show ?thesis
  proof (cases "es_flushing ?s \<or> \<not> pending ?s")
    case True
    then have "flush_timer i h = ?h" using \<open>es_flushTimer ?s\<close> s assms(2) by (auto simp: flush_timer_def flush_start_def Let_def upd_nth pending_def)
    moreover have "hub_inv opts {} ?h"
      by (rule hub_inv_upd [OF assms]) (use ok s True in \<open>auto simp: stream_ok_def same_identity_def pending_def\<close>)
    ultimately show ?thesis by simp
  next
    case False
    let ?g = "\<lambda>s. s\<lparr>es_flushTimer := False, es_flushing := True\<rparr>"
    have "flush_timer i h = (upd i ?g h)\<lparr>waiting := waiting h @ [(For_flush, i)]\<rparr>" using \<open>es_flushTimer ?s\<close> False s assms(2)
      by (auto simp: flush_timer_def flush_start_def Let_def upd_nth pending_def await_auth_def upd_def)
    moreover have "hub_inv opts {} ((upd i ?g h)\<lparr>waiting := waiting h @ [(For_flush, i)]\<rparr>)"
    proof (rule hub_inv_update [OF assms])
      show "stream_ok opts (?g ?s)" using ok by (auto simp: stream_ok_def pending_def)
      show "count_list (waiting h @ [(For_flush, i)]) (For_flush, j) = (if es_flushing (streams (upd i ?g h) ! j) \<and> j \<notin> {} then 1 else 0)"
        if "j < length (streams h)" for j using inv(3) [OF that] that False by (auto simp: upd_nth)
    qed (use inv(4) assms(2) in auto)
    ultimately show ?thesis by simp
  qed
qed (use assms in \<open>simp add: flush_timer_def\<close>)

lemma hub_inv_attach:
  assumes "hub_inv opts {} h"
  shows "hub_inv opts {} (snd (attach opts user session took h))"
proof (cases "assertCapacity opts user session h")
  case (Inl e)
  then show ?thesis using assms by (simp add: attach_def)
next
  case (Inr x)
  note inv = hub_invD [OF assms]
  let ?n = "length (streams h)"
  let ?s = "\<lparr>es_user = user, es_session = session, es_closed = False, es_blocked = False, es_flushing = False, es_busy = False,
    es_account = False, es_vaults = [], es_flushTimer = False, es_heartbeatTimer = True, es_stallTimer = False, es_gone = False, es_frames = []\<rparr>"
  define h1 where "h1 = h\<lparr>streams := streams h @ [?s], members := members h @ [?n], subscribed := True\<rparr>"
  have cap: "length (members h) < maxStreams opts" "length (filter (\<lambda>i. es_user (streams h ! i) = user) (members h)) < maxStreamsPerAccount opts"
    "length (filter (\<lambda>i. es_session (streams h ! i) = session) (members h)) < maxStreamsPerSession opts"
    using Inr by (auto simp: assertCapacity_def Let_def split: if_splits)
  have nth: "streams h1 ! j = (if j = ?n then ?s else streams h ! j)" if "j < length (streams h1)" for j
    using that by (auto simp: h1_def nth_append)
  have simps: "length (streams h1) = Suc ?n" "members h1 = members h @ [?n]" "waiting h1 = waiting h" "subscribed h1 = True" by (simp_all add: h1_def)
  have mem: "j < ?n" if "j \<in> set (members h)" for j using that by (auto simp: inv(1))
  have "hub_inv opts {} h1"
  proof (rule hub_invI, unfold simps)
    have "filter (\<lambda>j. \<not> es_closed (streams h1 ! j)) [0..<?n] = filter (\<lambda>j. \<not> es_closed (streams h ! j)) [0..<?n]"
      by (rule filter_cong) (auto simp: nth simps(1))
    then show "members h @ [?n] = filter (\<lambda>j. \<not> es_closed (streams h1 ! j)) [0..<Suc ?n]" by (simp add: inv(1) nth simps(1))
    show "stream_ok opts (streams h1 ! j)" if "j < Suc ?n" for j
      using that inv(2) [of j] by (auto simp: nth simps(1) stream_ok_def pending_def)
    show "count_list (waiting h) (For_flush, j) = (if es_flushing (streams h1 ! j) \<and> j \<notin> {} then 1 else 0)" if "j < Suc ?n" for j
    proof (cases "j = ?n")
      case True
      then have "(For_flush, j) \<notin> set (waiting h)" using inv(4) by blast
      then show ?thesis using True by (simp add: nth simps(1) count_list_0_iff)
    qed (use that inv(3) [of j] in \<open>simp add: nth simps(1)\<close>)
    show "length (filter (\<lambda>j. es_user (streams h1 ! j) = u) (members h @ [?n])) \<le> maxStreamsPerAccount opts" for u
    proof -
      have "filter (\<lambda>j. es_user (streams h1 ! j) = u) (members h) = filter (\<lambda>j. es_user (streams h ! j) = u) (members h)"
        by (rule filter_cong) (auto simp: nth simps(1) dest: mem)
      then show ?thesis using inv(6) [of u] cap(2) by (cases "u = user") (simp_all add: nth simps(1))
    qed
    show "length (filter (\<lambda>j. es_session (streams h1 ! j) = u) (members h @ [?n])) \<le> maxStreamsPerSession opts" for u
    proof -
      have "filter (\<lambda>j. es_session (streams h1 ! j) = u) (members h) = filter (\<lambda>j. es_session (streams h ! j) = u) (members h)"
        by (rule filter_cong) (auto simp: nth simps(1) dest: mem)
      then show ?thesis using inv(7) [of u] cap(3) by (cases "u = session") (simp_all add: nth simps(1))
    qed
    show "j < Suc ?n" if "(use, j) \<in> set (waiting h)" for use j using inv(4) [OF that] by simp
  qed (use cap(1) in auto)
  then show ?thesis using hub_inv_write [of opts "{}" h1 ?n took Refresh] Inr by (simp add: attach_def Let_def simps(1) flip: h1_def)
qed

lemma hub_inv_authorized:
  assumes "hub_inv opts F h" and "i < length (streams h)"
  shows "hub_inv opts F (snd (authorized result i h))"
  using assms hub_inv_closeStream [OF assms] by (simp add: authorized_def)

lemma authorized_simps [simp]: "length (streams (snd (authorized result i h))) = length (streams h)" "waiting (snd (authorized result i h)) = waiting h"
  by (simp_all add: authorized_def)

text \<open>The end of a flush: nothing is pending, or the stream is blocked or closed.\<close>

lemma hub_inv_idle:
  assumes "hub_inv opts {i} h" and "i < length (streams h)" and "pending (streams h ! i) \<Longrightarrow> es_blocked (streams h ! i)"
  shows "hub_inv opts {} (upd i (\<lambda>s. s\<lparr>es_flushing := False\<rparr>) h)"
proof -
  let ?g = "\<lambda>s. s\<lparr>es_flushing := False\<rparr>"
  note inv = hub_invD [OF assms(1)]
  have "hub_inv opts {} ((upd i ?g h)\<lparr>waiting := waiting h\<rparr>)"
  proof (rule hub_inv_update [OF assms(1,2)])
    show "stream_ok opts (?g (streams h ! i))" using inv(2) [OF assms(2)] assms(3) by (auto simp: stream_ok_def pending_def)
    show "count_list (waiting h) (For_flush, j) = (if es_flushing (streams (upd i ?g h) ! j) \<and> j \<notin> {} then 1 else 0)"
      if "j < length (streams h)" for j using inv(3) [OF that] that by (auto simp: upd_nth)
  qed (use inv(4) in auto)
  then show ?thesis by (simp add: upd_def)
qed

lemma write_pending:
  assumes "i < length (streams h)" and "\<not> pending (streams h ! i)"
  shows "\<not> pending (streams (write_stream took f i h) ! i)"
  using assms by (auto simp: write_stream_def closeStream_def upd_def put_frame_def shut_def pending_def Let_def)

lemma hub_inv_flush_finish:
  assumes "hub_inv opts {i} h" and "i < length (streams h)"
  shows "hub_inv opts {} (flush_finish took result i h)"
proof -
  obtain ok h1 where au: "authorized result i h = (ok, h1)" by force
  have h1: "hub_inv opts {i} h1" "i < length (streams h1)"
    using hub_inv_authorized [OF assms, of result] authorized_simps(1) [of result i h] assms(2) by (simp_all add: au)
  have clo: "es_closed (streams h1 ! i)" if "\<not> ok"
    using au assms(2) that by (auto simp: authorized_def closeStream_def upd_def shut_def Let_def split: if_splits)
  let ?s = "streams h1 ! i" and ?idle = "upd i (\<lambda>s. s\<lparr>es_flushing := False\<rparr>)"
  let ?h2 = "upd i (\<lambda>s. s\<lparr>es_account := False, es_vaults := []\<rparr>) h1"
  show ?thesis
  proof (cases "\<not> ok \<or> es_closed ?s \<or> es_blocked ?s")
    case True
    have "pending ?s \<Longrightarrow> es_blocked ?s" using True clo hub_inv_stream [OF h1] by (auto simp: stream_ok_def)
    with hub_inv_idle [OF h1] True au show ?thesis by (simp add: flush_finish_def Let_def)
  next
    case False
    have h2: "hub_inv opts {i} ?h2" "i < length (streams ?h2)"
      by (rule hub_inv_upd [OF h1]) (use hub_inv_stream [OF h1] False h1(2) in \<open>auto simp: stream_ok_def same_identity_def pending_def\<close>)
    have np: "\<not> pending (streams ?h2 ! i)" using h1(2) by (simp add: upd_nth pending_def)
    have wr: "hub_inv opts {} (?idle (write_stream took f i ?h2))" for f
      by (rule hub_inv_idle [OF hub_inv_write [OF h2]]) (use h2(2) write_pending [OF h2(2) np] in auto)
    have "\<not> pending (streams (?idle (write_stream took f i ?h2)) ! i)" for f
      using write_pending [OF h2(2) np, of took f] h2(2) by (simp add: upd_nth pending_def)
    then show ?thesis using False au wr hub_inv_idle [OF h2] np by (simp add: flush_finish_def Let_def)
  qed
qed

lemma hub_inv_heartbeat_finish:
  assumes "hub_inv opts F h" and "i < length (streams h)"
  shows "hub_inv opts F (heartbeat_finish took result i h)"
proof -
  obtain ok h1 where au: "authorized result i h = (ok, h1)" by force
  have h1: "hub_inv opts F h1" "i < length (streams h1)"
    using hub_inv_authorized [OF assms, of result] authorized_simps(1) [of result i h] assms(2) by (simp_all add: au)
  have "hub_inv opts F (upd i (\<lambda>s. s\<lparr>es_busy := False\<rparr>) h2)" if "hub_inv opts F h2" "i < length (streams h2)" for h2
    by (rule hub_inv_upd [OF that]) (use hub_inv_stream [OF that] in \<open>auto simp: stream_ok_def same_identity_def pending_def\<close>)
  then show ?thesis using h1 hub_inv_write [OF h1] by (simp add: heartbeat_finish_def au Let_def)
qed

lemma count_list_remove:
  "k < length xs \<Longrightarrow> count_list xs x = count_list (take k xs @ drop (Suc k) xs) x + (if xs ! k = x then 1 else 0)"
proof -
  assume "k < length xs"
  then have "xs = take k xs @ xs ! k # drop (Suc k) xs" by (rule id_take_nth_drop)
  then have "count_list xs x = count_list (take k xs @ xs ! k # drop (Suc k) xs) x" by simp
  then show ?thesis by simp
qed

lemma hub_inv_removed:
  assumes "hub_inv opts {} h" and "k < length (waiting h)" and "waiting h ! k = (use, i)"
  shows "hub_inv opts (if use = For_flush then {i} else {}) (h\<lparr>waiting := take k (waiting h) @ drop (Suc k) (waiting h)\<rparr>)" "i < length (streams h)"
proof -
  note inv = hub_invD [OF assms(1)]
  have mem: "(use, i) \<in> set (waiting h)" using assms(2,3) by (metis nth_mem)
  then show "i < length (streams h)" by (rule inv(4))
  have "(For_flush, j) \<in> set (waiting h) \<Longrightarrow> count_list (waiting h) (For_flush, j) > 0" for j by (metis count_list_0_iff neq0_conv)
  then have cnt: "count_list (take k (waiting h) @ drop (Suc k) (waiting h)) (For_flush, j) =
      (if es_flushing (streams h ! j) \<and> j \<notin> (if use = For_flush then {i} else {}) then 1 else 0)" if "j < length (streams h)" for j
    using count_list_remove [OF assms(2), of "(For_flush, j)"] inv(3) [OF that] assms(3) mem by (auto split: if_splits)
  show "hub_inv opts (if use = For_flush then {i} else {}) (h\<lparr>waiting := take k (waiting h) @ drop (Suc k) (waiting h)\<rparr>)"
    by (rule hub_invI) (use inv(1,2,4-8) cnt in \<open>auto dest!: in_set_takeD in_set_dropD\<close>)
qed

lemma hub_inv_answered:
  assumes "hub_inv opts {} h"
  shows "hub_inv opts {} (answered took result k h)"
proof (cases "k < length (waiting h)")
  case True
  obtain use i where w: "waiting h ! k = (use, i)" by force
  note rm = hub_inv_removed [OF assms True w]
  let ?h = "h\<lparr>waiting := take k (waiting h) @ drop (Suc k) (waiting h)\<rparr>"
  have i: "i < length (streams ?h)" using rm(2) by simp
  show ?thesis
    using rm hub_inv_flush_finish [of opts i ?h took result] hub_inv_heartbeat_finish [of opts "{}" ?h i took result] hub_inv_authorized [of opts "{}" ?h i result]
    by (cases use) (simp_all add: answered_def True w Let_def)
qed (use assms in \<open>simp add: answered_def\<close>)

lemma drain_ok: "stream_ok opts s \<Longrightarrow> stream_ok opts (drain_stream s) \<and> same_identity s (drain_stream s)"
  by (auto simp: drain_stream_def schedule_def stream_ok_def same_identity_def pending_def Let_def)

lemma await_simps [simp]: "streams (await_auth use i h) = streams h" "members (await_auth use i h) = members h"
  by (simp_all add: await_auth_def)

lemma notify_length [simp]: "length (streams (notify_stream opts im i h)) = length (streams h)"
  by (simp add: notify_stream_def Let_def split: option.splits)

lemma hub_inv_notify:
  assumes "hub_inv opts F h" and "i < length (streams h)"
  shows "hub_inv opts F (notify_stream opts im i h)"
  using assms hub_inv_mark [OF assms] by (auto simp: notify_stream_def Let_def intro!: hub_inv_await split: option.splits)

lemma hub_inv_step:
  assumes "hub_inv opts {} h"
  shows "hub_inv opts {} (hub_step opts url_host ev h)"
proof (cases ev)
  case (Admit fs og hst user session took)
  then show ?thesis using assms hub_inv_attach [OF assms] by (simp add: admit_def split: sum.splits)
next
  case (Commit compared)
  have "hub_inv opts {} (fold (notify_stream opts im) (members h) h)" for im
    by (rule hub_inv_fold [OF assms]) (use hub_inv_notify hub_inv_members [OF assms] in auto)
  moreover have "hub_inv opts {} (fold (\<lambda>i h. await_auth For_commit i (upd i (mark opts True []) h)) (members h) h)"
    by (rule hub_inv_fold [OF assms]) (use hub_inv_mark hub_inv_members [OF assms] in \<open>auto intro!: hub_inv_await\<close>)
  ultimately show ?thesis using assms Commit by (auto simp: onCommit_def split: option.splits)
next
  case Broadcast
  have "hub_inv opts {} (fold (\<lambda>i. upd i (mark opts True [])) (members h) h)"
    by (rule hub_inv_fold [OF assms]) (use hub_inv_mark hub_inv_members [OF assms] in auto)
  then show ?thesis using assms Broadcast by (simp add: broadcastAccountInvalidation_def)
next
  case (Heartbeat_timer i)
  have "hub_inv opts {} (await_auth For_heartbeat i (upd i (\<lambda>s. s\<lparr>es_busy := True\<rparr>) h))" if "i < length (streams h)"
    by (rule hub_inv_await [OF hub_inv_upd [OF assms that]])
      (use hub_inv_stream [OF assms that] that in \<open>auto simp: stream_ok_def same_identity_def pending_def\<close>)
  then show ?thesis using assms Heartbeat_timer by (simp add: heartbeat_timer_def)
next
  case (Sink_gone i)
  have "hub_inv opts {} (upd i (\<lambda>s. s\<lparr>es_gone := True\<rparr>) h)" if "i < length (streams h)"
    by (rule hub_inv_upd [OF assms that]) (use hub_inv_stream [OF assms that] in \<open>auto simp: stream_ok_def same_identity_def pending_def\<close>)
  then show ?thesis using assms Sink_gone by simp
next
  case (Drain i)
  have "hub_inv opts {} (upd i drain_stream h)" if "i < length (streams h)"
    by (rule hub_inv_upd [OF assms that]) (use drain_ok [OF hub_inv_stream [OF assms that]] in auto)
  then show ?thesis using assms Drain by (simp add: drained_def)
next
  case Close
  have c: "hub_inv opts {} (h\<lparr>hub_closed := True\<rparr>)" by (rule hub_invI) (use hub_invD [OF assms] in auto)
  have "hub_inv opts {} (fold closeStream (members (h\<lparr>hub_closed := True\<rparr>)) (h\<lparr>hub_closed := True\<rparr>))"
    by (rule hub_inv_fold [OF c]) (use hub_inv_closeStream hub_inv_members [OF c] in auto)
  then show ?thesis using Close by (simp add: close_def closeAll_def)
qed (use assms hub_inv_flush_start [OF assms] hub_inv_closeStream [OF assms] hub_inv_answered [OF assms] in \<open>simp_all add: stall_timer_def\<close>)

lemma hub_inv_start: "hub_inv opts {} create_hub"
  by (rule hub_invI) (simp_all add: create_hub_def)

lemma hub_reachable_inv: "hub_reachable opts url_host A h \<Longrightarrow> hub_inv opts {} h"
  by (induction rule: hub_reachable.induct) (auto intro: hub_inv_start hub_inv_step)

text \<open>C9. The hub stays within its limits whatever happens: the open streams are the members, at most \<open>maxStreams\<close>, at most
  \<open>maxStreamsPerAccount\<close> of an account and \<open>maxStreamsPerSession\<close> of a session; it listens to commits exactly while one is open. A
  closed stream has no timer left and nothing pending. A change that was marked on an open stream is not forgotten: the flush timer
  is set, or a flush waits for its authorization, or the reader is behind, and then the stall timer will close the stream.\<close>

theorem hub_invariant:
  assumes "hub_reachable opts url_host A h"
  shows "members h = filter (\<lambda>i. \<not> es_closed (streams h ! i)) [0..<length (streams h)] \<and> length (members h) \<le> maxStreams opts \<and>
    (\<forall>u. length (filter (\<lambda>i. es_user (streams h ! i) = u) (members h)) \<le> maxStreamsPerAccount opts) \<and>
    (\<forall>s. length (filter (\<lambda>i. es_session (streams h ! i) = s) (members h)) \<le> maxStreamsPerSession opts) \<and>
    (subscribed h \<longleftrightarrow> members h \<noteq> []) \<and>
    (\<forall>i<length (streams h). let s = streams h ! i in
      length (es_vaults s) \<le> maxVaultIdsPerMessage opts \<and>
      (es_closed s \<longrightarrow> \<not> pending s \<and> \<not> es_flushTimer s \<and> \<not> es_heartbeatTimer s \<and> \<not> es_stallTimer s) \<and>
      (pending s \<longrightarrow> es_flushTimer s \<or> (es_blocked s \<and> es_stallTimer s) \<or> (For_flush, i) \<in> set (waiting h)))"
proof -
  note inv = hub_invD [OF hub_reachable_inv [OF assms]]
  have "(For_flush, i) \<in> set (waiting h)" if "i < length (streams h)" "es_flushing (streams h ! i)" for i
    using inv(3) [OF that(1)] that(2) by (metis count_list_0_iff empty_iff zero_neq_one)
  then show ?thesis using inv unfolding stream_ok_def Let_def by blast
qed

definition sample_hub :: hub where
  "sample_hub = hub_step DEFAULTS Some (Commit (\<lambda>_. Some \<lparr>im_owners = [(''u'', \<lparr>oi_account = False, oi_vaults = [''v'']\<rparr>)], im_sessions = [], im_users = []\<rparr>))
     (hub_step DEFAULTS Some (Admit None None None ''u'' ''s'' True) create_hub)"

lemma sample_hub_reachable: "hub_reachable DEFAULTS Some (\<lambda>_. True) sample_hub"
  unfolding sample_hub_def by (intro hub_next hub_start) simp_all

theorem hub_invariant_witness:
  "pending (streams sample_hub ! 0) \<and> es_flushTimer (streams sample_hub ! 0) \<and> length (members sample_hub) \<le> maxStreams DEFAULTS"
  using hub_invariant [OF sample_hub_reachable]
  by (simp add: sample_hub_def DEFAULTS_def create_hub_def admit_def attach_def assertSameOrigin_def assertCapacity_def write_stream_def put_frame_def onCommit_def
      notify_stream_def upd_def mark_def schedule_def pending_def set_add_def Let_def)

section \<open>What is published\<close>

text \<open>A change of a stream that writes nothing and adds at most \<open>V\<close> to what is pending.\<close>

definition silent :: "string set \<Rightarrow> estream \<Rightarrow> estream \<Rightarrow> bool" where
  "silent V s s' \<longleftrightarrow> es_user s' = es_user s \<and> es_frames s' = es_frames s \<and> set (es_vaults s') \<subseteq> set (es_vaults s) \<union> V"

lemma silent_refl [simp]: "silent V s s"
  by (simp add: silent_def)

lemma silent_trans: "silent V s s' \<Longrightarrow> silent V s' s'' \<Longrightarrow> silent V s s''"
  by (auto simp: silent_def)

lemma silent_mono: "silent V s s' \<Longrightarrow> V \<subseteq> W \<Longrightarrow> silent W s s'"
  by (auto simp: silent_def)

lemma silent_upd: "j < length (streams h) \<Longrightarrow> silent V (streams h ! i) (f (streams h ! i)) \<Longrightarrow> silent V (streams h ! j) (streams (upd i f h) ! j)"
  by (simp add: upd_nth)

lemma silent_closeStream: "j < length (streams h) \<Longrightarrow> silent V (streams h ! j) (streams (closeStream i h) ! j)"
  by (auto simp: closeStream_def Let_def upd_nth shut_def silent_def)

lemma silent_add_vaults: "silent (set vs) s (add_vaults opts vs s)"
proof (induction vs arbitrary: s)
  case (Cons v vs)
  show ?case using Cons [of "s\<lparr>es_vaults := set_add v (es_vaults s)\<rparr>"] by (auto simp: silent_def Let_def)
qed simp

lemma silent_schedule: "silent V s (schedule s)"
  by (simp add: schedule_def silent_def)

lemma silent_mark: "silent (set vs) s (mark opts account vs s)"
proof -
  let ?s1 = "if account then s\<lparr>es_account := True\<rparr> else s"
  have "silent (set vs) s (if \<not> es_account ?s1 then add_vaults opts vs ?s1 else ?s1)"
    using silent_add_vaults [of vs ?s1 opts] by (auto simp: silent_def)
  then show ?thesis by (auto simp: mark_def Let_def silent_def schedule_def)
qed

lemma silent_fold:
  assumes "\<And>i h. j < length (streams h) \<Longrightarrow> es_user (streams h ! j) = u \<Longrightarrow> silent V (streams h ! j) (streams (f i h) ! j) \<and> length (streams (f i h)) = length (streams h)"
    and "j < length (streams h)" and "es_user (streams h ! j) = u"
  shows "silent V (streams h ! j) (streams (fold f is h) ! j)"
  using assms(2,3)
proof (induction "is" arbitrary: h)
  case (Cons i "is")
  note f = assms(1) [OF Cons.prems, of i]
  then have "es_user (streams (f i h) ! j) = u" using Cons.prems by (simp add: silent_def)
  then have "silent V (streams (f i h) ! j) (streams (fold f is (f i h)) ! j)" using Cons.IH [of "f i h"] f Cons.prems by simp
  then show ?case using silent_trans [OF conjunct1 [OF f]] by simp
qed simp

lemma silent_notify:
  assumes "j < length (streams h)"
  shows "silent {v. (es_user (streams h ! j), v) \<in> marked_vaults im} (streams h ! j) (streams (notify_stream opts im i h) ! j)"
proof -
  have "silent {v. (es_user (streams h ! j), v) \<in> marked_vaults im} (streams h ! j) (streams (upd i (mark opts (oi_account e) (oi_vaults e)) h) ! j)"
    if "map_of (im_owners im) (es_user (streams h ! i)) = Some e" for e
  proof (cases "i = j")
    case True
    then have "set (oi_vaults e) \<subseteq> {v. (es_user (streams h ! j), v) \<in> marked_vaults im}" using that by (auto simp: marked_vaults_def)
    then show ?thesis using assms True silent_mono [OF silent_mark] by (simp add: upd_nth)
  qed (use assms in \<open>simp add: upd_nth\<close>)
  then show ?thesis by (simp add: notify_stream_def Let_def split: option.splits)
qed

text \<open>A frame written in answer to the authenticator.\<close>

definition publishes :: "string option \<Rightarrow> estream \<Rightarrow> estream \<Rightarrow> bool" where
  "publishes result s s' \<longleftrightarrow> result = Some (es_user s) \<and> \<not> es_closed s \<and> \<not> es_blocked s \<and> es_user s' = es_user s \<and> set (es_vaults s') \<subseteq> set (es_vaults s) \<and>
     (es_frames s' = es_frames s @ [Keep_alive] \<or>
      pending s \<and> \<not> pending s' \<and> es_frames s' = es_frames s @ [Invalidate (es_account s) (if es_account s then [] else sort (es_vaults s))])"

lemma write_effect:
  assumes "j < length (streams h)"
  shows "silent {} (streams h ! j) (streams (write_stream took f i h) ! j) \<or>
    j = i \<and> \<not> es_closed (streams h ! i) \<and> streams (write_stream took f i h) ! i = put_frame took f (streams h ! i)"
  using assms silent_closeStream [OF assms, of "{}" i] by (auto simp: write_stream_def upd_nth)

lemma heartbeat_effect:
  assumes "j < length (streams h)"
  shows "silent {} (streams h ! j) (streams (heartbeat_finish took result i h) ! j) \<or> publishes result (streams h ! j) (streams (heartbeat_finish took result i h) ! j)"
proof (cases "result = Some (es_user (streams h ! i)) \<and> \<not> es_closed (streams h ! i) \<and> \<not> es_blocked (streams h ! i)")
  case True
  then have e: "heartbeat_finish took result i h = upd i (\<lambda>s. s\<lparr>es_busy := False\<rparr>) (write_stream took Keep_alive i h)"
    by (simp add: heartbeat_finish_def authorized_def)
  have len: "j < length (streams (write_stream took Keep_alive i h))" using assms by simp
  from write_effect [OF assms, of took Keep_alive i] show ?thesis
  proof
    assume "silent {} (streams h ! j) (streams (write_stream took Keep_alive i h) ! j)"
    then show ?thesis unfolding e by (auto simp: upd_nth [OF len] silent_def)
  next
    assume "j = i \<and> \<not> es_closed (streams h ! i) \<and> streams (write_stream took Keep_alive i h) ! i = put_frame took Keep_alive (streams h ! i)"
    then have "streams (heartbeat_finish took result i h) ! j = (put_frame took Keep_alive (streams h ! j))\<lparr>es_busy := False\<rparr>" "j = i"
      unfolding e using len by (auto simp: upd_nth)
    then show ?thesis using True by (simp add: publishes_def put_frame_def Let_def)
  qed
next
  case False
  have "silent {} (streams h ! j) (streams (upd i (\<lambda>s. s\<lparr>es_busy := False\<rparr>) h1) ! j)"
    if "silent {} (streams h ! j) (streams h1 ! j)" "j < length (streams h1)" for h1
    using that by (auto simp: upd_nth silent_def)
  moreover have "heartbeat_finish took result i h = upd i (\<lambda>s. s\<lparr>es_busy := False\<rparr>) h \<or>
      heartbeat_finish took result i h = upd i (\<lambda>s. s\<lparr>es_busy := False\<rparr>) (closeStream i h)"
    using False by (auto simp: heartbeat_finish_def authorized_def Let_def)
  ultimately show ?thesis using silent_closeStream [OF assms] assms by (metis closeStream_simps(1) silent_refl)
qed

lemma flush_effect:
  assumes "j < length (streams h)" and i: "i < length (streams h)"
  shows "silent {} (streams h ! j) (streams (flush_finish took result i h) ! j) \<or> publishes result (streams h ! j) (streams (flush_finish took result i h) ! j)"
proof -
  let ?idle = "upd i (\<lambda>s. s\<lparr>es_flushing := False\<rparr>)" and ?s = "streams h ! i"
  let ?h2 = "upd i (\<lambda>s. s\<lparr>es_account := False, es_vaults := []\<rparr>) h"
  let ?f = "Invalidate (es_account ?s) (if es_account ?s then [] else sort (es_vaults ?s))"
  have idle: "silent {} (streams h ! j) (streams (?idle h1) ! j)" if "silent {} (streams h ! j) (streams h1 ! j)" "j < length (streams h1)" for h1
    using that by (auto simp: upd_nth silent_def)
  show ?thesis
  proof (cases "result = Some (es_user ?s) \<and> \<not> es_closed ?s \<and> \<not> es_blocked ?s \<and> pending ?s")
    case True
    define h3 where "h3 = ?idle (write_stream took ?f i ?h2)"
    have np2: "\<not> pending (streams ?h2 ! i)" using i by (simp add: upd_nth pending_def)
    have np: "\<not> pending (streams h3 ! i)" using i write_pending [OF _ np2, of took ?f] by (simp add: h3_def upd_nth pending_def)
    have "sort (es_vaults ?s) = [] \<longleftrightarrow> es_vaults ?s = []" by (metis length_0_conv length_sort)
    then have e: "flush_finish took result i h = h3"
      using True np by (auto simp: flush_finish_def authorized_def Let_def pending_def h3_def)
    show ?thesis
    proof (cases "j = i")
      case j: True
      have len2: "i < length (streams ?h2)" using i by simp
      have h2: "silent {} ?s (streams ?h2 ! i)" "es_user (streams ?h2 ! i) = es_user ?s" "es_frames (streams ?h2 ! i) = es_frames ?s" "es_vaults (streams ?h2 ! i) = []"
        using i by (simp_all add: upd_nth silent_def)
      have s3: "streams h3 ! i = (streams (write_stream took ?f i ?h2) ! i)\<lparr>es_flushing := False\<rparr>" using i by (simp add: h3_def upd_nth)
      from write_effect [OF len2, of took ?f i] show ?thesis
      proof
        assume "silent {} (streams ?h2 ! i) (streams (write_stream took ?f i ?h2) ! i)"
        then show ?thesis using h2 unfolding e j s3 by (auto simp: silent_def)
      next
        assume "i = i \<and> \<not> es_closed (streams ?h2 ! i) \<and> streams (write_stream took ?f i ?h2) ! i = put_frame took ?f (streams ?h2 ! i)"
        then have s3': "streams h3 ! i = (put_frame took ?f (streams ?h2 ! i))\<lparr>es_flushing := False\<rparr>" using s3 by simp
        have "es_user (streams h3 ! i) = es_user ?s" "es_vaults (streams h3 ! i) = []" "es_frames (streams h3 ! i) = es_frames ?s @ [?f]"
          unfolding s3' using h2 by (auto simp: put_frame_def Let_def)
        then show ?thesis using True np unfolding e j publishes_def by simp
      qed
    next
      case False
      have "streams (write_stream took ?f i ?h2) ! j = streams ?h2 ! j" using False assms by (simp add: write_stream_def closeStream_def upd_nth Let_def)
      then have "streams h3 ! j = streams h ! j" using False assms by (simp add: h3_def upd_nth)
      then show ?thesis by (simp add: e)
    qed
  next
    case False
    have "flush_finish took result i h \<in> {?idle h, ?idle (closeStream i h), ?idle ?h2}"
      using False by (auto simp: flush_finish_def authorized_def Let_def pending_def)
    moreover have "silent {} (streams h ! j) (streams ?h2 ! j)" using assms by (auto simp: upd_nth silent_def)
    ultimately show ?thesis using idle [of h] idle [of ?h2] idle [of "closeStream i h"] silent_closeStream [OF assms(1)] assms
      by auto
  qed
qed

lemma answered_effect:
  assumes "hub_inv opts {} h" and "j < length (streams h)"
  shows "silent {} (streams h ! j) (streams (answered took result k h) ! j) \<or> publishes result (streams h ! j) (streams (answered took result k h) ! j)"
proof (cases "k < length (waiting h)")
  case True
  obtain use i where w: "waiting h ! k = (use, i)" by force
  let ?h = "h\<lparr>waiting := take k (waiting h) @ drop (Suc k) (waiting h)\<rparr>"
  have i: "i < length (streams ?h)" "j < length (streams ?h)" using hub_inv_removed(2) [OF assms(1) True w] assms(2) by simp_all
  show ?thesis
  proof (cases use)
    case For_flush
    then show ?thesis using flush_effect [OF i(2,1), of took result] by (simp add: answered_def True w Let_def)
  next
    case For_heartbeat
    then show ?thesis using heartbeat_effect [OF i(2), of took result i] by (simp add: answered_def True w Let_def)
  next
    case For_commit
    then show ?thesis using silent_closeStream [OF i(2), of "{}" i] by (simp add: answered_def True w Let_def authorized_def)
  qed
qed (simp add: answered_def)

lemma attach_old: "j < length (streams h) \<Longrightarrow> streams (snd (attach opts user session took h)) ! j = streams h ! j"
  by (auto simp: attach_def write_stream_def upd_nth nth_append Let_def split: sum.splits)

text \<open>What a commit may add to a stream.\<close>

fun additions :: "hub_event \<Rightarrow> hub \<Rightarrow> string \<Rightarrow> string set" where
  "additions (Commit compared) h u = (case compared (watchedSessions h) of None \<Rightarrow> {} | Some im \<Rightarrow> {v. (u, v) \<in> marked_vaults im})"
| "additions ev h u = {}"

lemma step_effect:
  assumes "hub_inv opts {} h" and "j < length (streams h)"
  shows "silent (additions ev h (es_user (streams h ! j))) (streams h ! j) (streams (hub_step opts url_host ev h) ! j) \<or>
    (\<exists>k result took. ev = Answer k result took \<and> publishes result (streams h ! j) (streams (hub_step opts url_host ev h) ! j))"
proof (cases ev)
  case (Admit fs og hst user session took)
  then show ?thesis using attach_old [OF assms(2)] by (simp add: admit_def split: sum.splits)
next
  case (Commit compared)
  have 1: "silent {v. (es_user (streams h ! j), v) \<in> marked_vaults im} (streams h ! j) (streams (fold (notify_stream opts im) (members h) h) ! j)" for im
    by (rule silent_fold [OF _ assms(2) refl]) (use silent_notify in force)
  have "silent {} (streams g ! j) (streams (await_auth For_commit i (upd i (mark opts True []) g)) ! j)" if "j < length (streams g)" for i g
    using silent_upd [OF that, of "{}" i "mark opts True []"] silent_mark [of "[]"] by simp
  then have 2: "silent {} (streams h ! j) (streams (fold (\<lambda>i g. await_auth For_commit i (upd i (mark opts True []) g)) (members h) h) ! j)"
    by (intro silent_fold [OF _ assms(2) refl]) simp
  show ?thesis using Commit 1 2 by (auto simp: onCommit_def split: option.splits)
next
  case Broadcast
  have "silent {} (streams g ! j) (streams (upd i (mark opts True []) g) ! j)" if "j < length (streams g)" for i g
    using silent_upd [OF that, of "{}" i "mark opts True []"] silent_mark [of "[]"] by simp
  then have "silent {} (streams h ! j) (streams (fold (\<lambda>i. upd i (mark opts True [])) (members h) h) ! j)"
    by (intro silent_fold [OF _ assms(2) refl]) simp
  then show ?thesis using Broadcast by (simp add: broadcastAccountInvalidation_def)
next
  case Close
  have "silent {} (streams h ! j) (streams (fold closeStream (members h) (h\<lparr>hub_closed := True\<rparr>)) ! j)"
    using silent_fold [of j "es_user (streams h ! j)" "{}" closeStream "h\<lparr>hub_closed := True\<rparr>"] silent_closeStream assms(2) by simp
  then show ?thesis using Close by (simp add: close_def closeAll_def)
next
  case (Answer k result took)
  then show ?thesis using answered_effect [OF assms, of took result k] by simp
qed (use assms(2) silent_closeStream [OF assms(2), of "{}"] in
    \<open>auto simp: flush_timer_def flush_start_def heartbeat_timer_def stall_timer_def drained_def drain_stream_def schedule_def upd_nth silent_def Let_def\<close>)

lemma hub_publishes:
  assumes "hub_reachable opts url_host A h" and "j < length (streams h)"
    and "es_frames (streams (hub_step opts url_host ev h) ! j) \<noteq> es_frames (streams h ! j)"
  shows "\<exists>k took. ev = Answer k (Some (es_user (streams h ! j))) took \<and> \<not> es_closed (streams h ! j) \<and> \<not> es_blocked (streams h ! j) \<and>
    (es_frames (streams (hub_step opts url_host ev h) ! j) = es_frames (streams h ! j) @ [Keep_alive] \<or>
     pending (streams h ! j) \<and> \<not> pending (streams (hub_step opts url_host ev h) ! j) \<and>
     es_frames (streams (hub_step opts url_host ev h) ! j) = es_frames (streams h ! j) @
       [Invalidate (es_account (streams h ! j)) (if es_account (streams h ! j) then [] else sort (es_vaults (streams h ! j)))])"
  using step_effect [OF hub_reachable_inv [OF assms(1)] assms(2), of ev url_host] assms(3) unfolding silent_def publishes_def by blast

text \<open>C6. Nothing is written to an attached stream but in answer to the authenticator confirming that its session still belongs to
  the stream's account. An invalidation carries exactly what was pending, the account or the sorted ids, and nothing is pending
  after it.\<close>

theorem publish_authorized:
  assumes "hub_reachable opts url_host A h" and "j < length (streams h)"
    and "es_frames (streams (hub_step opts url_host ev h) ! j) \<noteq> es_frames (streams h ! j)"
  shows "\<exists>k took. ev = Answer k (Some (es_user (streams h ! j))) took \<and> \<not> es_closed (streams h ! j) \<and> \<not> es_blocked (streams h ! j) \<and>
    (es_frames (streams (hub_step opts url_host ev h) ! j) = es_frames (streams h ! j) @ [Keep_alive] \<or>
     pending (streams h ! j) \<and> \<not> pending (streams (hub_step opts url_host ev h) ! j) \<and>
     es_frames (streams (hub_step opts url_host ev h) ! j) = es_frames (streams h ! j) @
       [Invalidate (es_account (streams h ! j)) (if es_account (streams h ! j) then [] else sort (es_vaults (streams h ! j)))])"
  using assms by (rule hub_publishes)

lemma sample_hub_flush:
  "length (streams (hub_step DEFAULTS Some (Flush_timer 0) sample_hub)) = 1"
  "streams (hub_step DEFAULTS Some (Flush_timer 0) sample_hub) ! 0 = \<lparr>es_user = ''u'', es_session = ''s'', es_closed = False, es_blocked = False, es_flushing = True,
      es_busy = False, es_account = False, es_vaults = [''v''], es_flushTimer = False, es_heartbeatTimer = True, es_stallTimer = False, es_gone = False, es_frames = [Refresh]\<rparr>"
  "waiting (hub_step DEFAULTS Some (Flush_timer 0) sample_hub) = [(For_flush, 0)]"
  by (simp_all add: sample_hub_def DEFAULTS_def create_hub_def admit_def attach_def assertSameOrigin_def assertCapacity_def write_stream_def put_frame_def onCommit_def
      notify_stream_def upd_def mark_def schedule_def pending_def set_add_def Let_def flush_timer_def flush_start_def await_auth_def)

theorem publish_authorized_witness:
  "let h = hub_step DEFAULTS Some (Flush_timer 0) sample_hub; h' = hub_step DEFAULTS Some (Answer 0 (Some ''u'') True) h
   in es_frames (streams h' ! 0) = [Refresh, Invalidate False [''v'']] \<and> \<not> pending (streams h' ! 0)"
proof -
  define h where "h = hub_step DEFAULTS Some (Flush_timer 0) sample_hub"
  have r: "hub_reachable DEFAULTS Some (\<lambda>_. True) h" unfolding h_def by (rule hub_next [OF sample_hub_reachable]) simp
  have h: "length (streams h) = 1" "streams h ! 0 = \<lparr>es_user = ''u'', es_session = ''s'', es_closed = False, es_blocked = False, es_flushing = True,
      es_busy = False, es_account = False, es_vaults = [''v''], es_flushTimer = False, es_heartbeatTimer = True, es_stallTimer = False, es_gone = False, es_frames = [Refresh]\<rparr>"
    "waiting h = [(For_flush, 0)]"
    unfolding h_def by (fact sample_hub_flush)+
  have "es_frames (streams (hub_step DEFAULTS Some (Answer 0 (Some ''u'') True) h) ! 0) = [Refresh, Invalidate False [''v'']]"
    using h by (simp add: answered_def flush_finish_def authorized_def write_stream_def put_frame_def upd_def pending_def Let_def)
  then show ?thesis using publish_authorized [OF r, of 0 "Answer 0 (Some ''u'') True"] h unfolding Let_def h_def [symmetric] by simp
qed

lemma fold_length: "(\<And>i g. length (streams (f i g)) = length (streams g)) \<Longrightarrow> length (streams (fold f is h)) = length (streams h)"
  by (induction "is" arbitrary: h) auto

lemma flush_length: "length (streams (flush_finish took result i h)) = length (streams h)"
  by (auto simp: flush_finish_def Let_def authorized_def)

lemma heartbeat_length: "length (streams (heartbeat_finish took result i h)) = length (streams h)"
  by (auto simp: heartbeat_finish_def Let_def authorized_def)

lemma answered_length: "length (streams (answered took result k h)) = length (streams h)"
proof (cases "k < length (waiting h)")
  case True
  obtain use i where "waiting h ! k = (use, i)" by force
  then show ?thesis using True by (cases use) (simp_all add: answered_def Let_def flush_length heartbeat_length)
qed (simp add: answered_def)

lemma step_length: "(\<exists>fs og hst user session took. ev = Admit fs og hst user session took) \<or> length (streams (hub_step opts url_host ev h)) = length (streams h)"
  by (cases ev) (auto simp: onCommit_def broadcastAccountInvalidation_def close_def closeAll_def flush_timer_def flush_start_def heartbeat_timer_def
      stall_timer_def drained_def answered_length fold_length Let_def split: option.splits)

lemma attach_new:
  assumes "j < length (streams (snd (attach opts user session took h)))" and "\<not> j < length (streams h)"
  shows "es_vaults (streams (snd (attach opts user session took h)) ! j) = [] \<and> es_frames (streams (snd (attach opts user session took h)) ! j) = [Refresh]"
proof -
  have "j = length (streams h)" "\<exists>x. assertCapacity opts user session h = Inr x" using assms by (auto simp: attach_def Let_def split: sum.splits)
  then show ?thesis by (auto simp: attach_def write_stream_def upd_def put_frame_def Let_def)
qed

text \<open>What the hub relies on of the commits: the vaults that an impact marks are among \<open>P\<close>. Then the vault ids that reach an account are.\<close>

locale commit_feed =
  fixes A :: "hub_event \<Rightarrow> bool" and P :: "(string \<times> string) set"
  assumes marks: "A (Commit compared) \<Longrightarrow> compared w = Some im \<Longrightarrow> marked_vaults im \<subseteq> P"
begin

lemma isolated:
  assumes "hub_reachable opts url_host A h" and "j < length (streams h)"
  shows "(\<forall>v\<in>set (es_vaults (streams h ! j)). (es_user (streams h ! j), v) \<in> P) \<and>
    (\<forall>a ids v. Invalidate a ids \<in> set (es_frames (streams h ! j)) \<longrightarrow> v \<in> set ids \<longrightarrow> (es_user (streams h ! j), v) \<in> P)"
  using assms
proof (induction arbitrary: j rule: hub_reachable.induct)
  case (hub_next h ev)
  note inv = hub_reachable_inv [OF hub_next.hyps(1)]
  let ?h = "hub_step opts url_host ev h"
  show ?case
  proof (cases "j < length (streams h)")
    case True
    have add: "(es_user (streams h ! j), v) \<in> P" if "v \<in> additions ev h (es_user (streams h ! j))" for v
      using that marks hub_next.hyps(2) by (cases ev) (auto split: option.splits)
    note IH = hub_next.IH [OF True]
    from step_effect [OF inv True, of ev url_host] show ?thesis
    proof
      assume s: "silent (additions ev h (es_user (streams h ! j))) (streams h ! j) (streams ?h ! j)"
      have f: "es_user (streams ?h ! j) = es_user (streams h ! j)" "es_frames (streams ?h ! j) = es_frames (streams h ! j)" using s by (auto simp: silent_def)
      have "(es_user (streams h ! j), v) \<in> P" if "v \<in> set (es_vaults (streams ?h ! j))" for v
        using s that IH add [of v] unfolding silent_def by blast
      then show ?thesis using IH unfolding f by blast
    next
      assume "\<exists>k result took. ev = Answer k result took \<and> publishes result (streams h ! j) (streams ?h ! j)"
      then have u: "es_user (streams ?h ! j) = es_user (streams h ! j)" "set (es_vaults (streams ?h ! j)) \<subseteq> set (es_vaults (streams h ! j))"
        and f: "es_frames (streams ?h ! j) = es_frames (streams h ! j) @ [Keep_alive] \<or> es_frames (streams ?h ! j) =
          es_frames (streams h ! j) @ [Invalidate (es_account (streams h ! j)) (if es_account (streams h ! j) then [] else sort (es_vaults (streams h ! j)))]"
        unfolding publishes_def by blast+
      show ?thesis using IH u f by (auto split: if_splits)
    qed
  next
    case False
    then obtain fs og hst user session took where ev: "ev = Admit fs og hst user session took" using step_length [of ev opts url_host h] hub_next.prems by fastforce
    then have "?h = snd (attach opts user session took h) \<or> ?h = h" by (auto simp: admit_def split: sum.splits)
    then show ?thesis using attach_new [of j opts user session took h] False hub_next.prems by auto
  qed
qed (simp add: create_hub_def)

end

end
