(* ===== verification/RefreshScheduler.thy ===== *)
theory RefreshScheduler
  imports Prelude
begin

text \<open>
  \<^verbatim>\<open>frontend/dashboard/src/refreshScheduler.ts\<close>: the scheduler that merges the dashboard's refresh triggers. The
  private fields of the class are the first fields of the record; \<open>outstanding\<close> are the closures handed out by \<open>begin\<close>
  and the settle handlers of runs that have not been called yet, each with the generation it captured, and \<open>history\<close> is
  what was requested, started and reset so far, newest first. The callback \<open>run\<close> may call back into the scheduler before
  it returns or throws: an \<open>outcome\<close> is the list of those calls and whether it throws; a list of outcomes serves the
  runs of one turn of the event loop in order, and a run beyond its end returns a promise at once. The callback calls \<open>request\<close>, \<open>begin\<close> or
  \<open>reset\<close>; a callback that calls the closure of an earlier \<open>begin\<close> before it returns is not modelled.
\<close>

datatype scope = Vault | Full

definition mergeRefreshScope :: "scope option \<Rightarrow> scope \<Rightarrow> scope" where
  "mergeRefreshScope current next = (if current = Some Full \<or> next = Full then Full else Vault)"

datatype refresh_event = Requested scope | Started scope nat | Was_reset

record scheduler =
  active :: nat
  pending :: "scope option"
  generation :: nat
  flushQueued :: bool
  runs :: nat
  next_token :: nat
  outstanding :: "(nat \<times> nat) list"
  history :: "refresh_event list"

definition newScheduler :: scheduler where
  "newScheduler = \<lparr>active = 0, pending = None, generation = 0, flushQueued = False, runs = 0, next_token = 0, outstanding = [], history = []\<rparr>"

definition in_flight :: "scheduler \<Rightarrow> nat" where
  "in_flight st = length (filter (\<lambda>(i, g). g = generation st) (outstanding st))"

definition queueFlush :: "scheduler \<Rightarrow> scheduler" where
  "queueFlush st = st\<lparr>flushQueued := True\<rparr>"

definition request_refresh :: "scope \<Rightarrow> scheduler \<Rightarrow> scheduler" where
  "request_refresh s st =
     (let st' = st\<lparr>pending := Some (mergeRefreshScope (pending st) s), history := Requested s # history st\<rparr>
      in if active st' = 0 then queueFlush st' else st')"

definition begin_work :: "scheduler \<Rightarrow> scheduler" where
  "begin_work st = st\<lparr>active := active st + 1, next_token := next_token st + 1, outstanding := (next_token st, generation st) # outstanding st\<rparr>"

definition reset_scheduler :: "scheduler \<Rightarrow> scheduler" where
  "reset_scheduler st = st\<lparr>generation := generation st + 1, active := 0, pending := None, history := Was_reset # history st\<rparr>"

datatype scheduler_call = Request scope | Begin | Reset

fun call :: "scheduler_call \<Rightarrow> scheduler \<Rightarrow> scheduler" where
  "call (Request s) st = request_refresh s st"
| "call Begin st = begin_work st"
| "call Reset st = reset_scheduler st"

type_synonym run_outcome = "scheduler_call list \<times> bool"

definition drop_token :: "nat \<Rightarrow> scheduler \<Rightarrow> scheduler" where
  "drop_token i st = st\<lparr>outstanding := filter (\<lambda>(j, g). j \<noteq> i) (outstanding st)\<rparr>"

text \<open>The part of \<open>flush\<close> before the callback.\<close>

definition start_run :: "scope \<Rightarrow> scheduler \<Rightarrow> scheduler" where
  "start_run s st = (begin_work (st\<lparr>pending := None, history := Started s (in_flight st) # history st\<rparr>))\<lparr>runs := runs st + 1\<rparr>"

fun flush :: "run_outcome list \<Rightarrow> scheduler \<Rightarrow> scheduler" where
  "flush [] st =
     (case pending st of None \<Rightarrow> st | Some s \<Rightarrow> if active st > 0 then st else start_run s st)"
| "flush ((calls, throws) # outs) st =
     (case pending st of
        None \<Rightarrow> st
      | Some s \<Rightarrow>
          if active st > 0 then st
          else let g = generation st; i = next_token st; st1 = fold call calls (start_run s st)
               in if \<not> throws then st1
                  else let st2 = drop_token i st1
                       in if g \<noteq> generation st2 then st2 else flush outs (st2\<lparr>active := active st2 - 1\<rparr>))"

text \<open>The microtask of \<open>queueFlush\<close>, and a call of an outstanding closure. Calling one again does nothing.\<close>

definition microtask :: "run_outcome list \<Rightarrow> scheduler \<Rightarrow> scheduler" where
  "microtask outs st = (if flushQueued st then flush outs (st\<lparr>flushQueued := False\<rparr>) else st)"

definition end_work :: "run_outcome list \<Rightarrow> nat \<Rightarrow> scheduler \<Rightarrow> scheduler" where
  "end_work outs i st =
     (case map_of (outstanding st) i of
        None \<Rightarrow> st
      | Some g \<Rightarrow>
          let st' = drop_token i st
          in if g \<noteq> generation st' then st' else flush outs (st'\<lparr>active := active st' - 1\<rparr>))"

inductive scheduler_step :: "scheduler \<Rightarrow> scheduler \<Rightarrow> bool" where
  step_call: "scheduler_step st (call c st)"
| step_microtask: "scheduler_step st (microtask outs st)"
| step_end: "scheduler_step st (end_work outs i st)"

section \<open>No trigger is dropped\<close>

text \<open>What is owed after a history: everything requested since the last run started or the last reset.\<close>

fun owed :: "refresh_event list \<Rightarrow> scope option" where
  "owed [] = None"
| "owed (Requested s # h) = Some (mergeRefreshScope (owed h) s)"
| "owed (Started s n # h) = None"
| "owed (Was_reset # h) = None"

fun history_ok :: "refresh_event list \<Rightarrow> bool" where
  "history_ok [] \<longleftrightarrow> True"
| "history_ok (Started s n # h) \<longleftrightarrow> owed h = Some s \<and> n = 0 \<and> history_ok h"
| "history_ok (x # h) \<longleftrightarrow> history_ok h"

definition tokens_ok :: "scheduler \<Rightarrow> bool" where
  "tokens_ok st \<longleftrightarrow> active st = in_flight st \<and> distinct (map fst (outstanding st)) \<and>
     (\<forall>(i, g)\<in>set (outstanding st). i < next_token st \<and> g \<le> generation st)"

definition books_ok :: "scheduler \<Rightarrow> bool" where
  "books_ok st \<longleftrightarrow> pending st = owed (history st) \<and> history_ok (history st)"

definition awake :: "scheduler \<Rightarrow> bool" where
  "awake st \<longleftrightarrow> (pending st \<noteq> None \<longrightarrow> active st > 0 \<or> flushQueued st)"

lemma begin_work_ok: "tokens_ok st \<Longrightarrow> tokens_ok (begin_work st)"
  by (fastforce simp: tokens_ok_def begin_work_def in_flight_def)

lemma call_ok:
  assumes "tokens_ok st" and "books_ok st"
  shows "tokens_ok (call c st) \<and> books_ok (call c st) \<and> (awake st \<longrightarrow> awake (call c st)) \<and>
    next_token st \<le> next_token (call c st) \<and> generation st \<le> generation (call c st)"
proof (cases c)
  case (Request s)
  with assms show ?thesis
    by (auto simp: request_refresh_def queueFlush_def tokens_ok_def books_ok_def awake_def in_flight_def Let_def)
next
  case Begin
  with assms begin_work_ok [OF assms(1)] show ?thesis by (auto simp: books_ok_def awake_def begin_work_def)
next
  case Reset
  have "filter (\<lambda>(i, g). g = Suc (generation st)) (outstanding st) = []"
    using assms(1) by (auto simp: tokens_ok_def filter_empty_conv)
  with Reset assms show ?thesis by (auto simp: reset_scheduler_def tokens_ok_def books_ok_def awake_def in_flight_def)
qed

text \<open>The token of a run stays outstanding, in its generation, while its callback makes calls.\<close>

lemma call_token: "(i, g) \<in> set (outstanding st) \<Longrightarrow> (i, g) \<in> set (outstanding (call c st))"
  by (cases c) (auto simp: request_refresh_def queueFlush_def begin_work_def reset_scheduler_def Let_def)

lemma calls_ok:
  assumes "tokens_ok st" and "books_ok st"
  shows "tokens_ok (fold call cs st) \<and> books_ok (fold call cs st) \<and> (awake st \<longrightarrow> awake (fold call cs st)) \<and>
    set (outstanding st) \<subseteq> set (outstanding (fold call cs st))"
  using assms
proof (induction cs arbitrary: st)
  case (Cons c cs)
  with call_ok [OF Cons.prems, of c] Cons.IH [of "call c st"] call_token [of _ _ st c] show ?case by auto
qed simp

lemma start_run_ok:
  assumes "tokens_ok st" and "books_ok st" and "active st = 0" and "pending st = Some s"
  shows "tokens_ok (start_run s st) \<and> books_ok (start_run s st) \<and> awake (start_run s st) \<and> pending (start_run s st) = None \<and>
    (next_token st, generation st) \<in> set (outstanding (start_run s st))"
  using assms begin_work_ok [of "st\<lparr>pending := None, history := Started s (in_flight st) # history st\<rparr>"]
  by (auto simp: start_run_def tokens_ok_def books_ok_def awake_def begin_work_def in_flight_def)

lemma drop_token_filter:
  assumes "distinct (map fst xs)" and "(i, g) \<in> set xs"
  shows "length (filter (\<lambda>(j, h). h = k) (filter (\<lambda>(j, h). j \<noteq> i) xs)) = length (filter (\<lambda>(j, h). h = k) xs) - (if g = k then 1 else 0)"
  using assms
proof (induction xs)
  case (Cons x xs)
  show ?case
  proof (cases "x = (i, g)")
    case True
    then have "filter (\<lambda>(j, h). j \<noteq> i) xs = xs" using Cons.prems by (force simp: filter_id_conv)
    with True show ?thesis by simp
  next
    case False
    with Cons.prems have "(i, g) \<in> set xs" by auto
    moreover from this Cons.prems have "fst x \<noteq> i" by (auto simp: image_iff)
    moreover have "0 < length (filter (\<lambda>(j, h). h = k) xs)" if "g = k" using \<open>(i, g) \<in> set xs\<close> that by (force simp: filter_empty_conv)
    ultimately show ?thesis using Cons by auto
  qed
qed simp

lemma settle_ok:
  assumes "tokens_ok st" and "books_ok st" and "(i, g) \<in> set (outstanding st)"
  shows "books_ok (drop_token i st)" and "g \<noteq> generation st \<Longrightarrow> tokens_ok (drop_token i st)"
    and "g = generation st \<Longrightarrow> tokens_ok ((drop_token i st)\<lparr>active := active st - 1\<rparr>)"
  using assms drop_token_filter [of "outstanding st" i g "generation st"]
  by (auto simp: drop_token_def tokens_ok_def books_ok_def in_flight_def distinct_map_filter)

lemma drop_token_simps [simp]:
  "active (drop_token i st) = active st" "pending (drop_token i st) = pending st" "generation (drop_token i st) = generation st"
  "flushQueued (drop_token i st) = flushQueued st" "history (drop_token i st) = history st"
  by (simp_all add: drop_token_def)

lemma flush_ok:
  assumes "tokens_ok st" and "books_ok st"
  shows "tokens_ok (flush outs st) \<and> books_ok (flush outs st) \<and> awake (flush outs st)"
  using assms
proof (induction outs st rule: flush.induct)
  case (1 st)
  then show ?case using start_run_ok [OF 1] by (cases "pending st") (auto simp: awake_def)
next
  case (2 calls throws outs st)
  show ?case
  proof (cases "active st = 0 \<and> pending st \<noteq> None")
    case False
    with 2 show ?thesis by (cases "pending st") (auto simp: awake_def)
  next
    case True
    then obtain s where s: "pending st = Some s" "active st = 0" by auto
    define st1 where "st1 = fold call calls (start_run s st)"
    have run: "tokens_ok st1" "books_ok st1" "awake st1" "(next_token st, generation st) \<in> set (outstanding st1)"
      using start_run_ok [OF 2(2,3) s(2,1)] calls_ok [of "start_run s st" calls] by (auto simp: st1_def)
    note settled = settle_ok [OF run(1,2,4)]
    show ?thesis
    proof (cases "throws \<and> generation st = generation st1")
      case True
      have "tokens_ok ((drop_token (next_token st) st1)\<lparr>active := active st1 - 1\<rparr>)"
        and "books_ok ((drop_token (next_token st) st1)\<lparr>active := active st1 - 1\<rparr>)"
        using settled True by (auto simp: books_ok_def)
      then show ?thesis using 2(1) [OF s(1) _ refl refl refl _ refl] s True by (simp add: st1_def [symmetric] Let_def)
    next
      case False
      then show ?thesis using s run settled by (auto simp: st1_def [symmetric] Let_def awake_def)
    qed
  qed
qed

lemma scheduler_step_ok:
  assumes "scheduler_step st st'" and "tokens_ok st \<and> books_ok st \<and> awake st"
  shows "tokens_ok st' \<and> books_ok st' \<and> awake st'"
  using assms
proof (induction rule: scheduler_step.induct)
  case (step_call st c)
  then show ?case using call_ok [of st c] by blast
next
  case (step_microtask st outs)
  have "tokens_ok (st\<lparr>flushQueued := False\<rparr>)" "books_ok (st\<lparr>flushQueued := False\<rparr>)"
    using step_microtask by (auto simp: tokens_ok_def books_ok_def in_flight_def)
  with step_microtask show ?case using flush_ok by (simp add: microtask_def)
next
  case (step_end st outs i)
  show ?case
  proof (cases "map_of (outstanding st) i")
    case (Some g)
    then have "(i, g) \<in> set (outstanding st)" by (rule map_of_SomeD)
    with step_end settle_ok [of st i g] flush_ok [of "(drop_token i st)\<lparr>active := active st - 1\<rparr>" outs] Some show ?thesis
      by (auto simp: end_work_def Let_def books_ok_def awake_def)
  qed (use step_end in \<open>simp add: end_work_def\<close>)
qed

interpretation refreshes: invariant_system "\<lambda>st. st = newScheduler" scheduler_step "\<lambda>st. tokens_ok st \<and> books_ok st \<and> awake st"
proof
  show "tokens_ok st \<and> books_ok st \<and> awake st" if "st = newScheduler" for st
    using that by (simp add: newScheduler_def tokens_ok_def books_ok_def awake_def in_flight_def)
qed (rule scheduler_step_ok)

lemmas scheduler_reachable_ok = refreshes.reachable [OF refl]

lemma history_ok_append: "history_ok (newer @ h) \<Longrightarrow> history_ok h"
proof (induction newer)
  case (Cons x newer)
  then show ?case by (cases x) auto
qed simp


text \<open>C40. A refresh trigger is never dropped and never runs against work in flight. In every state the pending scope is
  exactly what was requested since the last run started or the last reset, with \<open>full\<close> beating \<open>vault\<close>; every run was
  started with exactly what was owed then, when nothing of its generation was in flight; and while something is pending,
  a microtask is queued or work is in flight whose end flushes it.\<close>

theorem refresh_obligations:
  assumes "scheduler_step\<^sup>*\<^sup>* newScheduler st"
  shows "pending st = owed (history st) \<and>
    (\<forall>newer s n older. history st = newer @ Started s n # older \<longrightarrow> owed older = Some s \<and> n = 0) \<and>
    active st = in_flight st \<and>
    (pending st \<noteq> None \<longrightarrow> flushQueued st \<or> (\<exists>i. (i, generation st) \<in> set (outstanding st)))"
proof -
  note ok = scheduler_reachable_ok [OF assms]
  have "owed older = Some s \<and> n = 0" if "history st = newer @ Started s n # older" for newer s n older
    using ok history_ok_append [of newer "Started s n # older"] that by (simp add: books_ok_def)
  moreover have "\<exists>i. (i, generation st) \<in> set (outstanding st)" if "active st > 0"
    using that ok by (auto simp: tokens_ok_def in_flight_def filter_empty_conv)
  ultimately show ?thesis using ok by (auto simp: books_ok_def tokens_ok_def awake_def)
qed

theorem refresh_obligations_witness:
  "pending (microtask [] (call (Request Vault) (call (Request Full) newScheduler))) = None \<and>
   history (microtask [] (call (Request Vault) (call (Request Full) newScheduler))) = [Started Full 0, Requested Vault, Requested Full] \<and>
   owed [Requested Vault, Requested Full] = Some Full"
proof -
  have "scheduler_step\<^sup>*\<^sup>* newScheduler (microtask [] (call (Request Vault) (call (Request Full) newScheduler)))"
    by (meson rtranclp.rtrancl_refl rtranclp.rtrancl_into_rtrancl step_call step_microtask)
  note r = refresh_obligations [OF this]
  moreover have h: "history (microtask [] (call (Request Vault) (call (Request Full) newScheduler))) = [] @ Started Full 0 # [Requested Vault, Requested Full]"
    by code_simp
  ultimately have "owed [Requested Vault, Requested Full] = Some Full" by blast
  with r h show ?thesis by simp
qed

end
