(* ===== verification/LiveUpdates.thy ===== *)
theory LiveUpdates
  imports RefreshScheduler Json
begin

text \<open>
  \<^verbatim>\<open>frontend/dashboard/src/liveUpdates.ts\<close>: the dashboard's end of the event stream. An open \<open>EventSource\<close> is named by the
  connection id its listeners captured; \<open>opened\<close> has those that were constructed and not closed. A timer is the delay it was set
  with; its firing, the frames of a stream (also of one that is no longer current), the answers of session checks and the
  changes of visibility are steps. \<open>works\<close> says whether the constructor of an event source returns. The refreshes asked for and the
  changes of state reported are kept, newest first; the callbacks do not call back. \<open>JSON.parse\<close> is the parameter \<open>json_parse\<close>.
\<close>

datatype live_state = Connecting | Live | Reconnecting | Unsupported | Paused

datatype refresh_source = From_connect | From_event | From_poll | From_visibility

record live_options =
  has_event_source :: bool
  fallbackIntervalMs :: nat
  agingIntervalMs :: nat
  reconnectBaseMs :: nat
  reconnectMaxMs :: nat
  jitterRatio :: rat

record live =
  lv_state :: live_state
  lv_started :: bool
  lv_paused :: bool
  lv_source :: "nat option"
  lv_connectionId :: nat
  lv_epoch :: nat
  lv_failures :: nat
  lv_reconnectTimer :: "rat option"
  lv_tickTimer :: "nat option"
  lv_hideTimer :: bool
  lv_listening :: bool
  lv_lastSessionCheckAt :: "nat option"
  lv_checkInFlight :: bool
  lv_opened :: "nat list"
  lv_checks :: "nat list"
  lv_requests :: "(scope \<times> refresh_source) list"
  lv_changes :: "(live_state \<times> live_state) list"

definition new_live :: live where
  "new_live = \<lparr>lv_state = Connecting, lv_started = False, lv_paused = False, lv_source = None, lv_connectionId = 0, lv_epoch = 0, lv_failures = 0,
     lv_reconnectTimer = None, lv_tickTimer = None, lv_hideTimer = False, lv_listening = False, lv_lastSessionCheckAt = None, lv_checkInFlight = False,
     lv_opened = [], lv_checks = [], lv_requests = [], lv_changes = []\<rparr>"

section \<open>Frames\<close>

text \<open>The data of a frame is \<open>None\<close> when it is not a string.\<close>

definition parseInvalidation :: "(string \<Rightarrow> json option) \<Rightarrow> string option \<Rightarrow> (bool \<times> string list) option" where
  "parseInvalidation json_parse data =
     (case data of
        None \<Rightarrow> None
      | Some text \<Rightarrow>
          (case json_parse text of
             Some (JObj kvs) \<Rightarrow>
               (case jprop (JObj kvs) ''account'' of
                  Some (JBool account) \<Rightarrow>
                    (case as_array (jprop (JObj kvs) ''vault_ids'') of
                       None \<Rightarrow> None
                     | Some ids \<Rightarrow> map_option (\<lambda>ss. (account, ss)) (as_strings ids))
                | _ \<Rightarrow> None)
           | _ \<Rightarrow> None))"

definition invalidation_scope :: "(string \<Rightarrow> json option) \<Rightarrow> string \<Rightarrow> string option \<Rightarrow> scope option" where
  "invalidation_scope json_parse selected data =
     (case parseInvalidation json_parse data of
        None \<Rightarrow> Some Full
      | Some (account, ids) \<Rightarrow> if account then Some Full else if selected \<noteq> [] \<and> selected \<in> set ids then Some Vault else None)"

section \<open>Operations\<close>

definition backoffMs :: "live_options \<Rightarrow> int \<Rightarrow> nat" where
  "backoffMs opts step = min (reconnectMaxMs opts) (reconnectBaseMs opts * 2 ^ nat (max 0 step))"

definition rescheduleTick :: "live_options \<Rightarrow> live \<Rightarrow> live" where
  "rescheduleTick opts s =
     (if \<not> lv_started s \<or> lv_paused s then s\<lparr>lv_tickTimer := None\<rparr>
      else s\<lparr>lv_tickTimer := Some (if lv_state s = Live then agingIntervalMs opts else fallbackIntervalMs opts)\<rparr>)"

definition setState :: "live_options \<Rightarrow> live_state \<Rightarrow> live \<Rightarrow> live" where
  "setState opts nxt s =
     (if nxt = lv_state s then s
      else let s' = rescheduleTick opts (s\<lparr>lv_state := nxt\<rparr>) in s'\<lparr>lv_changes := (nxt, lv_state s) # lv_changes s'\<rparr>)"

definition emit :: "scope \<Rightarrow> refresh_source \<Rightarrow> live \<Rightarrow> live" where
  "emit sc src s = s\<lparr>lv_requests := (sc, src) # lv_requests s\<rparr>"

definition connect :: "live_options \<Rightarrow> bool \<Rightarrow> live \<Rightarrow> live" where
  "connect opts works s =
     (if \<not> lv_started s \<or> lv_paused s \<or> lv_source s \<noteq> None then s
      else if \<not> has_event_source opts \<or> \<not> works then rescheduleTick opts (setState opts Unsupported s)
      else
        let cid = lv_connectionId s + 1;
            s1 = s\<lparr>lv_source := Some cid, lv_connectionId := cid, lv_opened := cid # lv_opened s\<rparr>;
            s2 = (if lv_state s1 \<noteq> Reconnecting then setState opts Connecting s1 else s1)
        in rescheduleTick opts s2)"

definition closeSource :: "live \<Rightarrow> live" where
  "closeSource s = s\<lparr>lv_source := None, lv_connectionId := lv_connectionId s + 1,
     lv_opened := (case lv_source s of None \<Rightarrow> lv_opened s | Some cid \<Rightarrow> filter (\<lambda>j. j \<noteq> cid) (lv_opened s))\<rparr>"

definition armHideTimer :: "live \<Rightarrow> live" where
  "armHideTimer s = (if lv_hideTimer s \<or> lv_paused s then s else s\<lparr>lv_hideTimer := True\<rparr>)"

definition start_live :: "live_options \<Rightarrow> bool \<Rightarrow> bool \<Rightarrow> live \<Rightarrow> live" where
  "start_live opts hidden works s =
     (if lv_started s then s
      else
        let s1 = setState opts Connecting (s\<lparr>lv_started := True, lv_epoch := lv_epoch s + 1, lv_paused := False, lv_failures := 0, lv_lastSessionCheckAt := None\<rparr>);
            s2 = s1\<lparr>lv_listening := True\<rparr>
        in connect opts works (if hidden then armHideTimer s2 else s2))"

definition stop_live :: "live_options \<Rightarrow> live \<Rightarrow> live" where
  "stop_live opts s =
     (if \<not> lv_started s then s
      else setState opts Connecting ((closeSource (s\<lparr>lv_started := False, lv_paused := False, lv_epoch := lv_epoch s + 1\<rparr>))
        \<lparr>lv_reconnectTimer := None, lv_tickTimer := None, lv_hideTimer := False, lv_listening := False, lv_checkInFlight := False\<rparr>))"

definition isCurrent :: "nat \<Rightarrow> live \<Rightarrow> bool" where
  "isCurrent cid s \<longleftrightarrow> lv_started s \<and> \<not> lv_paused s \<and> lv_source s \<noteq> None \<and> cid = lv_connectionId s"

definition onRefreshEvent :: "live_options \<Rightarrow> nat \<Rightarrow> live \<Rightarrow> live" where
  "onRefreshEvent opts cid s =
     (if \<not> isCurrent cid s then s else emit Full From_connect (setState opts Live (s\<lparr>lv_failures := 0, lv_reconnectTimer := None\<rparr>)))"

definition onInvalidateEvent :: "(string \<Rightarrow> json option) \<Rightarrow> string \<Rightarrow> nat \<Rightarrow> string option \<Rightarrow> live \<Rightarrow> live" where
  "onInvalidateEvent json_parse selected cid data s =
     (if \<not> isCurrent cid s then s
      else case invalidation_scope json_parse selected data of None \<Rightarrow> s | Some sc \<Rightarrow> emit sc From_event s)"

definition scheduleReconnect :: "live_options \<Rightarrow> rat \<Rightarrow> live \<Rightarrow> live" where
  "scheduleReconnect opts random s =
     (if \<not> lv_started s \<or> lv_paused s then s\<lparr>lv_reconnectTimer := None\<rparr>
      else let delay = of_nat (backoffMs opts (int (lv_failures s) - 1))
           in s\<lparr>lv_reconnectTimer := Some (delay + random * jitterRatio opts * delay)\<rparr>)"

text \<open>\<open>throws\<close>: \<open>checkSession\<close> throws instead of giving a promise.\<close>

definition maybeCheckSession :: "live_options \<Rightarrow> nat \<Rightarrow> bool \<Rightarrow> live \<Rightarrow> live" where
  "maybeCheckSession opts now throws s =
     (if lv_checkInFlight s then s
      else
        let threshold = (if lv_failures s \<ge> 2 then backoffMs opts (int (lv_failures s) - 2) else 0)
        in if (case lv_lastSessionCheckAt s of None \<Rightarrow> False | Some t \<Rightarrow> int now - int t < int threshold) then s
           else if throws then s\<lparr>lv_lastSessionCheckAt := Some now, lv_checkInFlight := False\<rparr>
           else s\<lparr>lv_lastSessionCheckAt := Some now, lv_checkInFlight := True, lv_checks := lv_epoch s # lv_checks s\<rparr>)"

definition session_checked :: "live_options \<Rightarrow> nat \<Rightarrow> bool \<Rightarrow> live \<Rightarrow> live" where
  "session_checked opts epoch valid s =
     (if epoch \<noteq> lv_epoch s then s
      else let s' = s\<lparr>lv_checkInFlight := False\<rparr> in if valid then s' else stop_live opts s')"

definition onError :: "live_options \<Rightarrow> nat \<Rightarrow> bool \<Rightarrow> nat \<Rightarrow> bool \<Rightarrow> rat \<Rightarrow> live \<Rightarrow> live" where
  "onError opts cid source_closed now throws random s =
     (if \<not> isCurrent cid s then s
      else
        let s1 = maybeCheckSession opts now throws (setState opts Reconnecting (s\<lparr>lv_failures := lv_failures s + 1\<rparr>))
        in if source_closed then scheduleReconnect opts random (closeSource s1) else s1)"

definition pause :: "live_options \<Rightarrow> live \<Rightarrow> live" where
  "pause opts s =
     (if lv_paused s then s
      else setState opts Paused ((closeSource (s\<lparr>lv_paused := True\<rparr>))\<lparr>lv_reconnectTimer := None, lv_tickTimer := None\<rparr>))"

definition resume :: "live_options \<Rightarrow> bool \<Rightarrow> live \<Rightarrow> live" where
  "resume opts works s = emit Vault From_visibility (connect opts works (s\<lparr>lv_paused := False, lv_failures := 0, lv_lastSessionCheckAt := None\<rparr>))"

definition onVisibility :: "live_options \<Rightarrow> bool \<Rightarrow> bool \<Rightarrow> live \<Rightarrow> live" where
  "onVisibility opts hidden works s =
     (if \<not> lv_started s then s
      else if hidden then armHideTimer s
      else let s' = s\<lparr>lv_hideTimer := False\<rparr> in if lv_paused s' then resume opts works s' else s')"

section \<open>Steps\<close>

datatype live_event =
    Start bool bool
  | Stop
  | Refresh_frame nat
  | Invalidate_frame nat "string option" string
  | Error_event nat bool nat bool rat
  | Reconnect_fires bool
  | Tick_fires bool
  | Hide_fires bool
  | Visibility bool bool
  | Session_answer nat bool

fun live_step :: "live_options \<Rightarrow> (string \<Rightarrow> json option) \<Rightarrow> live_event \<Rightarrow> live \<Rightarrow> live" where
  "live_step opts jp (Start hidden works) s = start_live opts hidden works s"
| "live_step opts jp Stop s = stop_live opts s"
| "live_step opts jp (Refresh_frame cid) s = onRefreshEvent opts cid s"
| "live_step opts jp (Invalidate_frame cid data selected) s = onInvalidateEvent jp selected cid data s"
| "live_step opts jp (Error_event cid closed' now throws random) s = onError opts cid closed' now throws random s"
| "live_step opts jp (Reconnect_fires works) s = (if lv_reconnectTimer s = None then s else connect opts works (s\<lparr>lv_reconnectTimer := None\<rparr>))"
| "live_step opts jp (Tick_fires hidden) s =
     (if lv_tickTimer s = None then s
      else let s1 = s\<lparr>lv_tickTimer := None\<rparr> in rescheduleTick opts (if hidden then s1 else emit Vault From_poll s1))"
| "live_step opts jp (Hide_fires hidden) s =
     (if \<not> lv_hideTimer s then s else let s1 = s\<lparr>lv_hideTimer := False\<rparr> in if lv_started s1 \<and> hidden then pause opts s1 else s1)"
| "live_step opts jp (Visibility hidden works) s = (if lv_listening s then onVisibility opts hidden works s else s)"
| "live_step opts jp (Session_answer epoch valid) s = (if epoch \<in> set (lv_checks s) then session_checked opts epoch valid s else s)"

text \<open>\<open>Math.random()\<close> is in the unit interval.\<close>

fun random_ok :: "live_event \<Rightarrow> bool" where
  "random_ok (Error_event cid closed' now throws random) \<longleftrightarrow> 0 \<le> random \<and> random < 1"
| "random_ok ev \<longleftrightarrow> True"

inductive live_reachable :: "live_options \<Rightarrow> (string \<Rightarrow> json option) \<Rightarrow> live \<Rightarrow> bool" for opts jp where
  live_start: "live_reachable opts jp new_live"
| live_next: "live_reachable opts jp s \<Longrightarrow> random_ok ev \<Longrightarrow> live_reachable opts jp (live_step opts jp ev s)"

section \<open>Invariant\<close>

text \<open>Stopped: nothing is open and no timer is set. Paused: no stream and no timer. Running: the stream is open, or a reconnect is
  scheduled, or there is no event source; the poll timer is set, to the slow interval exactly while live.\<close>

definition live_ok :: "live_options \<Rightarrow> live \<Rightarrow> bool" where
  "live_ok opts s \<longleftrightarrow>
     lv_opened s = (case lv_source s of None \<Rightarrow> [] | Some cid \<Rightarrow> [cid]) \<and>
     (\<forall>cid. lv_source s = Some cid \<longrightarrow> cid = lv_connectionId s) \<and>
     (lv_listening s \<longleftrightarrow> lv_started s) \<and>
     (lv_paused s \<longrightarrow> lv_started s) \<and>
     (lv_state s = Paused \<longleftrightarrow> lv_paused s) \<and>
     (lv_hideTimer s \<longrightarrow> lv_started s \<and> \<not> lv_paused s) \<and>
     (\<not> lv_started s \<longrightarrow> lv_state s = Connecting \<and> \<not> lv_checkInFlight s) \<and>
     (lv_started s \<and> \<not> lv_paused s \<longrightarrow>
        (lv_state s = Live \<longrightarrow> lv_tickTimer s = Some (agingIntervalMs opts)) \<and>
        (lv_state s \<noteq> Live \<longrightarrow> lv_tickTimer s = Some (fallbackIntervalMs opts)) \<and>
        (lv_source s \<noteq> None \<longrightarrow> lv_reconnectTimer s = None \<and> lv_state s \<noteq> Unsupported) \<and>
        (lv_source s = None \<longrightarrow> lv_state s = Unsupported \<and> lv_reconnectTimer s = None \<or> lv_state s = Reconnecting \<and> lv_reconnectTimer s \<noteq> None)) \<and>
     (\<not> (lv_started s \<and> \<not> lv_paused s) \<longrightarrow> lv_source s = None \<and> lv_reconnectTimer s = None \<and> lv_tickTimer s = None)"

lemmas live_ops = rescheduleTick_def setState_def emit_def connect_def closeSource_def armHideTimer_def Let_def

lemma live_ok_new: "live_ok opts new_live"
  by (simp add: live_ok_def new_live_def)

lemma connect_ok:
  assumes "lv_opened s = []" and "lv_source s = None" and "lv_listening s" and "lv_started s" and "\<not> lv_paused s" and "lv_reconnectTimer s = None"
  shows "live_ok opts (connect opts works s)"
  using assms by (auto simp: live_ok_def live_ops)

lemma stop_live_ok: "live_ok opts s \<Longrightarrow> live_ok opts (stop_live opts s)"
  by (cases "lv_started s") (auto simp: live_ok_def stop_live_def live_ops split: option.splits)

lemma emit_ok [simp]: "live_ok opts (emit sc src s) = live_ok opts s"
  by (simp add: live_ok_def emit_def)

lemma start_live_ok:
  assumes "live_ok opts s"
  shows "live_ok opts (start_live opts hidden works s)"
proof (cases "lv_started s")
  case False
  let ?s = "(setState opts Connecting (s\<lparr>lv_started := True, lv_epoch := lv_epoch s + 1, lv_paused := False, lv_failures := 0, lv_lastSessionCheckAt := None\<rparr>))
      \<lparr>lv_listening := True\<rparr>"
  have "live_ok opts (connect opts works (if hidden then armHideTimer ?s else ?s))"
    by (rule connect_ok) (use assms False in \<open>auto simp: live_ok_def live_ops\<close>)
  then show ?thesis by (simp only: start_live_def Let_def False if_False)
qed (use assms in \<open>simp add: start_live_def\<close>)

lemma pause_ok: "live_ok opts s \<Longrightarrow> lv_started s \<Longrightarrow> \<not> lv_hideTimer s \<Longrightarrow> live_ok opts (pause opts s)"
  by (auto simp: live_ok_def pause_def live_ops split: option.splits)

lemma refresh_ok: "live_ok opts s \<Longrightarrow> live_ok opts (onRefreshEvent opts i s)"
  by (auto simp: live_ok_def onRefreshEvent_def isCurrent_def live_ops split: option.splits)

lemma check_ok: "live_ok opts s \<Longrightarrow> lv_started s \<Longrightarrow> live_ok opts (maybeCheckSession opts now throws s)"
  by (simp add: live_ok_def maybeCheckSession_def Let_def split: option.splits)

lemma check_simps [simp]: "lv_started (maybeCheckSession opts now throws s) = lv_started s" "lv_paused (maybeCheckSession opts now throws s) = lv_paused s"
    "lv_state (maybeCheckSession opts now throws s) = lv_state s" "lv_source (maybeCheckSession opts now throws s) = lv_source s"
    "lv_failures (maybeCheckSession opts now throws s) = lv_failures s"
  by (simp_all add: maybeCheckSession_def Let_def split: option.splits)

lemma reconnecting_ok:
  assumes "live_ok opts s" and "isCurrent i s"
  shows "live_ok opts (setState opts Reconnecting (s\<lparr>lv_failures := lv_failures s + 1\<rparr>))"
  using assms by (auto simp: live_ok_def isCurrent_def setState_def rescheduleTick_def Let_def)

lemma set_state_simps [simp]: "lv_state (setState opts st s) = st" "lv_started (setState opts st s) = lv_started s" "lv_paused (setState opts st s) = lv_paused s"
    "lv_source (setState opts st s) = lv_source s" "lv_failures (setState opts st s) = lv_failures s"
  by (simp_all add: setState_def rescheduleTick_def Let_def)

lemma schedule_ok:
  assumes "live_ok opts s" and "lv_started s" and "\<not> lv_paused s" and "lv_state s = Reconnecting"
  shows "live_ok opts (scheduleReconnect opts random (closeSource s))"
  using assms by (cases "lv_source s") (simp_all add: live_ok_def scheduleReconnect_def closeSource_def Let_def)

lemma error_ok:
  assumes "live_ok opts s"
  shows "live_ok opts (onError opts i c now throws random s)"
proof (cases "isCurrent i s")
  case True
  let ?s = "maybeCheckSession opts now throws (setState opts Reconnecting (s\<lparr>lv_failures := lv_failures s + 1\<rparr>))"
  have st: "lv_started s" "\<not> lv_paused s" using True by (simp_all add: isCurrent_def)
  have "live_ok opts ?s" by (rule check_ok [OF reconnecting_ok [OF assms True]]) (simp add: st)
  then show ?thesis using schedule_ok [of opts ?s] True st by (simp add: onError_def Let_def)
qed (use assms in \<open>simp add: onError_def\<close>)

lemma visibility_ok:
  assumes "live_ok opts s"
  shows "live_ok opts (onVisibility opts hidden works s)"
proof (cases "lv_started s \<and> \<not> hidden \<and> lv_paused s")
  case True
  let ?s = "s\<lparr>lv_hideTimer := False, lv_paused := False, lv_failures := 0, lv_lastSessionCheckAt := None\<rparr>"
  have "live_ok opts (connect opts works ?s)" by (rule connect_ok) (use assms True in \<open>auto simp: live_ok_def\<close>)
  then show ?thesis using True by (simp add: onVisibility_def resume_def)
next
  case False
  then show ?thesis using assms by (auto simp: live_ok_def onVisibility_def armHideTimer_def)
qed

lemma live_ok_step:
  assumes "live_ok opts s"
  shows "live_ok opts (live_step opts jp ev s)"
proof (cases ev)
  case (Invalidate_frame i data selected)
  then show ?thesis using assms by (simp add: onInvalidateEvent_def split: option.splits)
next
  case (Reconnect_fires works)
  have "live_ok opts (connect opts works (s\<lparr>lv_reconnectTimer := None\<rparr>))" if "lv_reconnectTimer s \<noteq> None"
    by (rule connect_ok) (use assms that in \<open>auto simp: live_ok_def split: option.splits if_splits\<close>)
  then show ?thesis using assms Reconnect_fires by simp
next
  case (Tick_fires hidden)
  have "live_ok opts (rescheduleTick opts (s\<lparr>lv_tickTimer := None\<rparr>))" "live_ok opts (rescheduleTick opts (emit Vault From_poll (s\<lparr>lv_tickTimer := None\<rparr>)))"
    using assms by (simp_all add: live_ok_def rescheduleTick_def emit_def)
  then show ?thesis using assms Tick_fires by (simp add: Let_def)
next
  case (Hide_fires hidden)
  have "live_ok opts (s\<lparr>lv_hideTimer := False\<rparr>)" using assms by (simp add: live_ok_def)
  then show ?thesis using assms Hide_fires pause_ok [of opts "s\<lparr>lv_hideTimer := False\<rparr>"] by (simp add: Let_def)
next
  case (Session_answer epoch valid)
  have "live_ok opts (s\<lparr>lv_checkInFlight := False\<rparr>)" using assms by (simp add: live_ok_def)
  then show ?thesis using assms Session_answer stop_live_ok [of opts "s\<lparr>lv_checkInFlight := False\<rparr>"] by (simp add: session_checked_def Let_def)
qed (use assms start_live_ok stop_live_ok refresh_ok error_ok visibility_ok in simp_all)

lemma live_reachable_ok: "live_reachable opts jp s \<Longrightarrow> live_ok opts s"
  by (induction rule: live_reachable.induct) (auto intro: live_ok_new live_ok_step)

section \<open>The delay of a reconnect\<close>

definition delay_ok :: "live_options \<Rightarrow> live \<Rightarrow> bool" where
  "delay_ok opts s \<longleftrightarrow> (\<forall>d. lv_reconnectTimer s = Some d \<longrightarrow>
     of_nat (min (reconnectMaxMs opts) (reconnectBaseMs opts)) \<le> d \<and> d \<le> of_nat (reconnectMaxMs opts) * (1 + jitterRatio opts))"

lemma timer_kept [simp]:
  "lv_reconnectTimer (rescheduleTick opts s) = lv_reconnectTimer s" "lv_reconnectTimer (setState opts st s) = lv_reconnectTimer s"
  "lv_reconnectTimer (connect opts works s) = lv_reconnectTimer s" "lv_reconnectTimer (armHideTimer s) = lv_reconnectTimer s"
  "lv_reconnectTimer (emit sc src s) = lv_reconnectTimer s" "lv_reconnectTimer (closeSource s) = lv_reconnectTimer s"
  "lv_reconnectTimer (maybeCheckSession opts now throws s) = lv_reconnectTimer s"
  by (simp_all add: live_ops maybeCheckSession_def split: option.splits)

lemma schedule_delay:
  assumes "0 \<le> jitterRatio opts" and "0 \<le> random" and "random < 1"
  shows "delay_ok opts (scheduleReconnect opts random s)"
proof -
  define b where "b = backoffMs opts (int (lv_failures s) - 1)"
  have "reconnectBaseMs opts \<le> reconnectBaseMs opts * 2 ^ nat (max 0 (int (lv_failures s) - 1))" by simp
  then have "min (reconnectMaxMs opts) (reconnectBaseMs opts) \<le> b" unfolding b_def backoffMs_def by (rule min.mono [OF order_refl])
  moreover have "b \<le> reconnectMaxMs opts" by (simp add: b_def backoffMs_def)
  moreover have r: "0 \<le> random * jitterRatio opts" "random * jitterRatio opts \<le> jitterRatio opts"
    using assms mult_right_mono [of random 1 "jitterRatio opts"] by simp_all
  ultimately have "of_nat b * 1 \<le> of_nat b * (1 + random * jitterRatio opts)"
    and "of_nat b * (1 + random * jitterRatio opts) \<le> of_nat (reconnectMaxMs opts) * (1 + jitterRatio opts)"
    using assms(1) by (intro mult_mono; simp; fail)+
  moreover have "of_nat (min (reconnectMaxMs opts) (reconnectBaseMs opts)) \<le> (of_nat b :: rat)"
    using \<open>min (reconnectMaxMs opts) (reconnectBaseMs opts) \<le> b\<close> by (simp only: of_nat_le_iff)
  ultimately show ?thesis by (auto simp: delay_ok_def scheduleReconnect_def Let_def b_def algebra_simps)
qed

lemma delay_step:
  assumes "0 \<le> jitterRatio opts" and "delay_ok opts s" and "random_ok ev"
  shows "delay_ok opts (live_step opts jp ev s)"
proof (cases ev)
  case (Error_event i c now throws random)
  let ?s = "maybeCheckSession opts now throws (setState opts Reconnecting (s\<lparr>lv_failures := lv_failures s + 1\<rparr>))"
  have "delay_ok opts ?s" using assms(2) by (simp add: delay_ok_def)
  moreover have "delay_ok opts (scheduleReconnect opts random (closeSource ?s))" using schedule_delay [OF assms(1)] assms(3) Error_event by simp
  ultimately show ?thesis using Error_event assms(2) by (simp add: onError_def Let_def)
qed (use assms(2) in \<open>simp_all add: delay_ok_def start_live_def stop_live_def onRefreshEvent_def onInvalidateEvent_def onVisibility_def resume_def session_checked_def
    pause_def Let_def split: option.splits\<close>)

text \<open>C23. The dashboard's connection is always in one well-defined mode. Stopped or paused: no stream is open and no timer is set, whatever
  arrives late. Running: at most one stream is open, the one whose frames count; when none is, a reconnect is scheduled or there is no
  event source at all; the vault is polled, slowly exactly while live. A reconnect waits at least the base delay and at most the maximal
  one with its jitter.\<close>

theorem live_invariant:
  assumes "live_reachable opts jp s" and "0 \<le> jitterRatio opts"
  shows "lv_opened s = (case lv_source s of None \<Rightarrow> [] | Some i \<Rightarrow> [i]) \<and>
    (lv_listening s \<longleftrightarrow> lv_started s) \<and> (lv_state s = Paused \<longleftrightarrow> lv_paused s) \<and>
    (\<not> lv_started s \<or> lv_paused s \<longrightarrow> lv_opened s = [] \<and> lv_reconnectTimer s = None \<and> lv_tickTimer s = None \<and> \<not> lv_hideTimer s) \<and>
    (lv_started s \<and> \<not> lv_paused s \<longrightarrow> (lv_opened s \<noteq> [] \<or> lv_reconnectTimer s \<noteq> None \<or> lv_state s = Unsupported) \<and>
      lv_tickTimer s = Some (if lv_state s = Live then agingIntervalMs opts else fallbackIntervalMs opts)) \<and>
    (\<forall>d. lv_reconnectTimer s = Some d \<longrightarrow>
      of_nat (min (reconnectMaxMs opts) (reconnectBaseMs opts)) \<le> d \<and> d \<le> of_nat (reconnectMaxMs opts) * (1 + jitterRatio opts))"
proof -
  have "delay_ok opts s" using assms
  proof (induction rule: live_reachable.induct)
    case (live_next s ev)
    then show ?case using delay_step by blast
  qed (simp add: delay_ok_def new_live_def)
  then show ?thesis using live_reachable_ok [OF assms(1)] unfolding live_ok_def delay_ok_def by (auto split: option.splits)
qed

definition sample_options :: live_options where
  "sample_options = \<lparr>has_event_source = True, fallbackIntervalMs = 15000, agingIntervalMs = 60000, reconnectBaseMs = 5000, reconnectMaxMs = 60000, jitterRatio = 1/5\<rparr>"

definition sample_live :: live where
  "sample_live = live_step sample_options (\<lambda>_. None) (Error_event 1 True 7 False (1/2)) (live_step sample_options (\<lambda>_. None) (Start False True) new_live)"

lemma sample_live_reachable: "live_reachable sample_options (\<lambda>_. None) sample_live"
  unfolding sample_live_def by (intro live_next live_start) simp_all

theorem live_invariant_witness:
  "lv_state sample_live = Reconnecting \<and> lv_reconnectTimer sample_live = Some 5500 \<and> lv_opened sample_live = [] \<and>
   lv_tickTimer sample_live = Some (fallbackIntervalMs sample_options)"
proof -
  define s1 where "s1 = live_step sample_options (\<lambda>_. None) (Start False True) new_live"
  have s1: "lv_started s1" "\<not> lv_paused s1" "lv_source s1 = Some 1" "lv_connectionId s1 = 1" "lv_failures s1 = 0"
    by (simp_all add: s1_def sample_options_def new_live_def start_live_def live_ops)
  then have cur: "isCurrent 1 s1" by (simp add: isCurrent_def)
  have run: "sample_live = onError sample_options 1 True 7 False (1/2) s1" by (simp add: sample_live_def s1_def)
  have "lv_state sample_live = Reconnecting" "lv_source sample_live = None" "lv_started sample_live" "\<not> lv_paused sample_live"
    "lv_reconnectTimer sample_live = Some 5500"
    using s1 cur unfolding run
    by (simp_all add: onError_def scheduleReconnect_def closeSource_def Let_def sample_options_def backoffMs_def)
  then show ?thesis using live_invariant [OF sample_live_reachable] by (simp add: sample_options_def)
qed

section \<open>Frames of the current stream\<close>

lemma current_iff:
  assumes "live_ok opts s"
  shows "isCurrent i s \<longleftrightarrow> lv_source s = Some i"
proof (cases "lv_source s")
  case (Some j)
  then have "j = lv_connectionId s" "lv_started s" "\<not> lv_paused s" using assms unfolding live_ok_def by (blast, force+)
  then show ?thesis using Some by (auto simp: isCurrent_def)
qed (simp add: isCurrent_def)

text \<open>The frames of the open stream, and only they, have an effect: a \<open>refresh\<close> frame makes the connection live and asks for everything;
  an \<open>invalidate\<close> frame asks for everything when it is for the account or cannot be read, for the selected vault when it names it, and
  for nothing otherwise. A frame of a stream that was closed or replaced changes nothing.\<close>

lemma live_frame_effect:
  assumes "live_reachable opts jp s"
  shows "(lv_source s \<noteq> Some i \<longrightarrow> live_step opts jp (Refresh_frame i) s = s \<and> live_step opts jp (Invalidate_frame i data v) s = s \<and>
      live_step opts jp (Error_event i c now throws random) s = s) \<and>
    (lv_source s = Some i \<longrightarrow>
      lv_state (live_step opts jp (Refresh_frame i) s) = Live \<and> lv_failures (live_step opts jp (Refresh_frame i) s) = 0 \<and>
      lv_requests (live_step opts jp (Refresh_frame i) s) = (Full, From_connect) # lv_requests s \<and>
      lv_requests (live_step opts jp (Invalidate_frame i data v) s) =
        (case parseInvalidation jp data of
           None \<Rightarrow> [(Full, From_event)]
         | Some (account, ids) \<Rightarrow> if account then [(Full, From_event)] else if v \<noteq> [] \<and> v \<in> set ids then [(Vault, From_event)] else []) @ lv_requests s)"
  using current_iff [OF live_reachable_ok [OF assms], of i]
  by (auto simp: onRefreshEvent_def onInvalidateEvent_def onError_def invalidation_scope_def setState_def rescheduleTick_def emit_def Let_def split: option.splits)

end
