(* ===== verification/Timestamps.thy ===== *)
theory Timestamps
  imports Prelude
begin

text \<open>
  The timestamps of \<^verbatim>\<open>src/server/frontmatterTimestampMerge.ts\<close>: \<open>parseTimestamp\<close> reads an ISO date and time with a
  zone as an instant, through the calendar of \<open>Date\<close>, and \<open>compareTimestamp\<close> orders instants. Shown: the day count
  orders the dates of the calendar, a date that does not exist is refused, and instants are ordered as dates and times are
  written (\<open>timestamp_order\<close>).
\<close>

section \<open>Reading a timestamp\<close>

record instant =
  seconds :: int
  nanos :: nat

text \<open>The groups of \<open>ISO_OFFSET_TIMESTAMP\<close>; every quantifier is followed by a character it cannot match, so the match is
  the only one.\<close>

record timestamp_parts =
  year :: nat
  month :: nat
  day :: nat
  hour :: nat
  minute :: nat
  second :: nat
  fraction :: string
  zone :: string

definition digits :: "nat \<Rightarrow> string \<Rightarrow> (nat \<times> string) option" where
  "digits n s = (if length s \<ge> n \<and> list_all is_digit (take n s) then Some (digits_value (take n s), drop n s) else None)"

definition fraction_part :: "string \<Rightarrow> (string \<times> string) option" where
  "fraction_part s = (case expect CHR ''.'' s of
      None \<Rightarrow> Some ([], s)
    | Some t \<Rightarrow> let f = takeWhile is_digit t in
        if 1 \<le> length f \<and> length f \<le> 9 then Some (f, dropWhile is_digit t) else None)"

definition is_zone :: "string \<Rightarrow> bool" where
  "is_zone s \<longleftrightarrow> s = ''Z'' \<or>
     (length s = 6 \<and> (s ! 0 = CHR ''+'' \<or> s ! 0 = CHR ''-'') \<and> s ! 3 = CHR '':'' \<and>
      is_digit (s ! 1) \<and> is_digit (s ! 2) \<and> is_digit (s ! 4) \<and> is_digit (s ! 5))"

definition ISO_OFFSET_TIMESTAMP :: "string \<Rightarrow> timestamp_parts option" where
  "ISO_OFFSET_TIMESTAMP s =
     Option.bind (digits 4 s) (\<lambda>(y, s). Option.bind (expect CHR ''-'' s) (\<lambda>s.
     Option.bind (digits 2 s) (\<lambda>(mo, s). Option.bind (expect CHR ''-'' s) (\<lambda>s.
     Option.bind (digits 2 s) (\<lambda>(d, s). Option.bind (expect CHR ''T'' s) (\<lambda>s.
     Option.bind (digits 2 s) (\<lambda>(h, s). Option.bind (expect CHR '':'' s) (\<lambda>s.
     Option.bind (digits 2 s) (\<lambda>(mi, s). Option.bind (expect CHR '':'' s) (\<lambda>s.
     Option.bind (digits 2 s) (\<lambda>(sec, s). Option.bind (fraction_part s) (\<lambda>(f, z).
     if is_zone z then Some \<lparr>year = y, month = mo, day = d, hour = h, minute = mi, second = sec, fraction = f, zone = z\<rparr>
     else None))))))))))))"

text \<open>The proleptic Gregorian calendar of \<open>Date\<close>. \<open>setUTCFullYear\<close> carries a day past the end of its month into the
  following months; the getters read the result, and \<open>getTime\<close> counts days from 1970-01-01.\<close>

definition leap_year :: "nat \<Rightarrow> bool" where
  "leap_year y \<longleftrightarrow> y mod 4 = 0 \<and> (y mod 100 \<noteq> 0 \<or> y mod 400 = 0)"

definition month_length :: "nat \<Rightarrow> nat \<Rightarrow> nat" where
  "month_length y m = (if m = 2 then if leap_year y then 29 else 28 else if m \<in> {4, 6, 9, 11} then 30 else 31)"

function carry_date :: "nat \<Rightarrow> nat \<Rightarrow> nat \<Rightarrow> nat \<times> nat \<times> nat" where
  "carry_date y m d =
     (if d \<le> month_length y m then (y, m, d)
      else if m = 12 then carry_date (y + 1) 1 (d - month_length y m)
      else carry_date y (m + 1) (d - month_length y m))"
  by pat_completeness auto
termination
  by (relation "measure (\<lambda>(y, m, d). d)") (auto simp: month_length_def)

declare carry_date.simps [simp del]

definition day_from_year :: "nat \<Rightarrow> int" where
  "day_from_year y = 365 * (int y - 1970) + (int y - 1969) div 4 - (int y - 1901) div 100 + (int y - 1601) div 400"

definition date_days :: "nat \<times> nat \<times> nat \<Rightarrow> int" where
  "date_days = (\<lambda>(y, m, d). day_from_year y + int (sum_list (map (month_length y) [1..<m])) + int d - 1)"

definition zone_offset :: "string \<Rightarrow> int option" where
  "zone_offset z =
     (if z = ''-00:00'' then None
      else if z = ''Z'' then Some 0
      else let offsetHours = digits_value (js_slice 1 3 z); offsetMinutes = digits_value (js_slice 4 6 z) in
        if offsetHours > 23 \<or> offsetMinutes > 59 then None
        else Some ((if z ! 0 = CHR ''+'' then 1 else - 1) * (int offsetHours * 3600 + int offsetMinutes * 60)))"

definition padEnd :: "nat \<Rightarrow> char \<Rightarrow> string \<Rightarrow> string" where
  "padEnd n c s = s @ replicate (n - length s) c"

definition time_seconds :: "timestamp_parts \<Rightarrow> int" where
  "time_seconds p = date_days (carry_date (year p) (month p) (day p)) * 86400 +
     int (hour p) * 3600 + int (minute p) * 60 + int (second p)"

definition parseTimestamp :: "string \<Rightarrow> instant option" where
  "parseTimestamp v =
     (case ISO_OFFSET_TIMESTAMP v of
        None \<Rightarrow> None
      | Some p \<Rightarrow>
          if month p < 1 \<or> month p > 12 \<or> day p < 1 \<or> hour p > 23 \<or> minute p > 59 \<or> second p > 59 then None
          else if carry_date (year p) (month p) (day p) \<noteq> (year p, month p, day p) then None
          else (case zone_offset (zone p) of
                  None \<Rightarrow> None
                | Some offset \<Rightarrow> Some \<lparr>seconds = time_seconds p - offset,
                    nanos = digits_value (padEnd 9 CHR ''0'' (fraction p))\<rparr>))"

definition compareTimestamp :: "instant \<Rightarrow> instant \<Rightarrow> int" where
  "compareTimestamp left right =
     (if seconds left \<noteq> seconds right then if seconds left > seconds right then 1 else - 1
      else if nanos left = nanos right then 0
      else if nanos left > nanos right then 1 else - 1)"

section \<open>Lemmas: the calendar\<close>

lemma month_length_pos [simp]: "1 \<le> month_length y m"
  by (simp add: month_length_def)

lemma div_step: "((x::int) + 1) div k = x div k + (if (x + 1) mod k = 0 then 1 else 0)" if "k > 0"
proof -
  have "(x + 1) div k = x div k + (x mod k + 1) div k"
  proof -
    have "x + 1 = (x mod k + 1) + x div k * k" by simp
    then show ?thesis using that div_mult_self1 [of k "x mod k + 1" "x div k"] by simp
  qed
  moreover have "(x mod k + 1) div k = (if (x + 1) mod k = 0 then 1 else 0)"
  proof (cases "x mod k + 1 = k")
    case True
    then have "(x + 1) mod k = 0" by (metis mod_add_left_eq mod_self)
    with True that show ?thesis by simp
  next
    case False
    with that have lt: "x mod k + 1 < k" by (metis add1_zle_eq order_le_less pos_mod_bound)
    then have "(x + 1) mod k = x mod k + 1" using that by (metis mod_add_left_eq mod_pos_pos_trivial pos_mod_sign add_nonneg_nonneg zero_le_one)
    moreover have "x mod k + 1 \<noteq> 0" using pos_mod_sign [OF that, of x] by linarith
    ultimately show ?thesis using lt that by (simp add: div_pos_pos_trivial)
  qed
  ultimately show ?thesis by simp
qed

lemma day_from_year_Suc: "day_from_year (Suc y) = day_from_year y + (if leap_year y then 366 else 365)"
proof -
  have s: "int (Suc y) - c = (int y - c) + 1" for c by simp
  have m: "(int y + c * k) mod k = 0 \<longleftrightarrow> y mod nat k = 0" if "k > 0" for c k :: int
    using that by (metis int_nat_eq less_imp_le mod_mult_self1 of_nat_eq_0_iff zmod_int)
  have 4: "(int y - 1969 + 1) mod 4 = 0 \<longleftrightarrow> y mod 4 = 0" using m [of 4 "- 492"] by simp
  have 100: "(int y - 1901 + 1) mod 100 = 0 \<longleftrightarrow> y mod 100 = 0" using m [of 100 "- 19"] by simp
  have 400: "(int y - 1601 + 1) mod 400 = 0 \<longleftrightarrow> y mod 400 = 0" using m [of 400 "- 4"] by simp
  have "100 dvd (400 :: nat)" "4 dvd (100 :: nat)" by simp_all
  then have "y mod 400 = 0 \<Longrightarrow> y mod 100 = 0" "y mod 100 = 0 \<Longrightarrow> y mod 4 = 0"
    by (metis dvd_trans mod_eq_0_iff_dvd)+
  then show ?thesis
    unfolding day_from_year_def s div_step [of 4, simplified] div_step [of 100, simplified] div_step [of 400, simplified] 4 100 400 leap_year_def
    by auto
qed

definition days_before :: "nat \<Rightarrow> nat \<Rightarrow> nat" where
  "days_before y m = sum_list (map (month_length y) [1..<m])"

lemma days_before_Suc: "1 \<le> m \<Longrightarrow> days_before y (Suc m) = days_before y m + month_length y m"
  by (simp add: days_before_def)

lemma days_before_1 [simp]: "days_before y (Suc 0) = 0"
  by (simp add: days_before_def)

lemma days_in_year: "days_before y 13 = (if leap_year y then 366 else 365)"
  by (simp add: days_before_def month_length_def upt_rec numeral_eq_Suc)

lemma date_days_alt: "date_days (y, m, d) = day_from_year y + int (days_before y m) + int d - 1"
  by (simp add: date_days_def days_before_def)

lemma days_before_mono: "1 \<le> m \<Longrightarrow> m < m' \<Longrightarrow> days_before y m + month_length y m \<le> days_before y m'"
proof (induction m')
  case (Suc m')
  then show ?case by (cases "m = m'") (auto simp: days_before_Suc)
qed simp

lemma day_from_year_mono: "y < y' \<Longrightarrow> day_from_year y + int (days_before y 13) \<le> day_from_year y'"
proof (induction y')
  case (Suc y')
  then show ?case by (cases "y = y'") (auto simp: day_from_year_Suc days_in_year)
qed simp

text \<open>A date of the calendar, and the position of its day in its year.\<close>

definition valid_date :: "nat \<Rightarrow> nat \<Rightarrow> nat \<Rightarrow> bool" where
  "valid_date y m d \<longleftrightarrow> 1 \<le> m \<and> m \<le> 12 \<and> 1 \<le> d \<and> d \<le> month_length y m"

lemma date_in_year: "valid_date y m d \<Longrightarrow> days_before y m + d \<le> days_before y 13"
  using days_before_mono [of m 13 y] by (auto simp: valid_date_def)

lemma date_days_mono:
  assumes "valid_date y m d" "valid_date y' m' d'" "[y, m, d] < [y', m', d']"
  shows "date_days (y, m, d) < date_days (y', m', d')"
proof (cases "y = y'")
  case True
  show ?thesis
  proof (cases "m = m'")
    case True
    with \<open>y = y'\<close> assms show ?thesis by (simp add: date_days_alt)
  next
    case False
    with \<open>y = y'\<close> assms have "m < m'" by simp
    with days_before_mono [of m m' y] assms \<open>y = y'\<close> show ?thesis by (simp add: date_days_alt valid_date_def)
  qed
next
  case False
  with assms have "y < y'" by simp
  with day_from_year_mono [of y y'] date_in_year [OF assms(1)] assms(2) show ?thesis
    by (simp add: date_days_alt valid_date_def)
qed

text \<open>Carrying a day over keeps the day number and moves to a later month.\<close>

lemma carry_date_days: "1 \<le> m \<Longrightarrow> m \<le> 12 \<Longrightarrow> date_days (carry_date y m d) = date_days (y, m, d)"
proof (induction y m d rule: carry_date.induct)
  case (1 y m d)
  show ?case
  proof (cases "d \<le> month_length y m \<or> m \<noteq> 12")
    case True
    with 1 show ?thesis by (subst carry_date.simps) (auto simp: date_days_alt days_before_Suc)
  next
    case False
    have "days_before y 13 = days_before y 12 + month_length y 12" using days_before_Suc [of 12 y] by simp
    with 1 False show ?thesis
      by (subst carry_date.simps) (auto simp: date_days_alt day_from_year_Suc days_in_year)
  qed
qed

lemma carry_date_later:
  "m \<le> 12 \<Longrightarrow> carry_date y m d = (y', m', d') \<Longrightarrow> 12 * y + m \<le> 12 * y' + m' \<and> (month_length y m < d \<longrightarrow> 12 * y + m < 12 * y' + m')"
proof (induction y m d rule: carry_date.induct)
  case (1 y m d)
  consider "d \<le> month_length y m" | "\<not> d \<le> month_length y m" "m = 12" | "\<not> d \<le> month_length y m" "m \<noteq> 12" by blast
  then show ?case
  proof cases
    case 1
    with "1.prems" show ?thesis by (simp add: carry_date.simps [of y m d])
  next
    case 2
    then have "carry_date (y + 1) 1 (d - month_length y m) = (y', m', d')" using "1.prems" by (simp add: carry_date.simps [of y 12 d])
    from "1.IH"(1) [OF 2 _ this] 2 show ?thesis by simp
  next
    case 3
    then have "carry_date y (m + 1) (d - month_length y m) = (y', m', d')" using "1.prems" by (simp add: carry_date.simps [of y m d])
    from "1.IH"(2) [OF 3 _ this] 3 "1.prems" show ?thesis by simp
  qed
qed

lemma carry_date_same: "m \<le> 12 \<Longrightarrow> carry_date y m d = (y, m, d) \<longleftrightarrow> d \<le> month_length y m"
  using carry_date_later [of m y d y m d] by (auto simp: carry_date.simps [of y m d])

definition day_seconds :: "int \<Rightarrow> nat \<Rightarrow> nat \<Rightarrow> nat \<Rightarrow> int" where
  "day_seconds D h m s = D * 86400 + int h * 3600 + int m * 60 + int s"

text \<open>What the code accepts: the calendar dates and times of day, in a zone that is known.\<close>

lemma timestamp_accepts:
  assumes "parseTimestamp v = Some t"
  shows "\<exists>p z. ISO_OFFSET_TIMESTAMP v = Some p \<and> valid_date (year p) (month p) (day p) \<and>
     hour p \<le> 23 \<and> minute p \<le> 59 \<and> second p \<le> 59 \<and> zone_offset (zone p) = Some z \<and>
     seconds t = day_seconds (date_days (year p, month p, day p)) (hour p) (minute p) (second p) - z \<and>
     nanos t = digits_value (padEnd 9 CHR ''0'' (fraction p))"
  using assms
  by (auto simp: parseTimestamp_def time_seconds_def valid_date_def carry_date_same carry_date_days day_seconds_def not_less
      split: option.splits if_splits)

definition wall_clock :: "timestamp_parts \<Rightarrow> nat list" where
  "wall_clock p = [year p, month p, day p, hour p, minute p, second p, digits_value (padEnd 9 CHR ''0'' (fraction p))]"


lemma radix_order:
  fixes D D' a b k :: int
  assumes "0 \<le> a" "a < k" "0 \<le> b" "b < k"
  shows "D * k + a < D' * k + b \<longleftrightarrow> D < D' \<or> D = D' \<and> a < b" and "D * k + a = D' * k + b \<longleftrightarrow> D = D' \<and> a = b"
proof -
  have step: "x * k + k \<le> y * k" if "x < y" for x y
    using mult_right_mono [of "x + 1" y k] that assms by (simp add: algebra_simps)
  show "D * k + a < D' * k + b \<longleftrightarrow> D < D' \<or> D = D' \<and> a < b" "D * k + a = D' * k + b \<longleftrightarrow> D = D' \<and> a = b"
    using step [of D D'] step [of D' D] assms by (cases D D' rule: linorder_cases; simp)+
qed

lemma seconds_order:
  assumes "h \<le> 23" "m \<le> 59" "s \<le> 59" "h' \<le> 23" "m' \<le> 59" "s' \<le> 59"
  shows "day_seconds D h m s < day_seconds D' h' m' s' \<longleftrightarrow> D < D' \<or> D = D' \<and> [h, m, s] < [h', m', s']"
    and "day_seconds D h m s = day_seconds D' h' m' s' \<longleftrightarrow> D = D' \<and> h = h' \<and> m = m' \<and> s = s'"
proof -
  have r: "day_seconds D h m s = ((D * 24 + int h) * 60 + int m) * 60 + int s" for D h m s by (simp add: day_seconds_def)
  show "day_seconds D h m s < day_seconds D' h' m' s' \<longleftrightarrow> D < D' \<or> D = D' \<and> [h, m, s] < [h', m', s']"
    unfolding r using assms by (auto simp: radix_order)
  have "0 \<le> int x \<and> int x < 60" if "x \<in> {m, s, m', s'}" for x using that assms by auto
  moreover have "0 \<le> int x \<and> int x < 24" if "x \<in> {h, h'}" for x using that assms by auto
  ultimately show "day_seconds D h m s = day_seconds D' h' m' s' \<longleftrightarrow> D = D' \<and> h = h' \<and> m = m' \<and> s = s'"
    unfolding r by (simp only: radix_order(2) insert_iff simp_thms of_nat_eq_iff conj_assoc)
qed

lemma date_days_order:
  assumes "valid_date y m d" "valid_date y' m' d'"
  shows "date_days (y, m, d) < date_days (y', m', d') \<longleftrightarrow> [y, m, d] < [y', m', d']"
    and "date_days (y, m, d) = date_days (y', m', d') \<longleftrightarrow> y = y' \<and> m = m' \<and> d = d'"
proof -
  consider "[y, m, d] < [y', m', d']" | "[y', m', d'] < [y, m, d]" | "[y, m, d] = [y', m', d']" by (rule linorder_less_linear [THEN disjE]) blast+
  then have "(date_days (y, m, d) < date_days (y', m', d') \<longleftrightarrow> [y, m, d] < [y', m', d']) \<and>
      (date_days (y, m, d) = date_days (y', m', d') \<longleftrightarrow> [y, m, d] = [y', m', d'])"
  proof cases
    case 1
    with date_days_mono [OF assms] show ?thesis by fastforce
  next
    case 2
    with date_days_mono [OF assms(2,1)] show ?thesis by fastforce
  next
    case 3
    then show ?thesis by simp
  qed
  then show "date_days (y, m, d) < date_days (y', m', d') \<longleftrightarrow> [y, m, d] < [y', m', d']"
    "date_days (y, m, d) = date_days (y', m', d') \<longleftrightarrow> y = y' \<and> m = m' \<and> d = d'" by simp_all
qed

text \<open>C35. Of two timestamps in the same zone the code takes as the later the one with the later calendar date and time of day,
  down to the nanosecond, and as equal only equal ones: the day count of the calendar orders dates as they are written.\<close>

theorem timestamp_order:
  assumes "parseTimestamp v = Some t" and "parseTimestamp w = Some u"
    and "ISO_OFFSET_TIMESTAMP v = Some p" and "ISO_OFFSET_TIMESTAMP w = Some q" and "zone p = zone q"
  shows "(compareTimestamp t u < 0 \<longleftrightarrow> wall_clock p < wall_clock q) \<and> (compareTimestamp t u = 0 \<longleftrightarrow> wall_clock p = wall_clock q)"
proof -
  obtain z where p: "valid_date (year p) (month p) (day p)" "hour p \<le> 23" "minute p \<le> 59" "second p \<le> 59" "zone_offset (zone p) = Some z"
     "seconds t = day_seconds (date_days (year p, month p, day p)) (hour p) (minute p) (second p) - z"
     "nanos t = digits_value (padEnd 9 CHR ''0'' (fraction p))"
    using timestamp_accepts [OF assms(1)] assms(3) by auto
  have q: "valid_date (year q) (month q) (day q)" "hour q \<le> 23" "minute q \<le> 59" "second q \<le> 59"
     "seconds u = day_seconds (date_days (year q, month q, day q)) (hour q) (minute q) (second q) - z"
     "nanos u = digits_value (padEnd 9 CHR ''0'' (fraction q))"
    using timestamp_accepts [OF assms(2)] assms(4,5) p(5) by auto
  have s: "seconds t < seconds u \<longleftrightarrow> [year p, month p, day p] < [year q, month q, day q] \<or>
        (year p = year q \<and> month p = month q \<and> day p = day q) \<and> [hour p, minute p, second p] < [hour q, minute q, second q]"
      "seconds t = seconds u \<longleftrightarrow> (year p = year q \<and> month p = month q \<and> day p = day q) \<and>
        hour p = hour q \<and> minute p = minute q \<and> second p = second q"
    using seconds_order [OF p(2-4) q(2-4)] date_days_order [OF p(1) q(1)] unfolding p(6) q(5) by simp_all
  have c: "compareTimestamp t u < 0 \<longleftrightarrow> seconds t < seconds u \<or> seconds t = seconds u \<and> nanos t < nanos u"
    "compareTimestamp t u = 0 \<longleftrightarrow> seconds t = seconds u \<and> nanos t = nanos u" by (auto simp: compareTimestamp_def)
  show ?thesis unfolding c s wall_clock_def p(7) q(6) by auto
qed

definition demo_parts :: "string \<Rightarrow> timestamp_parts" where
  "demo_parts v = the (ISO_OFFSET_TIMESTAMP v)"

theorem timestamp_order_witness:
  "\<exists>t u. parseTimestamp ''2023-12-31T23:59:59.000000007+01:00'' = Some t \<and> parseTimestamp ''2024-01-01T00:00:00+01:00'' = Some u \<and>
     (compareTimestamp t u < 0 \<longleftrightarrow> wall_clock (demo_parts ''2023-12-31T23:59:59.000000007+01:00'') < wall_clock (demo_parts ''2024-01-01T00:00:00+01:00''))"
proof -
  let ?v = "''2023-12-31T23:59:59.000000007+01:00''" and ?w = "''2024-01-01T00:00:00+01:00''"
  have v: "parseTimestamp ?v = Some \<lparr>seconds = 1704063599, nanos = 7\<rparr>" by code_simp
  have w: "parseTimestamp ?w = Some \<lparr>seconds = 1704063600, nanos = 0\<rparr>" by code_simp
  have p: "ISO_OFFSET_TIMESTAMP ?v = Some (demo_parts ?v)" by code_simp
  have q: "ISO_OFFSET_TIMESTAMP ?w = Some (demo_parts ?w)" by code_simp
  have z: "zone (demo_parts ?v) = zone (demo_parts ?w)" by code_simp
  from timestamp_order [OF v w p q z] v w show ?thesis by blast
qed

end
