(* ===== verification/TimestampMerge.thy ===== *)
theory TimestampMerge
  imports Json Timestamps
begin

text \<open>
  \<^verbatim>\<open>src/server/frontmatterTimestampMerge.ts\<close>: when a server and a device version of a note differ only in configured
  timestamp fields of the YAML frontmatter, the later timestamp of each field wins. The parser of the \<open>yaml\<close> package
  is a parameter, \<open>parseDocument\<close>, with the shape of its nodes as a datatype; the delimiters of the frontmatter, the
  timestamps, the comparison outside the fields and the replacement are the code's own.
\<close>

section \<open>Rules\<close>

datatype rule_error = TooManyRules | NotAnObject | BadField | BadStrategy | DuplicateField string

text \<open>The only strategy is \<open>latest_timestamp\<close>, so a rule is its field.\<close>

type_synonym conflict_rule = string

definition field_char :: "char \<Rightarrow> bool" where
  "field_char c \<longleftrightarrow> (let n = of_char c :: nat in
     65 \<le> n \<and> n \<le> 90 \<or> 97 \<le> n \<and> n \<le> 122 \<or> is_digit c \<or> c = CHR ''_'' \<or> c = CHR ''-'')"

definition FIELD_NAME :: "string \<Rightarrow> bool" where
  "FIELD_NAME s \<longleftrightarrow> s \<noteq> [] \<and> list_all field_char s"

text \<open>The callback of \<open>value.map\<close>, with the set of the fields seen so far.\<close>

definition validate_rule :: "string list \<Rightarrow> json \<Rightarrow> rule_error + conflict_rule" where
  "validate_rule seen item =
     (case item of
        JObj _ \<Rightarrow>
          (case jprop item ''field'' of
             Some (JStr field) \<Rightarrow>
               if \<not> FIELD_NAME field \<or> length field > 128 then Inl BadField
               else if jprop item ''strategy'' \<noteq> Some (JStr ''latest_timestamp'') then Inl BadStrategy
               else if field \<in> set seen then Inl (DuplicateField field)
               else Inr field
           | _ \<Rightarrow> Inl BadField)
      | _ \<Rightarrow> Inl NotAnObject)"

fun validate_rules :: "string list \<Rightarrow> json list \<Rightarrow> rule_error + conflict_rule list" where
  "validate_rules seen [] = Inr []"
| "validate_rules seen (item # items) =
     rbind (validate_rule seen item) (\<lambda>field. rbind (validate_rules (field # seen) items) (\<lambda>fields. Inr (field # fields)))"

definition validateMetadataConflictRules :: "json \<Rightarrow> rule_error + conflict_rule list" where
  "validateMetadataConflictRules v =
     (case v of JArr items \<Rightarrow> if length items > 64 then Inl TooManyRules else validate_rules [] items | _ \<Rightarrow> Inl TooManyRules)"

section \<open>The YAML document\<close>

text \<open>The nodes of a parsed document, as far as the code reads them. \<open>NoNode\<close> is a key or value that is absent. A scalar
  whose value is not a string has \<open>sc_value = None\<close>; its range gives the offsets of the value in the text.\<close>

record yaml_scalar =
  sc_value :: "string option"
  sc_tag :: "string option"
  sc_anchor :: "string option"
  sc_range :: "(nat \<times> nat) option"

datatype yaml_node =
    NoNode
  | YAlias
  | YScalar yaml_scalar
  | YMap "string option" "string option" "(yaml_node \<times> yaml_node) list"
  | YSeq "string option" "string option" "yaml_node list"

record yaml_document =
  doc_errors :: nat
  doc_warnings :: nat
  doc_contents :: yaml_node

text \<open>An item of a sequence that has a property \<open>value\<close> is taken for a pair: of a scalar only its primitive value is looked
  at.\<close>

fun is_scalar_node :: "yaml_node \<Rightarrow> bool" where
  "is_scalar_node (YScalar _) = True"
| "is_scalar_node _ = False"

fun hasUnsupportedYamlNode :: "yaml_node \<Rightarrow> bool" where
  "hasUnsupportedYamlNode NoNode = False"
| "hasUnsupportedYamlNode YAlias = True"
| "hasUnsupportedYamlNode (YScalar sc) = (sc_anchor sc \<noteq> None \<or> sc_tag sc \<noteq> None)"
| "hasUnsupportedYamlNode (YMap tg an pairs) =
     (an \<noteq> None \<or> tg \<noteq> None \<or> (\<exists>p \<in> set pairs. hasUnsupportedYamlNode (fst p) \<or> hasUnsupportedYamlNode (snd p)))"
| "hasUnsupportedYamlNode (YSeq tg an items) =
     (an \<noteq> None \<or> tg \<noteq> None \<or> (\<exists>n \<in> set items. \<not> is_scalar_node n \<and> hasUnsupportedYamlNode n))"

section \<open>Frontmatter\<close>

text \<open>A line break at the front of a text, \<open>\r\n|\n|\r\<close>, and \<open>\r\n|\n|\r|$\<close>: its length.\<close>

fun newline :: "string \<Rightarrow> nat option" where
  "newline (c # d # s) = (if c = CHR 13 \<and> d = CHR 10 then Some 2 else if c = CHR 10 \<or> c = CHR 13 then Some 1 else None)"
| "newline [c] = (if c = CHR 10 \<or> c = CHR 13 then Some 1 else None)"
| "newline [] = None"

definition line_end :: "string \<Rightarrow> nat option" where
  "line_end s = (if s = [] then Some 0 else newline s)"

definition is_blank :: "char \<Rightarrow> bool" where
  "is_blank c \<longleftrightarrow> c = CHR '' '' \<or> c = CHR 9"

text \<open>\<open>/^(---)[ \t]*(\r\n|\n|\r)/\<close>: the length of the match.\<close>

definition opening_match :: "string \<Rightarrow> nat option" where
  "opening_match s = (if take 3 s = ''---'' then
     let blanks = takeWhile is_blank (drop 3 s) in
       map_option (\<lambda>n. 3 + length blanks + n) (newline (drop (3 + length blanks) s))
     else None)"

text \<open>\<open>(---|\.\.\.)[ \t]*(?:\r\n|\n|\r|$)\<close> at the front of a text.\<close>

definition delimiter :: "string \<Rightarrow> nat option" where
  "delimiter s = (if take 3 s = ''---'' \<or> take 3 s = ''...'' then
     let blanks = takeWhile is_blank (drop 3 s) in
       map_option (\<lambda>n. 3 + length blanks + n) (line_end (drop (3 + length blanks) s))
     else None)"

text \<open>The closing pattern at one position: the length of the line break before the delimiter, and of the rest.\<close>

definition closing_at :: "bool \<Rightarrow> string \<Rightarrow> (nat \<times> nat) option" where
  "closing_at line_start s =
     (case (if line_start then delimiter s else None) of
        Some n \<Rightarrow> Some (0, n)
      | None \<Rightarrow> (case newline s of
                   None \<Rightarrow> None
                 | Some k \<Rightarrow> map_option (Pair k) (delimiter (drop k s))))"

text \<open>\<open>closing.exec\<close> from position \<open>i\<close> on: the index of the match and the two lengths.\<close>

fun closing_match :: "bool \<Rightarrow> nat \<Rightarrow> string \<Rightarrow> (nat \<times> nat \<times> nat) option" where
  "closing_match line_start i [] = None"
| "closing_match line_start i (c # s) =
     (case closing_at line_start (c # s) of
        Some (k, n) \<Rightarrow> Some (i, k, n)
      | None \<Rightarrow> closing_match (c = CHR 10 \<or> c = CHR 13) (i + 1) s)"

record field_span =
  start :: nat
  finish :: nat
  raw :: string
  inst :: instant

definition field_entry :: "string \<Rightarrow> nat \<Rightarrow> yaml_node \<Rightarrow> field_span option" where
  "field_entry yamlText yamlStart node =
     (case node of
        YScalar sc \<Rightarrow>
          (case (sc_tag sc, sc_anchor sc, sc_value sc, sc_range sc) of
             (None, None, Some v, Some (a, b)) \<Rightarrow>
               map_option (\<lambda>t. \<lparr>start = yamlStart + a, finish = yamlStart + b, raw = js_slice a b yamlText, inst = t\<rparr>)
                 (parseTimestamp v)
           | _ \<Rightarrow> None)
      | _ \<Rightarrow> None)"

fun key_of :: "yaml_node \<Rightarrow> string option" where
  "key_of (YScalar sc) = sc_value sc"
| "key_of _ = None"

fun collect_pairs ::
  "conflict_rule list \<Rightarrow> string \<Rightarrow> nat \<Rightarrow> (string \<times> field_span) list \<Rightarrow> (yaml_node \<times> yaml_node) list \<Rightarrow>
   (string \<times> field_span) list option" where
  "collect_pairs rules yamlText yamlStart pairs [] = Some pairs"
| "collect_pairs rules yamlText yamlStart pairs ((k, v) # items) =
     (case key_of k of
        None \<Rightarrow> collect_pairs rules yamlText yamlStart pairs items
      | Some key \<Rightarrow>
          if key \<in> fst ` set pairs then None
          else if key \<in> set rules then
            (case field_entry yamlText yamlStart v of
               None \<Rightarrow> None
             | Some e \<Rightarrow> collect_pairs rules yamlText yamlStart (pairs @ [(key, e)]) items)
          else collect_pairs rules yamlText yamlStart pairs items)"

record frontmatter =
  fm_body :: string
  fm_fields :: "string \<rightharpoonup> field_span"

definition parseMarkdownFrontmatter ::
  "(string \<Rightarrow> yaml_document) \<Rightarrow> string \<Rightarrow> conflict_rule list \<Rightarrow> frontmatter option" where
  "parseMarkdownFrontmatter parseDocument source rules =
     (case opening_match source of
        None \<Rightarrow> None
      | Some yamlStart \<Rightarrow>
          (case closing_match True yamlStart (drop yamlStart source) of
             None \<Rightarrow> None
           | Some (index, k, n) \<Rightarrow>
               let yamlText = js_slice yamlStart (index + k) source; document = parseDocument yamlText in
               (case doc_contents document of
                  YMap tg an items \<Rightarrow>
                    if doc_errors document > 0 \<or> doc_warnings document > 0 \<or> hasUnsupportedYamlNode (doc_contents document) then None
                    else (case collect_pairs rules yamlText yamlStart [] items of
                            None \<Rightarrow> None
                          | Some pairs \<Rightarrow>
                              if list_all (\<lambda>r. map_of pairs r \<noteq> None) rules
                              then Some \<lparr>fm_body = drop (index + k + n) source, fm_fields = map_of pairs |` set rules\<rparr>
                              else None)
                | _ \<Rightarrow> None)))"

section \<open>The merge\<close>

definition compare_start :: "field_span \<Rightarrow> field_span \<Rightarrow> int" where
  "compare_start a b = int (start a) - int (start b)"

fun equal_outside :: "string \<Rightarrow> nat \<Rightarrow> field_span list \<Rightarrow> string \<Rightarrow> nat \<Rightarrow> field_span list \<Rightarrow> bool" where
  "equal_outside left leftCursor (l # ls) right rightCursor (r # rs) =
     (js_slice leftCursor (start l) left = js_slice rightCursor (start r) right \<and>
      equal_outside left (finish l) ls right (finish r) rs)"
| "equal_outside left leftCursor _ right rightCursor _ = (drop leftCursor left = drop rightCursor right)"

definition equalOutsideSpans :: "string \<Rightarrow> field_span list \<Rightarrow> string \<Rightarrow> field_span list \<Rightarrow> bool" where
  "equalOutsideSpans left leftSpans right rightSpans =
     equal_outside left 0 (js_sort compare_start leftSpans) right 0 (js_sort compare_start rightSpans)"

datatype winner = Server | Device | TieServer

record replacement =
  rep_start :: nat
  rep_finish :: nat
  rep_value :: string

definition winner_of :: "field_span \<Rightarrow> field_span \<Rightarrow> winner" where
  "winner_of serverField deviceField =
     (let comparison = compareTimestamp (inst serverField) (inst deviceField) in
      if comparison \<ge> 0 then if comparison = 0 then TieServer else Server else Device)"

definition replacements :: "(field_span \<times> field_span) list \<Rightarrow> replacement list" where
  "replacements spans = map (\<lambda>(s, d). \<lparr>rep_start = start s, rep_finish = finish s, rep_value = raw d\<rparr>)
     (filter (\<lambda>(s, d). winner_of s d = Device) spans)"

definition compare_later :: "replacement \<Rightarrow> replacement \<Rightarrow> int" where
  "compare_later left right = int (rep_start right) - int (rep_start left)"

definition replace_span :: "string \<Rightarrow> replacement \<Rightarrow> string" where
  "replace_span content r = take (rep_start r) content @ rep_value r @ drop (rep_finish r) content"

definition mergeLatestTimestampFrontmatter ::
  "(string \<Rightarrow> yaml_document) \<Rightarrow> string \<Rightarrow> string \<Rightarrow> conflict_rule list \<Rightarrow> (string \<times> (string \<times> winner) list) option" where
  "mergeLatestTimestampFrontmatter parseDocument serverSource deviceSource rules =
     (if rules = [] then None
      else (case (parseMarkdownFrontmatter parseDocument serverSource rules,
                  parseMarkdownFrontmatter parseDocument deviceSource rules) of
        (Some server, Some device) \<Rightarrow>
          if fm_body server \<noteq> fm_body device then None
          else if list_ex (\<lambda>r. fm_fields server r = None \<or> fm_fields device r = None) rules then None
          else let serverSpans = map (\<lambda>r. the (fm_fields server r)) rules;
                   deviceSpans = map (\<lambda>r. the (fm_fields device r)) rules in
            if \<not> equalOutsideSpans serverSource serverSpans deviceSource deviceSpans then None
            else Some (foldl replace_span serverSource (js_sort compare_later (replacements (zip serverSpans deviceSpans))),
                       zip rules (map2 winner_of serverSpans deviceSpans))
      | _ \<Rightarrow> None))"

section \<open>What the code relies on of the parser\<close>

text \<open>The ranges of the values of a map that are non-empty strings, in the order of the items.\<close>

fun value_range :: "yaml_node \<Rightarrow> (nat \<times> nat) list" where
  "value_range (YScalar sc) = (case (sc_value sc, sc_range sc) of (Some v, Some r) \<Rightarrow> if v = [] then [] else [r] | _ \<Rightarrow> [])"
| "value_range _ = []"

definition value_ranges :: "(yaml_node \<times> yaml_node) list \<Rightarrow> (nat \<times> nat) list" where
  "value_ranges items = concat (map (value_range \<circ> snd) items)"

text \<open>The values stand in the text in the order of the items, each with at least one character.\<close>

definition ranges_in :: "string \<Rightarrow> (nat \<times> nat) list \<Rightarrow> bool" where
  "ranges_in t rs \<longleftrightarrow> (\<forall>r \<in> set rs. fst r < snd r \<and> snd r \<le> length t) \<and> sorted_wrt (\<lambda>r r'. snd r \<le> fst r') rs"

definition yaml_ranges :: "(string \<Rightarrow> yaml_document) \<Rightarrow> bool" where
  "yaml_ranges parseDocument \<longleftrightarrow>
     (\<forall>t tg an items. doc_contents (parseDocument t) = YMap tg an items \<longrightarrow> ranges_in t (value_ranges items))"

section \<open>Lemmas: rules\<close>

lemma validate_rule_Inr: "validate_rule seen item = Inr f \<Longrightarrow> f \<notin> set seen \<and> FIELD_NAME f \<and> length f \<le> 128"
  by (auto simp: validate_rule_def split: json.splits option.splits if_splits)

lemma validate_rules_Inr:
  "validate_rules seen items = Inr rules \<Longrightarrow> distinct rules \<and> set rules \<inter> set seen = {} \<and> length rules = length items"
proof (induction seen items arbitrary: rules rule: validate_rules.induct)
  case (2 seen item items)
  then obtain f fs where "validate_rule seen item = Inr f" "validate_rules (f # seen) items = Inr fs" "rules = f # fs"
    by (auto simp: rbind_Inr_iff)
  with 2 validate_rule_Inr [of seen item f] show ?case by auto
qed simp

lemma validated_rules:
  "validateMetadataConflictRules v = Inr rules \<Longrightarrow> distinct rules \<and> length rules \<le> 64"
  by (auto simp: validateMetadataConflictRules_def split: json.splits if_splits dest: validate_rules_Inr)

section \<open>Lemmas: spans\<close>

definition good_span :: "string \<Rightarrow> field_span \<Rightarrow> bool" where
  "good_span src s \<longleftrightarrow> start s < finish s \<and> finish s \<le> length src \<and> raw s = js_slice (start s) (finish s) src"

definition before :: "field_span \<Rightarrow> field_span \<Rightarrow> bool" where
  "before a b \<longleftrightarrow> finish a \<le> start b"

text \<open>A text is its gaps with the spans filled in.\<close>

fun gaps :: "nat \<Rightarrow> string \<Rightarrow> field_span list \<Rightarrow> string list" where
  "gaps c src [] = [drop c src]"
| "gaps c src (s # ss) = js_slice c (start s) src # gaps (finish s) src ss"

fun fill :: "string list \<Rightarrow> string list \<Rightarrow> string" where
  "fill (g # gs) (r # rs) = g @ r @ fill gs rs"
| "fill gs [] = concat gs"
| "fill [] rs = []"

lemma slice_append_drop: "a \<le> b \<Longrightarrow> js_slice a b s @ drop b s = drop a s"
  by (metis append_take_drop_id drop_drop js_slice_def le_add_diff_inverse2)

lemma take_append_slice: "a \<le> b \<Longrightarrow> take a s @ js_slice a b s = take b s"
  by (metis js_slice_def le_add_diff_inverse take_add)

lemma slice_slice: "b \<le> e - a0 \<Longrightarrow> js_slice a b (js_slice a0 e s) = js_slice (a0 + a) (a0 + b) s"
  by (simp add: js_slice_def drop_take min_def add.commute) 

lemma fill_gaps:
  assumes "sorted_wrt before ss" "\<forall>s \<in> set ss. good_span src s \<and> c \<le> start s"
  shows "fill (gaps c src ss) (map raw ss) = drop c src"
  using assms
proof (induction ss arbitrary: c)
  case (Cons s ss)
  then have "fill (gaps (finish s) src ss) (map raw ss) = drop (finish s) src" by (auto simp: before_def)
  with Cons.prems show ?case by (simp add: good_span_def slice_append_drop)
qed simp

lemma equal_outside_gaps:
  "length ls = length rs \<Longrightarrow> equal_outside left c ls right d rs \<longleftrightarrow> gaps c left ls = gaps d right rs"
  by (induction left c ls right d rs rule: equal_outside.induct) (auto simp: neq_Nil_conv length_Suc_conv)

text \<open>Replacing spans from the last to the first.\<close>

lemma replace_spans:
  assumes "sorted_wrt before (map f rs)" "\<forall>r \<in> set rs. good_span src (f r) \<and> c \<le> start (f r)"
  shows "foldr (\<lambda>r content. replace_span content \<lparr>rep_start = start (f r), rep_finish = finish (f r), rep_value = val r\<rparr>)
         (filter P rs) src
       = take c src @ fill (gaps c src (map f rs)) (map (\<lambda>r. if P r then val r else raw (f r)) rs)"
  using assms
proof (induction rs arbitrary: c)
  case (Cons r rs)
  let ?s = "f r" and ?rest = "fill (gaps (finish (f r)) src (map f rs)) (map (\<lambda>r. if P r then val r else raw (f r)) rs)"
  from Cons have ih: "foldr (\<lambda>r content. replace_span content \<lparr>rep_start = start (f r), rep_finish = finish (f r), rep_value = val r\<rparr>)
      (filter P rs) src = take (finish ?s) src @ ?rest" by (auto simp: before_def)
  have s: "c \<le> start ?s" "start ?s < finish ?s" "finish ?s \<le> length src" "raw ?s = js_slice (start ?s) (finish ?s) src"
    using Cons.prems by (auto simp: good_span_def)
  then have t: "take (finish ?s) src = take c src @ js_slice c (start ?s) src @ raw ?s"
    by (metis append_assoc less_imp_le take_append_slice)
  have "take c src @ js_slice c (start ?s) src = take (start ?s) src" using s by (simp add: take_append_slice)
  then have rep: "replace_span (take (finish ?s) src @ ?rest) \<lparr>rep_start = start ?s, rep_finish = finish ?s, rep_value = val r\<rparr>
      = take c src @ js_slice c (start ?s) src @ val r @ ?rest"
    using s by (simp add: replace_span_def min_def)
  show ?case
  proof (cases "P r")
    case True
    with ih rep show ?thesis by simp
  next
    case False
    with ih t show ?thesis by simp
  qed
qed simp

text \<open>The spans \<open>f\<close> of the fields of a source: well placed and disjoint.\<close>

definition spans_ok :: "string \<Rightarrow> (string \<Rightarrow> field_span) \<Rightarrow> string list \<Rightarrow> bool" where
  "spans_ok src f rules \<longleftrightarrow> distinct rules \<and> (\<forall>r \<in> set rules. good_span src (f r)) \<and>
     (\<forall>r \<in> set rules. \<forall>r' \<in> set rules. r \<noteq> r' \<longrightarrow> before (f r) (f r') \<or> before (f r') (f r))"

definition by_position :: "(string \<Rightarrow> field_span) \<Rightarrow> string list \<Rightarrow> string list" where
  "by_position f rules = sort_key (\<lambda>r. start (f r)) rules"

lemma by_position_perm [simp]:
  "set (by_position f rules) = set rules" "distinct (by_position f rules) = distinct rules" "length (by_position f rules) = length rules"
  "mset (by_position f rules) = mset rules"
  by (simp_all add: by_position_def)

lemma spans_inj: "spans_ok src f rules \<Longrightarrow> inj_on (\<lambda>r. start (f r)) (set rules)"
  unfolding inj_on_def spans_ok_def good_span_def before_def by (metis leD le_less_trans less_imp_le_nat)

lemma spans_sorted: "spans_ok src f rules \<Longrightarrow> sorted_wrt before (map f (by_position f rules))"
proof -
  assume ok: "spans_ok src f rules"
  have "sorted (map (\<lambda>r. start (f r)) (by_position f rules))" by (simp add: by_position_def)
  then have le: "start (f (by_position f rules ! i)) \<le> start (f (by_position f rules ! j))" if "i < j" "j < length rules" for i j
    using that by (simp add: sorted_map sorted_wrt_iff_nth_less)
  show ?thesis
    unfolding sorted_wrt_iff_nth_less
  proof (intro allI impI)
    fix i j assume "i < j" "j < length (map f (by_position f rules))"
    then have ij: "i < j" "j < length (by_position f rules)" by simp_all
    let ?a = "by_position f rules ! i" and ?b = "by_position f rules ! j"
    from ij ok have "?a \<noteq> ?b" by (simp add: nth_eq_iff_index_eq spans_ok_def)
    moreover from ij have "?a \<in> set rules" "?b \<in> set rules" by (metis by_position_perm(1) nth_mem order_less_trans)+
    ultimately have "before (f ?a) (f ?b) \<or> before (f ?b) (f ?a)" "good_span src (f ?b)" using ok by (auto simp: spans_ok_def)
    then show "before (map f (by_position f rules) ! i) (map f (by_position f rules) ! j)"
      using le [of i j] ij by (auto simp: before_def good_span_def)
  qed
qed

interpretation start_order: ordered_sort compare_start start
  by unfold_locales (auto simp: compare_start_def)

interpretation later_order: ordered_sort compare_later "\<lambda>r. - int (rep_start r)"
  by unfold_locales (auto simp: compare_later_def)

lemma sort_spans:
  assumes "spans_ok src f rules"
  shows "js_sort compare_start (map f rules) = map f (by_position f rules)"
proof (rule start_order.sort_unique)
  show "sorted (map start (map f (by_position f rules)))" by (simp add: by_position_def comp_def)
qed (use assms spans_inj [OF assms] in \<open>auto simp: spans_ok_def distinct_map inj_on_def\<close>)

lemma sort_replacements:
  assumes "spans_ok src f rules"
  shows "js_sort compare_later (map (\<lambda>r. \<lparr>rep_start = start (f r), rep_finish = finish (f r), rep_value = val r\<rparr>) (filter P rules))
       = rev (map (\<lambda>r. \<lparr>rep_start = start (f r), rep_finish = finish (f r), rep_value = val r\<rparr>) (filter P (by_position f rules)))"
    (is "?l = rev ?r")
proof -
  let ?rep = "\<lambda>r. \<lparr>rep_start = start (f r), rep_finish = finish (f r), rep_value = val r\<rparr>"
  have inj: "inj_on ?rep (set rules)" "inj_on rep_start (?rep ` set rules)"
    using spans_inj [OF assms] by (auto simp: inj_on_def)
  then have "inj_on ?rep (set (filter P rules))" "inj_on rep_start (?rep ` set (filter P rules))"
    by (meson filter_is_subset image_mono inj_on_subset)+
  moreover have "distinct (filter P rules)" "distinct (filter P (by_position f rules))" using assms by (simp_all add: spans_ok_def)
  ultimately have d: "distinct (map ?rep (filter P rules))" "distinct (rev ?r)" "inj_on rep_start (set (map ?rep (filter P rules)))"
    by (simp_all add: distinct_map)
  have "sorted (map rep_start ?r)" by (simp add: by_position_def comp_def sorted_filter)
  then have s: "sorted (map (\<lambda>r. - int (rep_start r)) (rev ?r))" by (simp only: sorted_map sorted_wrt_rev) simp
  have i: "inj_on (\<lambda>r. - int (rep_start r)) A" if "inj_on rep_start A" for A using that by (simp add: inj_on_def)
  have "set (rev ?r) = set (map ?rep (filter P rules))" by simp
  from later_order.sort_unique [OF s this d(2,1) i [OF d(3)]] show ?thesis .
qed

section \<open>Lemmas: the frontmatter\<close>

definition span_at :: "string \<Rightarrow> nat \<Rightarrow> nat \<times> nat \<Rightarrow> field_span \<Rightarrow> bool" where
  "span_at t st ab e \<longleftrightarrow> start e = st + fst ab \<and> finish e = st + snd ab \<and> raw e = js_slice (fst ab) (snd ab) t"

lemma parseTimestamp_Nil [simp]: "parseTimestamp [] = None"
  by (simp add: parseTimestamp_def ISO_OFFSET_TIMESTAMP_def digits_def)

lemma field_entry_Some: "field_entry t st v = Some e \<Longrightarrow> \<exists>ab. value_range v = [ab] \<and> span_at t st ab e"
  by (cases v) (auto simp: field_entry_def span_at_def split: option.splits)

lemma value_ranges_Cons: "value_ranges ((k, v) # items) = value_range v @ value_ranges items"
  by (simp add: value_ranges_def)

lemma ranges_in_append: "ranges_in t (rs @ rs') \<Longrightarrow> ranges_in t rs' \<and> (\<forall>r \<in> set rs. \<forall>r' \<in> set rs'. snd r \<le> fst r')"
  by (auto simp: ranges_in_def sorted_wrt_append)

lemma collect_pairs_spans:
  assumes "collect_pairs rules t st ps items = Some qs" "ranges_in t (value_ranges items)"
  shows "\<exists>new. qs = ps @ new \<and> (\<forall>p \<in> set new. \<exists>ab \<in> set (value_ranges items). span_at t st ab (snd p)) \<and>
     sorted_wrt (\<lambda>p q. before (snd p) (snd q)) new"
  using assms
proof (induction rules t st ps items rule: collect_pairs.induct)
  case (2 rules t st ps k v items)
  note rest = ranges_in_append [OF "2.prems"(2) [unfolded value_ranges_Cons]]
  show ?case
  proof (cases "\<exists>key. key_of k = Some key \<and> key \<in> set rules")
    case True
    then obtain key e where e: "key_of k = Some key" "key \<in> set rules" "key \<notin> fst ` set ps" "field_entry t st v = Some e"
        "collect_pairs rules t st (ps @ [(key, e)]) items = Some qs"
      using "2.prems"(1) by (auto split: if_splits option.splits)
    then obtain new where new: "qs = (ps @ [(key, e)]) @ new" "\<forall>p \<in> set new. \<exists>ab \<in> set (value_ranges items). span_at t st ab (snd p)"
        "sorted_wrt (\<lambda>p q. before (snd p) (snd q)) new"
      using "2.IH"(2) [OF e(1) e(3) e(2) e(4) e(5)] rest by blast
    obtain ab where ab: "value_range v = [ab]" "span_at t st ab e" using field_entry_Some [OF e(4)] by blast
    have "\<forall>p \<in> set new. before e (snd p)" using new(2) ab rest by (fastforce simp: span_at_def before_def)
    with new ab show ?thesis
      by (intro exI [of _ "(key, e) # new"]) (auto simp: value_ranges_Cons)
  next
    case False
    then have c: "collect_pairs rules t st ps items = Some qs" using "2.prems"(1) by (auto split: option.splits if_splits)
    have "\<exists>new. qs = ps @ new \<and> (\<forall>p \<in> set new. \<exists>ab \<in> set (value_ranges items). span_at t st ab (snd p)) \<and>
        sorted_wrt (\<lambda>p q. before (snd p) (snd q)) new"
    proof (cases "key_of k")
      case None
      then show ?thesis using "2.IH"(1) c rest by blast
    next
      case (Some key)
      with False have "key \<notin> fst ` set ps" "key \<notin> set rules" using "2.prems"(1) by (auto split: if_splits)
      then show ?thesis using "2.IH"(3) [OF Some] c rest by blast
    qed
    then show ?thesis by (simp add: value_ranges_Cons bex_Un) blast
  qed
qed auto

lemma frontmatter_spans:
  assumes law: "yaml_ranges parseDocument" and fm: "parseMarkdownFrontmatter parseDocument src rules = Some fm" and "distinct rules"
  shows "spans_ok src (\<lambda>r. the (fm_fields fm r)) rules \<and> (\<forall>r \<in> set rules. fm_fields fm r \<noteq> None)"
proof -
  from fm obtain st index k n tg an items pairs where st: "opening_match src = Some st"
      "doc_contents (parseDocument (js_slice st (index + k) src)) = YMap tg an items"
      "collect_pairs rules (js_slice st (index + k) src) st [] items = Some pairs"
      "list_all (\<lambda>r. map_of pairs r \<noteq> None) rules" "fm_fields fm = map_of pairs |` set rules"
    unfolding parseMarkdownFrontmatter_def Let_def
    by (auto split: option.splits yaml_node.splits if_splits)
  let ?t = "js_slice st (index + k) src"
  have r: "ranges_in ?t (value_ranges items)" using law st(2) by (auto simp: yaml_ranges_def)
  from collect_pairs_spans [OF st(3) r] have
    sp: "\<forall>p \<in> set pairs. \<exists>ab \<in> set (value_ranges items). span_at ?t st ab (snd p)" and
    so: "sorted_wrt (\<lambda>p q. before (snd p) (snd q)) pairs" by simp_all
  have some: "\<exists>e. fm_fields fm r = Some e \<and> (r, e) \<in> set pairs" if "r \<in> set rules" for r
    using st(4,5) that by (fastforce simp: list_all_iff dest: map_of_SomeD)
  have good: "good_span src e" if "(r, e) \<in> set pairs" for r e
  proof -
    from sp that obtain ab where ab: "ab \<in> set (value_ranges items)" "span_at ?t st ab e" by force
    with r have "fst ab < snd ab" "snd ab \<le> length ?t" by (auto simp: ranges_in_def)
    then have "fst ab < snd ab" "snd ab \<le> index + k - st" "st + snd ab \<le> length src" by (auto simp: js_slice_def)
    with ab(2) show ?thesis by (simp add: good_span_def span_at_def slice_slice)
  qed
  have disj: "before e e' \<or> before e' e" if "(r, e) \<in> set pairs" "(r', e') \<in> set pairs" "r \<noteq> r'" for r e r' e'
    using so that by (auto simp: in_set_conv_nth sorted_wrt_iff_nth_less) (metis fst_conv linorder_neqE_nat snd_conv)
  show ?thesis
    using some good disj \<open>distinct rules\<close> unfolding spans_ok_def by (metis option.distinct(1) option.sel)
qed

text \<open>The text of a field after the merge.\<close>

definition latest_text :: "field_span \<Rightarrow> field_span \<Rightarrow> string" where
  "latest_text s d = (if winner_of s d = Device then raw d else raw s)"

lemma merge_content:
  assumes ok: "spans_ok src f rules"
  shows "foldl replace_span src (js_sort compare_later (replacements (zip (map f rules) (map g rules)))) =
     fill (gaps 0 src (map f (by_position f rules))) (map (\<lambda>r. latest_text (f r) (g r)) (by_position f rules))"
proof -
  let ?P = "\<lambda>r. winner_of (f r) (g r) = Device" and ?fs = "by_position f rules"
  let ?rep = "\<lambda>r. \<lparr>rep_start = start (f r), rep_finish = finish (f r), rep_value = raw (g r)\<rparr>"
  have reps: "replacements (zip (map f rules) (map g rules)) = map ?rep (filter ?P rules)"
    unfolding replacements_def by (induction rules) simp_all
  have "foldl replace_span src (js_sort compare_later (map ?rep (filter ?P rules)))
      = foldr (\<lambda>r c. replace_span c (?rep r)) (filter ?P ?fs) src"
    by (simp add: sort_replacements [OF ok] foldl_conv_foldr foldr_map comp_def)
  also have "\<dots> = fill (gaps 0 src (map f ?fs)) (map (\<lambda>r. latest_text (f r) (g r)) ?fs)"
    using replace_spans [OF spans_sorted [OF ok], of src 0 "\<lambda>r. raw (g r)" ?P] ok
    by (simp add: spans_ok_def latest_text_def)
  finally show ?thesis by (simp add: reps)
qed

text \<open>C20. A merge that is made merges: the two versions of the note are the same text around the timestamp fields (\<open>gs\<close>), and
  the result is that text with, for each configured field, the value whose timestamp denotes the later instant, the
  server's on a tie. The winner of every rule is reported in the order of the rules. The fields stand in some order \<open>fs\<close> in
  the server's text and \<open>fs'\<close> in the device's.\<close>

theorem merge_latest:
  assumes "yaml_ranges parseDocument" and "validateMetadataConflictRules v = Inr rules"
    and "mergeLatestTimestampFrontmatter parseDocument serverSource deviceSource rules = Some (content, outcomes)"
  shows "\<exists>server device gs fs fs'.
     parseMarkdownFrontmatter parseDocument serverSource rules = Some server \<and>
     parseMarkdownFrontmatter parseDocument deviceSource rules = Some device \<and>
     (let s = \<lambda>r. the (fm_fields server r); d = \<lambda>r. the (fm_fields device r) in
        mset fs = mset rules \<and> mset fs' = mset rules \<and> length gs = Suc (length rules) \<and>
        serverSource = fill gs (map (\<lambda>r. raw (s r)) fs) \<and>
        deviceSource = fill gs (map (\<lambda>r. raw (d r)) fs') \<and>
        content = fill gs (map (\<lambda>r. if compareTimestamp (inst (s r)) (inst (d r)) < 0 then raw (d r) else raw (s r)) fs) \<and>
        outcomes = map (\<lambda>r. (r, if compareTimestamp (inst (s r)) (inst (d r)) < 0 then Device
                                else if inst (s r) = inst (d r) then TieServer else Server)) rules)"
proof -
  from assms(3) obtain server device where
    p: "parseMarkdownFrontmatter parseDocument serverSource rules = Some server"
       "parseMarkdownFrontmatter parseDocument deviceSource rules = Some device" and
    eq: "equalOutsideSpans serverSource (map (\<lambda>r. the (fm_fields server r)) rules) deviceSource (map (\<lambda>r. the (fm_fields device r)) rules)" and
    c: "content = foldl replace_span serverSource (js_sort compare_later (replacements
          (zip (map (\<lambda>r. the (fm_fields server r)) rules) (map (\<lambda>r. the (fm_fields device r)) rules))))" and
    o: "outcomes = zip rules (map2 winner_of (map (\<lambda>r. the (fm_fields server r)) rules) (map (\<lambda>r. the (fm_fields device r)) rules))"
    unfolding mergeLatestTimestampFrontmatter_def Let_def by (auto split: if_splits option.splits)
  let ?s = "\<lambda>r. the (fm_fields server r)" and ?d = "\<lambda>r. the (fm_fields device r)"
  have d: "distinct rules" using validated_rules assms(2) by blast
  have ok: "spans_ok serverSource ?s rules" "spans_ok deviceSource ?d rules"
    using frontmatter_spans [OF assms(1) _ d] p by blast+
  let ?fs = "by_position ?s rules" and ?fs' = "by_position ?d rules"
  let ?gs = "gaps 0 serverSource (map ?s ?fs)"
  have gs: "?gs = gaps 0 deviceSource (map ?d ?fs')"
    using eq unfolding equalOutsideSpans_def sort_spans [OF ok(1)] sort_spans [OF ok(2)] by (subst (asm) equal_outside_gaps) simp_all
  have lat: "latest_text a b = (if compareTimestamp (inst a) (inst b) < 0 then raw b else raw a)" for a b
    by (auto simp: latest_text_def winner_of_def Let_def)
  have win: "winner_of a b = (if compareTimestamp (inst a) (inst b) < 0 then Device
      else if inst a = inst b then TieServer else Server)" for a b
    by (auto simp: winner_of_def Let_def compareTimestamp_def)
  have src: "serverSource = fill ?gs (map (\<lambda>r. raw (?s r)) ?fs)" "deviceSource = fill ?gs (map (\<lambda>r. raw (?d r)) ?fs')"
    using fill_gaps [OF spans_sorted [OF ok(1)], of serverSource 0] fill_gaps [OF spans_sorted [OF ok(2)], of deviceSource 0] ok gs
    by (simp_all add: spans_ok_def comp_def)
  have out: "outcomes = map (\<lambda>r. (r, winner_of (?s r) (?d r))) rules"
    unfolding o by (induction rules) simp_all
  have len: "length (gaps c' t ss) = Suc (length ss)" for c' t ss by (induction c' t ss rule: gaps.induct) simp_all
  show ?thesis
    unfolding Let_def
    by (rule exI [of _ server], rule exI [of _ device], rule exI [of _ ?gs], rule exI [of _ ?fs], rule exI [of _ ?fs'])
       (use p src out c merge_content [OF ok(1), of ?d] in \<open>simp add: len lat win\<close>)
qed

text \<open>A parser of flat maps, one \<open>key: value\<close> with a plain value on each line.\<close>

definition plain :: "string \<Rightarrow> nat \<Rightarrow> yaml_node" where
  "plain v i = YScalar \<lparr>sc_value = Some v, sc_tag = None, sc_anchor = None, sc_range = Some (i, i + length v)\<rparr>"

fun flat_items :: "nat \<Rightarrow> string list \<Rightarrow> (yaml_node \<times> yaml_node) list" where
  "flat_items i [] = []"
| "flat_items i (l # ls) =
     (let key = takeWhile (\<lambda>c. c \<noteq> CHR '':'') l; skip = min (length l) (length key + 2) in
      (plain key i, plain (drop skip l) (i + skip)) # flat_items (i + length l + 1) ls)"

definition flat_yaml :: "string \<Rightarrow> yaml_document" where
  "flat_yaml t = \<lparr>doc_errors = 0, doc_warnings = 0, doc_contents = YMap None None (flat_items 0 (js_split CHR 10 t))\<rparr>"

lemma flat_items_ranges:
  "(\<forall>r \<in> set (value_ranges (flat_items i ls)). i \<le> fst r \<and> fst r < snd r \<and> snd r \<le> i + length (js_join [CHR 10] ls)) \<and>
   sorted_wrt (\<lambda>r r'. snd r \<le> fst r') (value_ranges (flat_items i ls))"
proof (induction i ls rule: flat_items.induct)
  case (2 i l ls)
  let ?k = "length (takeWhile (\<lambda>c. c \<noteq> CHR '':'') l)"
  let ?skip = "min (length l) (?k + 2)"
  have v: "value_ranges (flat_items i (l # ls)) =
      (if ?k + 2 < length l then [(i + ?skip, i + length l)] else []) @ value_ranges (flat_items (i + length l + 1) ls)"
    by (auto simp: Let_def value_ranges_Cons plain_def min_def)
  have "length (js_join [CHR 10] (l # ls)) = length l + (if ls = [] then 0 else 1 + length (js_join [CHR 10] ls))"
    by (simp add: js_join_Cons)
  with 2 [of "takeWhile (\<lambda>c. c \<noteq> CHR '':'') l" ?skip] show ?case unfolding v sorted_wrt_append
    by (cases ls) (fastforce simp: value_ranges_def)+
qed (simp add: value_ranges_def)

lemma flat_yaml_ranges: "yaml_ranges flat_yaml"
  unfolding yaml_ranges_def flat_yaml_def ranges_in_def
proof (intro allI impI)
  fix t tg an items
  assume "doc_contents \<lparr>doc_errors = 0, doc_warnings = 0, doc_contents = YMap None None (flat_items 0 (js_split CHR 10 t))\<rparr> = YMap tg an items"
  then show "(\<forall>r \<in> set (value_ranges items). fst r < snd r \<and> snd r \<le> length t) \<and> sorted_wrt (\<lambda>r r'. snd r \<le> fst r') (value_ranges items)"
    using flat_items_ranges [of 0 "js_split CHR 10 t"] by auto
qed

definition demo_rules :: json where
  "demo_rules = JArr [JObj [(''field'', JStr ''seen''), (''strategy'', JStr ''latest_timestamp'')],
     JObj [(''field'', JStr ''edited''), (''strategy'', JStr ''latest_timestamp'')]]"

definition demo_note :: "string \<Rightarrow> string \<Rightarrow> string" where
  "demo_note edited seen = js_join [CHR 10] [''---'', ''edited: '' @ edited, ''tag: x'', ''seen: '' @ seen, ''---'', ''text'']"

theorem merge_latest_witness:
  "mergeLatestTimestampFrontmatter flat_yaml
     (demo_note ''0024-02-29T12:00:00Z'' ''0024-03-02T00:00:00Z'') (demo_note ''0024-03-01T12:00:00Z'' ''0024-03-01T00:00:00Z'')
     [''seen'', ''edited''] = Some (demo_note ''0024-03-01T12:00:00Z'' ''0024-03-02T00:00:00Z'', [(''seen'', Server), (''edited'', Device)]) \<and>
   (\<exists>device. parseMarkdownFrontmatter flat_yaml (demo_note ''0024-03-01T12:00:00Z'' ''0024-03-01T00:00:00Z'') [''seen'', ''edited''] = Some device)"
proof -
  have r: "validateMetadataConflictRules demo_rules = Inr [''seen'', ''edited'']" by code_simp
  have m: "mergeLatestTimestampFrontmatter flat_yaml
     (demo_note ''0024-02-29T12:00:00Z'' ''0024-03-02T00:00:00Z'') (demo_note ''0024-03-01T12:00:00Z'' ''0024-03-01T00:00:00Z'')
     [''seen'', ''edited''] = Some (demo_note ''0024-03-01T12:00:00Z'' ''0024-03-02T00:00:00Z'', [(''seen'', Server), (''edited'', Device)])"
    by code_simp
  from merge_latest [OF flat_yaml_ranges r m] m show ?thesis by blast
qed

text \<open>An anchor or a tag on a scalar is found in a map and missed in a sequence.\<close>

lemma sequence_anchor_missed:
  assumes "sc_anchor sc \<noteq> None \<or> sc_tag sc \<noteq> None"
  shows "hasUnsupportedYamlNode (YMap None None [(k, YScalar sc)])" and "\<not> hasUnsupportedYamlNode (YSeq None None [YScalar sc])"
  using assms by auto

end
