(* ===== verification/DurableFile.thy ===== *)
theory DurableFile
  imports Disk
begin

text \<open>
  \<open>writeDurableFile\<close> of \<^verbatim>\<open>src/server/durableFile.ts\<close>, with which the server replaces its state files: the data goes to a temporary file
  that is synced and renamed over the destination. It runs over the failing and crashing calls of theory \<open>Disk\<close>; the random suffix
  of the temporary name is an argument. Shown: at every disk it goes through the destination holds the old data or the new, whole,
  and no other file has changed (\<open>durable_write_atomic\<close>). Syncing may fail but has no effect in \<open>Disk\<close>: what is shown is about a process that dies, not
  about data that a power failure loses because it was not synced.
\<close>

text \<open>\<open>writeFile\<close> with the flag \<open>wx\<close>: a file that exists is an error.\<close>

definition write_new :: "string \<Rightarrow> fdata \<Rightarrow> unit io" where
  "write_new p f w = (if file_at (disk w) p = None then writeFile p f w else (case next_fault w of (_, w') \<Rightarrow> (Inl IoFailure, w')))"

text \<open>\<open>rm\<close> with \<open>force\<close>: a file that is missing is not an error.\<close>

definition remove_force :: "string \<Rightarrow> unit io" where
  "remove_force p = io_catch (unlink p) (\<lambda>e. if e = NotFound then io_return () else io_throw e)"

definition ignoring :: "unit io \<Rightarrow> unit io" where
  "ignoring m = io_catch m (\<lambda>_. io_return ())"

definition temporary_name :: "string \<Rightarrow> string \<Rightarrow> string" where
  "temporary_name destination random = destination @ ''.tmp-'' @ random"

text \<open>\<open>dirname\<close> of a path that ends in no slash.\<close>

definition dirname :: "string \<Rightarrow> string" where
  "dirname p =
     (if CHR ''/'' \<notin> set p then ''.'' else if before_last CHR ''/'' p = [] then ''/'' else before_last CHR ''/'' p)"

definition fsyncDurableFile :: "string \<Rightarrow> unit io" where
  "fsyncDurableFile = sync_path"

definition fsyncDurableDirectory :: "string \<Rightarrow> unit io" where
  "fsyncDurableDirectory = sync_path"

text \<open>The inner \<open>try\<close>.\<close>

definition write_temporary :: "string \<Rightarrow> fdata \<Rightarrow> unit io" where
  "write_temporary temporary data =
     io_catch (io_bind (write_new temporary data) (\<lambda>_. fsyncDurableFile temporary))
       (\<lambda>e. io_bind (ignoring (remove_force temporary)) (\<lambda>_. io_throw e))"

text \<open>After the rename: the \<open>finally\<close> of a published file runs whether the directory could be synced or not, and its own error wins.\<close>

definition after_publish :: "string \<Rightarrow> string \<Rightarrow> unit io" where
  "after_publish temporary directory =
     io_bind (io_catch (io_bind (fsyncDurableDirectory directory) (\<lambda>_. io_return None)) (\<lambda>e. io_return (Some e))) (\<lambda>failure.
       io_bind (remove_force temporary) (\<lambda>_. case failure of None \<Rightarrow> io_return () | Some e \<Rightarrow> io_throw e))"

definition writeDurableFile :: "string \<Rightarrow> string \<Rightarrow> fdata \<Rightarrow> unit io" where
  "writeDurableFile random destination data =
     (let temporary = temporary_name destination random in
      io_bind (io_catch (write_temporary temporary data)
          (\<lambda>e. io_bind (ignoring (remove_force temporary)) (\<lambda>_. io_throw e))) (\<lambda>_.
        io_bind (rename_file temporary destination) (\<lambda>_. after_publish temporary (dirname destination))))"

section \<open>Atomicity\<close>

text \<open>All files but \<open>tmp\<close> are those of \<open>d0\<close>; \<open>replaced\<close>: except that the destination holds the data.\<close>

definition untouched :: "string \<Rightarrow> disk \<Rightarrow> disk \<Rightarrow> bool" where
  "untouched tmp d0 d \<longleftrightarrow> (\<forall>q. q \<noteq> tmp \<longrightarrow> file_at d q = file_at d0 q)"

definition replaced :: "string \<Rightarrow> string \<Rightarrow> fdata \<Rightarrow> disk \<Rightarrow> disk \<Rightarrow> bool" where
  "replaced tmp dest data d0 d \<longleftrightarrow> (\<forall>q. q \<noteq> tmp \<longrightarrow> file_at d q = (if q = dest then Some data else file_at d0 q))"

lemma triple_remove_force:
  assumes "\<And>d. I d \<Longrightarrow> I (del_file p d)" and "\<And>d. I d \<Longrightarrow> C d"
  shows "triple I (remove_force p) (\<lambda>r d. I d \<and> (r = Inr () \<longrightarrow> file_at d p = None)) C"
  unfolding remove_force_def
  by (rule triple_catch, rule triple_unlink [of I p C]) (use assms in \<open>auto intro!: triple_return triple_throw\<close>)

lemma triple_ignoring:
  assumes "triple I m (\<lambda>r d. I d) C"
  shows "triple I (ignoring m) (\<lambda>r d. I d \<and> (\<exists>x. r = Inr x)) C"
  unfolding ignoring_def by (rule triple_catch [OF assms]) (auto intro!: triple_return)

lemma untouched_del: "untouched tmp d0 d \<Longrightarrow> untouched tmp d0 (del_file tmp d)"
  by (simp add: untouched_def)

lemma triple_rethrow:
  assumes "\<And>d. untouched tmp d0 d \<Longrightarrow> C d"
  shows "triple (untouched tmp d0) (io_bind (ignoring (remove_force tmp)) (\<lambda>_. io_throw e)) (\<lambda>r d. untouched tmp d0 d \<and> (\<exists>e. r = Inl e)) C"
proof -
  have "triple (untouched tmp d0) (remove_force tmp) (\<lambda>r d. untouched tmp d0 d) C"
    by (rule triple_weaken, rule triple_remove_force [of "untouched tmp d0" tmp C]) (auto simp: untouched_del assms)
  from triple_ignoring [OF this] show ?thesis
    by (rule triple_bind) (auto intro!: triple_throw)
qed

lemma triple_write_new:
  assumes "\<And>d. untouched tmp d0 d \<Longrightarrow> C d"
  shows "triple (untouched tmp d0) (write_new tmp data) (\<lambda>r d. untouched tmp d0 d \<and> (\<forall>x. r = Inr x \<longrightarrow> file_at d tmp = Some data)) C"
  unfolding triple_def write_new_def writeFile_def
  using assms by (auto simp: commit_def untouched_def split: prod.splits fault.splits)

lemma triple_write_temporary:
  assumes C: "\<And>d. untouched tmp d0 d \<Longrightarrow> C d"
  shows "triple (untouched tmp d0) (write_temporary tmp data)
     (\<lambda>r d. untouched tmp d0 d \<and> (\<forall>x. r = Inr x \<longrightarrow> file_at d tmp = Some data)) C"
proof -
  have "triple (\<lambda>d. untouched tmp d0 d \<and> file_at d tmp = Some data) (fsyncDurableFile tmp)
      (\<lambda>r d. untouched tmp d0 d \<and> (\<forall>x. r = Inr x \<longrightarrow> file_at d tmp = Some data)) C"
    unfolding fsyncDurableFile_def
    by (rule triple_weaken, rule triple_sync [of "\<lambda>d. untouched tmp d0 d \<and> file_at d tmp = Some data"]) auto
  then have "triple (untouched tmp d0) (io_bind (write_new tmp data) (\<lambda>_. fsyncDurableFile tmp))
      (\<lambda>r d. untouched tmp d0 d \<and> (\<forall>x. r = Inr x \<longrightarrow> file_at d tmp = Some data)) C"
    by (intro triple_seq [where P' = "\<lambda>_ d. untouched tmp d0 d \<and> file_at d tmp = Some data", OF triple_write_new [OF C]]) auto
  then show ?thesis
    unfolding write_temporary_def
    by (rule triple_catch) (auto intro: triple_weaken [OF triple_rethrow [OF C]])
qed

lemma triple_after_publish:
  assumes C: "\<And>d. replaced tmp dest data d0 d \<Longrightarrow> C d"
  shows "triple (replaced tmp dest data d0) (after_publish tmp directory)
     (\<lambda>r d. replaced tmp dest data d0 d \<and> (r = Inr () \<longrightarrow> file_at d tmp = None)) C"
proof -
  let ?I = "replaced tmp dest data d0"
  have sync: "triple ?I (io_catch (io_bind (fsyncDurableDirectory directory) (\<lambda>_. io_return None)) (\<lambda>e. io_return (Some e))) (\<lambda>r d. ?I d \<and> (\<exists>x. r = Inr x)) C"
    unfolding fsyncDurableDirectory_def
    by (rule triple_catch [where R = "\<lambda>r. ?I"], rule triple_bind, rule triple_sync [of ?I]) (auto intro!: triple_return)
  have remove: "triple ?I (remove_force tmp) (\<lambda>r d. ?I d \<and> (r = Inr () \<longrightarrow> file_at d tmp = None)) C"
    by (rule triple_remove_force) (auto simp: replaced_def C)
  have "triple ?I (io_bind (remove_force tmp) (\<lambda>_. case failure of None \<Rightarrow> io_return () | Some e \<Rightarrow> io_throw e))
      (\<lambda>r d. ?I d \<and> (r = Inr () \<longrightarrow> file_at d tmp = None)) C" for failure
    by (rule triple_bind [OF remove]) (auto intro!: triple_return triple_throw split: option.splits)
  then show ?thesis unfolding after_publish_def by (intro triple_seq [where P' = "\<lambda>_. ?I", OF sync]) auto
qed

lemma triple_write_durable:
  assumes tmp: "tmp = temporary_name dest random"
  shows "triple (\<lambda>d. d = d0) (writeDurableFile random dest data)
     (\<lambda>r d. (untouched tmp d0 d \<or> replaced tmp dest data d0 d) \<and>
        (r = Inr () \<longrightarrow> replaced tmp dest data d0 d \<and> file_at d tmp = None))
     (\<lambda>d. untouched tmp d0 d \<or> replaced tmp dest data d0 d)" (is "triple _ _ ?Q ?C")
proof -
  have ne: "dest \<noteq> tmp" by (simp add: tmp temporary_name_def)
  let ?w = "\<lambda>d. untouched tmp d0 d \<and> file_at d tmp = Some data"
  have "triple (untouched tmp d0) (io_catch (write_temporary tmp data) (\<lambda>e. io_bind (ignoring (remove_force tmp)) (\<lambda>_. io_throw e)))
      (\<lambda>r d. untouched tmp d0 d \<and> (\<forall>x. r = Inr x \<longrightarrow> file_at d tmp = Some data)) ?C"
    by (rule triple_catch [OF triple_write_temporary]) (auto intro: triple_weaken [OF triple_rethrow [where C = ?C]])
  moreover have "triple ?w (rename_file tmp dest) (\<lambda>r d. case r of Inl e \<Rightarrow> ?w d | Inr _ \<Rightarrow> replaced tmp dest data d0 d) ?C"
    by (rule triple_rename) (use ne in \<open>auto simp: untouched_def replaced_def\<close>)
  then have "triple ?w (io_bind (rename_file tmp dest) (\<lambda>_. after_publish tmp (dirname dest))) ?Q ?C"
    by (rule triple_seq [where P' = "\<lambda>_. replaced tmp dest data d0"])
      (auto intro: triple_weaken [OF triple_after_publish [where C = ?C]])
  ultimately have "triple (untouched tmp d0) (writeDurableFile random dest data) ?Q ?C"
    unfolding writeDurableFile_def Let_def tmp [symmetric] by (rule triple_seq [where P' = "\<lambda>_. ?w"]) auto
  then show ?thesis by (rule triple_pre) (simp add: untouched_def)
qed

text \<open>C14. Writing a file durably is atomic: whichever call fails, and after whichever call the process dies, each file other than the temporary
  one is as it was, or the destination alone holds the new data and all of it. If the write succeeds, the destination holds the new
  data and the temporary file is gone.\<close>

theorem durable_write_atomic:
  "\<exists>new. log (snd (writeDurableFile random dest data w)) = new @ log w \<and>
     (\<forall>d \<in> set (disk (snd (writeDurableFile random dest data w)) # new).
        (\<forall>q. q \<noteq> temporary_name dest random \<longrightarrow> file_at d q = file_at (disk w) q) \<or>
        (\<forall>q. q \<noteq> temporary_name dest random \<longrightarrow> file_at d q = (if q = dest then Some data else file_at (disk w) q))) \<and>
     (fst (writeDurableFile random dest data w) = Inr () \<longrightarrow>
        file_at (disk (snd (writeDurableFile random dest data w))) dest = Some data \<and>
        file_at (disk (snd (writeDurableFile random dest data w))) (temporary_name dest random) = None)"
proof -
  have ne: "dest \<noteq> temporary_name dest random" by (simp add: temporary_name_def)
  show ?thesis
    using triple_write_durable [OF refl, of "disk w" random dest data, unfolded triple_def, THEN spec, of w] ne
    by (auto simp: untouched_def replaced_def)
qed

definition demo_world :: world where
  "demo_world = \<lparr>disk = \<lparr>files = [(''s/db'', Raw [1])], dirs = [''s'']\<rparr>, faults = [Fine, Fine, Fine, Fail], clock = 0, log = [], events = [],
     settledPackSet = None, scannedForOrphans = False\<rparr>"

theorem durable_write_atomic_witness:
  "fst (writeDurableFile ''0'' ''s/db'' (Raw [2, 3]) (demo_world\<lparr>faults := []\<rparr>)) = Inr () \<and>
   file_at (disk (snd (writeDurableFile ''0'' ''s/db'' (Raw [2, 3]) (demo_world\<lparr>faults := []\<rparr>)))) ''s/db'' = Some (Raw [2, 3]) \<and>
   fst (writeDurableFile ''0'' ''s/db'' (Raw [2, 3]) demo_world) = Inl IoFailure"
proof -
  have "fst (writeDurableFile ''0'' ''s/db'' (Raw [2, 3]) (demo_world\<lparr>faults := []\<rparr>)) = Inr ()"
    "fst (writeDurableFile ''0'' ''s/db'' (Raw [2, 3]) demo_world) = Inl IoFailure" by code_simp+
  with durable_write_atomic [of "''0''" "''s/db''" "Raw [2, 3]" "demo_world\<lparr>faults := []\<rparr>"] show ?thesis by auto
qed

end
