(* ===== verification/Multipart.thy ===== *)
theory Multipart
  imports Utf8 Json
begin

text \<open>
  The multipart messages in which the server answers a pull: \<open>sendMultipart\<close> of \<^verbatim>\<open>src/server/app.ts\<close> and its reader, which stands
  twice in the sources, as \<open>parseMultipart\<close> of \<^verbatim>\<open>obsidian-plugin/src/core/transport.ts\<close> and as \<open>parseMultipartPull\<close> of
  \<^verbatim>\<open>obsidian-plugin/src/main.cjs\<close>. \<open>JSON.stringify\<close>, \<open>JSON.parse\<close> and SHA-256 are arguments. Shown: the reader finds the
  manifest and the pack that were sent, the pack up to the first place where it holds the delimiter itself
  (\<open>multipart_delivers\<close>).
\<close>

section \<open>Searching a buffer\<close>

text \<open>\<open>indexOf\<close> from the start and from an offset.\<close>

fun index_of :: "'a list \<Rightarrow> 'a list \<Rightarrow> nat option" where
  "index_of p [] = (if p = [] then Some 0 else None)"
| "index_of p (x # xs) = (if take (length p) (x # xs) = p then Some 0 else map_option Suc (index_of p xs))"

definition index_from :: "'a list \<Rightarrow> 'a list \<Rightarrow> nat \<Rightarrow> nat option" where
  "index_from p xs n = map_option ((+) n) (index_of p (drop n xs))"

text \<open>\<open>Buffer.from\<close> of a string, whose characters are code points below 256.\<close>

definition points :: "string \<Rightarrow> nat list" where
  "points s = map of_char s"

definition string_buffer :: "string \<Rightarrow> buffer" where
  "string_buffer s = utf8_buffer (points s)"

definition crlf :: string where
  "crlf = [CHR 0x0D, CHR 0x0A]"

section \<open>Writing\<close>

definition manifest_header :: string where
  \<open>manifest_header = ''Content-Disposition: form-data; name="manifest"'' @ crlf @ ''Content-Type: application/json''\<close>

definition pack_header :: string where
  \<open>pack_header = ''Content-Disposition: form-data; name="packfile"; filename="pack.pack"'' @ crlf @ ''Content-Type: application/x-git-packed-objects''\<close>

definition message_boundary :: "(buffer \<Rightarrow> string) \<Rightarrow> (json \<Rightarrow> nat list) \<Rightarrow> json \<Rightarrow> buffer \<Rightarrow> string" where
  "message_boundary sha256 stringify manifest packfile =
     ''obts-'' @ take 24 (sha256 (utf8_buffer (stringify manifest @ points ('':'' @ decimal_string (length packfile)))))"

text \<open>The content type and the body of the reply.\<close>

definition sendMultipart :: "(buffer \<Rightarrow> string) \<Rightarrow> (json \<Rightarrow> nat list) \<Rightarrow> json \<Rightarrow> buffer \<Rightarrow> string \<times> buffer" where
  "sendMultipart sha256 stringify manifest packfile =
     (let boundary = message_boundary sha256 stringify manifest packfile in
      (''multipart/form-data; boundary='' @ boundary,
       string_buffer (''--'' @ boundary @ crlf @ manifest_header @ crlf @ crlf) @
       utf8_buffer (stringify manifest) @
       string_buffer (crlf @ ''--'' @ boundary @ crlf @ pack_header @ crlf @ crlf) @
       packfile @
       string_buffer (crlf @ ''--'' @ boundary @ ''--'' @ crlf)))"

section \<open>Reading\<close>

datatype multipart_error = No_boundary | Missing_parts | Invalid_json

record message_part =
  headers :: "nat list"
  body :: buffer

text \<open>\<open>/boundary=([^;]+)/iu\<close>: the group of the leftmost match.\<close>

fun match_boundary :: "string \<Rightarrow> string option" where
  "match_boundary [] = None"
| "match_boundary (c # s) =
     (if latin1_lower (take 9 (c # s)) = ''boundary='' \<and> takeWhile (\<lambda>x. x \<noteq> CHR '';'') (drop 9 (c # s)) \<noteq> []
      then Some (takeWhile (\<lambda>x. x \<noteq> CHR '';'') (drop 9 (c # s)))
      else match_boundary s)"

lemma index_from_Some: "index_from p xs n = Some k \<Longrightarrow> n \<le> k"
  by (auto simp: index_from_def)

function parse_parts :: "string \<Rightarrow> buffer \<Rightarrow> nat \<Rightarrow> message_part list" where
  "parse_parts boundary data offset =
     (if offset < length data then
        (case index_from (string_buffer (''--'' @ boundary)) data offset of
           None \<Rightarrow> []
         | Some start \<Rightarrow>
             (let afterBoundary = start + length (string_buffer (''--'' @ boundary)) in
              if utf8_text (subarray data afterBoundary (afterBoundary + 2)) = points ''--'' then []
              else (let headerStart = afterBoundary + 2 in
                case index_from (string_buffer (crlf @ crlf)) data headerStart of
                  None \<Rightarrow> []
                | Some headerEnd \<Rightarrow>
                    (case index_from (string_buffer (crlf @ ''--'' @ boundary)) data (headerEnd + 4) of
                       None \<Rightarrow> []
                     | Some nextBoundary \<Rightarrow>
                         \<lparr>headers = utf8_text (subarray data headerStart headerEnd), body = subarray data (headerEnd + 4) nextBoundary\<rparr> #
                         parse_parts boundary data (nextBoundary + 2)))))
      else [])"
  by auto
termination
  by (relation "measure (\<lambda>(_, data, offset). length data - offset)") (auto dest!: index_from_Some)

declare parse_parts.simps [simp del]

text \<open>Case folding of a regular expression with the flags \<open>i\<close> and \<open>u\<close>, on the points that fold to a letter of ASCII: the long s and the
  Kelvin sign are among them.\<close>

definition fold_point :: "nat \<Rightarrow> nat" where
  "fold_point n = (if 65 \<le> n \<and> n \<le> 90 then n + 32 else if n = 383 then 115 else if n = 8490 then 107 else n)"

definition has_name :: "string \<Rightarrow> nat list \<Rightarrow> bool" where
  \<open>has_name name hs \<longleftrightarrow> index_of (points (''name="'' @ name @ ''"'')) (map fold_point hs) \<noteq> None\<close>

definition parseMultipart :: "(nat list \<Rightarrow> json option) \<Rightarrow> string \<Rightarrow> buffer \<Rightarrow> multipart_error + (json \<times> buffer)" where
  "parseMultipart json_parse contentType data =
     (case match_boundary contentType of
        None \<Rightarrow> Inl No_boundary
      | Some boundary \<Rightarrow>
          (let parts = parse_parts boundary data 0 in
           case (find (\<lambda>p. has_name ''manifest'' (headers p)) parts, find (\<lambda>p. has_name ''packfile'' (headers p)) parts) of
             (Some manifestPart, Some packPart) \<Rightarrow>
               (case json_parse (utf8_text (body manifestPart)) of
                  None \<Rightarrow> Inl Invalid_json
                | Some manifest \<Rightarrow> Inr (manifest, body packPart))
           | _ \<Rightarrow> Inl Missing_parts))"

text \<open>The copy in \<^verbatim>\<open>main.cjs\<close> has the same body.\<close>

definition parseMultipartPull :: "(nat list \<Rightarrow> json option) \<Rightarrow> string \<Rightarrow> buffer \<Rightarrow> multipart_error + (json \<times> buffer)" where
  "parseMultipartPull = parseMultipart"

section \<open>Facts on searching\<close>

definition occurs_at :: "'a list \<Rightarrow> 'a list \<Rightarrow> nat \<Rightarrow> bool" where
  "occurs_at p xs k \<longleftrightarrow> take (length p) (drop k xs) = p"

lemma occurs_at_bound: "occurs_at p xs k \<Longrightarrow> p \<noteq> [] \<Longrightarrow> k + length p \<le> length xs"
  unfolding occurs_at_def by (metis drop_eq_Nil length_drop length_take le_diff_conv2 min.cobounded1 nle_le take_eq_Nil add.commute)

lemma occurs_at_append: "k + length p \<le> length xs \<Longrightarrow> occurs_at p (xs @ ys) k \<longleftrightarrow> occurs_at p xs k"
  by (simp add: occurs_at_def)

lemma occurs_at_nth: "occurs_at p xs k \<Longrightarrow> p \<noteq> [] \<Longrightarrow> i < length p \<Longrightarrow> xs ! (k + i) = p ! i"
  using occurs_at_bound [of p xs k] unfolding occurs_at_def by (metis add_leD1 nth_drop nth_take)

lemma index_of_Some: "p \<noteq> [] \<Longrightarrow> index_of p xs = Some n \<longleftrightarrow> occurs_at p xs n \<and> (\<forall>k<n. \<not> occurs_at p xs k)"
proof (induction xs arbitrary: n)
  case (Cons x xs)
  show ?case
  proof (cases n)
    case 0
    then show ?thesis by (auto simp: occurs_at_def)
  next
    case (Suc m)
    have "(\<forall>k<Suc m. \<not> occurs_at p (x # xs) k) \<longleftrightarrow> \<not> occurs_at p (x # xs) 0 \<and> (\<forall>k<m. \<not> occurs_at p xs k)"
      unfolding All_less_Suc2 by (simp add: occurs_at_def)
    then show ?thesis using Cons.IH [of m] Cons.prems Suc by (auto simp: occurs_at_def)
  qed
qed (auto simp: occurs_at_def)

lemma index_of_None: "p \<noteq> [] \<Longrightarrow> index_of p xs = None \<longleftrightarrow> (\<forall>k. \<not> occurs_at p xs k)"
proof -
  assume p: "p \<noteq> []"
  have "\<exists>n. occurs_at p xs n \<and> (\<forall>k<n. \<not> occurs_at p xs k)" if "occurs_at p xs k" for k
    using exists_least_iff [of "occurs_at p xs"] that by blast
  then show ?thesis using index_of_Some [OF p, of xs] by (metis not_None_eq)
qed

text \<open>What comes before the first occurrence of a delimiter.\<close>

definition upto_first :: "'a list \<Rightarrow> 'a list \<Rightarrow> 'a list" where
  "upto_first p xs = (case index_of p xs of None \<Rightarrow> xs | Some n \<Rightarrow> take n xs)"

lemma upto_first_absent: "c \<notin> set xs \<Longrightarrow> upto_first (c # q) xs = xs"
proof -
  assume c: "c \<notin> set xs"
  have "\<not> occurs_at (c # q) xs k" for k
  proof
    assume o: "occurs_at (c # q) xs k"
    then have "k < length xs" "xs ! k = c" using occurs_at_bound [OF o] occurs_at_nth [OF o, of 0] by auto
    then show False using c by auto
  qed
  then have "index_of (c # q) xs = None" using index_of_None [of "c # q" xs] by blast
  then show ?thesis unfolding upto_first_def by simp
qed

lemma index_of_delimiter:
  assumes c: "c \<notin> set q"
  shows "index_of (c # q) (xs @ (c # q) @ ys) = Some (length (upto_first (c # q) xs))"
    and "take (length (upto_first (c # q) xs)) (xs @ (c # q) @ ys) = upto_first (c # q) xs"
proof -
  let ?p = "c # q" and ?d = "xs @ (c # q) @ ys"
  have straddle: "\<not> occurs_at ?p ?d k" if "k < length xs" "length xs < k + length ?p" for k
  proof
    assume o: "occurs_at ?p ?d k"
    let ?i = "length xs - k"
    have "?d ! (k + ?i) = ?p ! ?i" using o that by (intro occurs_at_nth) auto
    moreover have "?d ! (k + ?i) = c" using that by (simp add: nth_append)
    moreover have "?p ! ?i \<in> set q" using that by (auto simp: nth_Cons' intro!: nth_mem)
    ultimately show False using c by simp
  qed
  have inside: "occurs_at ?p ?d k \<longleftrightarrow> occurs_at ?p xs k" if "k < length xs" for k
    using straddle [OF that] occurs_at_append [of k ?p xs "?p @ ys"] occurs_at_bound [of ?p xs k] by (cases "length xs < k + length ?p") auto
  have "index_of ?p ?d = Some (length (upto_first ?p xs)) \<and> take (length (upto_first ?p xs)) ?d = upto_first ?p xs"
  proof (cases "index_of ?p xs")
    case None
    then have "\<forall>k. \<not> occurs_at ?p xs k" using index_of_None [of ?p xs] by simp
    then have "\<forall>k<length xs. \<not> occurs_at ?p ?d k" using inside by blast
    moreover have "occurs_at ?p ?d (length xs)" by (simp add: occurs_at_def)
    ultimately have "index_of ?p ?d = Some (length xs)" using index_of_Some [of ?p ?d "length xs"] by blast
    then show ?thesis using None by (simp add: upto_first_def del: index_of.simps)
  next
    case (Some n)
    then have n: "occurs_at ?p xs n" "\<forall>k<n. \<not> occurs_at ?p xs k" using index_of_Some [of ?p xs n] by simp_all
    then have "n < length xs" using occurs_at_bound [OF n(1)] by simp
    then have "occurs_at ?p ?d n" "\<forall>k<n. \<not> occurs_at ?p ?d k" using n inside by auto
    then have "index_of ?p ?d = Some n" using index_of_Some [of ?p ?d n] by blast
    then show ?thesis using Some \<open>n < length xs\<close> by (simp add: upto_first_def del: index_of.simps)
  qed
  then show "index_of ?p ?d = Some (length (upto_first ?p xs))" "take (length (upto_first ?p xs)) ?d = upto_first ?p xs" by blast+
qed

lemma index_of_skip: "hd p \<notin> set xs \<Longrightarrow> p \<noteq> [] \<Longrightarrow> index_of p (xs @ ys) = map_option ((+) (length xs)) (index_of p ys)"
proof (induction xs)
  case (Cons x xs)
  then have "take (length p) (x # xs @ ys) \<noteq> p" by (cases p) auto
  then show ?case using Cons by (simp add: option.map_comp o_def)
qed (cases "index_of p ys", auto)

lemma index_from_append: "index_from p (pre @ xs) (length pre + n) = map_option ((+) (length pre)) (index_from p xs n)"
  by (cases "index_of p (drop n xs)") (simp_all add: index_from_def)

lemma drop_start: "zs = xs @ ys \<Longrightarrow> drop (length xs) zs = ys"
  by simp

lemma upto_first_short: "length xs < length p \<Longrightarrow> upto_first p xs = xs"
proof -
  assume l: "length xs < length p"
  then have "index_of p xs = None" using index_of_None [of p xs] occurs_at_bound [of p xs] by fastforce
  then show ?thesis by (simp add: upto_first_def)
qed

lemma index_of_start: "index_of p (p @ xs) = Some 0"
  using append_eq_conv_conj [of p xs "p @ xs"] by (cases "p @ xs") simp_all

section \<open>Facts on the message\<close>

lemma string_buffer_append: "string_buffer (a @ b) = string_buffer a @ string_buffer b"
  by (simp add: string_buffer_def utf8_buffer_def points_def)

lemma string_buffer_ascii: "list_all (\<lambda>c. of_char c < (128 :: nat)) s \<Longrightarrow> string_buffer s = map (\<lambda>c. of_nat (of_char c)) s"
  by (induction s) (auto simp: string_buffer_def utf8_buffer_def points_def utf8_encode_def)

lemma crlf_buffer [simp]: "string_buffer crlf = [13, 10]"
  by (simp add: string_buffer_ascii crlf_def)

lemma dash_buffer [simp]: "string_buffer (CHR ''-'' # s) = 45 # string_buffer s" "string_buffer [] = []"
  using string_buffer_append [of "''-''" s] by (simp_all add: string_buffer_ascii)

text \<open>A boundary of the server's form: no semicolon ends it early, and no carriage return is in it.\<close>

definition boundary_ok :: "string \<Rightarrow> bool" where
  "boundary_ok b \<longleftrightarrow> set b \<subseteq> set ''obts-0123456789abcdef''"

lemma boundary_facts:
  assumes "boundary_ok b"
  shows "13 \<notin> set (string_buffer b)" and "CHR '';'' \<notin> set b" and "length (string_buffer b) = length b"
proof -
  have c: "of_char c < (128 :: nat) \<and> of_char c \<noteq> (13 :: nat) \<and> c \<noteq> CHR '';''" if "c \<in> set b" for c
    using that assms unfolding boundary_ok_def by (auto dest!: subsetD)
  then have "string_buffer b = map (\<lambda>c. of_nat (of_char c)) b" by (intro string_buffer_ascii) (auto simp: list_all_iff)
  moreover have "(of_nat (of_char c) :: byte) \<noteq> 13" if "c \<in> set b" for c
    using c [OF that] unat_of_nat_byte [of "of_char c"] by auto
  ultimately show "13 \<notin> set (string_buffer b)" "length (string_buffer b) = length b" by auto
  show "CHR '';'' \<notin> set b" using c by blast
qed

abbreviation delimiter :: "string \<Rightarrow> buffer" where
  "delimiter b \<equiv> string_buffer (crlf @ ''--'' @ b)"

lemma delimiter_Cons: "delimiter b = 13 # [10, 45, 45] @ string_buffer b"
  by (simp add: string_buffer_append)

definition part_text :: "string \<Rightarrow> string \<Rightarrow> buffer \<Rightarrow> buffer" where
  "part_text b h bs = [45, 45] @ string_buffer b @ [13, 10] @ string_buffer h @ [13, 10, 13, 10] @ bs"

definition header_ok :: "string \<Rightarrow> bool" where
  "header_ok h \<longleftrightarrow> (\<forall>ys. index_of [13, 10, 13, 10] (string_buffer h @ [13, 10, 13, 10] @ ys) = Some (length (string_buffer h)))"

lemma parse_part:
  assumes b: "boundary_ok b" and h: "header_ok h"
    and data: "data = pre @ part_text b h (bs @ delimiter b @ rest)"
  shows "parse_parts b data (length pre) =
    \<lparr>headers = utf8_text (string_buffer h), body = upto_first (delimiter b) bs\<rparr> #
    parse_parts b data (length (pre @ part_text b h (upto_first (delimiter b) bs)) + 2)"
proof -
  let ?B = "string_buffer b" and ?H = "string_buffer h" and ?u = "upto_first (delimiter b) bs"
  let ?s = "length pre + (2 + length ?B)"
  have c: "13 \<notin> set ([10, 45, 45] @ ?B)" using boundary_facts(1) [OF b] by simp
  have d: "index_of (delimiter b) (bs @ delimiter b @ rest) = Some (length ?u)" "take (length ?u) (bs @ delimiter b @ rest) = ?u"
    using index_of_delimiter [OF c, of bs rest] unfolding delimiter_Cons by simp_all
  note data = data [unfolded part_text_def append_assoc]
  have d3: "drop (?s + 2) data = ?H @ [13, 10, 13, 10] @ bs @ delimiter b @ rest"
    using drop_start [of data "pre @ [45, 45] @ ?B @ [13, 10]"] by (simp add: data)
  have d4: "drop (?s + 2 + length ?H + 4) data = bs @ delimiter b @ rest"
    using drop_start [of data "pre @ [45, 45] @ ?B @ [13, 10] @ ?H @ [13, 10, 13, 10]"] by (simp add: data)
  have 1: "index_from (string_buffer (''--'' @ b)) data (length pre) = Some (length pre)"
    using index_of_start [of "[45, 45] @ ?B"] by (simp add: index_from_def data string_buffer_append del: index_of.simps)
  have 2: "utf8_text (subarray data ?s (?s + 2)) \<noteq> points ''--''"
    by (simp add: data subarray_def utf8_text_def points_def)
  have 3: "index_from (string_buffer (crlf @ crlf)) data (?s + 2) = Some (?s + 2 + length ?H)"
    using h unfolding index_from_def d3 header_ok_def by (simp add: string_buffer_append del: index_of.simps)
  have 4: "index_from (delimiter b) data (?s + 2 + length ?H + 4) = Some (?s + 2 + length ?H + 4 + length ?u)"
    unfolding index_from_def d4 d(1) by simp
  have 5: "subarray data (?s + 2) (?s + 2 + length ?H) = ?H" unfolding subarray_def d3 by simp
  have 6: "subarray data (?s + 2 + length ?H + 4) (?s + 2 + length ?H + 4 + length ?u) = ?u"
    unfolding subarray_def d4 using d(2) by simp
  have l: "length (string_buffer (''--'' @ b)) = 2 + length ?B" by (simp add: string_buffer_append)
  have "length pre < length data" by (simp add: data)
  then have "parse_parts b data (length pre) = \<lparr>headers = utf8_text ?H, body = ?u\<rparr> # parse_parts b data (?s + 2 + length ?H + 4 + length ?u + 2)"
    using 2 by (subst parse_parts.simps) (simp only: 1 l option.case Let_def 3 4 5 6 if_True if_False)
  moreover have "?s + 2 + length ?H + 4 + length ?u + 2 = length (pre @ part_text b h ?u) + 2" by (simp add: part_text_def)
  ultimately show ?thesis by (simp only:)
qed

lemma header_ok_two:
  assumes "13 \<notin> set (string_buffer a)" "13 \<notin> set (string_buffer a')" "a' = CHR ''C'' # t"
  shows "header_ok (a @ crlf @ a')"
proof -
  have "string_buffer a' = 67 # string_buffer t" using string_buffer_append [of "''C''" t] assms(3) by (simp add: string_buffer_ascii)
  moreover have "index_of [13, 10, 13, 10] (string_buffer a' @ [13, 10, 13, 10] @ ys) = Some (length (string_buffer a'))" for ys :: buffer
    using index_of_skip [of "[13, 10, 13, 10]" "string_buffer a'" "[13, 10, 13, 10] @ ys"] index_of_start [of "[13, 10, 13, 10]" ys] assms(2) by simp
  ultimately show ?thesis
    using assms(1) by (simp add: header_ok_def string_buffer_append index_of_skip)
qed

lemma manifest_header_ok: "header_ok manifest_header"
  unfolding manifest_header_def by (rule header_ok_two [where t = "''ontent-Type: application/json''"]) (simp_all add: string_buffer_ascii)

lemma pack_header_ok: "header_ok pack_header"
  unfolding pack_header_def by (rule header_ok_two [where t = "''ontent-Type: application/x-git-packed-objects''"]) (simp_all add: string_buffer_ascii)

lemma utf8_text_string: "list_all (\<lambda>c. of_char c < (128 :: nat)) s \<Longrightarrow> utf8_text (string_buffer s) = points s"
  unfolding string_buffer_def by (rule utf8_text_buffer) (auto simp: points_def list_all_iff scalar_def)

lemma header_names:
  "has_name ''manifest'' (utf8_text (string_buffer manifest_header))" "\<not> has_name ''packfile'' (utf8_text (string_buffer manifest_header))"
  "has_name ''packfile'' (utf8_text (string_buffer pack_header))"
  by (simp_all add: utf8_text_string manifest_header_def pack_header_def crlf_def has_name_def points_def fold_point_def)

lemma utf8_buffer_cr: "list_all scalar cs \<Longrightarrow> 13 \<notin> set cs \<Longrightarrow> (13 :: byte) \<notin> set (utf8_buffer cs)"
proof
  assume cs: "list_all scalar cs" "13 \<notin> set cs" and "(13 :: byte) \<in> set (utf8_buffer cs)"
  then obtain c n where c: "c \<in> set cs" "n \<in> set (utf8_encode c)" "(of_nat n :: byte) = 13" unfolding utf8_buffer_def by auto
  then have "n < 256" using cs utf8_encode_byte [of c n] by (auto simp: list_all_iff)
  then have "n = 13" using c(3) unat_of_nat_byte [of n] by simp
  then have "c = 13" using c(2) by (auto simp: utf8_encode_def split: if_splits)
  then show False using cs c by simp
qed

lemma match_content_type: "boundary_ok b \<Longrightarrow> b \<noteq> [] \<Longrightarrow> match_boundary (''multipart/form-data; boundary='' @ b) = Some b"
proof -
  assume b: "boundary_ok b" "b \<noteq> []"
  then have "takeWhile (\<lambda>x. x \<noteq> CHR '';'') b = b" using boundary_facts(2) [OF b(1)] by (intro takeWhile_eq_all_conv [THEN iffD2]) auto
  then show ?thesis using b(2) by (simp add: latin1_lower_def latin1_lower_char_def del: takeWhile_eq_all_conv)
qed

lemma multipart_received:
  assumes "\<And>b. set (sha256 b) \<subseteq> set ''0123456789abcdef''" and "json_parse (stringify m) = Some m"
    and "list_all scalar (stringify m)" and "13 \<notin> set (stringify m)"
  shows "(case sendMultipart sha256 stringify m pack of (contentType, data) \<Rightarrow> parseMultipart json_parse contentType data) =
    Inr (m, upto_first (delimiter (message_boundary sha256 stringify m pack)) pack)"
proof -
  define b where "b = message_boundary sha256 stringify m pack"
  let ?d = "delimiter b" and ?t = "utf8_buffer (stringify m)" and ?close = "[45, 45, 13, 10] :: buffer"
  have b: "boundary_ok b" "b \<noteq> []"
    using assms(1) set_take_subset [of 24] unfolding b_def message_boundary_def boundary_ok_def by fastforce+
  define data where "data = part_text b manifest_header (?t @ ?d @ [13, 10] @ string_buffer pack_header @ [13, 10, 13, 10] @ pack @ ?d @ ?close)"
  have t: "upto_first ?d ?t = ?t" unfolding delimiter_Cons by (rule upto_first_absent [OF utf8_buffer_cr [OF assms(3,4)]])
  let ?pre = "part_text b manifest_header ?t @ [13, 10]"
  have two: "data = ?pre @ part_text b pack_header (pack @ ?d @ ?close)" by (simp add: data_def part_text_def string_buffer_append)
  have "parse_parts b data 0 = \<lparr>headers = utf8_text (string_buffer manifest_header), body = ?t\<rparr> # parse_parts b data (length ?pre)"
    using parse_part [OF b(1) manifest_header_ok, of data "[]"] t by (simp add: data_def)
  moreover obtain ps where "parse_parts b data (length ?pre) = \<lparr>headers = utf8_text (string_buffer pack_header), body = upto_first ?d pack\<rparr> # ps"
    using parse_part [OF b(1) pack_header_ok two] by blast
  moreover have "sendMultipart sha256 stringify m pack = (''multipart/form-data; boundary='' @ b, data)"
    by (simp add: sendMultipart_def b_def [symmetric] Let_def data_def part_text_def string_buffer_append)
  ultimately show ?thesis
    using match_content_type [OF b] header_names assms(2) utf8_text_buffer [OF assms(3)]
    by (simp add: parseMultipart_def b_def [symmetric] del: index_of.simps match_boundary.simps)
qed

text \<open>C27. What the server sends as a multipart reply, the plugin reads: the manifest, and the pack up to the first place where the delimiter of
  the message occurs in it, so all of the pack when it does not. The hypotheses say that a digest is written in hexadecimal digits, that
  \<open>JSON.parse\<close> inverts \<open>JSON.stringify\<close> on the manifest, and that the text is well-formed Unicode in which control characters are
  escaped.\<close>

theorem multipart_delivers:
  assumes "\<And>b. set (sha256 b) \<subseteq> set ''0123456789abcdef''" and "json_parse (stringify m) = Some m"
    and "list_all scalar (stringify m)" and "13 \<notin> set (stringify m)"
  shows "(case sendMultipart sha256 stringify m pack of (contentType, data) \<Rightarrow> parseMultipart json_parse contentType data) =
    Inr (m, upto_first (delimiter (message_boundary sha256 stringify m pack)) pack)"
  using assms by (rule multipart_received)

definition sample_text :: "nat list" where
  "sample_text = points ''{}''"

theorem multipart_delivers_witness:
  "(case sendMultipart (\<lambda>_. ''0f'') (\<lambda>_. sample_text) (JObj []) [1, 13, 10, 2] of (contentType, data) \<Rightarrow>
     parseMultipart (\<lambda>_. Some (JObj [])) contentType data) = Inr (JObj [], [1, 13, 10, 2])"
proof -
  have "upto_first (delimiter (message_boundary (\<lambda>_. ''0f'') (\<lambda>_. sample_text) (JObj []) [1, 13, 10, 2])) [1, 13, 10, 2] = [1, 13, 10, 2]"
    unfolding delimiter_Cons message_boundary_def by (rule upto_first_short) (simp add: string_buffer_ascii)
  moreover have "list_all scalar sample_text" "13 \<notin> set sample_text" by (simp_all add: sample_text_def points_def scalar_def)
  ultimately show ?thesis
    by (subst multipart_delivers) simp_all
qed

end
