(* ===== verification/PullTransfer.thy ===== *)
theory PullTransfer
  imports Multipart
begin

text \<open>
  A pull in chunks. The server splits the objects a device lacks into groups and answers a request for group number \<open>cursor\<close> with a
  pack (\<open>createPullObjectChunk\<close> and the end of the route \<open>pull-chunk\<close> of \<^verbatim>\<open>src/server/app.ts\<close>); the plugin imports pack after
  pack and saves after each one where it stands (\<open>pull\<close> of \<^verbatim>\<open>obsidian-plugin/src/main.cjs\<close>), so that it can go on after a
  crash. Git is an argument: the objects reachable from a commit and their sizes, the pack of a list of objects, and whether the
  imported packs hold a commit. What the device has, the configuration and the other checks of the route are taken as fixed for a transfer, so the objects
  the server lists as missing depend on the target alone. Shown: the groups list every object once, in order and within the bounds (\<open>pull_groups\<close>); whatever
  is lost, refused or interrupted, and however the main line of the server moves on meanwhile, a transfer that ends as complete has
  imported every group of its target (\<open>pull_resumable\<close>); and it does end (\<open>pull_completes\<close>).
\<close>

section \<open>The server\<close>

record transfer_config =
  transferChunkBytes :: int
  maxTransferBytes :: int
  maxTransferChunks :: int

datatype server_error = Transfer_too_large | Object_too_large | Too_many_chunks | Invalid_cursor | Chunk_too_large | Git_failed | Refused | Invalid_request

text \<open>\<open>config.transferChunkBytes * 0.75\<close> is exact, and the floor of \<open>* 0.1\<close> is that of the exact quotient.\<close>

definition targetBytes :: "transfer_config \<Rightarrow> int" where
  "targetBytes config = max 1048576 (transferChunkBytes config * 3 div 4)"

definition packHeadroom :: "transfer_config \<Rightarrow> int" where
  "packHeadroom config = min 1048576 (max (64 * 1024) (transferChunkBytes config div 10))"

text \<open>The loop over the objects, with \<open>groups\<close>, the current group and \<open>groupBytes\<close>, and the push of the last group.\<close>

fun group_objects :: "transfer_config \<Rightarrow> (string \<times> nat) list \<Rightarrow> string list list \<Rightarrow> string list \<Rightarrow> int \<Rightarrow> server_error + string list list" where
  "group_objects config [] groups current groupBytes = Inr (if current \<noteq> [] then groups @ [current] else groups)"
| "group_objects config ((oid, bytes) # objects) groups current groupBytes =
     (if int bytes > transferChunkBytes config - packHeadroom config then Inl Object_too_large
      else if current \<noteq> [] \<and> groupBytes + int bytes > targetBytes config
        then group_objects config objects (groups @ [current]) [oid] (int bytes)
      else group_objects config objects groups (current @ [oid]) (groupBytes + int bytes))"

record pull_chunk =
  packfile :: buffer
  nextCursor :: int
  chunk_complete :: bool

definition is_safe_integer :: "int \<Rightarrow> bool" where
  "is_safe_integer n \<longleftrightarrow> \<bar>n\<bar> < 2 ^ 53"

definition createPullObjectChunk ::
  "transfer_config \<Rightarrow> (string list \<Rightarrow> int \<Rightarrow> buffer option) \<Rightarrow> (string \<times> nat) list \<Rightarrow> int \<Rightarrow> server_error + pull_chunk" where
  "createPullObjectChunk config exportObjectPack objects cursor =
     (if int (sum_list (map snd objects)) > maxTransferBytes config then Inl Transfer_too_large
      else rbind (group_objects config objects [] [] 0) (\<lambda>groups.
        if int (length groups) > maxTransferChunks config then Inl Too_many_chunks
        else if \<not> is_safe_integer cursor \<or> cursor < 0 \<or> cursor > int (length groups) then Inl Invalid_cursor
        else if cursor = int (length groups) then Inr \<lparr>packfile = [], nextCursor = cursor, chunk_complete = True\<rparr>
        else (case exportObjectPack (groups ! nat cursor) (transferChunkBytes config) of
                None \<Rightarrow> Inl Git_failed
              | Some pack \<Rightarrow>
                  if int (length pack) > transferChunkBytes config then Inl Chunk_too_large
                  else Inr \<lparr>packfile = pack, nextCursor = cursor + 1, chunk_complete = (cursor + 1 = int (length groups))\<rparr>)))"

text \<open>What the route relies on: its configuration, Git, the checks it makes before it builds a chunk (on the device, the vault, the
  plugin and the requested commit), and the fields of the manifest that are not about the chunk.\<close>

record pull_server =
  config :: transfer_config
  reachableObjectSizes :: "string \<Rightarrow> (string \<times> nat) list"
  exportObjectPack :: "string list \<Rightarrow> int \<Rightarrow> buffer option"
  refuses :: "string \<Rightarrow> bool"
  other_fields :: "string \<Rightarrow> bool \<Rightarrow> (string \<times> json) list"

definition pull_target :: "string \<Rightarrow> string \<Rightarrow> string" where
  "pull_target current_main requested = (if requested = ''latest'' then current_main else requested)"

definition chunk_manifest :: "pull_server \<Rightarrow> (buffer \<Rightarrow> string) \<Rightarrow> string \<Rightarrow> int \<Rightarrow> pull_chunk \<Rightarrow> json" where
  "chunk_manifest srv sha256 targetMain cursor chunk = JObj (other_fields srv targetMain (chunk_complete chunk) @
     [(''target_main'', JStr targetMain),
      (''cursor'', JNum (of_int cursor)),
      (''next_cursor'', JNum (of_int (nextCursor chunk))),
      (''complete'', JBool (chunk_complete chunk)),
      (''chunk_sha256'', JStr (sha256 (packfile chunk))),
      (''chunk_bytes'', JNum (of_nat (length (packfile chunk))))])"

text \<open>SHA-256, \<open>JSON.stringify\<close> and \<open>JSON.parse\<close>, of both sides.\<close>

record wire =
  wire_sha256 :: "buffer \<Rightarrow> string"
  wire_stringify :: "json \<Rightarrow> nat list"
  wire_parse :: "nat list \<Rightarrow> json option"

definition readNonNegativeInteger :: "rat \<Rightarrow> server_error + int" where
  "readNonNegativeInteger n = (if n = of_int \<lfloor>n\<rfloor> \<and> n \<ge> 0 then Inr \<lfloor>n\<rfloor> else Inl Invalid_request)"

definition serve_pull_chunk :: "pull_server \<Rightarrow> wire \<Rightarrow> string \<Rightarrow> string \<Rightarrow> rat \<Rightarrow> server_error + (string \<times> buffer)" where
  "serve_pull_chunk srv w current_main requested cursor =
     (let targetMain = pull_target current_main requested in
      rbind (readNonNegativeInteger cursor) (\<lambda>cursor.
        if refuses srv targetMain then Inl Refused
        else rbind (createPullObjectChunk (config srv) (exportObjectPack srv) (reachableObjectSizes srv targetMain) cursor) (\<lambda>chunk.
          Inr (sendMultipart (wire_sha256 w) (wire_stringify w) (chunk_manifest srv (wire_sha256 w) targetMain cursor chunk) (packfile chunk)))))"

section \<open>The plugin\<close>

datatype pull_error = Server_error server_error | Message_error multipart_error | Untyped_manifest
  | Chunk_digest_mismatch | Transfer_exceeds_limits | Transfer_incomplete | Transfer_did_not_advance | Invalid_checkpoint

record manifest_view =
  target_main :: string
  next_cursor :: rat
  complete :: bool
  chunk_sha256 :: string
  chunk_bytes :: rat

text \<open>The properties of the manifest that the loop reads. The code does not check their types; the model stops on others than the server sends.\<close>

definition view_manifest :: "json \<Rightarrow> manifest_view option" where
  "view_manifest m =
     (case (jprop m ''target_main'', jprop m ''next_cursor'', jprop m ''complete'', jprop m ''chunk_sha256'', jprop m ''chunk_bytes'') of
        (Some (JStr t), Some (JNum n), Some (JBool c), Some (JStr s), Some (JNum b)) \<Rightarrow>
          Some \<lparr>target_main = t, next_cursor = n, complete = c, chunk_sha256 = s, chunk_bytes = b\<rparr>
      | _ \<Rightarrow> None)"

record pull_request =
  vaultId :: string
  deviceId :: string
  currentLocalMain :: "string option"
  currentEventSeq :: nat
  requestedTarget :: string

record checkpoint =
  cp_vault :: string
  cp_device :: string
  cp_local_main :: "string option"
  cp_event_seq :: nat
  cp_target :: string
  cp_next_cursor :: rat
  cp_received_chunks :: nat
  cp_transferred_bytes :: nat
  cp_complete :: bool

text \<open>The variables of the loop, the saved checkpoint, and the packs imported so far.\<close>

record pull_client =
  cursor :: rat
  target :: string
  chunkCount :: nat
  transferredBytes :: nat
  saved :: "checkpoint option"
  imported :: "buffer list"

record plugin_env =
  max_transfer_chunks :: int
  max_transfer_bytes :: int
  commitExists :: "buffer list \<Rightarrow> string \<Rightarrow> bool"

definition checkpointMatches :: "pull_request \<Rightarrow> checkpoint \<Rightarrow> bool" where
  "checkpointMatches r c \<longleftrightarrow> cp_vault c = vaultId r \<and> cp_device c = deviceId r \<and> cp_local_main c = currentLocalMain r \<and>
     cp_event_seq c = currentEventSeq r \<and> (requestedTarget r = ''latest'' \<or> requestedTarget r = cp_target c)"

text \<open>The start of a transfer that is not complete: from the saved checkpoint, or from nothing.\<close>

definition begin_pull :: "pull_request \<Rightarrow> pull_client \<Rightarrow> pull_error + pull_client" where
  "begin_pull r cl =
     (case saved cl of
        None \<Rightarrow> Inr (cl\<lparr>cursor := 0, target := requestedTarget r, chunkCount := 0, transferredBytes := 0\<rparr>)
      | Some c \<Rightarrow>
          if checkpointMatches r c
          then Inr (cl\<lparr>cursor := cp_next_cursor c, target := cp_target c, chunkCount := cp_received_chunks c, transferredBytes := cp_transferred_bytes c\<rparr>)
          else Inl Invalid_checkpoint)"

definition save_checkpoint :: "pull_request \<Rightarrow> string \<Rightarrow> rat \<Rightarrow> bool \<Rightarrow> pull_client \<Rightarrow> pull_client" where
  "save_checkpoint r t n done cl = cl\<lparr>saved := Some \<lparr>cp_vault = vaultId r, cp_device = deviceId r, cp_local_main = currentLocalMain r,
     cp_event_seq = currentEventSeq r, cp_target = t, cp_next_cursor = n, cp_received_chunks = chunkCount cl,
     cp_transferred_bytes = transferredBytes cl, cp_complete = done\<rparr>\<rparr>"

text \<open>One round: the checks and the import of a chunk that arrived, and then what is saved. The two are separate because the plugin may be
  stopped between them.\<close>

definition import_chunk :: "plugin_env \<Rightarrow> wire \<Rightarrow> json \<times> buffer \<Rightarrow> pull_client \<Rightarrow> pull_error + (manifest_view \<times> pull_client)" where
  "import_chunk env w chunk cl =
     (case view_manifest (fst chunk) of
        None \<Rightarrow> Inl Untyped_manifest
      | Some m \<Rightarrow>
          if of_nat (length (snd chunk)) \<noteq> chunk_bytes m \<or> wire_sha256 w (snd chunk) \<noteq> chunk_sha256 m then Inl Chunk_digest_mismatch
          else let cl1 = cl\<lparr>chunkCount := chunkCount cl + 1, transferredBytes := transferredBytes cl + length (snd chunk)\<rparr> in
            if int (chunkCount cl1) > max_transfer_chunks env \<or> int (transferredBytes cl1) > max_transfer_bytes env then Inl Transfer_exceeds_limits
            else Inr (m, cl1\<lparr>imported := imported cl1 @ [snd chunk], target := target_main m\<rparr>))"

definition record_chunk :: "plugin_env \<Rightarrow> pull_request \<Rightarrow> manifest_view \<Rightarrow> pull_client \<Rightarrow> pull_error + pull_client" where
  "record_chunk env r m cl =
     (if complete m then
        (if \<not> commitExists env (imported cl) (target_main m) then Inl Transfer_incomplete
         else Inr (save_checkpoint r (target cl) (next_cursor m) True cl))
      else if next_cursor m \<le> cursor cl then Inl Transfer_did_not_advance
      else Inr (save_checkpoint r (target cl) (next_cursor m) False (cl\<lparr>cursor := next_cursor m\<rparr>)))"

text \<open>A request for the chunk at the cursor, and the reply as the plugin reads it.\<close>

definition pullChunk :: "pull_server \<Rightarrow> wire \<Rightarrow> string \<Rightarrow> pull_client \<Rightarrow> pull_error + (json \<times> buffer)" where
  "pullChunk srv w current_main cl =
     (case serve_pull_chunk srv w current_main (target cl) (cursor cl) of
        Inl e \<Rightarrow> Inl (Server_error e)
      | Inr (contentType, data) \<Rightarrow>
          (case parseMultipartPull (wire_parse w) contentType data of Inl e \<Rightarrow> Inl (Message_error e) | Inr chunk \<Rightarrow> Inr chunk))"

definition receive_chunk :: "pull_server \<Rightarrow> plugin_env \<Rightarrow> wire \<Rightarrow> string \<Rightarrow> pull_client \<Rightarrow> pull_error + (manifest_view \<times> pull_client)" where
  "receive_chunk srv env w current_main cl = rbind (pullChunk srv w current_main cl) (\<lambda>chunk. import_chunk env w chunk cl)"

section \<open>Transfers with interruptions\<close>

text \<open>A transfer is a sequence of rounds. In each the server has some current main; the plugin may be stopped after the import of a pack, or at any
  other time, and an error ends the loop as well. The next sync begins again from what is saved.\<close>

datatype pull_event = Round string | Interrupted string | Stopped

definition again :: "pull_request \<Rightarrow> pull_client \<Rightarrow> pull_client" where
  "again r cl = (case begin_pull r cl of Inl _ \<Rightarrow> cl | Inr cl' \<Rightarrow> cl')"

fun pull_step :: "pull_server \<Rightarrow> plugin_env \<Rightarrow> wire \<Rightarrow> pull_request \<Rightarrow> pull_client \<Rightarrow> pull_event \<Rightarrow> pull_client" where
  "pull_step srv env w r cl (Round current_main) =
     (case receive_chunk srv env w current_main cl of
        Inl _ \<Rightarrow> again r cl
      | Inr (m, cl1) \<Rightarrow> (case record_chunk env r m cl1 of Inl _ \<Rightarrow> again r cl1 | Inr cl2 \<Rightarrow> cl2))"
| "pull_step srv env w r cl (Interrupted current_main) =
     (case receive_chunk srv env w current_main cl of Inl _ \<Rightarrow> again r cl | Inr (m, cl1) \<Rightarrow> again r cl1)"
| "pull_step srv env w r cl Stopped = again r cl"

definition transferred :: "pull_client \<Rightarrow> bool" where
  "transferred cl \<longleftrightarrow> (case saved cl of None \<Rightarrow> False | Some c \<Rightarrow> cp_complete c)"

text \<open>Steps happen while the transfer is not complete. A commit id is never the word \<open>latest\<close>.\<close>

definition pull_enabled :: "pull_client \<Rightarrow> pull_event \<Rightarrow> bool" where
  "pull_enabled cl ev \<longleftrightarrow> \<not> transferred cl \<and> ev \<noteq> Round ''latest'' \<and> ev \<noteq> Interrupted ''latest''"

definition new_pull :: "pull_request \<Rightarrow> pull_client" where
  "new_pull r = \<lparr>cursor = 0, target = requestedTarget r, chunkCount = 0, transferredBytes = 0, saved = None, imported = []\<rparr>"

text \<open>The chunk that the server answers with.\<close>

definition chunk_for :: "pull_server \<Rightarrow> string \<Rightarrow> rat \<Rightarrow> pull_chunk \<Rightarrow> bool" where
  "chunk_for srv t c chunk \<longleftrightarrow> (\<exists>n. readNonNegativeInteger c = Inr n \<and> \<not> refuses srv t \<and>
     createPullObjectChunk (config srv) (exportObjectPack srv) (reachableObjectSizes srv t) n = Inr chunk)"

text \<open>What is assumed of the wire: digests are hexadecimal, and \<open>JSON.parse\<close> inverts \<open>JSON.stringify\<close> on the manifests that are sent, whose text
  is well-formed and has its control characters escaped.\<close>

definition wire_ok :: "pull_server \<Rightarrow> wire \<Rightarrow> bool" where
  "wire_ok srv w \<longleftrightarrow> (\<forall>b. set (wire_sha256 w b) \<subseteq> set ''0123456789abcdef'') \<and>
     (\<forall>t n chunk. chunk_for srv t (of_int n) chunk \<longrightarrow> (let m = chunk_manifest srv (wire_sha256 w) t n chunk in
        wire_parse w (wire_stringify w m) = Some m \<and> list_all scalar (wire_stringify w m) \<and> 13 \<notin> set (wire_stringify w m)))"

definition groups_of :: "pull_server \<Rightarrow> string \<Rightarrow> server_error + string list list" where
  "groups_of srv t = group_objects (config srv) (reachableObjectSizes srv t) [] [] 0"

definition pack_of :: "pull_server \<Rightarrow> string list \<Rightarrow> buffer option" where
  "pack_of srv g = exportObjectPack srv g (transferChunkBytes (config srv))"

section \<open>Groups\<close>

text \<open>Objects of a group, with their sizes.\<close>

definition fits :: "transfer_config \<Rightarrow> (string \<times> nat) list \<Rightarrow> bool" where
  "fits c p \<longleftrightarrow> p \<noteq> [] \<and> list_all (\<lambda>(_, bytes). int bytes \<le> transferChunkBytes c - packHeadroom c) p \<and>
     (length p = 1 \<or> int (sum_list (map snd p)) \<le> targetBytes c)"

lemma group_objects_parts:
  assumes "group_objects c objects (map (map fst) ps) (map fst p) (int (sum_list (map snd p))) = Inr gs"
    and "list_all (fits c) ps" and "p = [] \<or> fits c p"
  shows "\<exists>qs. gs = map (map fst) qs \<and> concat qs = concat ps @ p @ objects \<and> list_all (fits c) qs"
  using assms
proof (induction objects arbitrary: ps p)
  case Nil
  then show ?case by (cases "p = []") (auto intro: exI [of _ ps] exI [of _ "ps @ [p]"])
next
  case (Cons x objects)
  obtain oid bytes where x: "x = (oid, bytes)" by (cases x)
  have ok: "int bytes \<le> transferChunkBytes c - packHeadroom c" using Cons.prems(1) x by (auto split: if_splits)
  show ?case
  proof (cases "p \<noteq> [] \<and> int (sum_list (map snd p)) + int bytes > targetBytes c")
    case True
    then show ?thesis using Cons.IH [of "ps @ [p]" "[x]"] Cons.prems ok x by (auto simp: fits_def)
  next
    case False
    then have "fits c (p @ [x])" using ok x Cons.prems(3) by (auto simp: fits_def)
    then show ?thesis using Cons.IH [of ps "p @ [x]"] Cons.prems ok x False by (auto simp: add.commute)
  qed
qed

lemma group_objects_total:
  "list_all (\<lambda>(_, bytes). int bytes \<le> transferChunkBytes c - packHeadroom c) objects \<Longrightarrow> \<exists>gs. group_objects c objects groups g n = Inr gs"
  by (induction c objects groups g n rule: group_objects.induct) auto

lemma group_objects_limit:
  "group_objects c objects groups g n = Inr gs \<Longrightarrow> list_all (\<lambda>(_, bytes). int bytes \<le> transferChunkBytes c - packHeadroom c) objects"
  by (induction c objects groups g n rule: group_objects.induct) (auto split: if_splits)

text \<open>The groups in which the server sends the objects of a pull hold all of them, once and in order; a group is not empty, and is a single object or of at
  most the target size; and grouping fails exactly when an object exceeds the chunk limit less the headroom.\<close>

theorem pull_groups:
  "((\<exists>gs. groups_of srv t = Inr gs) \<longleftrightarrow>
     list_all (\<lambda>(_, bytes). int bytes \<le> transferChunkBytes (config srv) - packHeadroom (config srv)) (reachableObjectSizes srv t)) \<and>
   (\<forall>gs. groups_of srv t = Inr gs \<longrightarrow>
     (\<exists>ps. gs = map (map fst) ps \<and> concat ps = reachableObjectSizes srv t \<and> list_all (fits (config srv)) ps))"
proof (intro conjI allI impI)
  show "(\<exists>gs. groups_of srv t = Inr gs) \<longleftrightarrow>
     list_all (\<lambda>(_, bytes). int bytes \<le> transferChunkBytes (config srv) - packHeadroom (config srv)) (reachableObjectSizes srv t)"
    using group_objects_total  group_objects_limit unfolding groups_of_def by blast
  show "\<exists>ps. gs = map (map fst) ps \<and> concat ps = reachableObjectSizes srv t \<and> list_all (fits (config srv)) ps" if "groups_of srv t = Inr gs" for gs
    using that group_objects_parts [of "config srv" _ "[]" "[]" gs] by (simp add: groups_of_def)
qed

section \<open>Transfers\<close>

lemma upto_first_prefix: "length (upto_first p xs) = length xs \<Longrightarrow> upto_first p xs = xs"
  by (auto simp: upto_first_def split: option.splits)

lemma view_chunk_manifest:
  "view_manifest (chunk_manifest srv h t n chunk) = Some \<lparr>target_main = t, next_cursor = of_int (nextCursor chunk), complete = chunk_complete chunk,
     chunk_sha256 = h (packfile chunk), chunk_bytes = of_nat (length (packfile chunk))\<rparr>"
  by (simp add: view_manifest_def chunk_manifest_def)

lemma pullChunk_delivers:
  assumes "wire_ok srv w"
  shows "pullChunk srv w cm cl = Inr (j, pack) \<longleftrightarrow> (\<exists>chunk n. chunk_for srv (pull_target cm (target cl)) (cursor cl) chunk \<and>
     readNonNegativeInteger (cursor cl) = Inr n \<and> j = chunk_manifest srv (wire_sha256 w) (pull_target cm (target cl)) n chunk \<and>
     pack = upto_first (delimiter (message_boundary (wire_sha256 w) (wire_stringify w) j (packfile chunk))) (packfile chunk))"
proof -
  let ?t = "pull_target cm (target cl)"
  let ?m = "\<lambda>n chunk. chunk_manifest srv (wire_sha256 w) ?t n chunk"
  have "(case sendMultipart (wire_sha256 w) (wire_stringify w) (?m n chunk) (packfile chunk) of (ct, data) \<Rightarrow> parseMultipart (wire_parse w) ct data) =
      Inr (?m n chunk, upto_first (delimiter (message_boundary (wire_sha256 w) (wire_stringify w) (?m n chunk) (packfile chunk))) (packfile chunk))"
    if "readNonNegativeInteger (cursor cl) = Inr n" "\<not> refuses srv ?t"
      "createPullObjectChunk (config srv) (exportObjectPack srv) (reachableObjectSizes srv ?t) n = Inr chunk" for n chunk
  proof -
    have "cursor cl = of_int n" using that(1) by (auto simp: readNonNegativeInteger_def split: if_splits)
    then have "chunk_for srv ?t (of_int n) chunk" using that by (auto simp: chunk_for_def)
    then show ?thesis using assms by (intro multipart_received) (auto simp: wire_ok_def Let_def)
  qed
  then show ?thesis
    unfolding pullChunk_def serve_pull_chunk_def chunk_for_def Let_def rbind_def parseMultipartPull_def
    by (fastforce split: sum.splits prod.splits if_splits)
qed

lemma receive_chunk_facts:
  assumes "wire_ok srv w" and "receive_chunk srv env w cm cl = Inr (m, cl1)"
  shows "\<exists>chunk. chunk_for srv (pull_target cm (target cl)) (cursor cl) chunk \<and>
     m = \<lparr>target_main = pull_target cm (target cl), next_cursor = of_int (nextCursor chunk), complete = chunk_complete chunk,
       chunk_sha256 = wire_sha256 w (packfile chunk), chunk_bytes = of_nat (length (packfile chunk))\<rparr> \<and>
     cl1 = cl\<lparr>target := pull_target cm (target cl), chunkCount := chunkCount cl + 1, transferredBytes := transferredBytes cl + length (packfile chunk),
       imported := imported cl @ [packfile chunk]\<rparr>"
proof -
  obtain j pack where p: "pullChunk srv w cm cl = Inr (j, pack)" and i: "import_chunk env w (j, pack) cl = Inr (m, cl1)"
    using assms(2) by (auto simp: receive_chunk_def rbind_Inr_iff)
  obtain chunk n where c: "chunk_for srv (pull_target cm (target cl)) (cursor cl) chunk"
    and j: "j = chunk_manifest srv (wire_sha256 w) (pull_target cm (target cl)) n chunk"
    and pack: "pack = upto_first (delimiter (message_boundary (wire_sha256 w) (wire_stringify w) j (packfile chunk))) (packfile chunk)"
    using pullChunk_delivers [OF assms(1)] p by blast
  have "length pack = length (packfile chunk)"
    using i by (auto simp: import_chunk_def j view_chunk_manifest Let_def split: if_splits)
  then have "pack = packfile chunk" using upto_first_prefix pack by metis
  then show ?thesis using i c by (auto simp: import_chunk_def j view_chunk_manifest Let_def split: if_splits)
qed

lemma chunk_for_cases:
  assumes "chunk_for srv t (of_nat n) chunk"
  obtains gs where "groups_of srv t = Inr gs" and "n = length gs" and "packfile chunk = []" and "nextCursor chunk = int n" and "chunk_complete chunk"
  | gs where "groups_of srv t = Inr gs" and "n < length gs" and "pack_of srv (gs ! n) = Some (packfile chunk)" and "nextCursor chunk = int (Suc n)"
    and "chunk_complete chunk \<longleftrightarrow> Suc n = length gs"
proof -
  have "readNonNegativeInteger (of_nat n) = Inr (int n)" by (simp add: readNonNegativeInteger_def)
  then have "createPullObjectChunk (config srv) (exportObjectPack srv) (reachableObjectSizes srv t) (int n) = Inr chunk"
    using assms by (auto simp: chunk_for_def)
  moreover have "(int n + 1 = int k) = (Suc n = k)" for k by auto
  ultimately obtain gs where gs: "groups_of srv t = Inr gs" and "n = length gs \<and> packfile chunk = [] \<and> nextCursor chunk = int n \<and> chunk_complete chunk \<or>
      n < length gs \<and> pack_of srv (gs ! n) = Some (packfile chunk) \<and> nextCursor chunk = int (Suc n) \<and> (chunk_complete chunk \<longleftrightarrow> Suc n = length gs)"
    unfolding createPullObjectChunk_def groups_of_def pack_of_def
    by (auto simp: rbind_Inr_iff split: if_splits option.splits)
  then show thesis using that by blast
qed

text \<open>The invariant. What is saved speaks of groups that were imported; the variables of the loop agree with what is saved.\<close>

definition group_bytes :: "pull_server \<Rightarrow> string list \<Rightarrow> nat" where
  "group_bytes srv g = length (the (pack_of srv g))"

definition progress :: "pull_server \<Rightarrow> string \<Rightarrow> rat \<Rightarrow> buffer list \<Rightarrow> string list list \<Rightarrow> nat \<Rightarrow> bool" where
  "progress srv t c packs gs n \<longleftrightarrow> groups_of srv t = Inr gs \<and> c = of_nat n \<and> n \<le> length gs \<and>
     (\<forall>g \<in> set (take n gs). \<exists>p. pack_of srv g = Some p \<and> p \<in> set packs)"

definition saved_inv :: "pull_server \<Rightarrow> plugin_env \<Rightarrow> pull_request \<Rightarrow> checkpoint \<Rightarrow> buffer list \<Rightarrow> bool" where
  "saved_inv srv env r c packs \<longleftrightarrow> checkpointMatches r c \<and> cp_target c \<noteq> ''latest'' \<and>
     (\<exists>gs n. progress srv (cp_target c) (cp_next_cursor c) packs gs n \<and>
       (if cp_complete c then n = length gs \<and> commitExists env packs (cp_target c)
        else n < length gs \<and> cp_received_chunks c = n \<and> cp_transferred_bytes c = sum_list (map (group_bytes srv) (take n gs))))"

definition in_step :: "pull_request \<Rightarrow> pull_client \<Rightarrow> bool" where
  "in_step r cl \<longleftrightarrow> (case saved cl of
     None \<Rightarrow> cursor cl = 0 \<and> target cl = requestedTarget r \<and> chunkCount cl = 0 \<and> transferredBytes cl = 0
   | Some c \<Rightarrow> cp_complete c \<or> cursor cl = cp_next_cursor c \<and> target cl = cp_target c \<and> chunkCount cl = cp_received_chunks c \<and>
       transferredBytes cl = cp_transferred_bytes c)"

definition pull_inv :: "pull_server \<Rightarrow> plugin_env \<Rightarrow> pull_request \<Rightarrow> pull_client \<Rightarrow> bool" where
  "pull_inv srv env r cl \<longleftrightarrow> in_step r cl \<and> (\<forall>c. saved cl = Some c \<longrightarrow> saved_inv srv env r c (imported cl))"

lemma saved_inv_mono: "saved_inv srv env r c packs \<Longrightarrow> \<not> cp_complete c \<Longrightarrow> saved_inv srv env r c (packs @ qs)"
  unfolding saved_inv_def progress_def by (fastforce dest: bspec)

lemma again_simps [simp]: "saved (again r cl) = saved cl" "imported (again r cl) = imported cl"
  by (auto simp: again_def begin_pull_def split: option.splits)

lemma again_inv:
  assumes "\<forall>c. saved cl = Some c \<longrightarrow> saved_inv srv env r c (imported cl)"
  shows "pull_inv srv env r (again r cl)"
proof -
  have "in_step r (again r cl)"
    using assms by (auto simp: in_step_def again_def begin_pull_def saved_inv_def split: option.splits)
  then show ?thesis using assms by (simp add: pull_inv_def)
qed

text \<open>The target of a round: pinned once something is saved.\<close>

lemma round_target:
  assumes "pull_inv srv env r cl" and "\<not> transferred cl" and "cm \<noteq> ''latest''" and t: "t = pull_target cm (target cl)"
  shows "t \<noteq> ''latest''" and "requestedTarget r = ''latest'' \<or> requestedTarget r = t"
    and "\<And>c. saved cl = Some c \<Longrightarrow> t = cp_target c"
  using assms by (auto simp: pull_inv_def in_step_def transferred_def pull_target_def saved_inv_def checkpointMatches_def split: option.splits if_splits)

text \<open>Where the loop stands.\<close>

lemma round_position:
  assumes "pull_inv srv env r cl" and "\<not> transferred cl" and "cm \<noteq> ''latest''" and "t = pull_target cm (target cl)"
    and gs: "groups_of srv t = Inr gs"
  obtains n where "progress srv t (cursor cl) (imported cl) gs n" and "chunkCount cl = n" and "transferredBytes cl = sum_list (map (group_bytes srv) (take n gs))"
    and "n < length gs \<or> gs = []"
proof (cases "saved cl")
  case None
  then show ?thesis using assms that [of 0] by (auto simp: pull_inv_def in_step_def progress_def)
next
  case (Some c)
  then have "t = cp_target c" "\<not> cp_complete c" using round_target(3) [OF assms(1-4)] assms(2) by (auto simp: transferred_def)
  then show ?thesis using assms(1) gs Some that by (auto simp: pull_inv_def in_step_def saved_inv_def progress_def)
qed

lemma progress_next:
  "progress srv t c packs gs n \<Longrightarrow> n < length gs \<Longrightarrow> pack_of srv (gs ! n) = Some p \<Longrightarrow> progress srv t (of_nat (Suc n)) (packs @ [p]) gs (Suc n)"
  by (auto simp: progress_def take_Suc_conv_app_nth)

lemma recorded_inv:
  assumes w: "wire_ok srv w" and inv: "pull_inv srv env r cl" "\<not> transferred cl" and cm: "cm \<noteq> ''latest''"
    and rec: "receive_chunk srv env w cm cl = Inr (m, cl1)" "record_chunk env r m cl1 = Inr cl2"
  shows "pull_inv srv env r cl2"
proof -
  define t where "t = pull_target cm (target cl)"
  obtain chunk where c: "chunk_for srv t (cursor cl) chunk"
    and m: "m = \<lparr>target_main = t, next_cursor = of_int (nextCursor chunk), complete = chunk_complete chunk,
       chunk_sha256 = wire_sha256 w (packfile chunk), chunk_bytes = of_nat (length (packfile chunk))\<rparr>"
    and cl1: "cl1 = cl\<lparr>target := t, chunkCount := chunkCount cl + 1, transferredBytes := transferredBytes cl + length (packfile chunk),
       imported := imported cl @ [packfile chunk]\<rparr>"
    using receive_chunk_facts [OF w rec(1)] unfolding t_def by blast
  have t: "t \<noteq> ''latest''" "requestedTarget r = ''latest'' \<or> requestedTarget r = t" using round_target [OF inv cm t_def] by auto
  obtain gs where gs: "groups_of srv t = Inr gs"
    using c by (auto simp: chunk_for_def createPullObjectChunk_def groups_of_def rbind_Inr_iff split: if_splits)
  obtain n where n: "progress srv t (cursor cl) (imported cl) gs n" "chunkCount cl = n"
    "transferredBytes cl = sum_list (map (group_bytes srv) (take n gs))" "n < length gs \<or> gs = []"
    using round_position [OF inv cm t_def gs] by blast
  then have "chunk_for srv t (of_nat n) chunk" using c by (simp add: progress_def)
  then show ?thesis
  proof (cases rule: chunk_for_cases)
    case (1 gs')
    then have "progress srv t (of_nat n) (imported cl @ [packfile chunk]) gs n" using n(1) gs by (auto simp: progress_def)
    then show ?thesis using rec(2) 1 gs t
      by (auto simp: record_chunk_def m cl1 save_checkpoint_def pull_inv_def in_step_def saved_inv_def checkpointMatches_def split: if_splits intro!: exI [of _ gs])
  next
    case (2 gs')
    then have "progress srv t (of_nat (Suc n)) (imported cl @ [packfile chunk]) gs (Suc n)" using n(1) gs progress_next by simp
    moreover have "transferredBytes cl + length (packfile chunk) = sum_list (map (group_bytes srv) (take (Suc n) gs))"
      using 2 gs n(3) by (simp add: take_Suc_conv_app_nth group_bytes_def)
    ultimately have ok: "saved_inv srv env r c (imported cl @ [packfile chunk])"
      if "checkpointMatches r c" "cp_target c = t" "cp_next_cursor c = of_nat (Suc n)" "cp_received_chunks c = Suc n"
        "cp_transferred_bytes c = transferredBytes cl + length (packfile chunk)" "cp_complete c \<longleftrightarrow> Suc n = length gs"
        "cp_complete c \<longrightarrow> commitExists env (imported cl @ [packfile chunk]) t" for c
      unfolding saved_inv_def using that t(1) 2(1,2) gs by (intro conjI exI [of _ gs] exI [of _ "Suc n"]) auto
    have nx: "rat_of_int (nextCursor chunk) = of_nat (Suc n)" "chunk_complete chunk \<longleftrightarrow> Suc n = length gs" using 2 gs by auto
    show ?thesis
    proof (cases "chunk_complete chunk")
      case True
      then have "cl2 = save_checkpoint r t (of_nat (Suc n)) True cl1" "commitExists env (imported cl @ [packfile chunk]) t"
        using rec(2) nx(1) by (auto simp: record_chunk_def m cl1 split: if_splits)
      then show ?thesis using True nx(2) n(2) t(2) unfolding pull_inv_def in_step_def
        by (simp add: save_checkpoint_def cl1 ok checkpointMatches_def)
    next
      case False
      then have "cl2 = save_checkpoint r t (of_nat (Suc n)) False (cl1\<lparr>cursor := of_nat (Suc n)\<rparr>)"
        using rec(2) nx(1) by (auto simp: record_chunk_def m cl1 split: if_splits)
      then show ?thesis using False nx(2) n(2) t(2) unfolding pull_inv_def in_step_def
        by (simp add: save_checkpoint_def cl1 ok checkpointMatches_def)
    qed
  qed
qed

lemma pull_step_inv:
  assumes w: "wire_ok srv w" and inv: "pull_inv srv env r cl" and en: "pull_enabled cl ev"
  shows "pull_inv srv env r (pull_step srv env w r cl ev)"
proof -
  have sv: "\<forall>c. saved cl = Some c \<longrightarrow> saved_inv srv env r c (imported cl)" and op: "\<not> transferred cl"
    using inv en by (auto simp: pull_inv_def pull_enabled_def)
  have grown: "\<forall>c. saved cl1 = Some c \<longrightarrow> saved_inv srv env r c (imported cl1)" if "receive_chunk srv env w cm cl = Inr (m, cl1)" for cm m cl1
    using receive_chunk_facts [OF w that] sv op saved_inv_mono by (auto simp: transferred_def)
  show ?thesis
  proof (cases ev)
    case (Round cm)
    then show ?thesis using recorded_inv [OF w inv op, of cm] again_inv [OF sv] again_inv [OF grown] en
      by (auto simp: pull_enabled_def split: sum.splits)
  next
    case (Interrupted cm)
    then show ?thesis using again_inv [OF sv] again_inv [OF grown] by (auto split: sum.splits)
  qed (use again_inv [OF sv] in simp)
qed

lemma new_pull_inv: "pull_inv srv env r (new_pull r)"
  by (simp add: new_pull_def pull_inv_def in_step_def)

interpretation pulls: event_machine "new_pull r" pull_enabled "pull_step srv env w r" "\<lambda>_ cl. wire_ok srv w \<longrightarrow> pull_inv srv env r cl"
  for srv env w r
  by unfold_locales (simp_all add: new_pull_inv pull_step_inv)

abbreviation pull_run :: "pull_server \<Rightarrow> plugin_env \<Rightarrow> wire \<Rightarrow> pull_request \<Rightarrow> pull_event list \<Rightarrow> pull_client \<Rightarrow> bool" where
  "pull_run srv env w r \<equiv> event_run (new_pull r) pull_enabled (pull_step srv env w r)"

lemma pull_run_inv: "wire_ok srv w \<Longrightarrow> pull_run srv env w r evs cl \<Longrightarrow> pull_inv srv env r cl"
  using pulls.run_inv by blast

text \<open>C4. A pull survives interruptions: however often the plugin is stopped, a request fails or the server's main moves on between two requests, once the
  transfer is saved as complete its target is the requested commit, or some commit when the latest was asked for; every object that the server lists
  for the target is in one of the groups, the pack of every group was imported as the server made it, and the target commit is there.\<close>

theorem pull_resumable:
  assumes "wire_ok srv w" and "pull_run srv env w r evs cl" and "saved cl = Some c" and "cp_complete c"
  shows "\<exists>gs. groups_of srv (cp_target c) = Inr gs \<and> concat gs = map fst (reachableObjectSizes srv (cp_target c)) \<and>
    (\<forall>g \<in> set gs. \<exists>p. pack_of srv g = Some p \<and> p \<in> set (imported cl)) \<and> commitExists env (imported cl) (cp_target c) \<and>
    (requestedTarget r = ''latest'' \<or> cp_target c = requestedTarget r)"
proof -
  have "saved_inv srv env r c (imported cl)" using pull_run_inv [OF assms(1,2)] assms(3) by (simp add: pull_inv_def)
  then obtain gs where gs: "groups_of srv (cp_target c) = Inr gs" "\<forall>g \<in> set gs. \<exists>p. pack_of srv g = Some p \<and> p \<in> set (imported cl)"
    "commitExists env (imported cl) (cp_target c)" "requestedTarget r = ''latest'' \<or> cp_target c = requestedTarget r"
    using assms(4) by (auto simp: saved_inv_def progress_def checkpointMatches_def)
  moreover have "concat gs = map fst (reachableObjectSizes srv (cp_target c))"
    using group_objects_parts [of "config srv" "reachableObjectSizes srv (cp_target c)" "[]" "[]" gs] gs(1)
    by (auto simp: groups_of_def map_concat [symmetric])
  ultimately show ?thesis by blast
qed

text \<open>A target that can be sent: nothing is refused or too large for either side, Git packs every group, no pack holds the delimiter of its
  own message, and the packs together have the commit.\<close>

definition intact :: "pull_server \<Rightarrow> wire \<Rightarrow> string \<Rightarrow> buffer \<Rightarrow> bool" where
  "intact srv w t p \<longleftrightarrow> (\<forall>n chunk. packfile chunk = p \<longrightarrow>
     upto_first (delimiter (message_boundary (wire_sha256 w) (wire_stringify w) (chunk_manifest srv (wire_sha256 w) t n chunk) p)) p = p)"

definition deliverable :: "pull_server \<Rightarrow> plugin_env \<Rightarrow> wire \<Rightarrow> string \<Rightarrow> string list list \<Rightarrow> bool" where
  "deliverable srv env w t gs \<longleftrightarrow> \<not> refuses srv t \<and> groups_of srv t = Inr gs \<and>
     int (sum_list (map snd (reachableObjectSizes srv t))) \<le> maxTransferBytes (config srv) \<and>
     int (length gs) \<le> maxTransferChunks (config srv) \<and> length gs < 2 ^ 53 \<and>
     int (max 1 (length gs)) \<le> max_transfer_chunks env \<and> int (sum_list (map (group_bytes srv) gs)) \<le> max_transfer_bytes env \<and>
     (\<forall>g \<in> set gs. \<exists>p. pack_of srv g = Some p \<and> int (length p) \<le> transferChunkBytes (config srv) \<and> intact srv w t p) \<and>
     (\<forall>packs. (\<forall>g \<in> set gs. \<exists>p. pack_of srv g = Some p \<and> p \<in> set packs) \<longrightarrow> commitExists env packs t)"

lemma receive_deliverable:
  assumes w: "wire_ok srv w" and t: "t = pull_target cm (target cl)" and ch: "chunk_for srv t (cursor cl) chunk" and i: "intact srv w t (packfile chunk)"
    and lim: "int (chunkCount cl + 1) \<le> max_transfer_chunks env" "int (transferredBytes cl + length (packfile chunk)) \<le> max_transfer_bytes env"
  shows "receive_chunk srv env w cm cl = Inr (\<lparr>target_main = t, next_cursor = of_int (nextCursor chunk), complete = chunk_complete chunk,
       chunk_sha256 = wire_sha256 w (packfile chunk), chunk_bytes = of_nat (length (packfile chunk))\<rparr>,
     cl\<lparr>target := t, chunkCount := chunkCount cl + 1, transferredBytes := transferredBytes cl + length (packfile chunk),
       imported := imported cl @ [packfile chunk]\<rparr>)"
proof -
  obtain n where n: "readNonNegativeInteger (cursor cl) = Inr n" using ch by (auto simp: chunk_for_def)
  have "upto_first (delimiter (message_boundary (wire_sha256 w) (wire_stringify w) (chunk_manifest srv (wire_sha256 w) t n chunk) (packfile chunk))) (packfile chunk) = packfile chunk"
    using i by (simp add: intact_def)
  then have "pullChunk srv w cm cl = Inr (chunk_manifest srv (wire_sha256 w) t n chunk, packfile chunk)"
    unfolding pullChunk_delivers [OF w] t [symmetric] using ch n by (intro exI [of _ chunk] exI [of _ n]) simp
  then show ?thesis using lim by (simp add: receive_chunk_def import_chunk_def view_chunk_manifest rbind_simps Let_def)
qed

lemma chunk_exists:
  assumes d: "deliverable srv env w t gs" and n: "n < length gs \<or> gs = []" "n \<le> length gs"
  obtains chunk where "chunk_for srv t (of_nat n) chunk" and "intact srv w t (packfile chunk)"
    and "packfile chunk = (if n < length gs then the (pack_of srv (gs ! n)) else [])"
proof (cases "n < length gs")
  case True
  then obtain p where p: "pack_of srv (gs ! n) = Some p" "int (length p) \<le> transferChunkBytes (config srv)" "intact srv w t p"
    using d unfolding deliverable_def by (meson nth_mem)
  let ?c = "\<lparr>packfile = p, nextCursor = int n + 1, chunk_complete = (int n + 1 = int (length gs))\<rparr>"
  have "chunk_for srv t (of_nat n) ?c"
    using d p True by (simp add: chunk_for_def readNonNegativeInteger_def createPullObjectChunk_def deliverable_def groups_of_def pack_of_def rbind_simps is_safe_integer_def)
  then show ?thesis using that [of ?c] p True by simp
next
  case False
  then have gs: "gs = []" "n = 0" using n by auto
  let ?c = "\<lparr>packfile = [], nextCursor = 0, chunk_complete = True\<rparr>"
  have "chunk_for srv t (of_nat n) ?c"
    using d gs by (simp add: chunk_for_def readNonNegativeInteger_def createPullObjectChunk_def deliverable_def groups_of_def rbind_simps is_safe_integer_def)
  moreover have "intact srv w t []" by (simp add: intact_def upto_first_def split: option.splits)
  ultimately show ?thesis using that [of ?c] False by simp
qed

lemma sum_list_take_le: "sum_list (take n xs) \<le> sum_list (xs :: nat list)"
  by (metis append_take_drop_id le_add1 sum_list_append)

text \<open>A round with a deliverable target: it completes the transfer, or moves the cursor on.\<close>

lemma round_advances:
  assumes w: "wire_ok srv w" and inv: "pull_inv srv env r cl" "\<not> transferred cl" and cm: "cm \<noteq> ''latest''"
    and t: "t = pull_target cm (target cl)" and d: "deliverable srv env w t gs"
  shows "\<exists>n. cursor cl = of_nat n \<and> (let cl' = pull_step srv env w r cl (Round cm) in
    transferred cl' \<or> target cl' = t \<and> cursor cl' = of_nat (Suc n) \<and> Suc n < length gs)"
proof -
  have gs: "groups_of srv t = Inr gs" using d by (simp add: deliverable_def)
  obtain n where n: "progress srv t (cursor cl) (imported cl) gs n" "chunkCount cl = n"
    "transferredBytes cl = sum_list (map (group_bytes srv) (take n gs))" "n < length gs \<or> gs = []"
    using round_position [OF inv cm t gs] by blast
  have c: "cursor cl = of_nat n" "n \<le> length gs" using n(1) by (auto simp: progress_def)
  obtain chunk where ch: "chunk_for srv t (of_nat n) chunk" "intact srv w t (packfile chunk)"
    "packfile chunk = (if n < length gs then the (pack_of srv (gs ! n)) else [])"
    using chunk_exists [OF d n(4) c(2)] by blast
  have "transferredBytes cl + length (packfile chunk) = sum_list (map (group_bytes srv) (take (Suc n) gs))"
    using n(3,4) ch(3) by (auto simp: take_Suc_conv_app_nth group_bytes_def)
  then have lim: "int (chunkCount cl + 1) \<le> max_transfer_chunks env" "int (transferredBytes cl + length (packfile chunk)) \<le> max_transfer_bytes env"
    using d n(2,4) c(2) sum_list_take_le [of "Suc n" "map (group_bytes srv) gs"] by (auto simp: deliverable_def take_map)
  note received = receive_deliverable [OF w t _ ch(2) lim, unfolded c(1), OF ch(1)]
  from ch(1) show ?thesis
  proof (cases rule: chunk_for_cases)
    case (1 gs')
    then have "gs = []" using gs n(4) by auto
    then have "commitExists env packs t" for packs using d by (simp add: deliverable_def)
    then have "transferred (pull_step srv env w r cl (Round cm))"
      using received 1 c(1) by (simp add: record_chunk_def save_checkpoint_def transferred_def)
    then show ?thesis using c(1) by (auto simp: Let_def)
  next
    case (2 gs')
    then have g: "gs' = gs" using gs by simp
    then have p: "progress srv t (of_nat (Suc n)) (imported cl @ [packfile chunk]) gs (Suc n)" using progress_next [OF n(1)] 2 by simp
    then have "commitExists env (imported cl @ [packfile chunk]) t" if "Suc n = length gs" using that d by (simp add: deliverable_def progress_def)
    then have "transferred (pull_step srv env w r cl (Round cm)) \<or>
        target (pull_step srv env w r cl (Round cm)) = t \<and> cursor (pull_step srv env w r cl (Round cm)) = of_nat (Suc n) \<and> Suc n < length gs"
      using received 2 g c(1) by (auto simp: record_chunk_def save_checkpoint_def transferred_def)
    then show ?thesis using c(1) by (auto simp: Let_def)
  qed
qed

lemma pull_run_completes:
  assumes w: "wire_ok srv w" and run: "pull_run srv env w r evs cl" and "\<not> transferred cl" and cm: "cm \<noteq> ''latest''"
    and d: "deliverable srv env w (pull_target cm (target cl)) gs"
  shows "\<exists>k cl'. k \<le> max 1 (length gs) \<and> pull_run srv env w r (evs @ replicate k (Round cm)) cl' \<and> transferred cl'"
proof -
  have "\<exists>k cl'. k \<le> max 1 (length gs - n) \<and> pull_run srv env w r (evs @ replicate k (Round cm)) cl' \<and> transferred cl'"
    if "pull_run srv env w r evs cl" "\<not> transferred cl" "pull_target cm (target cl) = t" "deliverable srv env w t gs" "cursor cl = of_nat n" for evs cl n t
    using that
  proof (induction "length gs - n" arbitrary: evs cl n t rule: less_induct)
    case less
    let ?cl = "pull_step srv env w r cl (Round cm)"
    have step: "pull_run srv env w r (evs @ [Round cm]) ?cl"
      using less.prems cm by (intro run_step) (auto simp: pull_enabled_def)
    have inv: "pull_inv srv env r cl" using pull_run_inv [OF w less.prems(1)] .
    have "transferred ?cl \<or> target ?cl = t \<and> cursor ?cl = of_nat (Suc n) \<and> Suc n < length gs"
      using round_advances [OF w inv less.prems(2) cm less.prems(3) [symmetric] less.prems(4)] less.prems(5) by (auto simp: Let_def)
    then consider "transferred ?cl" | "\<not> transferred ?cl" "target ?cl = t" "cursor ?cl = of_nat (Suc n)" "Suc n < length gs" by blast
    then show ?case
    proof cases
      case 1
      then show ?thesis using step by (intro exI [of _ 1] exI [of _ ?cl]) simp
    next
      case 2
      have "t \<noteq> ''latest''" using round_target(1) [OF inv less.prems(2) cm less.prems(3) [symmetric]] .
      then have "pull_target cm (target ?cl) = t" using 2(2) by (simp add: pull_target_def)
      moreover have "length gs - Suc n < length gs - n" using 2(4) by simp
      ultimately obtain k cl' where "k \<le> max 1 (length gs - Suc n)" "pull_run srv env w r ((evs @ [Round cm]) @ replicate k (Round cm)) cl'" "transferred cl'"
        using less.hyps [OF _ step 2(1) _ less.prems(4) 2(3)] by blast
      then show ?thesis using 2(4) by (intro exI [of _ "Suc k"] exI [of _ cl']) auto
    qed
  qed
  moreover obtain n where "cursor cl = of_nat n"
    using round_advances [OF w pull_run_inv [OF w run] assms(3) cm refl d] by blast
  ultimately obtain k cl' where "k \<le> max 1 (length gs - n)" "pull_run srv env w r (evs @ replicate k (Round cm)) cl'" "transferred cl'"
    using run assms(3) d by blast
  then show ?thesis by (intro exI [of _ k] exI [of _ cl']) auto
qed

text \<open>C26. A pull ends: from any state that a transfer with interruptions can be in, at most as many undisturbed rounds as there are groups (one, when
  there is nothing to send) complete it, if its target can be sent.\<close>

theorem pull_completes:
  assumes w: "wire_ok srv w" and run: "pull_run srv env w r evs cl" and "\<not> transferred cl" and cm: "cm \<noteq> ''latest''"
    and d: "deliverable srv env w (pull_target cm (target cl)) gs"
  shows "\<exists>k cl'. k \<le> max 1 (length gs) \<and> pull_run srv env w r (evs @ replicate k (Round cm)) cl' \<and> transferred cl'"
  using assms by (rule pull_run_completes)

section \<open>A sample transfer\<close>

text \<open>Two objects that do not fit in one group; the wire writes a manifest as one character that tells its cursor.\<close>

definition sample_server :: pull_server where
  "sample_server = \<lparr>config = \<lparr>transferChunkBytes = 1200000, maxTransferBytes = 10000000, maxTransferChunks = 8\<rparr>,
     reachableObjectSizes = (\<lambda>_. [(''a'', 900000), (''b'', 900000)]), exportObjectPack = (\<lambda>g _. Some (map (\<lambda>c. of_nat (of_char c)) (concat g))),
     refuses = (\<lambda>t. t \<noteq> ''m''), other_fields = (\<lambda>_ _. [])\<rparr>"

definition sample_env :: plugin_env where
  "sample_env = \<lparr>max_transfer_chunks = 8, max_transfer_bytes = 10000000, commitExists = (\<lambda>packs t. [98] \<in> set packs)\<rparr>"

definition sample_chunk :: "nat \<Rightarrow> pull_chunk" where
  "sample_chunk n = (if n = 0 then \<lparr>packfile = [97], nextCursor = 1, chunk_complete = False\<rparr>
     else if n = 1 then \<lparr>packfile = [98], nextCursor = 2, chunk_complete = True\<rparr>
     else \<lparr>packfile = [], nextCursor = 2, chunk_complete = True\<rparr>)"

definition sample_wire :: wire where
  "sample_wire = \<lparr>wire_sha256 = (\<lambda>_. ''0f''),
     wire_stringify = (\<lambda>m. case jprop m ''cursor'' of Some (JNum q) \<Rightarrow> [65 + nat \<lfloor>q\<rfloor>] | _ \<Rightarrow> []),
     wire_parse = (\<lambda>cs. Some (chunk_manifest sample_server (\<lambda>_. ''0f'') ''m'' (int (hd cs - 65)) (sample_chunk (hd cs - 65))))\<rparr>"

definition sample_request :: pull_request where
  "sample_request = \<lparr>vaultId = ''v'', deviceId = ''d'', currentLocalMain = None, currentEventSeq = 0, requestedTarget = ''latest''\<rparr>"

lemma sample_groups: "groups_of sample_server t = Inr [[''a''], [''b'']]"
  by (simp add: groups_of_def sample_server_def targetBytes_def packHeadroom_def)

lemma sample_packs: "pack_of sample_server [''a''] = Some [97]" "pack_of sample_server [''b''] = Some [98]"
  by (simp_all add: pack_of_def sample_server_def)

lemma sample_chunk_for:
  assumes "chunk_for sample_server t (of_int n) chunk"
  shows "t = ''m'' \<and> n \<in> {0, 1, 2} \<and> chunk = sample_chunk (nat n)"
proof -
  have t: "t = ''m''" "0 \<le> n"
    using assms by (auto simp: chunk_for_def sample_server_def readNonNegativeInteger_def split: if_splits)
  then have "chunk_for sample_server t (of_nat (nat n)) chunk" using assms by simp
  then show ?thesis
  proof (cases rule: chunk_for_cases)
    case (1 gs)
    then have "nat n = 2" using sample_groups [of t] by auto
    then show ?thesis using 1 t by (cases chunk) (auto simp: sample_chunk_def)
  next
    case (2 gs)
    then have "gs = [[''a''], [''b'']]" using sample_groups [of t] by simp
    then have "nat n = 0 \<or> nat n = 1" using 2(2) by auto
    then show ?thesis using 2 t sample_packs \<open>gs = _\<close> by (cases chunk) (auto simp: sample_chunk_def)
  qed
qed

lemma sample_wire_ok: "wire_ok sample_server sample_wire"
  unfolding wire_ok_def
proof (intro conjI allI impI)
  fix t n chunk assume "chunk_for sample_server t (of_int n) chunk"
  then have "t = ''m''" "n \<in> {0, 1, 2}" "chunk = sample_chunk (nat n)" using sample_chunk_for by blast+
  moreover have "jprop (chunk_manifest sample_server (\<lambda>_. ''0f'') t n chunk) ''cursor'' = Some (JNum (of_int n))" by (simp add: chunk_manifest_def)
  ultimately show "let m = chunk_manifest sample_server (wire_sha256 sample_wire) t n chunk in wire_parse sample_wire (wire_stringify sample_wire m) = Some m \<and>
      list_all scalar (wire_stringify sample_wire m) \<and> 13 \<notin> set (wire_stringify sample_wire m)"
    by (auto simp: sample_wire_def Let_def scalar_def)
qed (simp add: sample_wire_def)

lemma sample_deliverable: "deliverable sample_server sample_env sample_wire ''m'' [[''a''], [''b'']]"
proof -
  have "intact sample_server sample_wire ''m'' p" if "length p \<le> 1" for p
    unfolding intact_def delimiter_Cons by (intro allI impI upto_first_short) (use that in simp)
  then show ?thesis
    unfolding deliverable_def using sample_groups sample_packs by (auto simp: group_bytes_def) (auto simp: sample_server_def sample_env_def)
qed

lemma sample_start: "pull_run sample_server sample_env sample_wire sample_request [Stopped] (new_pull sample_request)"
proof -
  have "pull_step sample_server sample_env sample_wire sample_request (new_pull sample_request) Stopped = new_pull sample_request"
    by (simp add: again_def begin_pull_def new_pull_def)
  then show ?thesis
    using run_step [OF run_init, of pull_enabled "new_pull sample_request" Stopped "pull_step sample_server sample_env sample_wire sample_request"]
    by (simp add: pull_enabled_def transferred_def new_pull_def)
qed

lemma sample_target: "\<not> transferred (new_pull sample_request)" "pull_target ''m'' (target (new_pull sample_request)) = ''m''"
  by (simp_all add: transferred_def new_pull_def sample_request_def pull_target_def)

theorem pull_groups_witness:
  "\<exists>ps. [[''a''], [''b'']] = map (map fst) ps \<and> concat ps = [(''a'', 900000), (''b'', 900000)] \<and> list_all (fits (config sample_server)) ps"
  using pull_groups [of sample_server "''m''"] sample_groups [of "''m''"] by (auto simp: sample_server_def)

theorem pull_completes_witness:
  "\<exists>k cl. k \<le> 2 \<and> pull_run sample_server sample_env sample_wire sample_request ([Stopped] @ replicate k (Round ''m'')) cl \<and> transferred cl"
  using pull_completes [OF sample_wire_ok sample_start sample_target(1), of "''m''" "[[''a''], [''b'']]"] sample_deliverable sample_target(2) by (simp add: numeral_2_eq_2)

theorem pull_resumable_witness:
  "\<exists>evs cl. pull_run sample_server sample_env sample_wire sample_request evs cl \<and> transferred cl \<and> [97] \<in> set (imported cl) \<and> [98] \<in> set (imported cl)"
proof -
  obtain evs cl where r: "pull_run sample_server sample_env sample_wire sample_request evs cl" "transferred cl"
    using pull_run_completes [OF sample_wire_ok sample_start sample_target(1), of "''m''" "[[''a''], [''b'']]"] sample_deliverable sample_target(2) by auto
  then obtain c where c: "saved cl = Some c" "cp_complete c" by (auto simp: transferred_def split: option.splits)
  then show ?thesis using pull_resumable [OF sample_wire_ok r(1) c] r sample_groups sample_packs by auto
qed

end
