(* ===== verification/PushSessions.thy ===== *)
theory PushSessions
  imports Json
begin

text \<open>
  Uploads in chunks: the sessions of \<open>ChunkTransferService\<close> in \<^verbatim>\<open>src/server/chunkTransferService.ts\<close>. A device creates a session, puts its
  chunks in any order and as often as it likes, and has the push processed when all are there; the record of a session is a file that is written
  durably and checked when it is read. The methods run under a lock per transfer, so each is one step; what Git, the disk and the sync
  service answer is in the event of the step (\<open>pruneExpired\<close>, which runs under the lock of creation, is part of the step of \<open>createPush\<close>). Timestamps are milliseconds. Shown: what is processed is complete and was received unchanged
  (\<open>push_complete\<close>); every record that is written can be read again, but for two cases (\<open>push_readable\<close>), in which the session is lost
  (\<open>retries_lose_session\<close>, \<open>finalize_loses_session\<close>); a chunk that is put again is acknowledged and changes nothing (\<open>put_again\<close>).
\<close>

section \<open>Sessions\<close>

datatype session_status = Open_session | Processing | Completed | Rejected | Aborted

datatype applied_kind = Noop | Merged string | Conflicted string

record applied =
  kind :: applied_kind
  device_ref :: string
  main_commit :: string
  event_seq :: nat
  directory_ack :: "json option"

datatype push_result = Push_rejected string string | Push_applied applied

datatype processing_error = Server_git_error | Server_processing_error

record chunk_receipt =
  index :: nat
  bytes :: nat
  receipt_sha256 :: string

record push_session =
  transfer_id :: string
  vault_id :: string
  device_id :: string
  attempt_id :: string
  request_sha256 :: string
  manifest :: json
  plan_sha256 :: string
  chunk_count :: nat
  receipts :: "chunk_receipt list"
  total_bytes :: nat
  stored_bytes :: "nat option"
  status :: session_status
  result :: "push_result option"
  processing_attempts :: "nat option"
  processing_error_code :: "processing_error option"
  retry_at :: "nat option"
  created_at :: nat
  updated_at :: nat
  expires_at :: nat

section \<open>Reading a record\<close>

definition MAX_OPEN_TRANSFERS_PER_DEVICE :: nat where
  "MAX_OPEN_TRANSFERS_PER_DEVICE = 2"

definition MAX_PROCESSING_ATTEMPTS :: nat where
  "MAX_PROCESSING_ATTEMPTS = 64"

definition is_alnum :: "char \<Rightarrow> bool" where
  "is_alnum c \<longleftrightarrow> (let n = of_char c :: nat in 48 \<le> n \<and> n \<le> 57 \<or> 65 \<le> n \<and> n \<le> 90 \<or> 97 \<le> n \<and> n \<le> 122)"

definition is_hex :: "char \<Rightarrow> bool" where
  "is_hex c \<longleftrightarrow> (let n = of_char c :: nat in 48 \<le> n \<and> n \<le> 57 \<or> 97 \<le> n \<and> n \<le> 102)"

definition SHA256_PATTERN :: "string \<Rightarrow> bool" where
  "SHA256_PATTERN s \<longleftrightarrow> length s = 64 \<and> list_all is_hex s"

definition COMMIT_PATTERN :: "string \<Rightarrow> bool" where
  "COMMIT_PATTERN s \<longleftrightarrow> length s = 40 \<and> list_all is_hex s"

definition isBoundedIdentifier :: "string \<Rightarrow> bool" where
  "isBoundedIdentifier s \<longleftrightarrow> 1 \<le> length s \<and> length s \<le> 256 \<and> list_all (\<lambda>c. is_alnum c \<or> c \<in> set ''_:-'') s"

definition attempt_pattern :: "string \<Rightarrow> bool" where
  "attempt_pattern s \<longleftrightarrow> 8 \<le> length s \<and> length s \<le> 128 \<and> list_all (\<lambda>c. is_alnum c \<or> c \<in> set ''_-'') s"

text \<open>\<open>/^trn_[A-Za-z0-9]+$/\<close>, and with an underscore as the reader of records has it.\<close>

definition transfer_pattern :: "string \<Rightarrow> bool" where
  "transfer_pattern s \<longleftrightarrow> js_startsWith s ''trn_'' \<and> length s > 4 \<and> list_all is_alnum (drop 4 s)"

definition record_pattern :: "string \<Rightarrow> bool" where
  "record_pattern s \<longleftrightarrow> js_startsWith s ''trn_'' \<and> length s > 4 \<and> list_all (\<lambda>c. is_alnum c \<or> c = CHR ''_'') (drop 4 s)"

definition isBoundedCounter :: "nat \<Rightarrow> nat \<Rightarrow> bool" where
  "isBoundedCounter n maximum \<longleftrightarrow> n < 2 ^ 53 \<and> n \<le> maximum"

definition hasOnlyFields :: "(string \<times> json) list \<Rightarrow> string list \<Rightarrow> bool" where
  "hasOnlyFields kvs names \<longleftrightarrow> list_all (\<lambda>(k, _). k \<in> set names) kvs"

definition json_counter :: "json option \<Rightarrow> bool" where
  "json_counter v = (case v of Some (JNum n) \<Rightarrow> n = of_int \<lfloor>n\<rfloor> \<and> 0 \<le> n \<and> n < 2 ^ 53 | _ \<Rightarrow> False)"

definition json_identifier :: "json option \<Rightarrow> bool" where
  "json_identifier v = (case v of Some (JStr s) \<Rightarrow> isBoundedIdentifier s | _ \<Rightarrow> False)"

definition isDirectoryAcknowledgement :: "json \<Rightarrow> bool" where
  "isDirectoryAcknowledgement v =
     (case v of
        JObj kvs \<Rightarrow> hasOnlyFields kvs [''proposal_id'', ''status'', ''acknowledged_intents''] \<and>
          (case jprop v ''proposal_id'' of
             Some (JStr s) \<Rightarrow> js_startsWith s ''dirprop_'' \<and> SHA256_PATTERN (drop 8 s)
           | _ \<Rightarrow> False) \<and>
          jprop v ''status'' \<in> Some ` JStr ` {''accepted'', ''conflicted'', ''duplicate''} \<and>
          (case jprop v ''acknowledged_intents'' of
             Some (JArr xs) \<Rightarrow> length xs \<le> 5000 \<and> list_all (\<lambda>a. case a of
               JObj fs \<Rightarrow> hasOnlyFields fs [''intent_id'', ''generation''] \<and> json_identifier (jprop a ''intent_id'') \<and> json_counter (jprop a ''generation'')
             | _ \<Rightarrow> False) xs
           | _ \<Rightarrow> False)
      | _ \<Rightarrow> False)"

definition isPushResult :: "push_result \<Rightarrow> bool" where
  "isPushResult r =
     (case r of
        Push_rejected code message \<Rightarrow> code \<noteq> [] \<and> length code \<le> 128 \<and> message \<noteq> [] \<and> length message \<le> 2048
      | Push_applied a \<Rightarrow>
          device_ref a \<noteq> [] \<and> length (device_ref a) \<le> 512 \<and> COMMIT_PATTERN (main_commit a) \<and> event_seq a < 2 ^ 53 \<and>
          (case directory_ack a of None \<Rightarrow> True | Some v \<Rightarrow> isDirectoryAcknowledgement v) \<and>
          (case kind a of Noop \<Rightarrow> True | Merged c \<Rightarrow> COMMIT_PATTERN c | Conflicted i \<Rightarrow> isBoundedIdentifier i))"

definition isSessionResultCombination :: "session_status \<Rightarrow> push_result option \<Rightarrow> bool" where
  "isSessionResultCombination st r =
     (case st of
        Completed \<Rightarrow> (case r of Some (Push_applied a) \<Rightarrow> isPushResult (Push_applied a) | _ \<Rightarrow> False)
      | Rejected \<Rightarrow> (case r of Some (Push_rejected c m) \<Rightarrow> isPushResult (Push_rejected c m) | _ \<Rightarrow> False)
      | _ \<Rightarrow> r = None)"

definition isRetryCombination :: "session_status \<Rightarrow> processing_error option \<Rightarrow> nat option \<Rightarrow> bool" where
  "isRetryCombination st code retry =
     (if st \<in> {Completed, Rejected, Aborted} then code = None \<and> retry = None else (code \<noteq> None) = (retry \<noteq> None))"

text \<open>The loop over the receipts: the indexes and bytes seen so far, and the bytes in the end.\<close>

fun check_receipts :: "nat \<Rightarrow> chunk_receipt list \<Rightarrow> nat set \<Rightarrow> nat \<Rightarrow> nat option" where
  "check_receipts n [] seen acc = Some acc"
| "check_receipts n (r # rs) seen acc =
     (if \<not> isBoundedCounter (index r) (2 ^ 53) \<or> index r \<ge> n \<or> index r \<in> seen \<or> \<not> isBoundedCounter (bytes r) 8589934592 \<or>
         \<not> SHA256_PATTERN (receipt_sha256 r) \<or> int acc > 2 ^ 53 - 1 - int (bytes r)
      then None else check_receipts n rs (insert (index r) seen) (acc + bytes r))"

text \<open>\<open>parsePersistedPushSession\<close> of a record that has the fields and types of a session. \<open>manifest_ids\<close> stands for \<open>parseDevicePushManifest\<close>: the
  vault, device and attempt of a manifest it accepts. A time is accepted as the text that \<open>toISOString\<close> gives
  when its year has four digits (\<open>isIsoTimestamp\<close>).\<close>

definition isTimestamp :: "nat \<Rightarrow> bool" where
  "isTimestamp t \<longleftrightarrow> t \<le> 253402300799999"

definition parsePersistedPushSession :: "(json \<Rightarrow> (string \<times> string \<times> string) option) \<Rightarrow> string \<Rightarrow> push_session \<Rightarrow> push_session option" where
  "parsePersistedPushSession manifest_ids transferId s =
     (if transfer_id s \<noteq> transferId \<or> \<not> record_pattern (transfer_id s) \<or> \<not> isBoundedIdentifier (vault_id s) \<or> \<not> isBoundedIdentifier (device_id s) \<or>
         \<not> attempt_pattern (attempt_id s) \<or> \<not> SHA256_PATTERN (request_sha256 s) \<or> \<not> SHA256_PATTERN (plan_sha256 s) \<or>
         \<not> isBoundedCounter (chunk_count s) (2 ^ 53) \<or> \<not> isBoundedCounter (total_bytes s) 8589934592 \<or>
         (case stored_bytes s of None \<Rightarrow> False | Some n \<Rightarrow> \<not> isBoundedCounter n 17179869184) \<or>
         \<not> isTimestamp (created_at s) \<or> \<not> isTimestamp (updated_at s) \<or> \<not> isTimestamp (expires_at s) \<or> updated_at s < created_at s \<or>
         length (receipts s) > chunk_count s \<or> \<not> isSessionResultCombination (status s) (result s) \<or>
         (case processing_attempts s of None \<Rightarrow> False | Some n \<Rightarrow> \<not> isBoundedCounter n MAX_PROCESSING_ATTEMPTS) \<or>
         (case retry_at s of None \<Rightarrow> False | Some t \<Rightarrow> \<not> isTimestamp t) \<or>
         \<not> isRetryCombination (status s) (processing_error_code s) (retry_at s)
      then None
      else if manifest_ids (manifest s) \<noteq> Some (vault_id s, device_id s, attempt_id s) then None
      else (case check_receipts (chunk_count s) (receipts s) {} 0 of
              None \<Rightarrow> None
            | Some n \<Rightarrow> if n \<noteq> total_bytes s \<or> status s = Processing \<and> length (receipts s) \<noteq> chunk_count s then None else Some s))"

record transfer_limits =
  transferChunkBytes :: nat
  maxTransferBytes :: nat
  maxTransferChunks :: nat
  maxTransferStorageBytes :: nat
  transferTtlSeconds :: nat

definition verifySessionStructure :: "transfer_limits \<Rightarrow> push_session \<Rightarrow> bool" where
  "verifySessionStructure config s \<longleftrightarrow>
     \<not> (chunk_count s > maxTransferChunks config \<or> total_bytes s > maxTransferBytes config \<or>
        (case stored_bytes s of None \<Rightarrow> False | Some n \<Rightarrow> n > maxTransferStorageBytes config) \<or>
        list_ex (\<lambda>r. bytes r > transferChunkBytes config) (receipts s)) \<and>
     \<not> ((status s = Completed \<or> status s = Rejected) \<and> length (receipts s) \<noteq> chunk_count s)"

section \<open>The service\<close>

text \<open>The files of the sessions, the packs imported into their quarantine repositories, whether the service is suspended, and the clock.\<close>

record service =
  sessions :: "(string \<times> push_session) list"
  quarantine :: "string \<Rightarrow> buffer list"
  transferUnavailable :: bool
  clock :: nat

text \<open>A file is written, or not, or is written although the call fails (that a failing durable write leaves the old or the new record is shown in
  theory \<open>DurableFile\<close>), or the vault admits no writes any more.\<close>

datatype write_outcome = Written | Not_written | Written_then_failed | Not_admitted

datatype transfer_error = Not_found | Transfer_unavailable | Blocked_integrity | Too_many_chunks | Attempt_mismatch | Too_many_transfers
  | Transfer_expired | Transfer_closed | Invalid_chunk_index | Chunk_too_large | Chunk_digest_mismatch | Chunk_conflict | Transfer_too_large
  | Transfer_storage_full | Malformed_packfile | Transfer_processing | Transfer_incomplete | Storage_failure | Processing_failed

record auth =
  auth_vault :: string
  auth_device :: string
  vault_deleting :: bool
  integrity_blocked :: bool
  git_unavailable :: bool

record service_env =
  limits :: transfer_limits
  manifest_ids :: "json \<Rightarrow> (string \<times> string \<times> string) option"
  sha256Hex :: "buffer \<Rightarrow> string"

definition suspendTransferStorage :: "service \<Rightarrow> service" where
  "suspendTransferStorage sv = sv\<lparr>transferUnavailable := True\<rparr>"

definition set_session :: "string \<Rightarrow> push_session \<Rightarrow> service \<Rightarrow> service" where
  "set_session k s sv = sv\<lparr>sessions := AList.update k s (sessions sv)\<rparr>"

definition drop_session :: "string \<Rightarrow> service \<Rightarrow> service" where
  "drop_session k sv = sv\<lparr>sessions := AList.delete k (sessions sv), quarantine := (quarantine sv)(k := [])\<rparr>"

definition writeSession :: "write_outcome \<Rightarrow> push_session \<Rightarrow> string \<Rightarrow> service \<Rightarrow> (transfer_error + unit) \<times> service" where
  "writeSession out s k sv =
     (case out of
        Written \<Rightarrow> (Inr (), set_session k s sv)
      | Not_written \<Rightarrow> (Inl Storage_failure, suspendTransferStorage sv)
      | Not_admitted \<Rightarrow> (Inl Not_found, sv)
      | Written_then_failed \<Rightarrow> (Inl Storage_failure, suspendTransferStorage (set_session k s sv)))"

definition write_session :: "write_outcome \<Rightarrow> string \<Rightarrow> push_session \<Rightarrow> 'r \<Rightarrow> service \<Rightarrow> (transfer_error + 'r) \<times> service" where
  "write_session out k s r sv = (case writeSession out s k sv of (Inl e, sv1) \<Rightarrow> (Inl e, sv1) | (Inr _, sv1) \<Rightarrow> (Inr r, sv1))"

definition expired :: "service \<Rightarrow> push_session \<Rightarrow> bool" where
  "expired sv s \<longleftrightarrow> status s \<noteq> Processing \<and> expires_at s \<le> clock sv"

definition new_expiry :: "service_env \<Rightarrow> service \<Rightarrow> nat" where
  "new_expiry env sv = clock sv + transferTtlSeconds (limits env) * 1000"

definition readSession :: "service_env \<Rightarrow> service \<Rightarrow> string \<Rightarrow> push_session option" where
  "readSession env sv k =
     (case map_of (sessions sv) k of
        None \<Rightarrow> None
      | Some s \<Rightarrow>
          (case parsePersistedPushSession (manifest_ids env) k s of
             None \<Rightarrow> None
           | Some s' \<Rightarrow> if verifySessionStructure (limits env) s' then Some s' else None))"

text \<open>A scan of the sessions while requests are served (\<open>SCAN_OPERATIONAL\<close>). It skips sessions without a marker of their owner or with an unfinished
  publication; whether the directory can be read, and is the same afterwards, is \<open>scan_works\<close>.\<close>

record scan_disk =
  skipped :: "string \<Rightarrow> bool"
  scan_works :: bool

definition scanSessions :: "service_env \<Rightarrow> scan_disk \<Rightarrow> service \<Rightarrow> (transfer_error + push_session list) \<times> service" where
  "scanSessions env d sv =
     (if transferUnavailable sv then (Inl Storage_failure, sv)
      else if \<not> scan_works d then (Inl Storage_failure, suspendTransferStorage sv)
      else (Inr (List.map_filter (\<lambda>k. if transfer_pattern k \<and> \<not> skipped d k then readSession env sv k else None) (map fst (sessions sv))), sv))"

definition assertTransferAllowed :: "auth \<Rightarrow> service \<Rightarrow> transfer_error + unit" where
  "assertTransferAllowed auth sv =
     (if transferUnavailable sv \<or> git_unavailable auth then Inl Transfer_unavailable
      else if vault_deleting auth then Inl Not_found
      else if integrity_blocked auth then Inl Blocked_integrity
      else Inr ())"

text \<open>\<open>requireSession\<close>; the answers of the disk are whether an expired session could be removed and whether the repository is usable.\<close>

definition requireSession :: "service_env \<Rightarrow> auth \<Rightarrow> string \<Rightarrow> bool \<Rightarrow> bool \<Rightarrow> service \<Rightarrow> (transfer_error + push_session) \<times> service" where
  "requireSession env auth k removable usable sv =
     (if \<not> transfer_pattern k then (Inl Not_found, sv)
      else (case readSession env sv k of
        None \<Rightarrow> (Inl Not_found, sv)
      | Some s \<Rightarrow>
          if vault_id s \<noteq> auth_vault auth \<or> device_id s \<noteq> auth_device auth then (Inl Not_found, sv)
          else if expired sv s then (if removable then (Inl Transfer_expired, drop_session k sv) else (Inl Storage_failure, sv))
          else if \<not> usable then (Inl Transfer_unavailable, sv)
          else (Inr s, sv)))"

text \<open>The start of every method: the checks and the session.\<close>

definition with_session ::
  "service_env \<Rightarrow> auth \<Rightarrow> string \<Rightarrow> bool \<Rightarrow> bool \<Rightarrow> (push_session \<Rightarrow> service \<Rightarrow> (transfer_error + 'r) \<times> service) \<Rightarrow> service \<Rightarrow> (transfer_error + 'r) \<times> service" where
  "with_session env auth k removable usable f sv =
     (case assertTransferAllowed auth sv of
        Inl e \<Rightarrow> (Inl e, sv)
      | Inr _ \<Rightarrow> (case requireSession env auth k removable usable sv of (Inl e, sv1) \<Rightarrow> (Inl e, sv1) | (Inr s, sv1) \<Rightarrow> f s sv1))"

section \<open>Creating a session\<close>

text \<open>A request that was validated. \<open>rq_sha256\<close> is the digest of its text and \<open>rq_manifest\<close> the manifest that is made of it.\<close>

record create_request =
  rq_vault :: string
  rq_device :: string
  rq_attempt :: string
  rq_sha256 :: string
  rq_plan :: string
  rq_chunk_count :: nat
  rq_manifest :: json

definition new_session :: "service_env \<Rightarrow> service \<Rightarrow> string \<Rightarrow> nat \<Rightarrow> create_request \<Rightarrow> push_session" where
  "new_session env sv k stored rq = \<lparr>transfer_id = k, vault_id = rq_vault rq, device_id = rq_device rq, attempt_id = rq_attempt rq,
     request_sha256 = rq_sha256 rq, manifest = rq_manifest rq, plan_sha256 = rq_plan rq, chunk_count = rq_chunk_count rq, receipts = [], total_bytes = 0,
     stored_bytes = Some stored, status = Open_session, result = None, processing_attempts = Some 0, processing_error_code = None, retry_at = None,
     created_at = clock sv, updated_at = clock sv, expires_at = new_expiry env sv\<rparr>"

text \<open>The answers of the disk and of Git: the directory of the transfers, the scan before expired sessions are removed, which of them can be, whether that is
  synced, the second scan, whether Git answers and which targets are ancestors of the device's ref already, the size of the new directory, or that it, its marker or
  its repository could not be made, or not durably, and the write of the record.\<close>

datatype root_outcome = Root_opened | Root_missing | Root_failed

datatype prepare_outcome = Prepared nat | Not_prepared | Not_durable | Repository_not_durable

record create_disk =
  root_open :: root_outcome
  prune_scan :: scan_disk
  prunable :: "string \<Rightarrow> bool"
  prune_synced :: bool
  list_scan :: scan_disk
  git_answers :: bool
  covered :: "push_session \<Rightarrow> bool"
  prepared :: prepare_outcome
  create_write :: write_outcome

fun remove_expired :: "(string \<Rightarrow> bool) \<Rightarrow> push_session list \<Rightarrow> service \<Rightarrow> bool \<times> service" where
  "remove_expired removable [] sv = (True, sv)"
| "remove_expired removable (s # ss) sv =
     (if \<not> expired sv s then remove_expired removable ss sv
      else if removable (transfer_id s) then remove_expired removable ss (drop_session (transfer_id s) sv) else (False, sv))"

definition pruneExpired :: "service_env \<Rightarrow> create_disk \<Rightarrow> service \<Rightarrow> (transfer_error + unit) \<times> service" where
  "pruneExpired env d sv =
     (case root_open d of
        Root_missing \<Rightarrow> (Inr (), sv)
      | Root_failed \<Rightarrow> (Inl Storage_failure, sv)
      | Root_opened \<Rightarrow>
          (case scanSessions env (prune_scan d) sv of
             (Inl e, sv1) \<Rightarrow> (Inl e, sv1)
           | (Inr ss, sv1) \<Rightarrow>
               (case remove_expired (prunable d) ss sv1 of
                  (ok, sv2) \<Rightarrow> ((if ok \<and> (list_ex (expired sv1) ss \<longrightarrow> prune_synced d) then Inr () else Inl Storage_failure), sv2))))"

text \<open>The end of \<open>createPush\<close>, under the storage lock.\<close>

definition prepare_session :: "service_env \<Rightarrow> create_disk \<Rightarrow> string \<Rightarrow> create_request \<Rightarrow> service \<Rightarrow> (transfer_error + push_session) \<times> service" where
  "prepare_session env d k rq sv =
     (case prepared d of
        Not_prepared \<Rightarrow> (Inl Storage_failure, sv)
      | Not_durable \<Rightarrow> (Inl Storage_failure, suspendTransferStorage sv)
      | Repository_not_durable \<Rightarrow> (Inl Transfer_unavailable, suspendTransferStorage sv)
      | Prepared stored \<Rightarrow> let s = new_session env sv k stored rq in write_session (create_write d) k s s sv)"

definition createPush :: "service_env \<Rightarrow> auth \<Rightarrow> create_request \<Rightarrow> string \<Rightarrow> create_disk \<Rightarrow> service \<Rightarrow> (transfer_error + push_session) \<times> service" where
  "createPush env auth rq k d sv =
     (case assertTransferAllowed auth sv of
        Inl e \<Rightarrow> (Inl e, sv)
      | Inr _ \<Rightarrow>
          if rq_vault rq \<noteq> auth_vault auth \<or> rq_device rq \<noteq> auth_device auth then (Inl Not_found, sv)
          else if rq_chunk_count rq > maxTransferChunks (limits env) then (Inl Too_many_chunks, sv)
          else (case pruneExpired env d sv of
            (Inl e, sv1) \<Rightarrow> (Inl e, sv1)
          | (Inr _, sv1) \<Rightarrow>
              (case scanSessions env (list_scan d) sv1 of
                 (Inl e, sv2) \<Rightarrow> (Inl e, sv2)
               | (Inr ss, sv2) \<Rightarrow>
                   (case find (\<lambda>s. vault_id s = auth_vault auth \<and> device_id s = auth_device auth \<and> attempt_id s = rq_attempt rq) ss of
                      Some s \<Rightarrow> if request_sha256 s \<noteq> rq_sha256 rq then (Inl Attempt_mismatch, sv2) else (Inr s, sv2)
                    | None \<Rightarrow>
                        if \<not> git_answers d then (Inl Processing_failed, sv2)
                        else if length (filter (\<lambda>s. device_id s = auth_device auth \<and> (status s = Open_session \<or> status s = Processing) \<and>
                                  \<not> expired sv2 s \<and> \<not> covered d s) ss) \<ge> MAX_OPEN_TRANSFERS_PER_DEVICE
                        then (Inl Too_many_transfers, sv2)
                        else prepare_session env d k rq sv2))))"

section \<open>Putting chunks\<close>

datatype import_outcome = Imported | Refused_pack | Pack_not_durable

text \<open>The answers of the disk and of Git: the bytes in the session's directory, whether the scan of the sessions works, the bytes in the transfer directory, whether the
  temporary file is synced, how the import of the pack goes, the bytes afterwards, whether a session that has grown too large can be removed, and the
  write of the record.\<close>

record put_disk =
  accounting :: "nat option"
  scan_ok :: bool
  storage_bytes :: "nat option"
  fsync_ok :: bool
  import_pack :: import_outcome
  bytes_after :: "nat option"
  removal_ok :: bool
  put_write :: write_outcome

definition insert_receipt :: "chunk_receipt \<Rightarrow> chunk_receipt list \<Rightarrow> chunk_receipt list" where
  "insert_receipt r rs = js_sort (\<lambda>a b. int (index a) - int (index b)) (rs @ [r])"

definition add_receipt :: "service_env \<Rightarrow> service \<Rightarrow> chunk_receipt \<Rightarrow> nat \<Rightarrow> push_session \<Rightarrow> push_session" where
  "add_receipt env sv r stored s = s\<lparr>stored_bytes := Some stored, receipts := insert_receipt r (receipts s), total_bytes := total_bytes s + bytes r,
     updated_at := clock sv, expires_at := new_expiry env sv\<rparr>"

definition import_data :: "string \<Rightarrow> buffer \<Rightarrow> service \<Rightarrow> service" where
  "import_data k data sv = sv\<lparr>quarantine := (quarantine sv)(k := quarantine sv k @ [data])\<rparr>"

text \<open>Under the storage lock.\<close>

definition store_chunk :: "service_env \<Rightarrow> put_disk \<Rightarrow> string \<Rightarrow> nat \<Rightarrow> buffer \<Rightarrow> push_session \<Rightarrow> service \<Rightarrow> (transfer_error + bool) \<times> service" where
  "store_chunk env d k i data s sv =
     (case accounting d of
        None \<Rightarrow> (Inl Transfer_unavailable, sv)
      | Some actual \<Rightarrow>
          if actual > maxTransferBytes (limits env) \<or> actual > maxTransferStorageBytes (limits env) then (Inl Transfer_unavailable, sv)
          else if \<not> scan_ok d then (Inl Storage_failure, suspendTransferStorage sv)
          else (case storage_bytes d of
            None \<Rightarrow> (Inl Storage_failure, sv)
          | Some storedBytes \<Rightarrow>
              if storedBytes + length data > maxTransferStorageBytes (limits env) then (Inl Transfer_storage_full, sv)
              else if \<not> fsync_ok d then (Inl Transfer_unavailable, suspendTransferStorage sv)
              else (case import_pack d of
                Refused_pack \<Rightarrow> (Inl Malformed_packfile, sv)
              | Pack_not_durable \<Rightarrow> (Inl Transfer_unavailable, suspendTransferStorage sv)
              | Imported \<Rightarrow> let sv1 = import_data k data sv in
                  (case bytes_after d of
                     None \<Rightarrow> (Inl Malformed_packfile, sv1)
                   | Some after \<Rightarrow>
                       if after > maxTransferBytes (limits env) \<or> int storedBytes - int actual + int after > int (maxTransferStorageBytes (limits env))
                       then (if removal_ok d then (Inl Transfer_too_large, drop_session k sv1) else (Inl Malformed_packfile, sv1))
                       else write_session (put_write d) k
                         (add_receipt env sv1 \<lparr>index = i, bytes = length data, receipt_sha256 = sha256Hex env data\<rparr> after s) False sv1))))"

text \<open>The result is whether the chunk had been there already.\<close>

definition put_checked :: "service_env \<Rightarrow> put_disk \<Rightarrow> string \<Rightarrow> int \<Rightarrow> buffer \<Rightarrow> string \<Rightarrow> push_session \<Rightarrow> service \<Rightarrow> (transfer_error + bool) \<times> service" where
  "put_checked env d k i data digest s sv =
     (if status s \<noteq> Open_session then (Inl Transfer_closed, sv)
      else if \<bar>i\<bar> \<ge> 2 ^ 53 \<or> i < 0 \<or> i \<ge> int (chunk_count s) then (Inl Invalid_chunk_index, sv)
      else if data = [] \<or> length data > transferChunkBytes (limits env) then (Inl Chunk_too_large, sv)
      else if sha256Hex env data \<noteq> digest then (Inl Chunk_digest_mismatch, sv)
      else (case find (\<lambda>r. index r = nat i) (receipts s) of
        Some r \<Rightarrow> if receipt_sha256 r \<noteq> digest \<or> bytes r \<noteq> length data then (Inl Chunk_conflict, sv) else (Inr True, sv)
      | None \<Rightarrow>
          if total_bytes s + length data > maxTransferBytes (limits env) then (Inl Transfer_too_large, sv)
          else store_chunk env d k (nat i) data s sv))"

definition putChunk :: "service_env \<Rightarrow> auth \<Rightarrow> bool \<Rightarrow> bool \<Rightarrow> put_disk \<Rightarrow> string \<Rightarrow> int \<Rightarrow> buffer \<Rightarrow> string \<Rightarrow> service \<Rightarrow> (transfer_error + bool) \<times> service" where
  "putChunk env auth removable usable d k i data digest = with_session env auth k removable usable (put_checked env d k i data digest)"

section \<open>Processing\<close>

definition to_processing :: "service_env \<Rightarrow> service \<Rightarrow> push_session \<Rightarrow> push_session" where
  "to_processing env sv s = s\<lparr>status := Processing, updated_at := clock sv, expires_at := new_expiry env sv\<rparr>"

definition getPush :: "service_env \<Rightarrow> auth \<Rightarrow> bool \<Rightarrow> bool \<Rightarrow> write_outcome \<Rightarrow> string \<Rightarrow> service \<Rightarrow> (transfer_error + push_session) \<times> service" where
  "getPush env auth removable usable out k = with_session env auth k removable usable (\<lambda>s sv.
     if status s = Open_session \<and> processing_error_code s \<noteq> None \<and> length (receipts s) = chunk_count s
     then write_session out k (to_processing env sv s) (to_processing env sv s) sv
     else (Inr s, sv))"

definition beginFinalizePush :: "service_env \<Rightarrow> auth \<Rightarrow> bool \<Rightarrow> bool \<Rightarrow> write_outcome \<Rightarrow> string \<Rightarrow> service \<Rightarrow> (transfer_error + push_session) \<times> service" where
  "beginFinalizePush env auth removable usable out k = with_session env auth k removable usable (\<lambda>s sv.
     if status s = Completed \<or> status s = Rejected \<or> status s = Aborted then (Inr s, sv)
     else if length (receipts s) \<noteq> chunk_count s then (Inl Transfer_incomplete, sv)
     else write_session out k (to_processing env sv s) (to_processing env sv s) sv)"

text \<open>\<open>finalizePush\<close>, which processes the push itself; \<open>processed\<close> is what \<open>processPush\<close> returns or throws.\<close>

definition finalizePush ::
  "service_env \<Rightarrow> auth \<Rightarrow> bool \<Rightarrow> bool \<Rightarrow> push_result option \<Rightarrow> write_outcome \<Rightarrow> string \<Rightarrow> service \<Rightarrow> (transfer_error + push_result) \<times> service" where
  "finalizePush env auth removable usable processed out k = with_session env auth k removable usable (\<lambda>s sv.
     if status s = Completed \<or> status s = Rejected \<or> status s = Aborted
     then ((case result s of None \<Rightarrow> Inl Transfer_closed | Some r \<Rightarrow> Inr r), sv)
     else if status s = Processing then (Inl Transfer_processing, sv)
     else if length (receipts s) \<noteq> chunk_count s then (Inl Transfer_incomplete, sv)
     else (case processed of
       None \<Rightarrow> (Inl Processing_failed, sv)
     | Some r \<Rightarrow>
         let s1 = (case r of
               Push_rejected _ _ \<Rightarrow> s\<lparr>result := None, status := Open_session, updated_at := clock sv\<rparr>
             | Push_applied _ \<Rightarrow> s\<lparr>result := Some r, status := Completed, updated_at := clock sv\<rparr>) in
         write_session out k s1 r sv))"

definition deletePush :: "service_env \<Rightarrow> auth \<Rightarrow> bool \<Rightarrow> string \<Rightarrow> service \<Rightarrow> (transfer_error + unit) \<times> service" where
  "deletePush env auth removable k = with_session env auth k removable True (\<lambda>s sv.
     if status s = Processing then (Inl Transfer_processing, sv)
     else if removable then (Inr (), drop_session k sv) else (Inl Storage_failure, sv))"

text \<open>An attempt of the processor: what \<open>processPush\<close> gives, with a rejection for a Git error taken as a failure of Git.\<close>

datatype attempt_outcome = Attempt_result push_result | Attempt_refused string string | Attempt_failed processing_error | Attempt_not_durable

definition settled :: "push_result \<Rightarrow> service \<Rightarrow> push_session \<Rightarrow> push_session" where
  "settled r sv s = s\<lparr>result := Some r, status := (case r of Push_rejected _ _ \<Rightarrow> Rejected | Push_applied _ \<Rightarrow> Completed),
     processing_error_code := None, retry_at := None, updated_at := clock sv\<rparr>"

definition retry_delay :: "nat \<Rightarrow> nat" where
  "retry_delay attempts = min 60000 (1000 * 2 ^ min (attempts - 1) 6)"

definition failed_attempt :: "service_env \<Rightarrow> processing_error \<Rightarrow> service \<Rightarrow> push_session \<Rightarrow> push_session" where
  "failed_attempt env e sv s =
     (let attempts = (case processing_attempts s of None \<Rightarrow> 0 | Some n \<Rightarrow> n) + 1 in
      s\<lparr>result := None, processing_attempts := Some attempts, processing_error_code := Some e, retry_at := Some (clock sv + retry_delay attempts),
        updated_at := clock sv, expires_at := new_expiry env sv\<rparr>)"

text \<open>The record is read again under the lock, and left alone when the session is no longer processing.\<close>

definition update_processing ::
  "service_env \<Rightarrow> auth \<Rightarrow> bool \<Rightarrow> bool \<Rightarrow> write_outcome \<Rightarrow> (service \<Rightarrow> push_session \<Rightarrow> push_session) \<Rightarrow> string \<Rightarrow> service \<Rightarrow> (transfer_error + unit) \<times> service" where
  "update_processing env auth removable usable out f k sv =
     (case requireSession env auth k removable usable sv of
        (Inl e, sv1) \<Rightarrow> (Inl e, sv1)
      | (Inr s, sv1) \<Rightarrow> if status s \<noteq> Processing then (Inr (), sv1) else writeSession out (f sv1 s) k sv1)"

text \<open>The branches of the \<open>catch\<close>: a refusal rejects the push, another error is counted and the attempt is made again later.\<close>

definition refuse_session where
  "refuse_session env auth removable out code message = update_processing env auth removable True out (settled (Push_rejected code message))"

definition retry_session where
  "retry_session env auth removable usable out e = update_processing env auth removable usable out (failed_attempt env e)"

text \<open>A result that cannot be recorded ends in the \<open>catch\<close> as well, with the error of the record or of the write. \<open>out1\<close> and \<open>out2\<close> are the first and the second
  write.\<close>

definition process_attempt ::
  "service_env \<Rightarrow> auth \<Rightarrow> bool \<Rightarrow> bool \<Rightarrow> write_outcome \<Rightarrow> write_outcome \<Rightarrow> attempt_outcome \<Rightarrow> string \<Rightarrow> service \<Rightarrow> service" where
  "process_attempt env auth removable usable out1 out2 a k sv =
     (case a of
        Attempt_result r \<Rightarrow>
          (case update_processing env auth removable usable out1 (settled r) k sv of
             (Inr _, sv1) \<Rightarrow> sv1
           | (Inl Storage_failure, sv1) \<Rightarrow> snd (retry_session env auth removable usable out2 Server_processing_error k sv1)
           | (Inl Not_found, sv1) \<Rightarrow> snd (refuse_session env auth removable out2 ''not_found'' ''Resource not found.'' k sv1)
           | (Inl Transfer_expired, sv1) \<Rightarrow> snd (refuse_session env auth removable out2 ''transfer_expired'' ''Transfer expired.'' k sv1)
           | (Inl _, sv1) \<Rightarrow> snd (refuse_session env auth removable out2 ''transfer_unavailable'' ''Transfer storage is unavailable.'' k sv1))
      | Attempt_refused code message \<Rightarrow> snd (refuse_session env auth removable out2 code message k sv)
      | Attempt_failed e \<Rightarrow> snd (retry_session env auth removable usable out2 e k sv)
      | Attempt_not_durable \<Rightarrow> suspendTransferStorage sv)"

section \<open>Draining and restarting\<close>

definition abort_session :: "service \<Rightarrow> push_session \<Rightarrow> push_session" where
  "abort_session sv s = s\<lparr>status := Aborted, result := None, processing_error_code := None, retry_at := None, updated_at := clock sv\<rparr>"

text \<open>One session of \<open>drainVault\<close>, or of \<open>drainDevice\<close> with a device. The failure of a write ends the drain.\<close>

definition drain_session :: "service_env \<Rightarrow> string \<Rightarrow> string option \<Rightarrow> write_outcome \<Rightarrow> string \<Rightarrow> service \<Rightarrow> service" where
  "drain_session env vault device out k sv =
     (case readSession env sv k of
        None \<Rightarrow> sv
      | Some s \<Rightarrow>
          if vault_id s \<noteq> vault \<or> (case device of None \<Rightarrow> False | Some d \<Rightarrow> device_id s \<noteq> d) then sv
          else if status s = Processing \<or> status s = Open_session then snd (writeSession out (abort_session sv s) k sv) else sv)"

text \<open>The start of the server clears the flag, unless Git is not durable or the scan fails, and goes through the sessions. The bytes that a record accounts for are
  corrected to those of its directory. A push that an earlier release rejected for a Git error is opened again; a
  processing one is left to a processor.\<close>

definition restart_service :: "bool \<Rightarrow> service \<Rightarrow> service" where
  "restart_service unavailable sv = sv\<lparr>transferUnavailable := unavailable\<rparr>"

definition audit_session :: "service_env \<Rightarrow> nat \<Rightarrow> write_outcome \<Rightarrow> string \<Rightarrow> service \<Rightarrow> service" where
  "audit_session env actual out k sv =
     (case readSession env sv k of
        None \<Rightarrow> sv
      | Some s \<Rightarrow>
          if actual > maxTransferBytes (limits env) \<or> actual > maxTransferStorageBytes (limits env) then sv
          else if stored_bytes s \<noteq> None \<and> stored_bytes s \<noteq> Some actual then snd (writeSession out (s\<lparr>stored_bytes := Some actual\<rparr>) k sv)
          else sv)"

definition resume_session :: "service_env \<Rightarrow> (string \<Rightarrow> bool) \<Rightarrow> write_outcome \<Rightarrow> string \<Rightarrow> service \<Rightarrow> service" where
  "resume_session env blocked out k sv =
     (case readSession env sv k of
        None \<Rightarrow> sv
      | Some s \<Rightarrow>
          if status s = Processing \<or> expired sv s \<or> status s \<noteq> Rejected \<or> blocked (vault_id s) then sv
          else (case result s of
            Some (Push_rejected code _) \<Rightarrow>
              if code \<noteq> ''git_error'' then sv
              else snd (writeSession out (s\<lparr>status := Open_session, result := None, processing_attempts := Some 0, processing_error_code := Some Server_git_error,
                retry_at := Some (clock sv), updated_at := clock sv\<rparr>) k sv)
          | _ \<Rightarrow> sv))"

datatype service_event =
    Create auth create_request string create_disk
  | Put auth bool bool put_disk string int buffer string
  | Get auth bool bool write_outcome string
  | Begin_finalize auth bool bool write_outcome string
  | Finalize auth bool bool "push_result option" write_outcome string
  | Delete auth bool string
  | Attempt auth bool bool write_outcome write_outcome attempt_outcome string
  | Drain string "string option" write_outcome string
  | Restart bool
  | Audit nat write_outcome string
  | Resume "string \<Rightarrow> bool" write_outcome string
  | Tick nat

fun service_step :: "service_env \<Rightarrow> service \<Rightarrow> service_event \<Rightarrow> service" where
  "service_step env sv (Create a rq k d) = snd (createPush env a rq k d sv)"
| "service_step env sv (Put a rm ok d k i data digest) = snd (putChunk env a rm ok d k i data digest sv)"
| "service_step env sv (Get a rm ok out k) = snd (getPush env a rm ok out k sv)"
| "service_step env sv (Begin_finalize a rm ok out k) = snd (beginFinalizePush env a rm ok out k sv)"
| "service_step env sv (Finalize a rm ok r out k) = snd (finalizePush env a rm ok r out k sv)"
| "service_step env sv (Delete a rm k) = snd (deletePush env a rm k sv)"
| "service_step env sv (Attempt a rm ok out1 out2 r k) = process_attempt env a rm ok out1 out2 r k sv"
| "service_step env sv (Drain v d out k) = drain_session env v d out k sv"
| "service_step env sv (Restart unavailable) = restart_service unavailable sv"
| "service_step env sv (Audit actual out k) = audit_session env actual out k sv"
| "service_step env sv (Resume bl out k) = resume_session env bl out k sv"
| "service_step env sv (Tick n) = sv\<lparr>clock := clock sv + n\<rparr>"

section \<open>The invariant\<close>

text \<open>What holds of the record of a session: what was validated when it was created, its receipts, its times, and its status.\<close>

definition static_ok :: "service_env \<Rightarrow> string \<Rightarrow> push_session \<Rightarrow> bool" where
  "static_ok env k s \<longleftrightarrow> transfer_id s = k \<and> record_pattern k \<and> isBoundedIdentifier (vault_id s) \<and> isBoundedIdentifier (device_id s) \<and>
     attempt_pattern (attempt_id s) \<and> SHA256_PATTERN (request_sha256 s) \<and> SHA256_PATTERN (plan_sha256 s) \<and>
     chunk_count s \<le> maxTransferChunks (limits env) \<and> manifest_ids env (manifest s) = Some (vault_id s, device_id s, attempt_id s) \<and>
     (\<exists>n. stored_bytes s = Some n \<and> n \<le> maxTransferStorageBytes (limits env))"

definition received :: "service_env \<Rightarrow> buffer list \<Rightarrow> chunk_receipt \<Rightarrow> bool" where
  "received env packs r \<longleftrightarrow> (\<exists>data \<in> set packs. length data = bytes r \<and> sha256Hex env data = receipt_sha256 r)"

definition receipts_ok :: "service_env \<Rightarrow> buffer list \<Rightarrow> push_session \<Rightarrow> bool" where
  "receipts_ok env packs s \<longleftrightarrow> sorted_wrt (<) (map index (receipts s)) \<and>
     (\<forall>r \<in> set (receipts s). index r < chunk_count s \<and> 0 < bytes r \<and> bytes r \<le> transferChunkBytes (limits env) \<and> received env packs r) \<and>
     total_bytes s = sum_list (map bytes (receipts s)) \<and> total_bytes s \<le> maxTransferBytes (limits env)"

definition times_ok :: "nat \<Rightarrow> push_session \<Rightarrow> bool" where
  "times_ok now s \<longleftrightarrow> created_at s \<le> updated_at s \<and> updated_at s \<le> now \<and> isTimestamp (updated_at s) \<and> isTimestamp (expires_at s) \<and>
     (\<forall>t. retry_at s = Some t \<longrightarrow> isTimestamp t)"

definition status_ok :: "push_session \<Rightarrow> bool" where
  "status_ok s \<longleftrightarrow> isSessionResultCombination (status s) (result s) \<and> (processing_error_code s \<noteq> None) = (retry_at s \<noteq> None) \<and>
     (status s \<in> {Rejected, Aborted} \<longrightarrow> processing_error_code s = None) \<and>
     (status s \<in> {Processing, Completed, Rejected} \<longrightarrow> length (receipts s) = chunk_count s)"

definition session_inv :: "service_env \<Rightarrow> service \<Rightarrow> string \<Rightarrow> push_session \<Rightarrow> bool" where
  "session_inv env sv k s \<longleftrightarrow> static_ok env k s \<and> receipts_ok env (quarantine sv k) s \<and> times_ok (clock sv) s \<and> status_ok s"

definition service_inv :: "service_env \<Rightarrow> service \<Rightarrow> bool" where
  "service_inv env sv \<longleftrightarrow> (\<forall>k s. map_of (sessions sv) k = Some s \<longrightarrow> session_inv env sv k s)"

lemmas session_ops = to_processing_def settled_def failed_attempt_def abort_session_def Let_def

lemma service_invD: "service_inv env sv \<Longrightarrow> map_of (sessions sv) k = Some s \<Longrightarrow> session_inv env sv k s"
  by (simp add: service_inv_def)

lemma service_inv_set: "service_inv env sv \<Longrightarrow> session_inv env sv k s \<Longrightarrow> service_inv env (set_session k s sv)"
  by (auto simp: service_inv_def set_session_def session_inv_def update_conv' split: if_splits)

lemma service_inv_drop: "service_inv env sv \<Longrightarrow> service_inv env (drop_session k sv)"
  by (auto simp: service_inv_def drop_session_def session_inv_def delete_conv' split: if_splits)

lemma service_inv_suspend [simp]: "service_inv env (suspendTransferStorage sv) = service_inv env sv"
  by (simp add: service_inv_def suspendTransferStorage_def session_inv_def)

lemma service_inv_write: "service_inv env sv \<Longrightarrow> session_inv env sv k s \<Longrightarrow> service_inv env (snd (writeSession out s k sv))"
  by (cases out) (simp_all add: writeSession_def service_inv_set)

lemma service_inv_write_session: "service_inv env sv \<Longrightarrow> session_inv env sv k s \<Longrightarrow> service_inv env (snd (write_session out k s r sv))"
  using service_inv_write [of env sv k s out] by (auto simp: write_session_def split: prod.splits sum.splits)

lemma received_mono: "received env packs r \<Longrightarrow> received env (packs @ qs) r"
  by (auto simp: received_def)

lemma session_inv_import: "session_inv env sv k s \<Longrightarrow> session_inv env (import_data k' data sv) k s"
  by (auto simp: session_inv_def import_data_def receipts_ok_def received_mono)

lemma service_inv_import: "service_inv env sv \<Longrightarrow> service_inv env (import_data k data sv)"
  using session_inv_import by (simp add: service_inv_def) (simp add: import_data_def)

lemma session_inv_tick: "session_inv env sv k s \<Longrightarrow> session_inv env (sv\<lparr>clock := clock sv + n\<rparr>) k s"
  by (simp add: session_inv_def times_ok_def)

lemma service_inv_tick: "service_inv env sv \<Longrightarrow> service_inv env (sv\<lparr>clock := clock sv + n\<rparr>)"
  using session_inv_tick by (simp add: service_inv_def)

lemma readSession_Some: "readSession env sv k = Some s \<Longrightarrow> map_of (sessions sv) k = Some s"
  by (auto simp: readSession_def parsePersistedPushSession_def split: option.splits if_splits)

lemma requireSession_inv:
  assumes "service_inv env sv"
  shows "service_inv env (snd (requireSession env auth k rm ok sv))"
    and "fst (requireSession env auth k rm ok sv) = Inr s \<Longrightarrow> snd (requireSession env auth k rm ok sv) = sv \<and> readSession env sv k = Some s"
  using assms by (auto simp: requireSession_def service_inv_drop split: option.splits if_splits)

lemma with_session_inv:
  assumes "service_inv env sv" and "\<And>s. readSession env sv k = Some s \<Longrightarrow> service_inv env (snd (f s sv))"
  shows "service_inv env (snd (with_session env auth k rm ok f sv))"
  using assms requireSession_inv [OF assms(1), of auth k rm ok] by (auto simp: with_session_def split: sum.splits prod.splits)

section \<open>Steps keep the invariant\<close>

text \<open>The clock is far from the end of the year 9999.\<close>

definition in_time :: "service_env \<Rightarrow> service \<Rightarrow> bool" where
  "in_time env sv \<longleftrightarrow> clock sv + transferTtlSeconds (limits env) * 1000 + 60000 \<le> 253402300799999"

lemma in_time_timestamps:
  assumes "in_time env sv"
  shows "isTimestamp (clock sv)" and "isTimestamp (new_expiry env sv)" and "isTimestamp (clock sv + retry_delay n)"
  using assms by (auto simp: in_time_def isTimestamp_def new_expiry_def retry_delay_def)

lemma session_inv_processing:
  assumes "session_inv env sv k s" and "in_time env sv" and "status s = Open_session \<or> status s = Processing" and "length (receipts s) = chunk_count s"
  shows "session_inv env sv k (to_processing env sv s)"
  using assms in_time_timestamps [OF assms(2)]
  by (auto simp: session_inv_def static_ok_def receipts_ok_def times_ok_def status_ok_def isSessionResultCombination_def to_processing_def)

lemma session_inv_settled:
  assumes "session_inv env sv k s" and "in_time env sv" and "status s = Processing" and "isPushResult r"
  shows "session_inv env sv k (settled r sv s)"
  using assms in_time_timestamps [OF assms(2)]
  by (auto simp: session_inv_def static_ok_def receipts_ok_def times_ok_def status_ok_def isSessionResultCombination_def settled_def split: push_result.splits)

lemma session_inv_failed:
  assumes "session_inv env sv k s" and "in_time env sv" and "status s = Processing"
  shows "session_inv env sv k (failed_attempt env e sv s)"
  using assms in_time_timestamps [OF assms(2)]
  by (auto simp: session_inv_def static_ok_def receipts_ok_def times_ok_def status_ok_def isSessionResultCombination_def failed_attempt_def Let_def)

lemma session_inv_abort:
  assumes "session_inv env sv k s" and "in_time env sv"
  shows "session_inv env sv k (abort_session sv s)"
  using assms in_time_timestamps [OF assms(2)]
  by (auto simp: session_inv_def static_ok_def receipts_ok_def times_ok_def status_ok_def isSessionResultCombination_def abort_session_def)

lemma session_inv_reopened:
  assumes "session_inv env sv k s" and "in_time env sv"
  shows "session_inv env sv k (s\<lparr>status := Open_session, result := None, processing_attempts := Some 0, processing_error_code := Some Server_git_error,
    retry_at := Some (clock sv), updated_at := clock sv\<rparr>)"
  using assms in_time_timestamps [OF assms(2)]
  by (auto simp: session_inv_def static_ok_def receipts_ok_def times_ok_def status_ok_def isSessionResultCombination_def)

lemma session_inv_finalized:
  assumes "session_inv env sv k s" and "in_time env sv" and "status s = Open_session" and "length (receipts s) = chunk_count s" and "isPushResult r"
  shows "session_inv env sv k (case r of Push_rejected _ _ \<Rightarrow> s\<lparr>result := None, status := Open_session, updated_at := clock sv\<rparr>
    | Push_applied _ \<Rightarrow> s\<lparr>result := Some r, status := Completed, updated_at := clock sv\<rparr>)"
  using assms in_time_timestamps [OF assms(2)]
  by (auto simp: session_inv_def static_ok_def receipts_ok_def times_ok_def status_ok_def isSessionResultCombination_def split: push_result.splits)

interpretation receipt_order: ordered_sort "\<lambda>a b :: chunk_receipt. int (index a) - int (index b)" index
  by unfold_locales auto

lemma insert_receipt_sorted:
  assumes "sorted_wrt (<) (map index rs)" and "index r \<notin> index ` set rs"
  shows "sorted_wrt (<) (map index (insert_receipt r rs))"
proof -
  have "distinct (map index (insert_receipt r rs))"
  proof -
    have "mset (map index (insert_receipt r rs)) = mset (map index (rs @ [r]))" by (simp add: insert_receipt_def mset_js_sort)
    moreover have "distinct (map index (rs @ [r]))" using assms strict_sorted_iff [of "map index rs"] by auto
    ultimately show ?thesis by (metis mset_eq_imp_distinct_iff)
  qed
  then show ?thesis using receipt_order.sorted_by_key by (simp add: insert_receipt_def strict_sorted_iff)
qed

lemma insert_receipt_facts: "set (insert_receipt r rs) = insert r (set rs)" "sum_list (map bytes (insert_receipt r rs)) = sum_list (map bytes rs) + bytes r"
  "length (insert_receipt r rs) = Suc (length rs)"
proof -
  have "sum_mset (mset (map bytes (insert_receipt r rs))) = sum_mset (mset (map bytes (rs @ [r])))" by (simp add: insert_receipt_def mset_js_sort)
  then show "sum_list (map bytes (insert_receipt r rs)) = sum_list (map bytes rs) + bytes r" unfolding sum_mset_sum_list by simp
qed (simp_all add: insert_receipt_def)

definition limits_ok :: "transfer_limits \<Rightarrow> bool" where
  "limits_ok c \<longleftrightarrow> 1048576 \<le> transferChunkBytes c \<and> transferChunkBytes c \<le> 33554432 \<and> transferChunkBytes c \<le> maxTransferBytes c \<and> maxTransferBytes c \<le> 8589934592 \<and>
     1 \<le> maxTransferChunks c \<and> maxTransferChunks c \<le> 16384 \<and> maxTransferBytes c \<le> maxTransferStorageBytes c \<and> maxTransferStorageBytes c \<le> 17179869184 \<and>
     300 \<le> transferTtlSeconds c \<and> transferTtlSeconds c \<le> 604800"

lemma session_inv_add:
  assumes inv: "session_inv env sv k s" and t: "in_time env sv" and l: "limits_ok (limits env)"
    and s: "status s = Open_session" "i < chunk_count s" "find (\<lambda>r. index r = i) (receipts s) = None"
    and d: "data \<noteq> []" "length data \<le> transferChunkBytes (limits env)" "total_bytes s + length data \<le> maxTransferBytes (limits env)"
      "data \<in> set (quarantine sv k)" and "stored \<le> maxTransferBytes (limits env)"
  shows "session_inv env sv k (add_receipt env sv \<lparr>index = i, bytes = length data, receipt_sha256 = sha256Hex env data\<rparr> stored s)"
proof -
  let ?r = "\<lparr>index = i, bytes = length data, receipt_sha256 = sha256Hex env data\<rparr>"
  have "i \<notin> index ` set (receipts s)" using s(3) by (auto simp: find_None_iff)
  then have "sorted_wrt (<) (map index (insert_receipt ?r (receipts s)))"
    using inv by (intro insert_receipt_sorted) (auto simp: session_inv_def receipts_ok_def)
  moreover have "received env (quarantine sv k) ?r" using d(4) by (auto simp: received_def)
  ultimately have "receipts_ok env (quarantine sv k) (add_receipt env sv ?r stored s)"
    using inv s(2) d by (auto simp: session_inv_def receipts_ok_def add_receipt_def insert_receipt_facts)
  moreover have "stored \<le> maxTransferStorageBytes (limits env)" using assms(11) l by (simp add: limits_ok_def)
  ultimately show ?thesis
    using inv s(1) in_time_timestamps [OF t] by (auto simp: session_inv_def static_ok_def times_ok_def status_ok_def add_receipt_def)
qed

text \<open>What is assumed of the events: requests that the validators let through, fresh ids, well-formed results.\<close>

definition request_ok :: "service_env \<Rightarrow> create_request \<Rightarrow> bool" where
  "request_ok env rq \<longleftrightarrow> isBoundedIdentifier (rq_vault rq) \<and> isBoundedIdentifier (rq_device rq) \<and> attempt_pattern (rq_attempt rq) \<and>
     SHA256_PATTERN (rq_sha256 rq) \<and> SHA256_PATTERN (rq_plan rq) \<and> manifest_ids env (rq_manifest rq) = Some (rq_vault rq, rq_device rq, rq_attempt rq)"

fun event_ok :: "service_env \<Rightarrow> service_event \<Rightarrow> bool" where
  "event_ok env (Create a rq k d) \<longleftrightarrow> request_ok env rq \<and> transfer_pattern k \<and>
     (\<forall>n. prepared d = Prepared n \<longrightarrow> n \<le> maxTransferStorageBytes (limits env))"
| "event_ok env (Finalize a rm ok r out k) \<longleftrightarrow> (\<forall>x. r = Some x \<longrightarrow> isPushResult x)"
| "event_ok env (Attempt a rm ok out1 out2 r k) \<longleftrightarrow>
     (\<forall>x. r = Attempt_result x \<longrightarrow> isPushResult x) \<and> (\<forall>c m. r = Attempt_refused c m \<longrightarrow> isPushResult (Push_rejected c m))"
| "event_ok env _ \<longleftrightarrow> True"

definition service_enabled :: "service_env \<Rightarrow> service \<Rightarrow> service_event \<Rightarrow> bool" where
  "service_enabled env sv ev \<longleftrightarrow> in_time env sv \<and> event_ok env ev"

lemma session_inv_new:
  assumes "request_ok env rq" and "transfer_pattern k" and "stored \<le> maxTransferStorageBytes (limits env)" and "in_time env sv"
    and "rq_chunk_count rq \<le> maxTransferChunks (limits env)"
  shows "session_inv env sv k (new_session env sv k stored rq)"
proof -
  have "record_pattern k" using assms(2) by (auto simp: transfer_pattern_def record_pattern_def list_all_iff)
  then show ?thesis using assms in_time_timestamps [OF assms(4)]
    by (auto simp: session_inv_def static_ok_def receipts_ok_def times_ok_def status_ok_def isSessionResultCombination_def new_session_def request_ok_def)
qed

lemma drop_clock [simp]: "clock (drop_session k sv) = clock sv"
  by (simp add: drop_session_def)

lemma remove_expired_inv:
  "service_inv env sv \<Longrightarrow> service_inv env (snd (remove_expired rm ss sv)) \<and> clock (snd (remove_expired rm ss sv)) = clock sv"
  by (induction ss arbitrary: sv) (auto simp: service_inv_drop)

lemma scan_inv: "scanSessions env d sv = (r, sv') \<Longrightarrow> service_inv env sv \<Longrightarrow> service_inv env sv' \<and> clock sv' = clock sv"
  by (auto simp: scanSessions_def suspendTransferStorage_def split: if_splits) (simp_all add: service_inv_def session_inv_def)

lemma pruneExpired_inv: "pruneExpired env d sv = (r, sv') \<Longrightarrow> service_inv env sv \<Longrightarrow> service_inv env sv' \<and> clock sv' = clock sv"
proof -
  assume p: "pruneExpired env d sv = (r, sv')" and inv: "service_inv env sv"
  obtain q sv1 where q: "scanSessions env (prune_scan d) sv = (q, sv1)" by fastforce
  then have "service_inv env sv1" "clock sv1 = clock sv" using scan_inv inv by blast+
  then show ?thesis using p q inv remove_expired_inv [of env sv1]
    by (auto simp: pruneExpired_def split: root_outcome.splits sum.splits prod.splits) (metis snd_conv)+
qed

lemma prepare_inv:
  assumes "service_inv env sv" and "in_time env sv" and "event_ok env (Create a rq k d)" and "rq_chunk_count rq \<le> maxTransferChunks (limits env)"
  shows "service_inv env (snd (prepare_session env d k rq sv))"
proof -
  have "service_inv env (snd (write_session out k (new_session env sv k n rq) (new_session env sv k n rq) sv))" if "prepared d = Prepared n" for n out
    using that assms by (intro service_inv_write_session session_inv_new) auto
  then show ?thesis using assms(1) by (auto simp: prepare_session_def Let_def split: prepare_outcome.splits)
qed

lemma create_inv:
  assumes inv: "service_inv env sv" and t: "in_time env sv" and ok: "event_ok env (Create a rq k d)"
  shows "service_inv env (snd (createPush env a rq k d sv))"
proof -
  obtain p sv1 where p: "pruneExpired env d sv = (p, sv1)" by fastforce
  obtain q sv2 where q: "scanSessions env (list_scan d) sv1 = (q, sv2)" by fastforce
  have inv1: "service_inv env sv1" "clock sv1 = clock sv" using pruneExpired_inv [OF p inv] by blast+
  then have inv2: "service_inv env sv2" "clock sv2 = clock sv" using scan_inv [OF q] by auto
  then have "rq_chunk_count rq \<le> maxTransferChunks (limits env) \<Longrightarrow> service_inv env (snd (prepare_session env d k rq sv2))"
    using prepare_inv [OF _ _ ok] t by (simp add: in_time_def)
  then show ?thesis using inv inv1 inv2 by (auto simp: createPush_def p q split: sum.splits option.splits if_splits)
qed

lemma put_inv:
  assumes inv: "service_inv env sv" and t: "in_time env sv" and l: "limits_ok (limits env)"
  shows "service_inv env (snd (putChunk env a rm ok d k i data digest sv))"
  unfolding putChunk_def
proof (rule with_session_inv [OF inv])
  fix s assume s: "readSession env sv k = Some s"
  then have si: "session_inv env sv k s" using service_invD [OF inv readSession_Some] by blast
  have stored: "service_inv env (snd (store_chunk env d k (nat i) data s sv))"
    if "status s = Open_session" "nat i < chunk_count s" "find (\<lambda>r. index r = nat i) (receipts s) = None" "data \<noteq> []"
      "length data \<le> transferChunkBytes (limits env)" "total_bytes s + length data \<le> maxTransferBytes (limits env)"
  proof -
    let ?sv = "import_data k data sv"
    have inv1: "service_inv env ?sv" and "session_inv env ?sv k s" "in_time env ?sv" "data \<in> set (quarantine ?sv k)"
      using inv si t by (simp_all add: service_inv_import session_inv_import) (simp_all add: import_data_def in_time_def)
    then have "service_inv env (snd (write_session out k (add_receipt env ?sv \<lparr>index = nat i, bytes = length data, receipt_sha256 = sha256Hex env data\<rparr> n s) False ?sv))"
      if "n \<le> maxTransferBytes (limits env)" for out n
      using that \<open>status s = Open_session\<close> \<open>nat i < chunk_count s\<close> \<open>find _ _ = None\<close> \<open>data \<noteq> []\<close> \<open>length data \<le> _\<close> \<open>total_bytes s + _ \<le> _\<close> l
      by (intro service_inv_write_session [OF inv1] session_inv_add) auto
    then show ?thesis using inv inv1 service_inv_drop [OF inv1]
      by (auto simp: store_chunk_def Let_def split: option.splits import_outcome.splits if_splits)
  qed
  show "service_inv env (snd (put_checked env d k i data digest s sv))"
    using stored inv by (auto simp: put_checked_def split: option.splits if_splits)
qed

lemma update_inv:
  assumes "service_inv env sv" and "\<And>s. readSession env sv k = Some s \<Longrightarrow> status s = Processing \<Longrightarrow> session_inv env sv k (f sv s)"
  shows "service_inv env (snd (update_processing env a rm ok out f k sv))" and "clock (snd (update_processing env a rm ok out f k sv)) = clock sv"
proof -
  obtain r sv1 where q: "requireSession env a k rm ok sv = (r, sv1)" by fastforce
  have "service_inv env sv1" "\<And>s. r = Inr s \<Longrightarrow> sv1 = sv \<and> readSession env sv k = Some s" "clock sv1 = clock sv"
    using requireSession_inv [OF assms(1), of a k rm ok] q
    by (auto simp: requireSession_def drop_session_def split: option.splits if_splits)
  moreover have "clock (snd (writeSession out s k sv)) = clock sv" for s
    by (cases out) (simp_all add: writeSession_def set_session_def suspendTransferStorage_def)
  ultimately show "service_inv env (snd (update_processing env a rm ok out f k sv))" "clock (snd (update_processing env a rm ok out f k sv)) = clock sv"
    using assms(2) service_inv_write [OF assms(1)] by (auto simp: update_processing_def q split: sum.splits)
qed

lemma attempt_inv:
  assumes inv: "service_inv env sv" and t: "in_time env sv" and ok: "event_ok env (Attempt a rm u out1 out2 r k)"
  shows "service_inv env (process_attempt env a rm u out1 out2 r k sv)"
proof -
  have settle: "service_inv env (snd (update_processing env a rm u out (settled x) k sv'))" if "service_inv env sv'" "in_time env sv'" "isPushResult x" for sv' u out x
    using that service_invD [OF that(1) readSession_Some] by (intro update_inv session_inv_settled) auto
  have retry: "service_inv env (snd (retry_session env a rm u out e k sv'))" if "service_inv env sv'" "in_time env sv'" for sv' u out e
    unfolding retry_session_def using that service_invD [OF that(1) readSession_Some] by (intro update_inv session_inv_failed) auto
  have refuse: "service_inv env (snd (refuse_session env a rm out c m k sv'))" if "service_inv env sv'" "in_time env sv'" "isPushResult (Push_rejected c m)" for sv' out c m
    unfolding refuse_session_def using settle that by blast
  show ?thesis
  proof (cases r)
    case (Attempt_result x)
    obtain q sv1 where q: "update_processing env a rm u out1 (settled x) k sv = (q, sv1)" by fastforce
    have x: "isPushResult x" using ok Attempt_result by simp
    then have "service_inv env sv1" using settle [OF inv t, of x u out1] q by simp
    moreover have "clock sv1 = clock sv"
      using update_inv(2) [OF inv, of k "settled x" a rm u out1] session_inv_settled [OF service_invD [OF inv readSession_Some] t _ x] q by simp
    then have "in_time env sv1" using t by (simp add: in_time_def)
    ultimately show ?thesis using retry refuse
      by (auto simp: process_attempt_def Attempt_result q isPushResult_def split: sum.splits transfer_error.splits)
  qed (use inv t ok retry refuse in \<open>auto simp: process_attempt_def\<close>)
qed

lemma service_step_inv:
  assumes l: "limits_ok (limits env)" and inv: "service_inv env sv" and en: "service_enabled env sv ev"
  shows "service_inv env (service_step env sv ev)"
proof -
  have t: "in_time env sv" and ok: "event_ok env ev" using en by (simp_all add: service_enabled_def)
  note si = service_invD [OF inv readSession_Some]
  show ?thesis
  proof (cases ev)
    case (Create a rq k d)
    then show ?thesis using create_inv [OF inv t] ok by simp
  next
    case (Put a rm u d k i data digest)
    then show ?thesis using put_inv [OF inv t l] by simp
  next
    case (Get a rm u out k)
    then show ?thesis using si inv t
      by (auto simp: getPush_def intro!: with_session_inv service_inv_write_session session_inv_processing)
  next
    case (Begin_finalize a rm u out k)
    then show ?thesis using si inv t
      by (auto simp: beginFinalizePush_def intro!: with_session_inv service_inv_write_session session_inv_processing intro: session_status.exhaust)
  next
    case (Finalize a rm u r out k)
    have "service_inv env (snd (finalizePush env a rm u r out k sv))"
      unfolding finalizePush_def
    proof (rule with_session_inv [OF inv])
      fix s assume s: "readSession env sv k = Some s"
      have "service_inv env (snd (write_session out k (case x of Push_rejected _ _ \<Rightarrow> s\<lparr>result := None, status := Open_session, updated_at := clock sv\<rparr>
          | Push_applied _ \<Rightarrow> s\<lparr>result := Some x, status := Completed, updated_at := clock sv\<rparr>) x sv))"
        if "r = Some x" "status s = Open_session" "length (receipts s) = chunk_count s" for x
        using that ok Finalize si [OF s] t by (intro service_inv_write_session [OF inv] session_inv_finalized) auto
      then show "service_inv env (snd (if status s = Completed \<or> status s = Rejected \<or> status s = Aborted
         then ((case result s of None \<Rightarrow> Inl Transfer_closed | Some r \<Rightarrow> Inr r), sv)
         else if status s = Processing then (Inl Transfer_processing, sv)
         else if length (receipts s) \<noteq> chunk_count s then (Inl Transfer_incomplete, sv)
         else (case r of None \<Rightarrow> (Inl Processing_failed, sv) | Some r \<Rightarrow>
           let s1 = (case r of Push_rejected _ _ \<Rightarrow> s\<lparr>result := None, status := Open_session, updated_at := clock sv\<rparr>
             | Push_applied _ \<Rightarrow> s\<lparr>result := Some r, status := Completed, updated_at := clock sv\<rparr>) in write_session out k s1 r sv)))"
        using inv by (cases "status s") (auto simp: Let_def split: option.splits)
    qed
    then show ?thesis using Finalize by simp
  next
    case (Delete a rm k)
    then show ?thesis using inv by (auto simp: deletePush_def intro!: with_session_inv service_inv_drop)
  next
    case (Attempt a rm u out1 out2 r k)
    then show ?thesis using attempt_inv [OF inv t] ok by simp
  next
    case (Drain v d out k)
    then show ?thesis using si inv t by (auto simp: drain_session_def intro!: service_inv_write session_inv_abort split: option.splits)
  next
    case (Resume bl out k)
    then show ?thesis using si inv t
      by (auto simp: resume_session_def intro!: service_inv_write session_inv_reopened split: option.splits push_result.splits)
  next
    case (Audit actual out k)
    have "session_inv env sv k (s\<lparr>stored_bytes := Some actual\<rparr>)" if "session_inv env sv k s" "\<not> actual > maxTransferStorageBytes (limits env)" for s
      using that by (auto simp: session_inv_def static_ok_def receipts_ok_def times_ok_def status_ok_def)
    then show ?thesis using Audit si inv by (auto simp: audit_session_def intro!: service_inv_write split: option.splits)
  next
    case (Restart unavailable)
    then show ?thesis using inv by (simp add: restart_service_def service_inv_def session_inv_def)
  qed (use service_inv_tick [OF inv] in simp)
qed

definition new_service :: service where
  "new_service = \<lparr>sessions = [], quarantine = (\<lambda>_. []), transferUnavailable = False, clock = 0\<rparr>"

interpretation pushes: event_machine new_service "service_enabled env" "service_step env" "\<lambda>_ sv. limits_ok (limits env) \<longrightarrow> service_inv env sv"
  for env
  by unfold_locales (use service_step_inv in \<open>auto simp: new_service_def service_inv_def\<close>)

abbreviation service_run :: "service_env \<Rightarrow> service_event list \<Rightarrow> service \<Rightarrow> bool" where
  "service_run env \<equiv> event_run new_service (service_enabled env) (service_step env)"

lemma service_run_inv: "limits_ok (limits env) \<Longrightarrow> service_run env evs sv \<Longrightarrow> service_inv env sv"
  using pushes.run_inv by blast

section \<open>What is processed is complete\<close>

lemma strictly_sorted_full: "sorted_wrt (<) xs \<Longrightarrow> \<forall>x \<in> set xs. x < n \<Longrightarrow> length xs = n \<Longrightarrow> xs = [0..<n]"
proof (rule sorted_distinct_set_unique)
  assume xs: "sorted_wrt (<) xs" "\<forall>x \<in> set xs. x < n" "length xs = n"
  then show "sorted xs" "distinct xs" by (simp_all add: strict_sorted_iff)
  then have "card (set xs) = card {0..<n}" using xs(3) by (simp add: distinct_card)
  then show "set xs = set [0..<n]" using xs(2) by (simp add: card_subset_eq subset_iff)
qed simp_all

text \<open>C5. A push is processed only when it is complete: in every reachable state a session that is processing, completed or rejected has exactly one receipt for
  each of its chunks, in order; for each receipt data of that length and digest were imported into the quarantine of the session, and all chunks together
  are within the limit of a transfer.\<close>

theorem push_complete:
  assumes "limits_ok (limits env)" and "service_run env evs sv" and "map_of (sessions sv) k = Some s" and "status s \<in> {Processing, Completed, Rejected}"
  shows "map index (receipts s) = [0..<chunk_count s] \<and>
    (\<forall>r \<in> set (receipts s). \<exists>data \<in> set (quarantine sv k). length data = bytes r \<and> sha256Hex env data = receipt_sha256 r) \<and>
    total_bytes s = sum_list (map bytes (receipts s)) \<and> total_bytes s \<le> maxTransferBytes (limits env)"
proof -
  have inv: "session_inv env sv k s" using service_invD [OF service_run_inv [OF assms(1,2)] assms(3)] .
  then have "map index (receipts s) = [0..<chunk_count s]"
    using assms(4) by (intro strictly_sorted_full) (auto simp: session_inv_def receipts_ok_def status_ok_def)
  then show ?thesis using inv by (simp add: session_inv_def receipts_ok_def received_def)
qed

section \<open>What is written can be read\<close>

lemma check_receipts_ok:
  assumes "distinct (map index rs)" and "\<forall>r \<in> set rs. index r < n \<and> index r \<notin> seen \<and> SHA256_PATTERN (receipt_sha256 r)" and "n \<le> 16384"
    and "acc + sum_list (map bytes rs) \<le> 8589934592"
  shows "check_receipts n rs seen acc = Some (acc + sum_list (map bytes rs))"
  using assms
proof (induction rs arbitrary: seen acc)
  case (Cons r rs)
  have "check_receipts n rs (insert (index r) seen) (acc + bytes r) = Some (acc + bytes r + sum_list (map bytes rs))"
    using Cons.prems by (intro Cons.IH) (auto simp: image_iff)
  then show ?case using Cons.prems by (auto simp: isBoundedCounter_def)
qed simp

definition digests_ok :: "service_env \<Rightarrow> bool" where
  "digests_ok env \<longleftrightarrow> (\<forall>data. SHA256_PATTERN (sha256Hex env data))"

definition writable :: "push_session \<Rightarrow> bool" where
  "writable s \<longleftrightarrow> (\<forall>n. processing_attempts s = Some n \<longrightarrow> n \<le> 64) \<and> \<not> (status s = Completed \<and> processing_error_code s \<noteq> None)"

lemma readable:
  assumes l: "limits_ok (limits env)" and d: "digests_ok env" and inv: "session_inv env sv k s" and w: "writable s"
  shows "parsePersistedPushSession (manifest_ids env) k s = Some s" and "verifySessionStructure (limits env) s"
proof -
  have r: "receipts_ok env (quarantine sv k) s" and st: "static_ok env k s" and t: "times_ok (clock sv) s" and so: "status_ok s"
    using inv by (auto simp: session_inv_def)
  have len: "length (receipts s) \<le> chunk_count s"
  proof -
    have "distinct (map index (receipts s))" "set (map index (receipts s)) \<subseteq> {..<chunk_count s}"
      using r by (auto simp: receipts_ok_def strict_sorted_iff)
    then show ?thesis using card_mono [of "{..<chunk_count s}" "set (map index (receipts s))"] distinct_card [of "map index (receipts s)"] by simp
  qed
  have sha: "SHA256_PATTERN (receipt_sha256 x)" if "x \<in> set (receipts s)" for x
    using r d that unfolding receipts_ok_def received_def digests_ok_def by metis
  have "check_receipts (chunk_count s) (receipts s) {} 0 = Some (total_bytes s)"
    using sha check_receipts_ok [of "receipts s" "chunk_count s" "{}" 0] r st l d
    by (auto simp: receipts_ok_def static_ok_def limits_ok_def digests_ok_def received_def strict_sorted_iff)
  moreover have "isRetryCombination (status s) (processing_error_code s) (retry_at s)"
    using so w by (auto simp: status_ok_def writable_def isRetryCombination_def)
  moreover have "isTimestamp (created_at s)" using t by (auto simp: times_ok_def isTimestamp_def)
  moreover have "isBoundedCounter (chunk_count s) (2 ^ 53)" "isBoundedCounter (total_bytes s) 8589934592"
    using st r l by (simp_all add: isBoundedCounter_def static_ok_def receipts_ok_def limits_ok_def)
  moreover obtain n where n: "stored_bytes s = Some n" "n \<le> maxTransferStorageBytes (limits env)" using st by (auto simp: static_ok_def)
  then have "isBoundedCounter n 17179869184" using l by (simp add: isBoundedCounter_def limits_ok_def)
  moreover have "case processing_attempts s of None \<Rightarrow> True | Some n \<Rightarrow> isBoundedCounter n MAX_PROCESSING_ATTEMPTS"
    using w by (cases "processing_attempts s") (auto simp: writable_def isBoundedCounter_def MAX_PROCESSING_ATTEMPTS_def)
  moreover have "status s = Processing \<Longrightarrow> length (receipts s) = chunk_count s" "isSessionResultCombination (status s) (result s)"
    using so by (simp_all add: status_ok_def)
  moreover have "case retry_at s of None \<Rightarrow> True | Some t \<Rightarrow> isTimestamp t" using t by (simp add: times_ok_def split: option.split)
  ultimately show "parsePersistedPushSession (manifest_ids env) k s = Some s"
    using st t len n(1) by (simp add: parsePersistedPushSession_def static_ok_def times_ok_def not_less split: option.splits)
  show "verifySessionStructure (limits env) s"
    using st so r by (auto simp: verifySessionStructure_def static_ok_def status_ok_def receipts_ok_def list_ex_iff)
qed

lemma readable_session:
  assumes "limits_ok (limits env)" and "digests_ok env" and "map_of (sessions sv) k = Some s" and "session_inv env sv k s" and "writable s"
  shows "readSession env sv k = Some s"
  using readable [OF assms(1,2,4,5)] assms(3) by (simp add: readSession_def)

lemma unreadable:
  assumes "map_of (sessions sv) k = Some s" and "\<not> writable s"
  shows "readSession env sv k = None"
proof -
  have "parsePersistedPushSession (manifest_ids env) k s = None"
    using assms(2) by (auto simp: writable_def parsePersistedPushSession_def isBoundedCounter_def isRetryCombination_def MAX_PROCESSING_ATTEMPTS_def)
  then show ?thesis using assms(1) by (simp add: readSession_def)
qed

text \<open>C15. A record that was written can be read: in every reachable state the record of a session is accepted when it is read, exactly when it counts at most 64 failed
  attempts and is not a completed session with the error of an earlier attempt.\<close>

theorem push_readable:
  assumes "limits_ok (limits env)" and "digests_ok env" and "service_run env evs sv" and "map_of (sessions sv) k = Some s"
  shows "readSession env sv k = Some s \<longleftrightarrow>
    (\<forall>n. processing_attempts s = Some n \<longrightarrow> n \<le> 64) \<and> \<not> (status s = Completed \<and> processing_error_code s \<noteq> None)"
  using readable_session [OF assms(1,2,4) service_invD [OF service_run_inv [OF assms(1,3)] assms(4)]] unreadable [OF assms(4)]
  unfolding writable_def by fastforce

section \<open>Sessions that are lost\<close>

definition owns :: "auth \<Rightarrow> push_session \<Rightarrow> bool" where
  "owns a s \<longleftrightarrow> vault_id s = auth_vault a \<and> device_id s = auth_device a"

lemma require_owned:
  assumes "transfer_pattern k" and "readSession env sv k = Some s" and "owns a s" and "\<not> expired sv s"
  shows "requireSession env a k rm True sv = (Inr s, sv)"
  using assms by (simp add: requireSession_def owns_def)

lemma fail_step:
  assumes "transfer_pattern k" and "readSession env sv k = Some s" and "owns a s" and "status s = Processing"
  shows "service_step env sv (Attempt a rm True out Written (Attempt_failed e) k) = set_session k (failed_attempt env e sv s) sv"
  using assms by (simp add: process_attempt_def retry_session_def update_processing_def require_owned expired_def writeSession_def)

lemma fail_next:
  assumes l: "limits_ok (limits env)" "digests_ok env" and inv: "service_inv env sv" and t: "in_time env sv" and k: "transfer_pattern k"
    and s: "readSession env sv k = Some s" "owns a s" "status s = Processing"
    and sv'_def: "sv' = service_step env sv (Attempt a rm True out Written (Attempt_failed e) k)" and s'_def: "s' = failed_attempt env e sv s"
  shows "service_inv env sv'" and "in_time env sv'" and "map_of (sessions sv') k = Some s'" and "owns a s'" and "status s' = Processing"
    and "\<exists>m. processing_attempts s' = Some m \<and> m = (case processing_attempts s of None \<Rightarrow> 0 | Some n \<Rightarrow> n) + 1 \<and> (m \<le> 64 \<longrightarrow> readSession env sv' k = Some s')"
proof -
  have si: "session_inv env sv k s'" unfolding s'_def
    using session_inv_failed [OF service_invD [OF inv readSession_Some [OF s(1)]] t s(3)] .
  have sv': "sv' = set_session k s' sv" unfolding sv'_def s'_def by (rule fail_step [OF k s])
  show inv': "service_inv env sv'" unfolding sv' by (rule service_inv_set [OF inv si])
  show "in_time env sv'" using t by (simp add: sv' in_time_def set_session_def)
  show m: "map_of (sessions sv') k = Some s'" by (simp add: sv' set_session_def update_conv')
  show "owns a s'" "status s' = Processing" using s(2,3) by (simp_all add: s'_def failed_attempt_def owns_def Let_def)
  have "writable s'" if "(case processing_attempts s of None \<Rightarrow> 0 | Some n \<Rightarrow> n) + 1 \<le> 64"
    using that s(3) by (simp add: writable_def s'_def failed_attempt_def Let_def)
  then show "\<exists>m. processing_attempts s' = Some m \<and> m = (case processing_attempts s of None \<Rightarrow> 0 | Some n \<Rightarrow> n) + 1 \<and> (m \<le> 64 \<longrightarrow> readSession env sv' k = Some s')"
    using readable_session [OF l m service_invD [OF inv' m]] by (simp add: s'_def failed_attempt_def Let_def)
qed

lemma lost_not_found: "readSession env sv k = None \<Longrightarrow> requireSession env a k rm ok sv = (Inl Not_found, sv)"
  by (simp add: requireSession_def)

lemma retries_lose:
  assumes "limits_ok (limits env)" "digests_ok env" and "service_inv env sv" and "in_time env sv" and "transfer_pattern k"
    and "readSession env sv k = Some s" "owns a s" "status s = Processing" and "processing_attempts s = Some n" and "n + j = 64"
  shows "readSession env (((\<lambda>sv. service_step env sv (Attempt a rm True out Written (Attempt_failed e) k)) ^^ Suc j) sv) k = None"
  using assms(3-)
proof (induction j arbitrary: sv s n)
  case 0
  note next1 = fail_next [where rm = rm and out = out and e = e, OF assms(1,2) 0(1-6) refl refl]
  then show ?case using 0(7,8) unreadable [OF next1(3)] by (auto simp: writable_def)
next
  case (Suc j)
  note next1 = fail_next [where rm = rm and out = out and e = e, OF assms(1,2) Suc.prems(1-6) refl refl]
  obtain m where m: "processing_attempts (failed_attempt env e sv s) = Some m" "m = n + 1"
    and r: "readSession env (service_step env sv (Attempt a rm True out Written (Attempt_failed e) k)) k = Some (failed_attempt env e sv s)"
    using next1(6) Suc.prems(7,8) by auto
  have "m + j = 64" using m(2) Suc.prems(8) by simp
  from Suc.IH [OF next1(1,2) Suc.prems(3) r next1(4,5) m(1) this] show ?case by (simp only: funpow_Suc_right o_def)
qed

text \<open>C16. A push that the server cannot process for long is lost: from any reachable state, when a processing session with \<open>n\<close> failed attempts fails \<open>65 - n\<close> times more,
  its record cannot be read any more, and every request for it is answered as if there were no such transfer.\<close>

theorem retries_lose_session:
  assumes "limits_ok (limits env)" and "digests_ok env" and "service_run env evs sv" and "in_time env sv" and "transfer_pattern k"
    and "readSession env sv k = Some s" and "owns a s" and "status s = Processing" and "processing_attempts s = Some n" and "n \<le> 64"
    and sv': "sv' = ((\<lambda>sv. service_step env sv (Attempt a False True Written Written (Attempt_failed e) k)) ^^ (65 - n)) sv"
  shows "readSession env sv' k = None \<and> (\<forall>a rm ok. requireSession env a k rm ok sv' = (Inl Not_found, sv'))"
proof -
  have "65 - n = Suc (64 - n)" using assms(10) by simp
  moreover have "n + (64 - n) = 64" using assms(10) by simp
  ultimately have "readSession env sv' k = None"
    using retries_lose [OF assms(1,2) service_run_inv [OF assms(1,3)] assms(4-9)] unfolding sv' by metis
  then show ?thesis using lost_not_found by blast
qed

text \<open>C17. A push that is finalized after it was opened again is lost: when \<open>finalizePush\<close> applies a complete session that still has the error of an earlier attempt, the
  device is told the result, but the record that is written cannot be read.\<close>

theorem finalize_loses_session:
  assumes "transfer_pattern k" and "readSession env sv k = Some s" and "owns a s" and "\<not> expired sv s" and "assertTransferAllowed a sv = Inr ()"
    and "status s = Open_session" and "processing_error_code s \<noteq> None" and "length (receipts s) = chunk_count s"
  shows "fst (finalizePush env a rm True (Some (Push_applied x)) Written k sv) = Inr (Push_applied x) \<and>
    readSession env (snd (finalizePush env a rm True (Some (Push_applied x)) Written k sv)) k = None"
proof -
  let ?s = "s\<lparr>result := Some (Push_applied x), status := Completed, updated_at := clock sv\<rparr>"
  have f: "finalizePush env a rm True (Some (Push_applied x)) Written k sv = (Inr (Push_applied x), set_session k ?s sv)"
    using assms by (simp add: finalizePush_def with_session_def require_owned write_session_def writeSession_def)
  have "map_of (sessions (set_session k ?s sv)) k = Some ?s" "\<not> writable ?s"
    using assms(7) by (simp_all add: set_session_def update_conv' writable_def)
  then show ?thesis using unreadable [of "set_session k ?s sv" k ?s env] f by simp
qed

section \<open>Chunks that are put again\<close>

lemma find_unique: "x \<in> set xs \<Longrightarrow> P x \<Longrightarrow> (\<And>y. y \<in> set xs \<Longrightarrow> P y \<Longrightarrow> y = x) \<Longrightarrow> find P xs = Some x"
proof (induction xs)
  case (Cons y ys)
  show ?case
  proof (cases "P y")
    case True
    then have "y = x" using Cons.prems(3) by simp
    then show ?thesis using Cons.prems(2) by simp
  next
    case False
    then have "x \<in> set ys" using Cons.prems(1,2) by auto
    then have "find P ys = Some x" using Cons.IH Cons.prems(2,3) by (meson list.set_intros(2))
    then show ?thesis using False by simp
  qed
qed simp

text \<open>C18. Uploading is idempotent: when a chunk was accepted, putting the same chunk again at once is acknowledged as a repetition and changes nothing,
  whatever the disk would answer about storing it.\<close>

theorem put_again:
  assumes l: "limits_ok (limits env)" "digests_ok env" and run: "service_run env evs sv" and t: "in_time env sv"
    and put: "putChunk env a rm ok d k i data digest sv = (Inr x, sv')"
  shows "putChunk env a rm' True d' k i data digest sv' = (Inr True, sv')"
proof -
  note inv = service_run_inv [OF l(1) run]
  have allowed: "assertTransferAllowed a sv = Inr ()" using put by (auto simp: putChunk_def with_session_def split: sum.splits)
  then obtain s where k: "transfer_pattern k" and s: "readSession env sv k = Some s" "owns a s" "\<not> expired sv s"
    and p: "put_checked env d k i data digest s sv = (Inr x, sv')"
    using put by (auto simp: putChunk_def with_session_def requireSession_def owns_def split: option.splits if_splits)
  show ?thesis
  proof (cases "find (\<lambda>r. index r = nat i) (receipts s)")
    case (Some r)
    then have "sv' = sv" "put_checked env d' k i data digest s sv = (Inr True, sv)" using p by (auto simp: put_checked_def split: if_splits)
    then show ?thesis using allowed k s by (simp add: putChunk_def with_session_def require_owned)
  next
    case None
    let ?sv = "import_data k data sv" and ?r = "\<lparr>index = nat i, bytes = length data, receipt_sha256 = sha256Hex env data\<rparr>"
    have c: "status s = Open_session" "0 \<le> i" "\<bar>i\<bar> < 2 ^ 53" "i < int (chunk_count s)" "data \<noteq> []" "length data \<le> transferChunkBytes (limits env)" "sha256Hex env data = digest"
      "total_bytes s + length data \<le> maxTransferBytes (limits env)" and st: "store_chunk env d k (nat i) data s sv = (Inr x, sv')"
      using p None by (auto simp: put_checked_def split: if_splits)
    then obtain n where n: "n \<le> maxTransferBytes (limits env)" and w: "write_session (put_write d) k (add_receipt env ?sv ?r n s) False ?sv = (Inr x, sv')"
      by (auto simp: store_chunk_def Let_def not_less split: option.splits if_splits import_outcome.splits)
    let ?s = "add_receipt env ?sv ?r n s"
    have sv': "sv' = set_session k ?s ?sv" using w by (cases "put_write d") (auto simp: write_session_def writeSession_def)
    have si: "session_inv env ?sv k ?s"
      using session_inv_import [OF service_invD [OF inv readSession_Some [OF s(1)]]] t l(1) c None n
      by (intro session_inv_add) (auto simp: in_time_def import_data_def)
    then have "session_inv env sv' k ?s" by (simp add: sv' session_inv_def set_session_def)
    moreover have "writable s" using unreadable [OF readSession_Some [OF s(1)]] s(1) by fastforce
    then have "writable ?s" by (simp add: writable_def add_receipt_def)
    moreover have "map_of (sessions sv') k = Some ?s" by (simp add: sv' set_session_def update_conv')
    ultimately have rs: "readSession env sv' k = Some ?s" using readable_session [OF l] by blast
    have "clock sv' = clock sv" "transferUnavailable sv' = transferUnavailable sv" by (simp_all add: sv' set_session_def import_data_def)
    then have "assertTransferAllowed a sv' = Inr ()" "\<not> expired sv' ?s" "owns a ?s"
      using allowed s(2) l(1) by (simp_all add: assertTransferAllowed_def expired_def add_receipt_def new_expiry_def limits_ok_def import_data_def owns_def split: if_splits)
    moreover have "find (\<lambda>r. index r = nat i) (receipts ?s) = Some ?r"
      using None by (intro find_unique) (auto simp: add_receipt_def insert_receipt_facts find_None_iff)
    moreover have "status ?s = Open_session" "chunk_count ?s = chunk_count s" using c by (simp_all add: add_receipt_def)
    ultimately show ?thesis using k rs c
      by (simp add: putChunk_def with_session_def require_owned put_checked_def)
  qed
qed

section \<open>A sample push\<close>

definition upload_env :: service_env where
  "upload_env = \<lparr>limits = \<lparr>transferChunkBytes = 1048576, maxTransferBytes = 1048576, maxTransferChunks = 8, maxTransferStorageBytes = 2097152, transferTtlSeconds = 300\<rparr>,
     manifest_ids = (\<lambda>_. Some (''v'', ''d'', ''attempt1'')), sha256Hex = (\<lambda>_. replicate 64 (CHR ''0''))\<rparr>"

definition upload_auth :: auth where
  "upload_auth = \<lparr>auth_vault = ''v'', auth_device = ''d'', vault_deleting = False, integrity_blocked = False, git_unavailable = False\<rparr>"

definition upload_request :: create_request where
  "upload_request = \<lparr>rq_vault = ''v'', rq_device = ''d'', rq_attempt = ''attempt1'', rq_sha256 = replicate 64 (CHR ''0''), rq_plan = replicate 64 (CHR ''0''),
     rq_chunk_count = 1, rq_manifest = JNull\<rparr>"

definition upload_disk :: put_disk where
  "upload_disk = \<lparr>accounting = Some 10, scan_ok = True, storage_bytes = Some 10, fsync_ok = True, import_pack = Imported, bytes_after = Some 12,
     removal_ok = True, put_write = Written\<rparr>"

definition upload_scan :: scan_disk where
  "upload_scan = \<lparr>skipped = (\<lambda>_. False), scan_works = True\<rparr>"

definition upload_create :: create_disk where
  "upload_create = \<lparr>root_open = Root_opened, prune_scan = upload_scan, prunable = (\<lambda>_. True), prune_synced = True, list_scan = upload_scan, git_answers = True,
     covered = (\<lambda>_. False), prepared = Prepared 10, create_write = Written\<rparr>"

definition upload_chunk :: chunk_receipt where
  "upload_chunk = \<lparr>index = 0, bytes = 2, receipt_sha256 = replicate 64 (CHR ''0'')\<rparr>"

definition upload_open :: push_session where
  "upload_open = new_session upload_env new_service ''trn_a'' 10 upload_request"

definition upload_sv1 :: service where
  "upload_sv1 = set_session ''trn_a'' upload_open new_service"

definition upload_full :: push_session where
  "upload_full = upload_open\<lparr>stored_bytes := Some 12, receipts := [upload_chunk], total_bytes := 2\<rparr>"

definition upload_sv2 :: service where
  "upload_sv2 = set_session ''trn_a'' upload_full (import_data ''trn_a'' [1, 2] upload_sv1)"

definition upload_sv3 :: service where
  "upload_sv3 = set_session ''trn_a'' (upload_full\<lparr>status := Processing\<rparr>) upload_sv2"

lemmas upload_defs = upload_env_def upload_auth_def upload_request_def upload_disk_def upload_chunk_def

lemma upload_limits: "limits_ok (limits upload_env)" "digests_ok upload_env"
  by (simp_all add: upload_env_def limits_ok_def digests_ok_def SHA256_PATTERN_def list_all_iff is_hex_def)

lemma upload_key: "transfer_pattern ''trn_a''"
  by (simp add: transfer_pattern_def js_startsWith_def is_alnum_def)

lemma upload_request_ok: "request_ok upload_env upload_request"
  by (simp add: request_ok_def upload_env_def upload_request_def isBoundedIdentifier_def attempt_pattern_def SHA256_PATTERN_def list_all_iff is_hex_def is_alnum_def)

lemma upload_times: "in_time upload_env new_service" "in_time upload_env upload_sv1" "in_time upload_env upload_sv2" "in_time upload_env upload_sv3"
  by (simp_all add: in_time_def upload_env_def upload_sv1_def upload_sv2_def upload_sv3_def set_session_def import_data_def new_service_def)

lemma upload_created: "service_step upload_env new_service (Create upload_auth upload_request ''trn_a'' upload_create) = upload_sv1"
  by (simp add: createPush_def assertTransferAllowed_def upload_defs new_service_def pruneExpired_def scanSessions_def List.map_filter_def prepare_session_def
    upload_create_def upload_scan_def
    MAX_OPEN_TRANSFERS_PER_DEVICE_def upload_sv1_def upload_open_def write_session_def writeSession_def Let_def)

lemma service_run_step: "service_run env evs sv \<Longrightarrow> service_enabled env sv ev \<Longrightarrow> service_step env sv ev = sv' \<Longrightarrow> service_run env (evs @ [ev]) sv'"
  using run_step by metis

lemma upload_run1: "service_run upload_env [Create upload_auth upload_request ''trn_a'' upload_create] upload_sv1"
proof -
  have "service_enabled upload_env new_service (Create upload_auth upload_request ''trn_a'' upload_create)"
    using upload_times upload_key upload_request_ok by (simp add: service_enabled_def upload_env_def upload_create_def)
  from service_run_step [OF run_init this upload_created] show ?thesis by simp
qed

lemma upload_read1: "readSession upload_env upload_sv1 ''trn_a'' = Some upload_open"
proof -
  have m: "map_of (sessions upload_sv1) ''trn_a'' = Some upload_open" by (simp add: upload_sv1_def set_session_def new_service_def)
  have "writable upload_open" by (simp add: writable_def upload_open_def new_session_def)
  then show ?thesis using readable_session [OF upload_limits m service_invD [OF service_run_inv [OF upload_limits(1) upload_run1] m]] by blast
qed

lemma upload_require:
  assumes "readSession upload_env sv ''trn_a'' = Some s" and "owns upload_auth s" and "\<not> expired sv s" and "\<not> transferUnavailable sv"
  shows "with_session upload_env upload_auth ''trn_a'' rm True f sv = f s sv"
  using require_owned [OF upload_key assms(1-3)] assms(4) by (simp add: with_session_def assertTransferAllowed_def upload_auth_def)

lemma upload_facts:
  "owns upload_auth upload_open" "\<not> expired upload_sv1 upload_open" "\<not> transferUnavailable upload_sv1"
  "owns upload_auth upload_full" "\<not> expired upload_sv2 upload_full" "\<not> transferUnavailable upload_sv2"
  by (simp_all add: owns_def expired_def upload_full_def upload_open_def new_session_def new_expiry_def upload_defs upload_sv1_def upload_sv2_def
    set_session_def import_data_def new_service_def)

lemma upload_put: "putChunk upload_env upload_auth False True upload_disk ''trn_a'' 0 [1, 2] (replicate 64 (CHR ''0'')) upload_sv1 = (Inr False, upload_sv2)"
  unfolding putChunk_def upload_require [OF upload_read1 upload_facts(1-3)]
  by (simp add: put_checked_def store_chunk_def upload_defs Let_def upload_open_def new_session_def new_service_def import_data_def add_receipt_def insert_receipt_def
    js_sort_def new_expiry_def upload_sv2_def upload_full_def upload_sv1_def set_session_def write_session_def writeSession_def)

lemma upload_run2: "service_run upload_env [Create upload_auth upload_request ''trn_a'' upload_create,
    Put upload_auth False True upload_disk ''trn_a'' 0 [1, 2] (replicate 64 (CHR ''0''))] upload_sv2"
proof -
  have "service_enabled upload_env upload_sv1 (Put upload_auth False True upload_disk ''trn_a'' 0 [1, 2] (replicate 64 (CHR ''0'')))"
    using upload_times by (simp add: service_enabled_def)
  from service_run_step [OF upload_run1 this, of upload_sv2] show ?thesis by (simp add: upload_put)
qed

lemma upload_read2: "readSession upload_env upload_sv2 ''trn_a'' = Some upload_full"
proof -
  have m: "map_of (sessions upload_sv2) ''trn_a'' = Some upload_full" by (simp add: upload_sv2_def set_session_def update_conv')
  have "writable upload_full" by (simp add: writable_def upload_full_def upload_open_def new_session_def)
  then show ?thesis using readable_session [OF upload_limits m service_invD [OF service_run_inv [OF upload_limits(1) upload_run2] m]] by blast
qed

lemma upload_begun: "service_step upload_env upload_sv2 (Begin_finalize upload_auth False True Written ''trn_a'') = upload_sv3"
proof -
  have s: "status upload_full = Open_session" "length (receipts upload_full) = chunk_count upload_full"
    "to_processing upload_env upload_sv2 upload_full = upload_full\<lparr>status := Processing\<rparr>"
    by (simp_all add: upload_full_def upload_open_def new_session_def upload_request_def to_processing_def new_expiry_def upload_env_def upload_sv2_def upload_sv1_def
      set_session_def import_data_def new_service_def)
  show ?thesis unfolding service_step.simps beginFinalizePush_def upload_require [OF upload_read2 upload_facts(4-6)]
    by (simp add: s write_session_def writeSession_def upload_sv3_def)
qed

lemma upload_run3: "service_run upload_env [Create upload_auth upload_request ''trn_a'' upload_create,
    Put upload_auth False True upload_disk ''trn_a'' 0 [1, 2] (replicate 64 (CHR ''0'')), Begin_finalize upload_auth False True Written ''trn_a''] upload_sv3"
proof -
  have "service_enabled upload_env upload_sv2 (Begin_finalize upload_auth False True Written ''trn_a'')"
    using upload_times by (simp add: service_enabled_def)
  from service_run_step [OF upload_run2 this upload_begun] show ?thesis by simp
qed

lemma upload_record3: "map_of (sessions upload_sv3) ''trn_a'' = Some (upload_full\<lparr>status := Processing\<rparr>)"
  by (simp add: upload_sv3_def set_session_def update_conv')

lemma upload_inv3: "session_inv upload_env upload_sv3 ''trn_a'' (upload_full\<lparr>status := Processing\<rparr>)"
  using service_invD [OF service_run_inv [OF upload_limits(1) upload_run3] upload_record3] .

lemma upload_read3: "readSession upload_env upload_sv3 ''trn_a'' = Some (upload_full\<lparr>status := Processing\<rparr>)"
  using readable_session [OF upload_limits upload_record3 upload_inv3] by (simp add: writable_def upload_full_def upload_open_def new_session_def)

theorem push_complete_witness:
  "map index (receipts (upload_full\<lparr>status := Processing\<rparr>)) = [0..<chunk_count (upload_full\<lparr>status := Processing\<rparr>)]"
  using push_complete [OF upload_limits(1) upload_run3 upload_record3] by simp

theorem push_readable_witness: "readSession upload_env upload_sv3 ''trn_a'' = Some (upload_full\<lparr>status := Processing\<rparr>)"
  using push_readable [OF upload_limits upload_run3 upload_record3] by (simp add: upload_full_def upload_open_def new_session_def)

theorem put_again_witness:
  "putChunk upload_env upload_auth False True upload_disk ''trn_a'' 0 [1, 2] (replicate 64 (CHR ''0'')) upload_sv2 = (Inr True, upload_sv2)"
  by (rule put_again [OF upload_limits upload_run1 upload_times(2) upload_put])

theorem retries_lose_session_witness:
  "readSession upload_env (((\<lambda>sv. service_step upload_env sv (Attempt upload_auth False True Written Written (Attempt_failed Server_git_error) ''trn_a'')) ^^ 65) upload_sv3) ''trn_a'' = None"
proof -
  have s: "owns upload_auth (upload_full\<lparr>status := Processing\<rparr>)" "processing_attempts (upload_full\<lparr>status := Processing\<rparr>) = Some 0"
    using upload_facts(4) by (simp_all add: owns_def upload_full_def upload_open_def new_session_def)
  show ?thesis using retries_lose_session [OF upload_limits upload_run3 upload_times(4) upload_key upload_read3 s(1) _ s(2) _ refl] by simp
qed

text \<open>The sample push, opened again after a rejection for a Git error.\<close>

definition upload_again :: push_session where
  "upload_again = upload_full\<lparr>processing_error_code := Some Server_git_error, retry_at := Some 0\<rparr>"

lemma upload_read_again: "readSession upload_env (set_session ''trn_a'' upload_again upload_sv3) ''trn_a'' = Some upload_again"
proof -
  have e: "(upload_full\<lparr>status := Processing\<rparr>)\<lparr>status := Open_session, result := None, processing_attempts := Some 0, processing_error_code := Some Server_git_error,
      retry_at := Some (clock upload_sv3), updated_at := clock upload_sv3\<rparr> = upload_again"
    by (simp add: upload_again_def upload_full_def upload_open_def new_session_def upload_sv3_def upload_sv2_def upload_sv1_def set_session_def import_data_def new_service_def)
  let ?sv = "set_session ''trn_a'' upload_again upload_sv3"
  have m: "map_of (sessions ?sv) ''trn_a'' = Some upload_again" by (simp add: set_session_def update_conv')
  have "session_inv upload_env ?sv ''trn_a'' upload_again"
    using session_inv_reopened [OF upload_inv3 upload_times(4)] unfolding e by (simp add: session_inv_def set_session_def)
  then show ?thesis using readable_session [OF upload_limits m]
    by (simp add: writable_def upload_again_def upload_full_def upload_open_def new_session_def)
qed

theorem finalize_loses_session_witness:
  "readSession upload_env (snd (finalizePush upload_env upload_auth False True (Some (Push_applied \<lparr>kind = Noop, device_ref = ''r'', main_commit = replicate 40 (CHR ''0''),
     event_seq = 1, directory_ack = None\<rparr>)) Written ''trn_a'' (set_session ''trn_a'' upload_again upload_sv3))) ''trn_a'' = None"
proof -
  let ?sv = "set_session ''trn_a'' upload_again upload_sv3"
  have s: "owns upload_auth upload_again" "\<not> expired ?sv upload_again" "assertTransferAllowed upload_auth ?sv = Inr ()" "status upload_again = Open_session"
    "processing_error_code upload_again \<noteq> None" "length (receipts upload_again) = chunk_count upload_again"
    by (simp_all add: owns_def expired_def assertTransferAllowed_def upload_again_def upload_full_def upload_open_def new_session_def new_expiry_def upload_defs
      upload_sv1_def upload_sv2_def upload_sv3_def set_session_def import_data_def new_service_def)
  show ?thesis using finalize_loses_session [OF upload_key upload_read_again s] by blast
qed

end
