(* ===== verification/Spec2Isabelle.thy ===== *)
theory Spec2Isabelle
  imports SyncPlanning ReadinessSampler PathMutationGate WorkPool PackRecovery GitObjectCache BlobSizeReader DeviceStatusReporter VaultPaths PluginVersion
    DecisionUnits PathLocks ReadOverlay DashboardEvents LiveUpdates TimestampMerge DurableFile PullTransfer PushSessions
begin

text \<open>
  Verification of obts, a system that keeps Obsidian vaults in sync through Git: an Obsidian plugin (\<^verbatim>\<open>obsidian-plugin/src\<close>), a
  server (\<^verbatim>\<open>src/server\<close>), code shared by both (\<^verbatim>\<open>src/shared\<close>), a headless client (\<^verbatim>\<open>src/client\<close>) and a web dashboard
  (\<^verbatim>\<open>frontend/dashboard/src\<close>). All paths below are relative to the repository.

  \<^bold>\<open>How the parts interact.\<close> The plugin keeps a Git repository inside the vault. It reaches the disk through a promise file system
  over the host's \<open>DataAdapter\<close> (\<open>AdapterFs\<close>, \<open>PathLocks\<close>, \<open>ReadOverlay\<close>), whose mutations an exclusion gate orders
  (\<open>PathMutationGate\<close>). Git objects are read through caches (\<open>GitObjectCache\<close>, \<open>BlobSizeReader\<close>) and the many small packs that
  fetches leave are consolidated in the background (\<open>PackFormat\<close> to \<open>PackRecovery\<close>), with memory bounded by \<open>WorkPool\<close>. The plugin
  reports the status of its device (\<open>DeviceStatusReporter\<close>), fetches new commits from the server in chunks (\<open>Multipart\<close>, \<open>PullTransfer\<close>),
  uploads its own in chunks (\<open>PushSessions\<close>) and plans what a pull writes and removes (\<open>SyncPlanning\<close>). Which paths may be synced, and which names are portable, is
  shared by plugin and server (\<open>VaultPaths\<close>), and so is the plugin version the server accepts (\<open>PluginVersion\<close>). The server
  merges notes that differ only in timestamps (\<open>TimestampMerge\<close>) and pushes invalidations to dashboards: each commit of the
  metadata store is compared with the state before (\<open>DashboardImpact\<close>) and the hub tells the streams of the owners concerned
  (\<open>DashboardEvents\<close>), next to the health that a sampler of readiness keeps (\<open>ReadinessSampler\<close>). The browser keeps one stream open (\<open>LiveUpdates\<close>), merges refresh triggers (\<open>RefreshScheduler\<close>), and lets the
  reviewer settle conflicts (\<open>ConflictDiff\<close>, \<open>DecisionUnits\<close>).

  \<^bold>\<open>How code becomes definitions.\<close> Pure functions are HOL functions of the same name. An object with mutable fields is a record;
  each method or callback is a function from the record to the record. Asynchronous code is cut at its \<open>await\<close>s: the pieces
  between two awaits are the steps of an inductive relation or of a run over a list of events, so a theorem about reachable
  states covers every interleaving. \<open>throw\<close> and a rejected promise are the left of a sum, and a call of the file system may
  fail, tear a write or be the last before a crash. Loops are recursive with a measure, and where a loop is bounded by its data only
  through an invariant the bound is proved. What is not in the repository (SHA-1, zlib, the matcher of \<open>ignore\<close>, the YAML
  parser, the line diff, Unicode tables, clocks and random numbers) is an argument of the definitions, with what the code relies on
  as a hypothesis that its witness instantiates. Strings are lists of 8-bit code units, so results that depend on
  characters beyond Latin-1 are stated for an arbitrary normalisation and case folding.

  \<^bold>\<open>Theories, sources and what is shown.\<close>

  \<^item> \<open>Prelude\<close>, \<open>Json\<close>, \<open>Utf8\<close>: JavaScript's strings, sorting, maps, buffers, JSON values and UTF-8, with the lemmas the components share.
  \<^item> \<open>CrashLogic\<close>, \<open>Disk\<close>: sequencing of failing operations with a trace of disk states, a logic of triples with a crash
    condition, and the file system with torn writes.
  \<^item> \<open>PathMutationGate\<close> (\<^verbatim>\<open>path-mutation-gate.cjs\<close>): claims on normalised paths, granted first come first served. Mutual exclusion
    of conflicting claims, fairness, no deadlock, retirement only when idle, and restoration of the adapter's own methods.
  \<^item> \<open>WorkPool\<close> (\<^verbatim>\<open>work-pool.cjs\<close>): the byte budget never overruns, and somebody waits only while the first waiter does not fit; a pool run ends with all results or
    the first error.
  \<^item> \<open>PackFormat\<close>, \<open>PackRebuild\<close> (\<^verbatim>\<open>git-pack-consolidation.cjs\<close>, lines 1 to 206): reading, verifying and building packs. The
    index round trip, errors on arbitrary bytes, the table-driven CRC against the bitwise one, and that a consolidated pack
    verifies and keeps every object.
  \<^item> \<open>PackConsolidator\<close>, \<open>PackCrash\<close>, \<open>PackRecovery\<close> (the same file, from line 207): selection, journal, publishing, recovery. At every disk state
    that a failing or crashing run goes through no object is lost; recovery fails only with the file system and does what the journal asks for.
  \<^item> \<open>GitObjectCache\<close> (\<^verbatim>\<open>git-object-cache.cjs\<close>), \<open>BlobSizeReader\<close> (\<^verbatim>\<open>blob-size-reader.cjs\<close>): bounded memory, no stale read across a
    pack change, and the ranged binary search against a linear one.
  \<^item> \<open>DeviceStatusReporter\<close> (\<^verbatim>\<open>device-status-reporter.cjs\<close>): pacing and delivery of status reports.
  \<^item> \<open>PathLocks\<close>, \<open>NodeAdapter\<close>, \<open>AdapterFs\<close>, \<open>AdapterSafety\<close>, \<open>ReadOverlay\<close> (\<^verbatim>\<open>data-adapter-fs.cjs\<close>,
    \<^verbatim>\<open>src/client/nodeDataAdapter.ts\<close>): per-path order, the operations of the file system, the replacing rename and its recovery
    under failures and crashes, and the bounded overlay of files in memory.
  \<^item> \<open>VaultPaths\<close> (\<^verbatim>\<open>pathPolicy.ts\<close>, \<^verbatim>\<open>namePortability.cjs\<close>, \<^verbatim>\<open>rootIgnore.cjs\<close>): canonical paths, unportable names, and the ignore file.
  \<^item> \<open>SyncPlanning\<close> (the planning functions of \<^verbatim>\<open>main.cjs\<close>): the plugin syncs what the server accepts; removals are planned children
    first; the path index agrees with a scan; directory intents are compacted to the last that touches a path.
  \<^item> \<open>PluginVersion\<close> (\<^verbatim>\<open>pluginCompatibility.ts\<close>): acceptance of plugin versions; the comparison is not antisymmetric on
    numeric identifiers with leading zeros.
  \<^item> \<open>Timestamps\<close>, \<open>TimestampMerge\<close> (\<^verbatim>\<open>frontmatterTimestampMerge.ts\<close>): timestamps are ordered as they are written, and a
    merge is the common text with the later value of each field.
  \<^item> \<open>DashboardImpact\<close>, \<open>DashboardEvents\<close> (\<^verbatim>\<open>dashboardEvents.ts\<close>): exactly the vaults whose change concerns an account are marked; limits
    of the hub, and nothing is published without a fresh authorisation.
  \<^item> \<open>ReadinessSampler\<close> (\<^verbatim>\<open>readinessSampler.ts\<close>): one readiness check at a time, and health shown as ready only on a recent, successful one.
  \<^item> \<open>Multipart\<close>, \<open>PullTransfer\<close> (\<open>sendMultipart\<close>, \<open>createPullObjectChunk\<close> and the route \<open>pull-chunk\<close> of \<^verbatim>\<open>app.ts\<close>, \<open>parseMultipart\<close> of
    \<^verbatim>\<open>core/transport.ts\<close>, \<open>parseMultipartPull\<close> and \<open>pull\<close> of \<^verbatim>\<open>main.cjs\<close>): the plugin reads what the server sends; a pull that is
    interrupted anywhere and resumed has imported every object once it is complete, and it completes.
  \<^item> \<open>PushSessions\<close> (\<^verbatim>\<open>chunkTransferService.ts\<close>): the server's sessions for uploads in chunks, with failing writes, retries, draining and restarts.
    What is processed is complete; every record that is written can be read again but for two cases in which the session is lost; a chunk
    that is put again changes nothing.
  \<^item> \<open>DurableFile\<close> (\<^verbatim>\<open>durableFile.ts\<close>): the server's files are replaced atomically, whichever call fails or is the last.
  \<^item> \<open>LiveUpdates\<close>, \<open>RefreshScheduler\<close>, \<open>ConflictDiff\<close>, \<open>DecisionUnits\<close> (\<^verbatim>\<open>liveUpdates.ts\<close>, \<^verbatim>\<open>refreshScheduler.ts\<close>,
    \<^verbatim>\<open>conflictDiff.ts\<close>, \<^verbatim>\<open>conflictDecisions.ts\<close>): the browser's connection, its refreshes, and the resolution of conflicts.
  \<^item> This theory: what holds of hub, impact and browser together.

  \<^bold>\<open>Interfaces.\<close> What components share is stated once as a locale and interpreted on their definitions: \<open>ordered_sort\<close> (the comparison
  a sort is given is a linear order: paths, offsets, pack sizes, spans of a note, lengths of removals, receipts of chunks), \<open>invariant_system\<close> and \<open>event_machine\<close> (an
  invariant that holds at the start and is kept by each step or event holds in every reachable state: locks, refreshes, status reports,
  readiness, pulls and pushes), \<open>claim_queue\<close> (the order in which the gate may grant claims) and \<open>commit_feed\<close> (what the hub needs to know of the
  impact of a commit, provided by \<open>computeDashboardImpact\<close> below).

  \<^bold>\<open>Bounds.\<close> Fuel bounds the retries of a read, the delta depth and the folder depth, which the code itself bounds (the folder depth by the number of nodes where it gives no limit), the eviction loop of the overlay (the number of its entries) and the
  search for a root in the union-find of the decisions (the size of the forest); the last two are proved never to run out. Integers are unbounded where the code's
  values are exact doubles or \<open>BigInt\<close>; CRC-32 and bytes are words.

  \<^bold>\<open>Not modelled.\<close> The plugin class and the sync client (the rest of \<^verbatim>\<open>main.cjs\<close>, and \<^verbatim>\<open>core/\<close>), which orchestrate isomorphic-git, HTTP and the user
  interface; the server's routes, Git and sync services, the erasure of what removed devices and vaults leave, accounts and the metadata store, which act through the git executable, SQLite and
  the network; the views of the dashboard; the Rust bridge; build scripts; and \<^verbatim>\<open>obsidian-plugin/main.js\<close>, which is generated.
\<close>

section \<open>Dashboards: commits, event hub, browser\<close>

text \<open>Commits of the metadata store as the hub sees them: the comparison of two states among \<open>D\<close>, or a comparison that throws.\<close>

definition commits_of :: "(metadata \<times> metadata) set \<Rightarrow> hub_event \<Rightarrow> bool" where
  "commits_of D ev \<longleftrightarrow> (\<forall>compared. ev = Commit compared \<longrightarrow>
     compared = (\<lambda>_. None) \<or> (\<exists>p c. (p, c) \<in> D \<and> compared = (\<lambda>w. Some (computeDashboardImpact p c w))))"

interpretation impacts: commit_feed "commits_of D" "{(u, v). \<exists>p c. (p, c) \<in> D \<and> concerns p c u v}" for D
proof
  fix compared w im assume "commits_of D (Commit compared)" "compared w = Some im"
  then obtain p c where "(p, c) \<in> D" "im = computeDashboardImpact p c w" by (fastforce simp: commits_of_def)
  then show "marked_vaults im \<subseteq> {(u, v). \<exists>p c. (p, c) \<in> D \<and> concerns p c u v}" using impact_marked by fast
qed

text \<open>C10. From the commits to the wire: every vault id that is ever sent to a dashboard is one whose change, in some commit since the
  server started, concerns the account of the stream. No account learns the id of a vault of another.\<close>

theorem dashboard_isolation:
  assumes "hub_reachable opts url_host (commits_of D) h" and "j < length (streams h)"
    and "Invalidate a ids \<in> set (es_frames (streams h ! j))" and "v \<in> set ids"
  shows "\<exists>p c. (p, c) \<in> D \<and> concerns p c (es_user (streams h ! j)) v"
  using impacts.isolated [OF assms(1,2)] assms(3,4) by blast

definition sample_metadata :: "rat \<Rightarrow> metadata" where
  "sample_metadata n = \<lparr>users = [], sessions = [], vaults = [JObj [(''vault_id'', JStr ''v''), (''owner_user_id'', JStr ''u'')]], devices = [],
     conflicts_rows = [], diagnostic_events = [], event_seq_by_vault = [(''v'', JNum n)], directory_state_by_vault = [], deletion_jobs = [],
     deletion_receipts = [], device_removal_jobs = []\<rparr>"

lemma sample_impact:
  "computeDashboardImpact (sample_metadata 1) (sample_metadata 2) w =
    \<lparr>im_owners = [(''u'', \<lparr>oi_account = False, oi_vaults = [''v'']\<rparr>)], im_sessions = [], im_users = []\<rparr>"
proof -
  have "compareSessions w (sample_metadata 1) (sample_metadata 2) im = im" for im
    unfolding compareSessions_def Let_def by (rule fold_unchanged) (simp add: sessionState_def sample_metadata_def)
  then show ?thesis
    by (simp add: computeDashboardImpact_def Let_def) (simp add: sample_metadata_def map_rows_def compareVaults_def compare_vault_def compareRows_def compareByVault_def
      compareDeletions_def deletion_records_def compareDiagnostics_def summarize_def compareUsers_def markOwned_def ownerOf_def markVault_def owner_entry_def field_def set_add_def Let_def)
qed

definition sample_delivery :: hub where
  "sample_delivery = hub_step DEFAULTS Some (Answer 0 (Some ''u'') True) (hub_step DEFAULTS Some (Flush_timer 0)
     (hub_step DEFAULTS Some (Commit (\<lambda>w. Some (computeDashboardImpact (sample_metadata 1) (sample_metadata 2) w)))
       (hub_step DEFAULTS Some (Admit None None None ''u'' ''s'' True) create_hub)))"

theorem dashboard_isolation_witness:
  "es_frames (streams sample_delivery ! 0) = [Refresh, Invalidate False [''v'']] \<and>
   (\<exists>p c. (p, c) \<in> {(sample_metadata 1, sample_metadata 2)} \<and> concerns p c ''u'' ''v'')"
proof -
  have r: "hub_reachable DEFAULTS Some (commits_of {(sample_metadata 1, sample_metadata 2)}) sample_delivery"
    unfolding sample_delivery_def by (intro hub_next hub_start) (auto simp: commits_of_def)
  have f: "length (streams sample_delivery) = 1" "es_user (streams sample_delivery ! 0) = ''u''"
    "es_frames (streams sample_delivery ! 0) = [Refresh, Invalidate False [''v'']]"
    unfolding sample_delivery_def sample_impact
    by (simp_all add: DEFAULTS_def create_hub_def admit_def attach_def assertSameOrigin_def assertCapacity_def write_stream_def put_frame_def onCommit_def
      notify_stream_def upd_def mark_def schedule_def DashboardEvents.pending_def set_add_def flush_timer_def flush_start_def await_auth_def
      answered_def flush_finish_def authorized_def Let_def)
  show ?thesis using dashboard_isolation [OF r, of 0 False "[''v'']" "''v''"] f by simp
qed

text \<open>The data of an \<open>invalidate\<close> frame.\<close>

definition frame_json :: "bool \<Rightarrow> string list \<Rightarrow> json" where
  "frame_json account ids = JObj [(''account'', JBool account), (''vault_ids'', JArr (map JStr ids))]"

text \<open>C24. From the hub to the screen: when the hub writes an invalidation to a stream on which the account or the vault \<open>v\<close> was pending, the
  browser that has \<open>v\<close> selected and receives it on its open connection asks for a refresh, of everything when the account was
  pending. The hypothesis on \<open>json_parse\<close> is that \<open>JSON.parse\<close> inverts \<open>JSON.stringify\<close> on the data of the frame.\<close>

theorem invalidation_delivered:
  assumes "hub_reachable opts url_host A h" and "j < length (streams h)"
    and "es_frames (streams (hub_step opts url_host ev h) ! j) = es_frames (streams h ! j) @ [Invalidate a ids]"
    and "es_account (streams h ! j) \<or> v \<in> set (es_vaults (streams h ! j))" and "v \<noteq> []"
    and "live_reachable lopts json_parse s" and "lv_source s = Some i"
    and "json_parse (stringify (frame_json a ids)) = Some (frame_json a ids)"
  shows "\<exists>sc. lv_requests (live_step lopts json_parse (Invalidate_frame i (Some (stringify (frame_json a ids))) v) s) = (sc, From_event) # lv_requests s \<and>
    (es_account (streams h ! j) \<longrightarrow> sc = Full)"
proof -
  have "a = es_account (streams h ! j)" "\<not> a \<longrightarrow> set ids = set (es_vaults (streams h ! j))"
    using hub_publishes [OF assms(1,2), of ev] assms(3) by auto
  moreover have "parseInvalidation json_parse (Some (stringify (frame_json a ids))) = Some (a, ids)"
    using assms(8) by (simp add: parseInvalidation_def frame_json_def)
  ultimately show ?thesis using live_frame_effect [OF assms(6), of i "Some (stringify (frame_json a ids))" v] assms(4,5,7) by auto
qed

theorem invalidation_delivered_witness:
  "\<exists>sc. lv_requests (live_step sample_options (\<lambda>_. Some (frame_json False [''v''])) (Invalidate_frame 1 (Some ''data'') ''v'')
      (live_step sample_options (\<lambda>_. Some (frame_json False [''v''])) (Start False True) new_live)) = [(sc, From_event)]"
proof -
  let ?jp = "\<lambda>_ :: string. Some (frame_json False [''v''])" and ?text = "\<lambda>_ :: json. ''data''"
  let ?s = "live_step sample_options ?jp (Start False True) new_live"
  define h where "h = hub_step DEFAULTS Some (Flush_timer 0) sample_hub"
  have rh: "hub_reachable DEFAULTS Some (\<lambda>_. True) h" unfolding h_def by (rule hub_next [OF sample_hub_reachable]) simp
  have rs: "live_reachable sample_options ?jp ?s" by (intro live_next live_start) simp
  have h: "length (streams h) = 1" "streams h ! 0 = \<lparr>es_user = ''u'', es_session = ''s'', es_closed = False, es_blocked = False, es_flushing = True,
      es_busy = False, es_account = False, es_vaults = [''v''], es_flushTimer = False, es_heartbeatTimer = True, es_stallTimer = False, es_gone = False, es_frames = [Refresh]\<rparr>"
    "waiting h = [(For_flush, 0)]"
    unfolding h_def by (fact sample_hub_flush)+
  have "es_frames (streams (hub_step DEFAULTS Some (Answer 0 (Some ''u'') True) h) ! 0) = es_frames (streams h ! 0) @ [Invalidate False [''v'']]"
    using h by (simp add: answered_def flush_finish_def authorized_def write_stream_def put_frame_def upd_def DashboardEvents.pending_def Let_def)
  from invalidation_delivered [OF rh _ this _ _ rs, of "''v''" 1 ?text] h show ?thesis
    by (simp add: sample_options_def new_live_def start_live_def live_ops)
qed

end
